(* ===== verification/Prelude.thy ===== *)
theory Prelude
  imports Main "HOL-Library.Word" "HOL-Library.Monad_Syntax"
begin

text \<open>
  What every component shares: the machine types of the C code, byte buffers, the
  option monad that stands for "the execution is defined", list lemmas and the
  collections the component theories extend.

  A C execution that reads or writes outside an object, dereferences a pointer to no
  object, fails an assertion or never returns has the value \<open>None\<close>; \<open>Some\<close> is an
  execution that returns. A theorem of the form "the operation is \<open>Some r\<close>" is
  therefore a memory-safety and termination statement as well as a functional one.
\<close>

unbundle bit_operations_syntax

section \<open>Machine types\<close>

type_synonym byte = "8 word"
type_synonym u16 = "16 word"
type_synonym u32 = "32 word"
type_synonym u64 = "64 word"

text \<open>Pointers into the shared segment are offsets from its base; 0 is the null pointer.\<close>

type_synonym addr = nat

text \<open>
  A \<open>const char *\<close> argument: its address (only its alignment is ever looked at) and the
  bytes that may be read through it. A \<open>size_t\<close> is a \<open>nat\<close> below \<open>2 ^ 64\<close>; where the
  code adds sizes the wrap-around is written out with \<open>size_add\<close>.
\<close>

datatype buf = Buf (buf_addr: nat) (buf_bytes: "byte list")

definition buf_get :: "buf \<Rightarrow> nat \<Rightarrow> byte" where
  "buf_get b i = (if i < length (buf_bytes b) then buf_bytes b ! i else 0)"

definition size_add :: "nat \<Rightarrow> nat \<Rightarrow> nat" where
  "size_add m n = (m + n) mod 2 ^ 64"

lemma size_add_small [simp]: "m + n < 2 ^ 64 \<Longrightarrow> size_add m n = m + n"
  by (simp add: size_add_def)

lemma size_add_less: "size_add m n < 2 ^ 64"
  by (simp add: size_add_def)

section \<open>Defined executions\<close>

definition guard :: "bool \<Rightarrow> unit option" where
  "guard b = (if b then Some () else None)"

definition read_at :: "'a list \<Rightarrow> nat \<Rightarrow> 'a option" where
  "read_at xs i = (if i < length xs then Some (xs ! i) else None)"

definition write_at :: "'a list \<Rightarrow> nat \<Rightarrow> 'a \<Rightarrow> 'a list option" where
  "write_at xs i x = (if i < length xs then Some (xs[i := x]) else None)"

lemma guard_simps [simp]: "guard True = Some ()" "guard False = None"
  by (simp_all add: guard_def)

lemma guard_eq_Some [simp]: "guard b = Some u \<longleftrightarrow> b"
  by (simp add: guard_def)

lemma read_at_in [simp]: "i < length xs \<Longrightarrow> read_at xs i = Some (xs ! i)"
  by (simp add: read_at_def)

lemma read_at_out [simp]: "length xs \<le> i \<Longrightarrow> read_at xs i = None"
  by (simp add: read_at_def)

lemma read_at_eq_Some: "read_at xs i = Some x \<longleftrightarrow> i < length xs \<and> x = xs ! i"
  by (auto simp: read_at_def)

lemma write_at_in [simp]: "i < length xs \<Longrightarrow> write_at xs i x = Some (xs[i := x])"
  by (simp add: write_at_def)

lemma write_at_eq_Some: "write_at xs i x = Some ys \<longleftrightarrow> i < length xs \<and> ys = xs[i := x]"
  by (auto simp: write_at_def)

section \<open>Byte copies\<close>

text \<open>
  \<open>memcpy (dst + off, src, n)\<close> with \<open>dst\<close> an object of known bytes: undefined when the
  source has fewer than \<open>n\<close> bytes or the destination ends before \<open>off + n\<close>.
\<close>

definition blit :: "'a list \<Rightarrow> nat \<Rightarrow> 'a list \<Rightarrow> 'a list" where
  "blit dst off src = take off dst @ src @ drop (off + length src) dst"

definition memcpy :: "'a list \<Rightarrow> nat \<Rightarrow> 'a list \<Rightarrow> nat \<Rightarrow> 'a list option" where
  "memcpy dst off src n =
     (if n \<le> length src \<and> off + n \<le> length dst then Some (blit dst off (take n src)) else None)"

definition mem_load :: "'a list \<Rightarrow> nat \<Rightarrow> nat \<Rightarrow> 'a list option" where
  "mem_load src off n = (if off + n \<le> length src then Some (take n (drop off src)) else None)"

lemma memcpy_in [simp]:
  "n \<le> length src \<Longrightarrow> off + n \<le> length dst \<Longrightarrow> memcpy dst off src n = Some (blit dst off (take n src))"
  by (simp add: memcpy_def)

lemma memcpy_eq_Some:
  "memcpy dst off src n = Some r \<longleftrightarrow>
     n \<le> length src \<and> off + n \<le> length dst \<and> r = blit dst off (take n src)"
  by (auto simp: memcpy_def)

lemma mem_load_in [simp]:
  "off + n \<le> length src \<Longrightarrow> mem_load src off n = Some (take n (drop off src))"
  by (simp add: mem_load_def)

lemma mem_load_eq_Some:
  "mem_load src off n = Some r \<longleftrightarrow> off + n \<le> length src \<and> r = take n (drop off src)"
  by (auto simp: mem_load_def)

lemma length_blit [simp]:
  "off + length src \<le> length dst \<Longrightarrow> length (blit dst off src) = length dst"
  by (simp add: blit_def)

lemma blit_read_same:
  "off \<le> length dst \<Longrightarrow> take (length src) (drop off (blit dst off src)) = src"
  by (simp add: blit_def)

lemma blit_read_before:
  "p + n \<le> off \<Longrightarrow> off \<le> length dst \<Longrightarrow> take n (drop p (blit dst off src)) = take n (drop p dst)"
  by (simp add: blit_def take_drop add.commute)

lemma blit_read_after:
  "off + length src \<le> p \<Longrightarrow> off \<le> length dst \<Longrightarrow> drop p (blit dst off src) = drop p dst"
  by (simp add: blit_def add.commute)

section \<open>Lists\<close>

lemma distinct_remove1_append:
  "distinct (xs @ a # ys) \<Longrightarrow> remove1 a (xs @ a # ys) = xs @ ys"
  by (simp add: remove1_append)

lemma in_set_splitE:
  assumes "a \<in> set xs"
  obtains ys zs where "xs = ys @ a # zs"
  using assms by (meson split_list)

lemma find_SomeD: "find P xs = Some x \<Longrightarrow> x \<in> set xs \<and> P x"
  by (auto simp: find_Some_iff)

lemma take_add_drop: "take (m + n) xs = take m xs @ take n (drop m xs)"
  by (simp add: take_add)

section \<open>Collections of rules the components extend\<close>

text \<open>
  \<open>state_simps\<close>: projections of the state after the elementary writes;
  \<open>frame_simps\<close>: what an operation leaves alone; \<open>defined_intros\<close>: an execution is
  defined under the invariant.
\<close>

named_theorems state_simps
named_theorems frame_simps
named_theorems defined_intros

end
