(* ===== verification/Shmc_Types.thy ===== *)
theory Shmc_Types
  imports Prelude
begin

text \<open>
  The data of \<open>shmc.h\<close> and \<open>shmc.c\<close>: result codes, attributes, items, slabs and the state a
  \<open>shmc_t\<close> handle gives access to. Pointers are kept in the form they have in the shared
  segment, offsets from its base (\<open>A2R\<close>); the absolute pointers of the code are these
  offsets plus \<open>base\<close> (\<open>R2A\<close>), see theory \<open>Segment\<close>.
\<close>

section \<open>Result codes\<close>

datatype shmc_rc = SHMC_OK | SHMC_NOTFOUND | SHMC_EXIST | SHMC_ESIZE | SHMC_ESPACE
  | SHMC_NOMEMORY | SHMC_ETOKEN | SHMC_ECREATE | SHMC_EVERSION | SHMC_SYSTEM

text \<open>\<open>shmc_error\<close>; \<open>errno_text\<close> is the text \<open>strerror(errno)\<close> gives.\<close>

fun shmc_error :: "string \<Rightarrow> shmc_rc \<Rightarrow> string" where
  "shmc_error errno_text SHMC_OK = ''success''"
| "shmc_error errno_text SHMC_NOTFOUND = ''key not found''"
| "shmc_error errno_text SHMC_EXIST = ''key already exit''"
| "shmc_error errno_text SHMC_ESIZE = ''too large object''"
| "shmc_error errno_text SHMC_ESPACE = ''user provided space error''"
| "shmc_error errno_text SHMC_NOMEMORY = ''out of memory''"
| "shmc_error errno_text SHMC_ETOKEN = ''token not exist''"
| "shmc_error errno_text SHMC_ECREATE = ''shmc already created''"
| "shmc_error errno_text SHMC_EVERSION = ''shmc version conflict''"
| "shmc_error errno_text SHMC_SYSTEM = errno_text"

section \<open>Attributes\<close>

text \<open>
  A finite non-negative \<open>float\<close>: \<open>F32 m e\<close> is \<open>m / 2 ^ e\<close>. Every float of at least 1.5
  has this form with \<open>m\<close> a 24-bit significand times a power of two.
\<close>

datatype f32 = F32 (f32_num: nat) (f32_scale: nat)

record attr =
  mem_limit :: nat
  nbuckets :: nat
  mode :: nat
  item_size_min :: nat
  item_size_max :: nat
  item_size_factor :: f32
  evict_to_free :: bool
  default_counter :: bool
  use_flock :: bool
  mem_used :: nat
  slabs_count :: nat
  max_depth :: nat
  nitems :: nat

text \<open>\<open>SHMC_ATTR_INITIALIZER\<close>.\<close>

definition SHMC_ATTR_INITIALIZER :: attr where
  "SHMC_ATTR_INITIALIZER =
     \<lparr>mem_limit = 64 * 1024 * 1024, nbuckets = 65536, mode = 0x1A4,
      item_size_min = 64, item_size_max = 1024 * 1024, item_size_factor = F32 2 0,
      evict_to_free = True, default_counter = True, use_flock = False,
      mem_used = 0, slabs_count = 0, max_depth = 0, nitems = 0\<rparr>"

section \<open>Items and slabs\<close>

text \<open>
  \<open>struct shmc_item_s\<close> with the bytes of its flexible array \<open>end[]\<close>, which run to the end
  of the chunk. \<open>it_key\<close> and \<open>it_val\<close> are pointers into \<open>end[]\<close>, kept as offsets from it.
\<close>

record item =
  it_next :: addr
  it_prev :: addr
  it_hnext :: addr
  it_clsid :: nat
  it_flags :: u32
  it_key :: nat
  it_nkey :: nat
  it_val :: nat
  it_nval :: nat
  it_end :: "byte list"

text \<open>\<open>sizeof\<close> on the LP64 ABI the library is built for.\<close>

definition sizeof_item :: nat where "sizeof_item = 64"

lemmas sizeof_item_simp [simp] = sizeof_item_def

record slab =
  free_item :: addr
  slab_size :: nat
  slab_count :: nat

section \<open>The state behind a handle\<close>

text \<open>
  \<open>raw\<close> is the offset of the raw memory; \<open>heap\<close> maps the offset of each formatted chunk
  to its contents. The locks are in theory \<open>Locks\<close>, the file behind the handle in
  \<open>Segment\<close>.
\<close>

record shmc =
  base :: nat
  attrs :: attr
  heads :: "addr list"
  tails :: "addr list"
  buckets :: "addr list"
  slabs :: "slab list"
  raw :: addr
  heap :: "addr \<Rightarrow> item option"

section \<open>Reading and writing item fields\<close>

text \<open>Each access is defined only on a formatted chunk.\<close>

definition get_item :: "shmc \<Rightarrow> addr \<Rightarrow> item option" where
  "get_item s a = heap s a"

definition upd_item :: "shmc \<Rightarrow> addr \<Rightarrow> (item \<Rightarrow> item) \<Rightarrow> shmc" where
  "upd_item s a f = s\<lparr>heap := (heap s)(a := map_option f (heap s a))\<rparr>"

definition put_item :: "shmc \<Rightarrow> addr \<Rightarrow> (item \<Rightarrow> item) \<Rightarrow> shmc option" where
  "put_item s a f = (if heap s a = None then None else Some (upd_item s a f))"

abbreviation upd_attr :: "shmc \<Rightarrow> (attr \<Rightarrow> attr) \<Rightarrow> shmc" where
  "upd_attr s f \<equiv> s\<lparr>attrs := f (attrs s)\<rparr>"

definition put_head :: "shmc \<Rightarrow> nat \<Rightarrow> addr \<Rightarrow> shmc option" where
  "put_head s c a = map_option (\<lambda>xs. s\<lparr>heads := xs\<rparr>) (write_at (heads s) c a)"

definition put_tail :: "shmc \<Rightarrow> nat \<Rightarrow> addr \<Rightarrow> shmc option" where
  "put_tail s c a = map_option (\<lambda>xs. s\<lparr>tails := xs\<rparr>) (write_at (tails s) c a)"

definition put_bucket :: "shmc \<Rightarrow> nat \<Rightarrow> addr \<Rightarrow> shmc option" where
  "put_bucket s b a = map_option (\<lambda>xs. s\<lparr>buckets := xs\<rparr>) (write_at (buckets s) b a)"

definition put_free :: "shmc \<Rightarrow> nat \<Rightarrow> addr \<Rightarrow> shmc option" where
  "put_free s c a = do {
     sl \<leftarrow> read_at (slabs s) c;
     Some (s\<lparr>slabs := (slabs s)[c := sl\<lparr>free_item := a\<rparr>]\<rparr>)
   }"

text \<open>The links of an item (0 outside the heap) and its data, everything but the links.\<close>

definition nxt :: "shmc \<Rightarrow> addr \<Rightarrow> addr" where
  "nxt s a = (case heap s a of None \<Rightarrow> 0 | Some it \<Rightarrow> it_next it)"

definition prv :: "shmc \<Rightarrow> addr \<Rightarrow> addr" where
  "prv s a = (case heap s a of None \<Rightarrow> 0 | Some it \<Rightarrow> it_prev it)"

definition hnx :: "shmc \<Rightarrow> addr \<Rightarrow> addr" where
  "hnx s a = (case heap s a of None \<Rightarrow> 0 | Some it \<Rightarrow> it_hnext it)"

definition dat :: "shmc \<Rightarrow> addr \<Rightarrow> item option" where
  "dat s a = map_option (\<lambda>it. it\<lparr>it_next := 0, it_prev := 0, it_hnext := 0\<rparr>) (heap s a)"

end
