(* ===== verification/Chains.thy ===== *)
theory Chains
  imports Shmc_Types
begin

text \<open>
  Null-terminated lists in the segment. \<open>chain f x xs\<close>: following the link \<open>f\<close> from \<open>x\<close>
  visits exactly \<open>xs\<close> and ends at null. A doubly linked list is a chain of \<open>next\<close> links
  from its head and a chain of \<open>prev\<close> links from its tail, in reverse. The lemmas are the
  list surgery of the code: push in front, append behind, remove.
\<close>

fun seg :: "(addr \<Rightarrow> addr) \<Rightarrow> addr \<Rightarrow> addr list \<Rightarrow> addr \<Rightarrow> bool" where
  "seg f x [] y \<longleftrightarrow> x = y"
| "seg f x (a # as) y \<longleftrightarrow> x = a \<and> a \<noteq> 0 \<and> seg f (f a) as y"

definition chain :: "(addr \<Rightarrow> addr) \<Rightarrow> addr \<Rightarrow> addr list \<Rightarrow> bool" where
  "chain f x xs \<longleftrightarrow> seg f x xs 0"

definition dll :: "(addr \<Rightarrow> addr) \<Rightarrow> (addr \<Rightarrow> addr) \<Rightarrow> addr \<Rightarrow> addr \<Rightarrow> addr list \<Rightarrow> bool" where
  "dll nx pv h t xs \<longleftrightarrow> chain nx h xs \<and> chain pv t (rev xs)"

section \<open>Segments and chains\<close>

lemma seg_append [simp]: "seg f x (as @ bs) z \<longleftrightarrow> (\<exists>y. seg f x as y \<and> seg f y bs z)"
  by (induction as arbitrary: x) auto

lemma seg_upd [simp]: "a \<notin> set as \<Longrightarrow> seg (f(a := v)) x as y = seg f x as y"
  by (induction as arbitrary: x) auto

lemma seg_cong: "(\<And>a. a \<in> set as \<Longrightarrow> f a = g a) \<Longrightarrow> seg f x as y = seg g x as y"
  by (induction as arbitrary: x) auto

lemma chain_simps [simp]:
  "chain f x [] \<longleftrightarrow> x = 0"
  "chain f x (a # as) \<longleftrightarrow> x = a \<and> a \<noteq> 0 \<and> chain f (f a) as"
  by (simp_all add: chain_def)

lemma chain_append: "chain f x (as @ bs) \<longleftrightarrow> (\<exists>y. seg f x as y \<and> chain f y bs)"
  by (simp add: chain_def)

lemma chain_upd [simp]: "a \<notin> set as \<Longrightarrow> chain (f(a := v)) x as = chain f x as"
  by (simp add: chain_def)

lemma chain_cong: "(\<And>a. a \<in> set as \<Longrightarrow> f a = g a) \<Longrightarrow> chain f x as = chain g x as"
  unfolding chain_def by (rule seg_cong)

lemma chain_null [simp]: "chain f 0 as \<longleftrightarrow> as = []"
  by (cases as) auto

lemma chain_nonnull: "chain f x as \<Longrightarrow> x \<noteq> 0 \<Longrightarrow> \<exists>bs. as = x # bs \<and> chain f (f x) bs"
  by (cases as) auto

lemma chain_nz: "chain f x as \<Longrightarrow> 0 \<notin> set as"
  by (induction as arbitrary: x) auto

lemma chain_unique: "chain f x as \<Longrightarrow> chain f x bs \<Longrightarrow> as = bs"
proof (induction as arbitrary: x bs)
  case Nil
  then show ?case by (cases bs) auto
next
  case (Cons a as)
  then show ?case by (cases bs) auto
qed

lemma chain_distinct: "chain f x as \<Longrightarrow> distinct as"
proof (induction as arbitrary: x)
  case (Cons a as)
  have "a \<notin> set as"
  proof
    assume "a \<in> set as"
    then obtain us vs where as: "as = us @ a # vs" by (elim in_set_splitE)
    from Cons.prems have here: "chain f (f a) as" by simp
    then have "chain f (f a) vs" unfolding as by (auto simp: chain_append)
    with here have "as = vs" by (rule chain_unique)
    with as show False by simp
  qed
  with Cons show ?case by auto
qed simp

lemma chain_head: "chain f x as \<Longrightarrow> x = (case as of [] \<Rightarrow> 0 | a # _ \<Rightarrow> a)"
  by (cases as) auto

lemma chain_push:
  "chain f x as \<Longrightarrow> a \<notin> set as \<Longrightarrow> a \<noteq> 0 \<Longrightarrow> chain (f(a := x)) a (a # as)"
  by simp

text \<open>The element behind \<open>p\<close> is unlinked by giving \<open>p\<close> its link.\<close>

lemma chain_remove_mid:
  assumes "chain f x (us @ p # a # vs)"
  shows "chain (f(p := f a)) x (us @ p # vs)"
proof -
  have "distinct (us @ p # a # vs)" using assms by (rule chain_distinct)
  with assms show ?thesis by (auto simp: chain_append)
qed

lemma chain_remove_first: "chain f x (a # vs) \<Longrightarrow> chain f (f x) vs"
  by simp

section \<open>Doubly linked lists\<close>

lemma dll_Nil [simp]: "dll nx pv h t [] \<longleftrightarrow> h = 0 \<and> t = 0"
  by (auto simp: dll_def)

lemma dll_distinct: "dll nx pv h t xs \<Longrightarrow> distinct xs"
  by (auto simp: dll_def dest: chain_distinct)

lemma dll_nz: "dll nx pv h t xs \<Longrightarrow> 0 \<notin> set xs"
  by (auto simp: dll_def dest: chain_nz)

lemma dll_head: "dll nx pv h t xs \<Longrightarrow> h = (case xs of [] \<Rightarrow> 0 | a # _ \<Rightarrow> a)"
  unfolding dll_def by (blast dest: chain_head)

lemma dll_tail: "dll nx pv h t xs \<Longrightarrow> t = (if xs = [] then 0 else last xs)"
  unfolding dll_def by (cases xs rule: rev_cases) auto

lemma dll_cong:
  assumes "\<And>a. a \<in> set xs \<Longrightarrow> nx a = nx' a" and "\<And>a. a \<in> set xs \<Longrightarrow> pv a = pv' a"
  shows "dll nx pv h t xs = dll nx' pv' h t xs"
  using assms chain_cong [of xs nx nx'] chain_cong [of "rev xs" pv pv'] by (simp add: dll_def)

text \<open>
  \<open>item_link\<close>: the new item \<open>a\<close> becomes the head; the old head, if any, points back to it;
  the tail is set when the list was empty.
\<close>

lemma dll_push:
  assumes l: "dll nx pv h t xs" and a: "a \<notin> set xs" "a \<noteq> 0"
  shows "dll (nx(a := h)) (if h = 0 then pv(a := 0) else pv(a := 0, h := a)) a
           (if t = 0 then a else t) (a # xs)"
proof (cases xs)
  case Nil
  with l a show ?thesis by (simp add: dll_def)
next
  case (Cons x ys)
  with l have h: "h = x" "x \<noteq> 0" and fwd: "chain nx h xs" and bwd: "chain pv t (rev ys @ [x])"
    by (auto simp: dll_def)
  have "distinct (a # x # ys)" using a Cons dll_distinct [OF l] by simp
  moreover have "t \<noteq> 0" using bwd by (auto simp: chain_append) (cases "rev ys"; simp)
  ultimately show ?thesis
    using Cons a h fwd bwd by (auto simp: dll_def chain_append)
qed

text \<open>
  \<open>item_unlink\<close> of an item \<open>a\<close> between \<open>us\<close> and \<open>vs\<close>.
\<close>

lemma dll_links:
  assumes "dll nx pv h t (us @ a # vs)"
  shows "nx a = (case vs of [] \<Rightarrow> 0 | b # _ \<Rightarrow> b)" "pv a = (if us = [] then 0 else last us)"
    "h = a \<longleftrightarrow> us = []" "t = a \<longleftrightarrow> vs = []"
proof -
  have d: "distinct (us @ a # vs)" and nz: "0 \<notin> set (us @ a # vs)"
    using dll_distinct [OF assms] dll_nz [OF assms] by auto
  have f: "chain nx h (us @ a # vs)" and b: "chain pv t (rev vs @ a # rev us)"
    using assms by (auto simp: dll_def)
  show "nx a = (case vs of [] \<Rightarrow> 0 | b # _ \<Rightarrow> b)"
    using f by (auto simp: chain_append dest: chain_head)
  have "chain pv (pv a) (rev us)" using b by (auto simp: chain_append)
  then show "pv a = (if us = [] then 0 else last us)"
    by (cases us rule: rev_cases) auto
  show "h = a \<longleftrightarrow> us = []" using chain_head [OF f] d by (cases us) auto
  show "t = a \<longleftrightarrow> vs = []" using chain_head [OF b] d by (cases vs rule: rev_cases) auto
qed

lemma dll_remove:
  assumes l: "dll nx pv h t (us @ a # vs)"
  shows "dll (if pv a = 0 then nx else nx(pv a := nx a)) (if nx a = 0 then pv else pv(nx a := pv a))
           (if h = a then nx a else h) (if t = a then pv a else t) (us @ vs)"
proof -
  have d: "distinct (us @ a # vs)" and nz: "0 \<notin> set (us @ a # vs)"
    using dll_distinct [OF l] dll_nz [OF l] by auto
  have f: "chain nx h (us @ a # vs)" and b: "chain pv t (rev vs @ a # rev us)"
    using l by (auto simp: dll_def)
  note links = dll_links [OF l]
  have fwd: "chain (if pv a = 0 then nx else nx(pv a := nx a)) (if h = a then nx a else h) (us @ vs)"
  proof (cases us rule: rev_cases)
    case Nil
    then show ?thesis using f links by simp
  next
    case (snoc us' p)
    then show ?thesis using chain_remove_mid [of nx h us' p a vs] f links nz by auto
  qed
  have bwd: "chain (if nx a = 0 then pv else pv(nx a := pv a)) (if t = a then pv a else t) (rev vs @ rev us)"
  proof (cases vs)
    case Nil
    then show ?thesis using b links by simp
  next
    case (Cons n vs')
    then show ?thesis using chain_remove_mid [of pv t "rev vs'" n a "rev us"] b links nz by auto
  qed
  from fwd bwd show ?thesis by (simp add: dll_def)
qed

end
