(* ===== verification/Slabs.thy ===== *)
theory Slabs
  imports Shmc_Types
begin

text \<open>
  The size classes of the slab allocator: \<open>align_size\<close>, \<open>count_of_slabs\<close>, \<open>format_slabs\<close>,
  \<open>item_size_ok\<close> and \<open>item_clsid\<close> of \<open>shmc.c\<close>, with the single-precision arithmetic of
  \<open>sz *= item_size_factor\<close>.
\<close>

section \<open>The code\<close>

definition align_size :: "nat \<Rightarrow> nat" where
  "align_size sz = (if sz mod 8 \<noteq> 0 then sz + 8 - sz mod 8 else sz)"

text \<open>
  Conversion of an integer to \<open>float\<close>: the nearest value with a 24-bit significand, ties
  to even. The rounding of \<open>m / 2 ^ e\<close> is \<open>f32_round m / 2 ^ e\<close>.
\<close>

fun bit_len :: "nat \<Rightarrow> nat" where
  "bit_len n = (if n = 0 then 0 else Suc (bit_len (n div 2)))"

declare bit_len.simps [simp del]

definition f32_round :: "nat \<Rightarrow> nat" where
  "f32_round n =
     (let s = bit_len n - 24; q = n div 2 ^ s; r = n mod 2 ^ s in
      if s = 0 then n
      else if 2 * r > 2 ^ s \<or> (2 * r = 2 ^ s \<and> odd q) then (q + 1) * 2 ^ s
      else q * 2 ^ s)"

text \<open>
  \<open>size *= factor\<close>: \<open>sz\<close> is converted to \<open>float\<close>, multiplied, rounded, and truncated back
  to \<open>size_t\<close>; a value out of the range of \<open>size_t\<close> is undefined behaviour.
\<close>

definition scale_size :: "f32 \<Rightarrow> nat \<Rightarrow> nat option" where
  "scale_size f sz =
     (let r = f32_round (f32_round sz * f32_num f) div 2 ^ f32_scale f in
      if r < 2 ^ 64 then Some r else None)"

text \<open>\<open>count_of_slabs\<close>; the loop need not end for every factor, so it is partial.\<close>

partial_function (option) count_slabs_loop :: "attr \<Rightarrow> nat \<Rightarrow> nat \<Rightarrow> nat option" where
  "count_slabs_loop a sz count =
     (if sz < item_size_max a then do {
        sz' \<leftarrow> scale_size (item_size_factor a) (align_size sz);
        count_slabs_loop a sz' (Suc count)
      } else Some count)"

definition count_of_slabs :: "attr \<Rightarrow> nat option" where
  "count_of_slabs a = count_slabs_loop a (size_add sizeof_item (item_size_min a)) 0"

text \<open>
  Formatting a run of \<open>n\<close> chunks at \<open>p\<close> onto the free list of class \<open>cid\<close>: the same loop in
  \<open>format_slabs\<close> and in \<open>item_alloc\<close>. Memory that was never formatted is zero (the file is
  extended by \<open>ftruncate\<close>), and only \<open>next\<close> is written.
\<close>

definition blank_item :: "nat \<Rightarrow> item" where
  "blank_item sz = \<lparr>it_next = 0, it_prev = 0, it_hnext = 0, it_clsid = 0, it_flags = 0,
     it_key = 0, it_nkey = 0, it_val = 0, it_nval = 0, it_end = replicate (sz - sizeof_item) 0\<rparr>"

definition new_chunk :: "shmc \<Rightarrow> addr \<Rightarrow> nat \<Rightarrow> addr \<Rightarrow> shmc" where
  "new_chunk s p sz n =
     s\<lparr>heap := (heap s)(p \<mapsto>
        (case heap s p of None \<Rightarrow> blank_item sz | Some it \<Rightarrow> it)\<lparr>it_next := n\<rparr>)\<rparr>"

fun carve :: "nat \<Rightarrow> addr \<Rightarrow> nat \<Rightarrow> shmc \<Rightarrow> shmc option" where
  "carve 0 p cid s = Some s"
| "carve (Suc n) p cid s = do {
     sl \<leftarrow> read_at (slabs s) cid;
     s \<leftarrow> put_free (new_chunk s p (slab_size sl) (free_item sl)) cid p;
     carve n (p + slab_size sl) cid s
   }"

fun format_slabs_loop :: "nat \<Rightarrow> nat \<Rightarrow> nat \<Rightarrow> shmc \<Rightarrow> shmc option" where
  "format_slabs_loop 0 cid sz s = Some s"
| "format_slabs_loop (Suc n) cid sz s = do {
     let sz = align_size sz;
     let count = item_size_max (attrs s) div sz;
     let p = raw s + mem_used (attrs s);
     sls \<leftarrow> write_at (slabs s) cid \<lparr>free_item = 0, slab_size = sz, slab_count = count\<rparr>;
     let s = s\<lparr>slabs := sls\<rparr>;
     let s = upd_attr s (\<lambda>a. a\<lparr>mem_used := size_add (mem_used a) (sz * count)\<rparr>);
     guard (mem_used (attrs s) < mem_limit (attrs s));
     s \<leftarrow> carve count p cid s;
     sz' \<leftarrow> scale_size (item_size_factor (attrs s)) sz;
     format_slabs_loop n (Suc cid) sz' s
   }"

definition format_slabs :: "shmc \<Rightarrow> nat \<Rightarrow> shmc option" where
  "format_slabs s n = format_slabs_loop n 0 (size_add sizeof_item (item_size_min (attrs s))) s"

text \<open>\<open>sizeof(shmc_item_t) + nkey + nval\<close> in \<open>size_t\<close>.\<close>

definition item_total :: "nat \<Rightarrow> nat \<Rightarrow> nat" where
  "item_total nkey nval = size_add (size_add sizeof_item nkey) nval"

definition item_size_ok :: "shmc \<Rightarrow> nat \<Rightarrow> nat \<Rightarrow> bool" where
  "item_size_ok s nkey nval \<longleftrightarrow> item_total nkey nval < item_size_max (attrs s)"

text \<open>
  \<open>while (size > shmc->slabs[id].size) id++\<close>: undefined when no class is large enough,
  since the loop then reads past the array of slabs.
\<close>

function clsid_loop :: "slab list \<Rightarrow> nat \<Rightarrow> nat \<Rightarrow> nat option" where
  "clsid_loop sls sz cid =
     (if cid < length sls then
        (if sz > slab_size (sls ! cid) then clsid_loop sls sz (Suc cid) else Some cid)
      else None)"
  by pat_completeness auto
termination by (relation "measure (\<lambda>(sls, sz, cid). length sls - cid)") auto

declare clsid_loop.simps [simp del]

definition item_clsid :: "shmc \<Rightarrow> nat \<Rightarrow> nat \<Rightarrow> nat option" where
  "item_clsid s nkey nval = clsid_loop (slabs s) (item_total nkey nval) 0"

section \<open>Alignment\<close>

lemma align_size_ge: "sz \<le> align_size sz"
proof -
  have "sz mod 8 < 8" by simp
  then show ?thesis unfolding align_size_def by (simp split: if_split) linarith
qed

lemma align_size_less: "align_size sz < sz + 8"
  by (simp add: align_size_def)

lemma align_size_dvd: "8 dvd align_size sz"
  unfolding align_size_def by presburger

lemma align_size_least:
  assumes "8 dvd m" and "sz \<le> m"
  shows "align_size sz \<le> m"
proof -
  obtain k where "m = 8 * k" using assms(1) by blast
  moreover obtain j where "align_size sz = 8 * j" using align_size_dvd by blast
  ultimately show ?thesis using assms(2) align_size_less [of sz] by presburger
qed

section \<open>Single-precision rounding\<close>

lemma bit_len_pow: "0 < n \<Longrightarrow> 2 ^ (bit_len n - 1) \<le> n"
proof (induction n rule: bit_len.induct)
  case (1 n)
  show ?case
  proof (cases "n div 2 = 0")
    case True
    with "1.prems" show ?thesis by (simp add: bit_len.simps [of n] bit_len.simps [of 0])
  next
    case False
    with "1" have IH: "2 ^ (bit_len (n div 2) - 1) \<le> n div 2" by simp
    have pos: "0 < bit_len (n div 2)" using False by (subst bit_len.simps) simp
    have "bit_len n - 1 = Suc (bit_len (n div 2) - 1)"
      using pos "1.prems" by (subst bit_len.simps) simp
    then have "(2::nat) ^ (bit_len n - 1) = 2 * 2 ^ (bit_len (n div 2) - 1)" by simp
    also have "\<dots> \<le> 2 * (n div 2)" using IH by simp
    also have "\<dots> \<le> n" by simp
    finally show ?thesis .
  qed
qed

text \<open>The rounding error is at most one part in \<open>2 ^ 23\<close>.\<close>

lemma f32_round_error:
  "2 ^ 23 * n \<le> 2 ^ 23 * f32_round n + n" "2 ^ 23 * f32_round n \<le> 2 ^ 23 * n + n"
proof -
  define s where "s = bit_len n - 24"
  define q where "q = n div 2 ^ s"
  have n: "n = q * 2 ^ s + n mod 2 ^ s" by (simp add: q_def mult.commute)
  have m: "n mod 2 ^ s < 2 ^ s" by simp
  have cases: "f32_round n = n \<or> (0 < s \<and> (f32_round n = (q + 1) * 2 ^ s \<or> f32_round n = q * 2 ^ s))"
    by (auto simp: f32_round_def s_def q_def Let_def)
  have bound: "2 ^ 23 * 2 ^ s \<le> n" if "0 < s"
  proof -
    have "0 < bit_len n" using that by (simp add: s_def)
    then have "0 < n" by (cases n) (simp_all add: bit_len.simps [of 0])
    moreover have "bit_len n - 1 = 23 + s" using that by (simp add: s_def)
    ultimately show ?thesis using bit_len_pow [of n] by (simp add: power_add)
  qed
  have "f32_round n = n \<or> (2 ^ 23 * 2 ^ s \<le> n \<and> f32_round n \<le> n + 2 ^ s \<and> n < f32_round n + 2 ^ s)"
  proof (cases "f32_round n = n")
    case False
    with cases have c: "0 < s" "f32_round n = q * 2 ^ s + 2 ^ s \<or> f32_round n = q * 2 ^ s" by auto
    have "q * 2 ^ s \<le> n \<and> n < q * 2 ^ s + 2 ^ s" using n m by linarith
    then show ?thesis using c(2) bound [OF c(1)] by linarith
  qed simp
  note near = this
  show "2 ^ 23 * n \<le> 2 ^ 23 * f32_round n + n" using near by (elim disjE conjE) simp_all
  show "2 ^ 23 * f32_round n \<le> 2 ^ 23 * n + n" using near by (elim disjE conjE) simp_all
qed

lemma bit_len_le: "n < 2 ^ k \<Longrightarrow> bit_len n \<le> k"
proof (induction k arbitrary: n)
  case 0
  then show ?case by (simp add: bit_len.simps)
next
  case (Suc k)
  then have "bit_len (n div 2) \<le> k" by simp
  then show ?case by (subst bit_len.simps) simp
qed

lemma f32_round_small: "n < 2 ^ 24 \<Longrightarrow> f32_round n = n"
  using bit_len_le [of n 24] by (simp add: f32_round_def)

text \<open>With a whole factor and small sizes the multiplication is exact.\<close>

lemma scale_size_exact:
  "sz < 2 ^ 24 \<Longrightarrow> sz * m < 2 ^ 24 \<Longrightarrow> scale_size (F32 m 0) sz = Some (sz * m)"
  by (simp add: scale_size_def f32_round_small)
section \<open>The sequence of sizes\<close>

text \<open>
  What \<open>shmc_init\<close> makes sure of (factor at least 1.5) and what it relies on: the sizes stay
  far from the end of \<open>size_t\<close>.
\<close>

definition factor_ok :: "attr \<Rightarrow> bool" where
  "factor_ok a \<longleftrightarrow> 3 * 2 ^ f32_scale (item_size_factor a) \<le> 2 * f32_num (item_size_factor a)
     \<and> 2 * (item_size_max a + 8) * f32_num (item_size_factor a) < 2 ^ 64 * 2 ^ f32_scale (item_size_factor a)
     \<and> sizeof_item + item_size_min a < 2 ^ 64"

lemma scale_size_grows:
  assumes f: "3 * 2 ^ f32_scale f \<le> 2 * f32_num f" and sz: "3 \<le> sz"
    and r: "scale_size f sz = Some r"
  shows "sz < r"
proof -
  define E where "E = (2::nat) ^ f32_scale f"
  define m where "m = f32_num f"
  define r1 where "r1 = f32_round sz"
  define r2 where "r2 = f32_round (r1 * m)"
  have E: "0 < E" by (simp add: E_def)
  have e1: "(2 ^ 23 - 1) * sz \<le> 2 ^ 23 * r1"
    using f32_round_error(1) [of sz] unfolding r1_def by simp
  have e2: "(2 ^ 23 - 1) * (r1 * m) \<le> 2 ^ 23 * r2"
    using f32_round_error(1) [of "r1 * m"] unfolding r2_def by (simp add: mult.commute [of r1 m])
  have "(2 ^ 23 - 1) * ((2 ^ 23 - 1) * sz) * (3 * E) \<le> (2 ^ 23 - 1) * (2 ^ 23 * r1) * (2 * m)"
    by (rule mult_le_mono [OF mult_le_mono2 [OF e1]]) (use f in \<open>simp add: E_def m_def\<close>)
  also have "\<dots> = 2 * 2 ^ 23 * ((2 ^ 23 - 1) * (r1 * m))"
    by (simp add: algebra_simps)
  also have "\<dots> \<le> 2 * 2 ^ 23 * (2 ^ 23 * r2)"
    by (intro mult_le_mono2 e2)
  finally have big: "(2 ^ 23 - 1) * ((2 ^ 23 - 1) * sz) * (3 * E) \<le> 2 * 2 ^ 23 * (2 ^ 23 * r2)" .
  have k: "2 ^ 47 * (sz + 1) \<le> (2 ^ 23 - 1) * ((2 ^ 23 - 1) * sz) * (3 :: nat)"
    using sz by simp
  have "2 ^ 47 * ((sz + 1) * E) = 2 ^ 47 * (sz + 1) * E" by (simp only: mult.assoc)
  also have "\<dots> \<le> (2 ^ 23 - 1) * ((2 ^ 23 - 1) * sz) * 3 * E" by (rule mult_le_mono1 [OF k])
  also have "\<dots> = (2 ^ 23 - 1) * ((2 ^ 23 - 1) * sz) * (3 * E)" by (simp only: mult.assoc)
  also note big
  also have "2 * 2 ^ 23 * (2 ^ 23 * r2) = 2 ^ 47 * r2" by simp
  finally have "(sz + 1) * E \<le> r2" by (simp only: mult_le_cancel1) simp
  then have "sz + 1 \<le> r2 div E" using E by (simp add: less_eq_div_iff_mult_less_eq)
  then show ?thesis
    using r by (simp add: scale_size_def Let_def r2_def r1_def m_def E_def split: if_splits)
qed

lemma scale_size_defined:
  assumes "2 * (M + 8) * f32_num f < 2 ^ 64 * 2 ^ f32_scale f" and "sz \<le> M + 8"
  shows "\<exists>r. scale_size f sz = Some r"
proof -
  define E where "E = (2::nat) ^ f32_scale f"
  define m where "m = f32_num f"
  define r1 where "r1 = f32_round sz"
  define r2 where "r2 = f32_round (r1 * m)"
  have e1: "2 ^ 23 * r1 \<le> (2 ^ 23 + 1) * sz"
    using f32_round_error(2) [of sz] unfolding r1_def by simp
  have e2: "2 ^ 23 * r2 \<le> (2 ^ 23 + 1) * (r1 * m)"
    using f32_round_error(2) [of "r1 * m"] unfolding r2_def by (simp add: mult.commute [of r1 m])
  have "2 ^ 23 * (2 ^ 23 * r2) \<le> 2 ^ 23 * ((2 ^ 23 + 1) * (r1 * m))"
    by (intro mult_le_mono2 e2)
  also have "\<dots> = (2 ^ 23 + 1) * ((2 ^ 23 * r1) * m)" by (simp add: algebra_simps)
  also have "\<dots> \<le> (2 ^ 23 + 1) * (((2 ^ 23 + 1) * sz) * m)"
    by (intro mult_le_mono2 mult_le_mono1 e1)
  also have "\<dots> \<le> 2 ^ 23 * (2 ^ 23 * (2 * (sz * m)))" by simp
  finally have "r2 \<le> 2 * (sz * m)" by (simp add: mult.commute [of m sz])
  also have "\<dots> \<le> 2 * (M + 8) * m" using assms(2) by (simp add: mult_le_mono1 mult.assoc)
  also have "\<dots> < 2 ^ 64 * E" using assms(1) by (simp add: E_def m_def)
  finally have "r2 div E < 2 ^ 64" by (simp add: E_def less_mult_imp_div_less)
  then show ?thesis by (simp add: scale_size_def Let_def r2_def r1_def m_def E_def)
qed

lemma count_slabs_loop_total:
  assumes "factor_ok a" and "3 \<le> sz"
  shows "\<exists>n \<ge> c. count_slabs_loop a sz c = Some n"
  using assms(2)
proof (induction "item_size_max a - sz" arbitrary: sz c rule: less_induct)
  case less
  show ?case
  proof (cases "sz < item_size_max a")
    case True
    let ?f = "item_size_factor a"
    have "align_size sz \<le> item_size_max a + 8" using True align_size_less [of sz] by linarith
    then obtain r where r: "scale_size ?f (align_size sz) = Some r"
      using assms(1) scale_size_defined [of "item_size_max a" ?f "align_size sz"]
      unfolding factor_ok_def by blast
    moreover have "3 \<le> align_size sz" using less.prems align_size_ge [of sz] by linarith
    ultimately have "align_size sz < r"
      using assms(1) scale_size_grows [of ?f "align_size sz" r] r unfolding factor_ok_def by blast
    then have sr: "sz < r" using align_size_ge [of sz] by linarith
    then have "item_size_max a - r < item_size_max a - sz" using True by linarith
    then obtain n where "n \<ge> Suc c" "count_slabs_loop a r (Suc c) = Some n"
      using less.hyps [of r "Suc c"] less.prems sr by auto
    then show ?thesis
      using True r by (auto simp: count_slabs_loop.simps [of a sz c] intro: Suc_leD)
  next
    case False
    then show ?thesis by (simp add: count_slabs_loop.simps [of a sz c])
  qed
qed

lemma count_of_slabs_total: "factor_ok a \<Longrightarrow> \<exists>n. count_of_slabs a = Some n"
  using count_slabs_loop_total [of a "size_add sizeof_item (item_size_min a)" 0]
  by (auto simp: count_of_slabs_def factor_ok_def)

section \<open>The class of an item\<close>

lemma all_from_Suc:
  "i < (n :: nat) \<Longrightarrow> (\<forall>j. i \<le> j \<and> j < n \<longrightarrow> P j) \<longleftrightarrow> P i \<and> (\<forall>j. Suc i \<le> j \<and> j < n \<longrightarrow> P j)"
  by (metis Suc_leD Suc_leI le_neq_implies_less le_refl)

lemma clsid_loop_eq_None:
  "clsid_loop sls t i = None \<longleftrightarrow> (\<forall>j. i \<le> j \<and> j < length sls \<longrightarrow> slab_size (sls ! j) < t)"
proof (induction sls t i rule: clsid_loop.induct)
  case (1 sls t i)
  consider (go) "i < length sls" "slab_size (sls ! i) < t"
    | (stop) "i < length sls" "t \<le> slab_size (sls ! i)" | (out) "length sls \<le> i"
    by linarith
  then show ?case
  proof cases
    case go
    then have "clsid_loop sls t i = clsid_loop sls t (Suc i)" by (simp add: clsid_loop.simps [of sls t i])
    then show ?thesis
      using go "1.IH" [OF go] all_from_Suc [OF go(1), of "\<lambda>j. slab_size (sls ! j) < t"] by simp
  next
    case stop
    then show ?thesis by (auto simp: clsid_loop.simps [of sls t i] not_less)
  next
    case out
    then show ?thesis by (simp add: clsid_loop.simps [of sls t i])
  qed
qed

lemma clsid_loop_SomeD:
  "clsid_loop sls t i = Some c \<Longrightarrow>
     i \<le> c \<and> c < length sls \<and> t \<le> slab_size (sls ! c) \<and> (\<forall>j. i \<le> j \<and> j < c \<longrightarrow> slab_size (sls ! j) < t)"
proof (induction sls t i rule: clsid_loop.induct)
  case (1 sls t i)
  show ?case
  proof (cases "i < length sls \<and> slab_size (sls ! i) < t")
    case True
    then have "clsid_loop sls t (Suc i) = Some c"
      using "1.prems" by (simp add: clsid_loop.simps [of sls t i])
    then have "Suc i \<le> c \<and> c < length sls \<and> t \<le> slab_size (sls ! c) \<and>
        (\<forall>j. Suc i \<le> j \<and> j < c \<longrightarrow> slab_size (sls ! j) < t)"
      using "1.IH" True by blast
    then show ?thesis
      using True all_from_Suc [of i c "\<lambda>j. slab_size (sls ! j) < t"] by auto
  next
    case False
    then show ?thesis
      using "1.prems" by (auto simp: clsid_loop.simps [of sls t i] split: if_splits)
  qed
qed

lemma clsid_loop_eq_Some:
  "clsid_loop sls t 0 = Some c \<longleftrightarrow>
     c < length sls \<and> t \<le> slab_size (sls ! c) \<and> (\<forall>j < c. slab_size (sls ! j) < t)"
proof
  assume "clsid_loop sls t 0 = Some c"
  then show "c < length sls \<and> t \<le> slab_size (sls ! c) \<and> (\<forall>j < c. slab_size (sls ! j) < t)"
    using clsid_loop_SomeD [of sls t 0 c] by simp
next
  assume R: "c < length sls \<and> t \<le> slab_size (sls ! c) \<and> (\<forall>j < c. slab_size (sls ! j) < t)"
  then have "clsid_loop sls t 0 \<noteq> None"
    using clsid_loop_eq_None [of sls t 0] by (auto simp: not_less)
  then obtain d where d: "clsid_loop sls t 0 = Some d" by blast
  then have "d < length sls \<and> t \<le> slab_size (sls ! d) \<and> (\<forall>j < d. slab_size (sls ! j) < t)"
    using clsid_loop_SomeD [of sls t 0 d] by simp
  with R have "d = c" by (metis linorder_neqE_nat not_less)
  with d show "clsid_loop sls t 0 = Some c" by simp
qed

lemma clsid_loop_takeWhile:
  "clsid_loop sls t 0 =
     (let c = length (takeWhile (\<lambda>sl. slab_size sl < t) sls) in if c < length sls then Some c else None)"
proof -
  define c where "c = length (takeWhile (\<lambda>sl. slab_size sl < t) sls)"
  have before: "slab_size (sls ! j) < t" if "j < c" for j
    using that nth_mem [of j "takeWhile (\<lambda>sl. slab_size sl < t) sls"]
    by (simp add: c_def takeWhile_nth) (metis set_takeWhileD takeWhile_nth)
  show ?thesis
  proof (cases "c < length sls")
    case True
    then have "t \<le> slab_size (sls ! c)"
      using nth_length_takeWhile [of "\<lambda>sl. slab_size sl < t" sls] by (simp add: c_def not_less)
    then have "clsid_loop sls t 0 = Some c" using True before by (simp add: clsid_loop_eq_Some)
    then show ?thesis using True by (simp add: c_def [symmetric])
  next
    case False
    then have "clsid_loop sls t 0 = None" using before by (simp add: clsid_loop_eq_None)
    then show ?thesis using False by (simp add: c_def [symmetric])
  qed
qed

lemma clsid_loop_cong:
  assumes "map slab_size sls = map slab_size sls'"
  shows "clsid_loop sls t 0 = clsid_loop sls' t 0"
proof -
  have len: "length sls = length sls'" using assms by (rule map_eq_imp_length_eq)
  have "slab_size (sls ! j) = slab_size (sls' ! j)" if "j < length sls" for j
    using assms that len by (metis nth_map)
  then have "clsid_loop sls t 0 = Some c \<longleftrightarrow> clsid_loop sls' t 0 = Some c" for c
    unfolding clsid_loop_eq_Some using len by auto
  then show ?thesis by (metis not_None_eq)
qed

section \<open>Properties\<close>

text \<open>
  C17: \<open>count_of_slabs\<close> returns for every attribute block with a factor of at least 1.5 and sizes
  far from the end of \<open>size_t\<close>, although its loop multiplies in single precision and truncates:
  each round makes the size strictly larger.
\<close>

theorem count_of_slabs_returns:
  assumes "factor_ok a"
  shows "\<exists>n. count_of_slabs a = Some n"
  by (rule count_of_slabs_total [OF assms])

theorem count_of_slabs_returns_witness:
  "\<exists>n. count_of_slabs (SHMC_ATTR_INITIALIZER\<lparr>item_size_factor := F32 3 1\<rparr>) = Some n"
  by (rule count_of_slabs_returns) (simp add: factor_ok_def SHMC_ATTR_INITIALIZER_def)

text \<open>
  \<open>item_clsid\<close> returns the first class whose chunks hold the item, and is undefined (the
  loop runs off the array of slabs) exactly when no class is large enough.
\<close>

theorem item_clsid_first_fit:
  "item_clsid s nkey nval =
     (let c = length (takeWhile (\<lambda>sl. slab_size sl < item_total nkey nval) (slabs s))
      in if c < length (slabs s) then Some c else None)"
  by (simp add: item_clsid_def clsid_loop_takeWhile)

end
