(* ===== verification/Lru.thy ===== *)
theory Lru
  imports Chains Slabs
begin

text \<open>
  The per-class LRU lists: \<open>item_link\<close>, \<open>item_unlink\<close> and \<open>item_relink\<close> of \<open>shmc.c\<close>, and the
  rules for elementary writes to the state that every pointer operation uses.
\<close>

section \<open>The code\<close>

definition item_link :: "shmc \<Rightarrow> addr \<Rightarrow> shmc option" where
  "item_link s a = do {
     it \<leftarrow> get_item s a;
     let c = it_clsid it;
     s \<leftarrow> put_item s a (it_prev_update (\<lambda>_. 0));
     h \<leftarrow> read_at (heads s) c;
     s \<leftarrow> put_item s a (it_next_update (\<lambda>_. h));
     s \<leftarrow> (if h \<noteq> 0 then put_item s h (it_prev_update (\<lambda>_. a)) else Some s);
     s \<leftarrow> put_head s c a;
     t \<leftarrow> read_at (tails s) c;
     if t = 0 then put_tail s c a else Some s
   }"

definition item_unlink :: "shmc \<Rightarrow> addr \<Rightarrow> shmc option" where
  "item_unlink s a = do {
     it \<leftarrow> get_item s a;
     let c = it_clsid it;
     h \<leftarrow> read_at (heads s) c;
     s \<leftarrow> (if h = a then put_head s c (it_next it) else Some s);
     t \<leftarrow> read_at (tails s) c;
     s \<leftarrow> (if t = a then put_tail s c (it_prev it) else Some s);
     s \<leftarrow> (if it_next it \<noteq> 0 then put_item s (it_next it) (it_prev_update (\<lambda>_. it_prev it)) else Some s);
     it \<leftarrow> get_item s a;
     (if it_prev it \<noteq> 0 then put_item s (it_prev it) (it_next_update (\<lambda>_. it_next it)) else Some s)
   }"

definition item_relink :: "shmc \<Rightarrow> addr \<Rightarrow> shmc option" where
  "item_relink s a = do { s \<leftarrow> item_unlink s a; item_link s a }"

section \<open>Elementary writes\<close>

lemma get_item_Some [simp]: "heap s a = Some it \<Longrightarrow> get_item s a = Some it"
  by (simp add: get_item_def)

lemma put_item_in [simp]: "a \<in> dom (heap s) \<Longrightarrow> put_item s a f = Some (upd_item s a f)"
  by (auto simp: put_item_def)

lemma put_head_in [simp]: "c < length (heads s) \<Longrightarrow> put_head s c a = Some (s\<lparr>heads := (heads s)[c := a]\<rparr>)"
  by (simp add: put_head_def)

lemma put_tail_in [simp]: "c < length (tails s) \<Longrightarrow> put_tail s c a = Some (s\<lparr>tails := (tails s)[c := a]\<rparr>)"
  by (simp add: put_tail_def)

lemma put_bucket_in [simp]:
  "c < length (buckets s) \<Longrightarrow> put_bucket s c a = Some (s\<lparr>buckets := (buckets s)[c := a]\<rparr>)"
  by (simp add: put_bucket_def)

lemma put_free_in [simp]:
  "c < length (slabs s) \<Longrightarrow>
     put_free s c a = Some (s\<lparr>slabs := (slabs s)[c := (slabs s ! c)\<lparr>free_item := a\<rparr>]\<rparr>)"
  by (simp add: put_free_def)

lemma upd_item_fields [simp]:
  "base (upd_item s a f) = base s" "attrs (upd_item s a f) = attrs s" "heads (upd_item s a f) = heads s"
  "tails (upd_item s a f) = tails s" "buckets (upd_item s a f) = buckets s"
  "slabs (upd_item s a f) = slabs s" "raw (upd_item s a f) = raw s"
  "dom (heap (upd_item s a f)) = dom (heap s)"
  by (auto simp: upd_item_def)

lemma heap_upd_item: "heap (upd_item s a f) b = (if b = a then map_option f (heap s a) else heap s b)"
  by (simp add: upd_item_def)

text \<open>Projections of links and data depend on the heap only.\<close>

lemma links_heap [simp]:
  "nxt (s\<lparr>attrs := x1\<rparr>) = nxt s" "nxt (s\<lparr>heads := x2\<rparr>) = nxt s" "nxt (s\<lparr>tails := x2\<rparr>) = nxt s"
  "nxt (s\<lparr>buckets := x2\<rparr>) = nxt s" "nxt (s\<lparr>slabs := x3\<rparr>) = nxt s"
  "prv (s\<lparr>attrs := x1\<rparr>) = prv s" "prv (s\<lparr>heads := x2\<rparr>) = prv s" "prv (s\<lparr>tails := x2\<rparr>) = prv s"
  "prv (s\<lparr>buckets := x2\<rparr>) = prv s" "prv (s\<lparr>slabs := x3\<rparr>) = prv s"
  "hnx (s\<lparr>attrs := x1\<rparr>) = hnx s" "hnx (s\<lparr>heads := x2\<rparr>) = hnx s" "hnx (s\<lparr>tails := x2\<rparr>) = hnx s"
  "hnx (s\<lparr>buckets := x2\<rparr>) = hnx s" "hnx (s\<lparr>slabs := x3\<rparr>) = hnx s"
  "dat (s\<lparr>attrs := x1\<rparr>) = dat s" "dat (s\<lparr>heads := x2\<rparr>) = dat s" "dat (s\<lparr>tails := x2\<rparr>) = dat s"
  "dat (s\<lparr>buckets := x2\<rparr>) = dat s" "dat (s\<lparr>slabs := x3\<rparr>) = dat s"
  by (auto simp: fun_eq_iff nxt_def prv_def hnx_def dat_def)

text \<open>A write to one link changes that link of that item and nothing else.\<close>

lemma upd_next:
  "a \<in> dom (heap s) \<Longrightarrow> nxt (upd_item s a (it_next_update (\<lambda>_. v))) = (nxt s)(a := v)"
  by (rule ext) (auto simp: nxt_def heap_upd_item)

lemma upd_next_other:
  "prv (upd_item s a (it_next_update g)) = prv s" "hnx (upd_item s a (it_next_update g)) = hnx s"
  "dat (upd_item s a (it_next_update g)) = dat s"
  by (rule ext; cases "heap s a"; simp add: prv_def hnx_def dat_def heap_upd_item)+

lemma upd_prev:
  "a \<in> dom (heap s) \<Longrightarrow> prv (upd_item s a (it_prev_update (\<lambda>_. v))) = (prv s)(a := v)"
  by (rule ext) (auto simp: prv_def heap_upd_item)

lemma upd_prev_other:
  "nxt (upd_item s a (it_prev_update g)) = nxt s" "hnx (upd_item s a (it_prev_update g)) = hnx s"
  "dat (upd_item s a (it_prev_update g)) = dat s"
  by (rule ext; cases "heap s a"; simp add: nxt_def hnx_def dat_def heap_upd_item)+

lemma upd_hnext:
  "a \<in> dom (heap s) \<Longrightarrow> hnx (upd_item s a (it_hnext_update (\<lambda>_. v))) = (hnx s)(a := v)"
  by (rule ext) (auto simp: hnx_def heap_upd_item)

lemma upd_hnext_other:
  "nxt (upd_item s a (it_hnext_update g)) = nxt s" "prv (upd_item s a (it_hnext_update g)) = prv s"
  "dat (upd_item s a (it_hnext_update g)) = dat s"
  by (rule ext; cases "heap s a"; simp add: nxt_def prv_def dat_def heap_upd_item)+

lemmas upd_links [state_simps] = upd_next upd_next_other upd_prev upd_prev_other upd_hnext upd_hnext_other

lemma dom_dat: "dom (heap s) = {a. dat s a \<noteq> None}"
  by (auto simp: dat_def)

lemma dat_dom: "dat s = dat s' \<Longrightarrow> dom (heap s) = dom (heap s')"
  by (simp add: dom_dat)

lemma dat_clsid: "heap s a = Some it \<Longrightarrow> map_option it_clsid (dat s a) = Some (it_clsid it)"
  by (simp add: dat_def)

lemma link_of_heap:
  "heap s a = Some it \<Longrightarrow> it_next it = nxt s a" "heap s a = Some it \<Longrightarrow> it_prev it = prv s a"
  "heap s a = Some it \<Longrightarrow> it_hnext it = hnx s a"
  by (simp_all add: nxt_def prv_def hnx_def)

section \<open>What the LRU operations do and leave alone\<close>

text \<open>
  \<open>lru_frame s s' c S\<close>: from \<open>s\<close> to \<open>s'\<close> only the \<open>next\<close> and \<open>prev\<close> links of the items in \<open>S\<close>
  and the head and tail of class \<open>c\<close> may differ.
\<close>

definition lru_frame :: "shmc \<Rightarrow> shmc \<Rightarrow> nat \<Rightarrow> addr set \<Rightarrow> bool" where
  "lru_frame s s' c S \<longleftrightarrow>
     base s' = base s \<and> attrs s' = attrs s \<and> buckets s' = buckets s \<and> slabs s' = slabs s \<and> raw s' = raw s
     \<and> dat s' = dat s \<and> hnx s' = hnx s
     \<and> (\<forall>b. b \<notin> S \<longrightarrow> nxt s' b = nxt s b \<and> prv s' b = prv s b)
     \<and> length (heads s') = length (heads s) \<and> length (tails s') = length (tails s)
     \<and> (\<forall>d. d \<noteq> c \<longrightarrow> heads s' ! d = heads s ! d \<and> tails s' ! d = tails s ! d)"

lemma lru_frame_trans:
  "lru_frame s s' c S \<Longrightarrow> lru_frame s' s'' c T \<Longrightarrow> lru_frame s s'' c (S \<union> T)"
  by (simp add: lru_frame_def)

lemma lru_frame_mono: "lru_frame s s' c S \<Longrightarrow> S \<subseteq> T \<Longrightarrow> lru_frame s s' c T"
  by (auto simp: lru_frame_def)

definition lru_list :: "shmc \<Rightarrow> nat \<Rightarrow> addr list \<Rightarrow> bool" where
  "lru_list s c xs \<longleftrightarrow> c < length (heads s) \<and> c < length (tails s) \<and> set xs \<subseteq> dom (heap s)
     \<and> dll (nxt s) (prv s) (heads s ! c) (tails s ! c) xs"

lemma lru_list_frame:
  assumes "lru_list s d xs" and "lru_frame s s' c S" and "d \<noteq> c" and "set xs \<inter> S = {}"
  shows "lru_list s' d xs"
proof -
  have "dom (heap s') = dom (heap s)" using assms(2) dat_dom [of s' s] by (simp add: lru_frame_def)
  moreover have "dll (nxt s') (prv s') h t xs = dll (nxt s) (prv s) h t xs" for h t
    using assms(2,4) by (intro dll_cong) (auto simp: lru_frame_def)
  ultimately show ?thesis using assms by (simp add: lru_list_def lru_frame_def)
qed

lemma item_link_spec:
  assumes l: "lru_list s c xs" and it: "heap s a = Some it" "it_clsid it = c" and a: "a \<notin> set xs" "a \<noteq> 0"
  shows "\<exists>s'. item_link s a = Some s' \<and> lru_list s' c (a # xs) \<and> lru_frame s s' c (insert a (set xs))"
proof -
  define h t where "h = heads s ! c" and "t = tails s ! c"
  have c: "c < length (heads s)" "c < length (tails s)" "a \<in> dom (heap s)"
    using l it by (auto simp: lru_list_def)
  have hx: "h \<noteq> 0 \<Longrightarrow> h \<in> set xs" and d: "dll (nxt s) (prv s) h t xs"
    using l dll_head [of "nxt s" "prv s" h t xs] by (auto simp: lru_list_def h_def t_def split: list.splits)
  then have hdom: "h \<noteq> 0 \<Longrightarrow> h \<in> dom (heap s)" using l by (auto simp: lru_list_def)
  define s1 where "s1 = upd_item (upd_item s a (it_prev_update (\<lambda>_. 0))) a (it_next_update (\<lambda>_. h))"
  define s2 where "s2 = (if h \<noteq> 0 then upd_item s1 h (it_prev_update (\<lambda>_. a)) else s1)"
  define s3 where "s3 = s2\<lparr>heads := (heads s2)[c := a]\<rparr>"
  define s4 where "s4 = (if t = 0 then s3\<lparr>tails := (tails s3)[c := a]\<rparr> else s3)"
  note defs = s4_def s3_def s2_def s1_def
  have run: "item_link s a = Some s4"
    using it c hdom by (simp add: item_link_def defs h_def t_def)
  have links: "nxt s4 = (nxt s)(a := h)" "prv s4 = (if h = 0 then (prv s)(a := 0) else (prv s)(a := 0, h := a))"
    "hnx s4 = hnx s" "dat s4 = dat s"
    using c hdom by (simp_all add: defs state_simps)
  have rest: "heads s4 = (heads s)[c := a]" "tails s4 = (if t = 0 then (tails s)[c := a] else tails s)"
    "base s4 = base s" "attrs s4 = attrs s" "buckets s4 = buckets s" "slabs s4 = slabs s" "raw s4 = raw s"
    by (simp_all add: defs)
  have "dom (heap s4) = dom (heap s)" using links(4) by (rule dat_dom)
  moreover have "heads s4 ! c = a" "tails s4 ! c = (if t = 0 then a else t)"
    "length (heads s4) = length (heads s)" "length (tails s4) = length (tails s)"
    using c by (simp_all add: rest t_def)
  ultimately have "lru_list s4 c (a # xs)"
    unfolding lru_list_def links using dll_push [OF d a] l c by (simp add: lru_list_def)
  moreover have "lru_frame s s4 c (insert a (set xs))"
    using hx by (auto simp: lru_frame_def links rest)
  ultimately show ?thesis using run by blast
qed

lemma item_unlink_spec:
  assumes l: "lru_list s c (us @ a # vs)" and it: "heap s a = Some it" "it_clsid it = c"
  shows "\<exists>s'. item_unlink s a = Some s' \<and> lru_list s' c (us @ vs)
    \<and> lru_frame s s' c (set us \<union> set vs)"
proof -
  define h t n p where "h = heads s ! c" and "t = tails s ! c" and "n = nxt s a" and "p = prv s a"
  have c: "c < length (heads s)" "c < length (tails s)" "a \<in> dom (heap s)"
    and d: "dll (nxt s) (prv s) h t (us @ a # vs)"
    using l it by (auto simp: lru_list_def h_def t_def)
  have dist: "distinct (us @ a # vs)" and nz: "0 \<notin> set (us @ a # vs)"
    using dll_distinct [OF d] dll_nz [OF d] by auto
  note dl = dll_links [OF d, folded n_def p_def]
  have nx: "n \<noteq> 0 \<Longrightarrow> n \<in> set vs" and pv: "p \<noteq> 0 \<Longrightarrow> p \<in> set us"
    using dl(1,2) by (auto split: list.splits if_splits)
  then have ndom: "n \<noteq> 0 \<Longrightarrow> n \<in> dom (heap s) \<and> n \<noteq> a" "p \<noteq> 0 \<Longrightarrow> p \<in> dom (heap s) \<and> p \<noteq> a"
    using l dist by (auto simp: lru_list_def)
  have itl: "it_next it = n" "it_prev it = p" using it by (simp_all add: n_def p_def link_of_heap)
  define s1 where "s1 = (if h = a then s\<lparr>heads := (heads s)[c := n]\<rparr> else s)"
  define s2 where "s2 = (if t = a then s1\<lparr>tails := (tails s1)[c := p]\<rparr> else s1)"
  define s3 where "s3 = (if n \<noteq> 0 then upd_item s2 n (it_prev_update (\<lambda>_. p)) else s2)"
  define s4 where "s4 = (if p \<noteq> 0 then upd_item s3 p (it_next_update (\<lambda>_. n)) else s3)"
  note defs = s4_def s3_def s2_def s1_def
  have heap2: "heap s2 = heap s" "tails s1 = tails s" by (simp_all add: defs)
  then have it3: "heap s3 a = Some it" using ndom(1) it by (cases "n = 0") (simp_all add: s3_def heap_upd_item)
  have steps: "get_item s a = Some it" "read_at (heads s) c = Some h"
    "(if h = a then put_head s c n else Some s) = Some s1" "read_at (tails s1) c = Some t"
    "(if t = a then put_tail s1 c p else Some s1) = Some s2"
    "(if n \<noteq> 0 then put_item s2 n (it_prev_update (\<lambda>_. p)) else Some s2) = Some s3"
    "get_item s3 a = Some it"
    "(if p \<noteq> 0 then put_item s3 p (it_next_update (\<lambda>_. n)) else Some s3) = Some s4"
    using it c ndom heap2 it3 by (simp_all add: h_def t_def s1_def s2_def s3_def s4_def)
  have run: "item_unlink s a = Some s4"
    by (simp only: item_unlink_def Let_def steps itl it Option.bind.simps)
  have links: "nxt s4 = (if p = 0 then nxt s else (nxt s)(p := n))"
    "prv s4 = (if n = 0 then prv s else (prv s)(n := p))" "hnx s4 = hnx s" "dat s4 = dat s"
    using ndom by (simp_all add: defs state_simps)
  have rest: "heads s4 = (if h = a then (heads s)[c := n] else heads s)"
    "tails s4 = (if t = a then (tails s)[c := p] else tails s)"
    "base s4 = base s" "attrs s4 = attrs s" "buckets s4 = buckets s" "slabs s4 = slabs s" "raw s4 = raw s"
    by (simp_all add: defs)
  have dm: "dom (heap s4) = dom (heap s)" using links(4) by (rule dat_dom)
  have "heads s4 ! c = (if h = a then n else h)" "tails s4 ! c = (if t = a then p else t)"
    "length (heads s4) = length (heads s)" "length (tails s4) = length (tails s)"
    using c by (simp_all add: rest h_def t_def)
  then have "lru_list s4 c (us @ vs)"
    unfolding lru_list_def links dm using dll_remove [OF d, folded n_def p_def] l c by (simp add: lru_list_def)
  moreover have "lru_frame s s4 c (set us \<union> set vs)"
    using nx pv by (auto simp: lru_frame_def links rest)
  ultimately show ?thesis using run by blast
qed

section \<open>The interface of a recency list\<close>

text \<open>
  What the store relies on: linking puts an item in front of its class, unlinking takes it
  out from anywhere, both touch that class only. Moving an item to the front follows.
\<close>

locale recency_list =
  fixes link unlink :: "'s \<Rightarrow> addr \<Rightarrow> 's option"
    and listed :: "'s \<Rightarrow> nat \<Rightarrow> addr list \<Rightarrow> bool"
    and class_at :: "'s \<Rightarrow> addr \<Rightarrow> nat option"
    and frame :: "'s \<Rightarrow> 's \<Rightarrow> nat \<Rightarrow> addr set \<Rightarrow> bool"
  assumes link_law: "listed s c xs \<Longrightarrow> class_at s a = Some c \<Longrightarrow> a \<notin> set xs \<Longrightarrow> a \<noteq> 0 \<Longrightarrow>
      \<exists>s'. link s a = Some s' \<and> listed s' c (a # xs) \<and> frame s s' c (insert a (set xs))"
    and unlink_law: "listed s c (us @ a # vs) \<Longrightarrow> class_at s a = Some c \<Longrightarrow>
      \<exists>s'. unlink s a = Some s' \<and> listed s' c (us @ vs) \<and> frame s s' c (set us \<union> set vs)"
    and listed_distinct: "listed s c xs \<Longrightarrow> distinct xs \<and> 0 \<notin> set xs"
    and frame_class: "frame s s' c S \<Longrightarrow> class_at s' = class_at s"
    and frame_trans: "frame s s' c S \<Longrightarrow> frame s' s'' c T \<Longrightarrow> frame s s'' c (S \<union> T)"
    and frame_mono: "frame s s' c S \<Longrightarrow> S \<subseteq> T \<Longrightarrow> frame s s' c T"
begin

lemma unlink_remove1:
  assumes l: "listed s c xs" and a: "a \<in> set xs" "class_at s a = Some c"
  shows "\<exists>s'. unlink s a = Some s' \<and> listed s' c (remove1 a xs) \<and> frame s s' c (set xs)"
proof -
  from a(1) obtain us vs where xs: "xs = us @ a # vs" by (elim in_set_splitE)
  with l have "remove1 a xs = us @ vs" using listed_distinct distinct_remove1_append by metis
  then show ?thesis using unlink_law [OF l [unfolded xs] a(2)] xs by (force intro: frame_mono)
qed

lemma touch:
  assumes l: "listed s c xs" and a: "a \<in> set xs" "class_at s a = Some c"
  shows "\<exists>s' s''. unlink s a = Some s' \<and> link s' a = Some s'' \<and> listed s'' c (a # remove1 a xs)
    \<and> frame s s'' c (set xs)"
proof -
  obtain s' where u: "unlink s a = Some s'" "listed s' c (remove1 a xs)" "frame s s' c (set xs)"
    using unlink_remove1 [OF assms] by blast
  have d: "distinct xs" "0 \<notin> set xs" using listed_distinct [OF l] by auto
  then have "a \<notin> set (remove1 a xs)" "a \<noteq> 0" using a(1) by (simp, metis)
  moreover have "class_at s' a = Some c" using frame_class [OF u(3)] a(2) by simp
  ultimately obtain s'' where v: "link s' a = Some s''" "listed s'' c (a # remove1 a xs)"
      "frame s' s'' c (insert a (set (remove1 a xs)))"
    using link_law [OF u(2)] by blast
  have "frame s s'' c (set xs)"
    by (rule frame_mono [OF frame_trans [OF u(3) v(3)]]) (use a(1) set_remove1_subset [of a xs] in auto)
  with u v show ?thesis by blast
qed

end

text \<open>The items' class is part of their data; the lists of the code fulfil the contract.\<close>

definition clsid_at :: "shmc \<Rightarrow> addr \<Rightarrow> nat option" where
  "clsid_at s a = map_option it_clsid (dat s a)"

lemma clsid_at_Some: "clsid_at s a = Some c \<longleftrightarrow> (\<exists>it. heap s a = Some it \<and> it_clsid it = c)"
  by (auto simp: clsid_at_def dat_def)

interpretation lru: recency_list item_link item_unlink lru_list clsid_at lru_frame
proof unfold_locales
  show "\<exists>s'. item_link s a = Some s' \<and> lru_list s' c (a # xs) \<and> lru_frame s s' c (insert a (set xs))"
    if "lru_list s c xs" "clsid_at s a = Some c" "a \<notin> set xs" "a \<noteq> 0" for s c xs a
    using that item_link_spec by (auto simp: clsid_at_Some)
  show "\<exists>s'. item_unlink s a = Some s' \<and> lru_list s' c (us @ vs) \<and> lru_frame s s' c (set us \<union> set vs)"
    if "lru_list s c (us @ a # vs)" "clsid_at s a = Some c" for s c us a vs
    using that item_unlink_spec by (auto simp: clsid_at_Some)
  show "distinct xs \<and> 0 \<notin> set xs" if "lru_list s c xs" for s c xs
    using that dll_distinct dll_nz by (fastforce simp: lru_list_def)
  show "clsid_at s' = clsid_at s" if "lru_frame s s' c S" for s s' c S
    using that by (simp add: lru_frame_def clsid_at_def fun_eq_iff)
qed (fact lru_frame_trans lru_frame_mono)+

lemma item_relink_spec:
  assumes "lru_list s c xs" and "a \<in> set xs" and "clsid_at s a = Some c"
  shows "\<exists>s'. item_relink s a = Some s' \<and> lru_list s' c (a # remove1 a xs) \<and> lru_frame s s' c (set xs)"
  using lru.touch [OF assms] by (auto simp: item_relink_def)

end
