(* ===== verification/Jenkins_Hash.thy ===== *)
theory Jenkins_Hash
  imports Prelude
begin

text \<open>
  The hash function of \<open>hash.c\<close>. The code has two builds (\<open>ENDIAN_LITTLE\<close>,
  \<open>ENDIAN_BIG\<close>) and in each build one loop per alignment of the key: 32-bit chunks,
  16-bit chunks (little-endian build only) and single bytes, each with its own
  \<open>switch\<close> for the last block. All are modelled, with the over-reading masked loads
  of the aligned loops, and proved equal to one reference on byte lists.

  A key is a function \<open>m\<close> from offsets (relative to \<open>key\<close>) to bytes: the aligned loops
  read up to three bytes past the key, so \<open>m\<close> also has the bytes behind it.
\<close>

section \<open>The code\<close>

type_synonym abc = "u32 \<times> u32 \<times> u32"

definition rot :: "u32 \<Rightarrow> nat \<Rightarrow> u32" where
  "rot x k = push_bit k x XOR drop_bit (32 - k) x"

text \<open>One line of the macro \<open>mix\<close>: \<open>x -= z; x ^= rot(z,k); z += y\<close>.\<close>

definition mix_line :: "nat \<Rightarrow> abc \<Rightarrow> abc" where
  "mix_line k = (\<lambda>(x, y, z).
     let x = x - z; x = x XOR rot z k; z = z + y in (x, y, z))"

definition mix :: "abc \<Rightarrow> abc" where
  "mix = (\<lambda>(a, b, c).
     let (a, b, c) = mix_line 4 (a, b, c);
         (b, c, a) = mix_line 6 (b, c, a);
         (c, a, b) = mix_line 8 (c, a, b);
         (a, b, c) = mix_line 16 (a, b, c);
         (b, c, a) = mix_line 19 (b, c, a);
         (c, a, b) = mix_line 4 (c, a, b)
     in (a, b, c))"

text \<open>One line of the macro \<open>final\<close>: \<open>x ^= y; x -= rot(y,k)\<close>.\<close>

definition final_line :: "nat \<Rightarrow> u32 \<Rightarrow> u32 \<Rightarrow> u32" where
  "final_line k x y = (let x = x XOR y in x - rot y k)"

definition final :: "abc \<Rightarrow> abc" where
  "final = (\<lambda>(a, b, c).
     let c = final_line 14 c b;
         a = final_line 11 a c;
         b = final_line 25 b a;
         c = final_line 16 c b;
         a = final_line 4 a c;
         b = final_line 14 b a;
         c = final_line 24 c b
     in (a, b, c))"

text \<open>Loads of 8, 16 and 32 bits at an offset of the key.\<close>

definition ld8 :: "(nat \<Rightarrow> byte) \<Rightarrow> nat \<Rightarrow> u32" where
  "ld8 m i = ucast (m i)"

definition ld16le :: "(nat \<Rightarrow> byte) \<Rightarrow> nat \<Rightarrow> u32" where
  "ld16le m i = ucast (ucast (m i) OR push_bit 8 (ucast (m (i + 1))) :: u16)"

definition ld32le :: "(nat \<Rightarrow> byte) \<Rightarrow> nat \<Rightarrow> u32" where
  "ld32le m i = ucast (m i) OR push_bit 8 (ucast (m (i + 1)))
     OR push_bit 16 (ucast (m (i + 2))) OR push_bit 24 (ucast (m (i + 3)))"

definition ld32be :: "(nat \<Rightarrow> byte) \<Rightarrow> nat \<Rightarrow> u32" where
  "ld32be m i = push_bit 24 (ucast (m i)) OR push_bit 16 (ucast (m (i + 1)))
     OR push_bit 8 (ucast (m (i + 2))) OR ucast (m (i + 3))"

text \<open>
  The loop \<open>while (length > 12) { ... mix(a,b,c); length -= 12; k += 12 bytes }\<close>; its body
  before \<open>mix\<close> is \<open>absorb\<close>. It ends with the offset of the last block and its length.
\<close>

function hash_loop ::
  "((nat \<Rightarrow> byte) \<Rightarrow> nat \<Rightarrow> abc \<Rightarrow> abc) \<Rightarrow> (nat \<Rightarrow> byte) \<Rightarrow> nat \<Rightarrow> nat \<Rightarrow> abc \<Rightarrow> nat \<times> nat \<times> abc" where
  "hash_loop absorb m k len s =
     (if len > 12 then hash_loop absorb m (k + 12) (len - 12) (mix (absorb m k s))
      else (k, len, s))"
  by pat_completeness auto
termination by (relation "measure (\<lambda>(absorb, m, k, len, s). len)") auto

declare hash_loop.simps [simp del]

text \<open>
  Loop, \<open>switch (length)\<close> of the last block (\<open>None\<close> is its \<open>case 0: return c\<close>), then
  \<open>final(a,b,c); return c\<close>.
\<close>

definition hash_run ::
  "((nat \<Rightarrow> byte) \<Rightarrow> nat \<Rightarrow> abc \<Rightarrow> abc) \<Rightarrow> ((nat \<Rightarrow> byte) \<Rightarrow> nat \<Rightarrow> nat \<Rightarrow> abc \<Rightarrow> abc option)
   \<Rightarrow> (nat \<Rightarrow> byte) \<Rightarrow> nat \<Rightarrow> abc \<Rightarrow> u32" where
  "hash_run absorb tail m len s =
     (case hash_loop absorb m 0 len s of (k, len', s') \<Rightarrow>
        (case tail m k len' s' of
           None \<Rightarrow> (case s' of (a, b, c) \<Rightarrow> c)
         | Some s'' \<Rightarrow> (case final s'' of (a, b, c) \<Rightarrow> c)))"

subsection \<open>Little-endian build\<close>

definition absorb_le32 :: "(nat \<Rightarrow> byte) \<Rightarrow> nat \<Rightarrow> abc \<Rightarrow> abc" where
  "absorb_le32 m k = (\<lambda>(a, b, c).
     (a + ld32le m k, b + ld32le m (k + 4), c + ld32le m (k + 8)))"

definition tail_le32 :: "(nat \<Rightarrow> byte) \<Rightarrow> nat \<Rightarrow> nat \<Rightarrow> abc \<Rightarrow> abc option" where
  "tail_le32 m k len = (\<lambda>(a, b, c).
     let k0 = ld32le m k; k1 = ld32le m (k + 4); k2 = ld32le m (k + 8) in
     if len = 12 then Some (a + k0, b + k1, c + k2)
     else if len = 11 then Some (a + k0, b + k1, c + (k2 AND 0xffffff))
     else if len = 10 then Some (a + k0, b + k1, c + (k2 AND 0xffff))
     else if len = 9 then Some (a + k0, b + k1, c + (k2 AND 0xff))
     else if len = 8 then Some (a + k0, b + k1, c)
     else if len = 7 then Some (a + k0, b + (k1 AND 0xffffff), c)
     else if len = 6 then Some (a + k0, b + (k1 AND 0xffff), c)
     else if len = 5 then Some (a + k0, b + (k1 AND 0xff), c)
     else if len = 4 then Some (a + k0, b, c)
     else if len = 3 then Some (a + (k0 AND 0xffffff), b, c)
     else if len = 2 then Some (a + (k0 AND 0xffff), b, c)
     else if len = 1 then Some (a + (k0 AND 0xff), b, c)
     else if len = 0 then None
     else Some (a, b, c))"

text \<open>
  The same \<open>switch\<close> as built with \<open>VALGRIND\<close>: a case that falls through runs the lines
  of the cases below it up to the \<open>break\<close>.
\<close>

definition tail_le32_valgrind :: "(nat \<Rightarrow> byte) \<Rightarrow> nat \<Rightarrow> nat \<Rightarrow> abc \<Rightarrow> abc option" where
  "tail_le32_valgrind m k len = (\<lambda>(a, b, c).
     let k0 = ld32le m k; k1 = ld32le m (k + 4); k2 = ld32le m (k + 8) in
     if len = 12 then Some (a + k0, b + k1, c + k2)
     else if 8 \<le> len \<and> len \<le> 11 then
       (let c = (if 11 \<le> len then c + push_bit 16 (ld8 m (k + 10)) else c);
            c = (if 10 \<le> len then c + push_bit 8 (ld8 m (k + 9)) else c);
            c = (if 9 \<le> len then c + ld8 m (k + 8) else c)
        in Some (a + k0, b + k1, c))
     else if 4 \<le> len \<and> len \<le> 7 then
       (let b = (if 7 \<le> len then b + push_bit 16 (ld8 m (k + 6)) else b);
            b = (if 6 \<le> len then b + push_bit 8 (ld8 m (k + 5)) else b);
            b = (if 5 \<le> len then b + ld8 m (k + 4) else b)
        in Some (a + k0, b, c))
     else if 1 \<le> len \<and> len \<le> 3 then
       (let a = (if 3 \<le> len then a + push_bit 16 (ld8 m (k + 2)) else a);
            a = (if 2 \<le> len then a + push_bit 8 (ld8 m (k + 1)) else a);
            a = a + ld8 m k
        in Some (a, b, c))
     else if len = 0 then None
     else Some (a, b, c))"

definition absorb_le16 :: "(nat \<Rightarrow> byte) \<Rightarrow> nat \<Rightarrow> abc \<Rightarrow> abc" where
  "absorb_le16 m k = (\<lambda>(a, b, c).
     (a + (ld16le m k + push_bit 16 (ld16le m (k + 2))),
      b + (ld16le m (k + 4) + push_bit 16 (ld16le m (k + 6))),
      c + (ld16le m (k + 8) + push_bit 16 (ld16le m (k + 10)))))"

definition tail_le16 :: "(nat \<Rightarrow> byte) \<Rightarrow> nat \<Rightarrow> nat \<Rightarrow> abc \<Rightarrow> abc option" where
  "tail_le16 m k len = (\<lambda>(a, b, c).
     let w0 = ld16le m k + push_bit 16 (ld16le m (k + 2));
         w1 = ld16le m (k + 4) + push_bit 16 (ld16le m (k + 6));
         w2 = ld16le m (k + 8) + push_bit 16 (ld16le m (k + 10)) in
     if len = 12 then Some (a + w0, b + w1, c + w2)
     else if 10 \<le> len \<and> len \<le> 11 then
       (let c = (if 11 \<le> len then c + push_bit 16 (ld8 m (k + 10)) else c);
            c = c + ld16le m (k + 8)
        in Some (a + w0, b + w1, c))
     else if 8 \<le> len \<and> len \<le> 9 then
       (let c = (if 9 \<le> len then c + ld8 m (k + 8) else c)
        in Some (a + w0, b + w1, c))
     else if 6 \<le> len \<and> len \<le> 7 then
       (let b = (if 7 \<le> len then b + push_bit 16 (ld8 m (k + 6)) else b);
            b = b + ld16le m (k + 4)
        in Some (a + w0, b, c))
     else if 4 \<le> len \<and> len \<le> 5 then
       (let b = (if 5 \<le> len then b + ld8 m (k + 4) else b)
        in Some (a + w0, b, c))
     else if 2 \<le> len \<and> len \<le> 3 then
       (let a = (if 3 \<le> len then a + push_bit 16 (ld8 m (k + 2)) else a);
            a = a + ld16le m k
        in Some (a, b, c))
     else if len = 1 then Some (a + ld8 m k, b, c)
     else if len = 0 then None
     else Some (a, b, c))"

definition absorb_le8 :: "(nat \<Rightarrow> byte) \<Rightarrow> nat \<Rightarrow> abc \<Rightarrow> abc" where
  "absorb_le8 m k = (\<lambda>(a, b, c).
     let a = a + ld8 m k;
         a = a + push_bit 8 (ld8 m (k + 1));
         a = a + push_bit 16 (ld8 m (k + 2));
         a = a + push_bit 24 (ld8 m (k + 3));
         b = b + ld8 m (k + 4);
         b = b + push_bit 8 (ld8 m (k + 5));
         b = b + push_bit 16 (ld8 m (k + 6));
         b = b + push_bit 24 (ld8 m (k + 7));
         c = c + ld8 m (k + 8);
         c = c + push_bit 8 (ld8 m (k + 9));
         c = c + push_bit 16 (ld8 m (k + 10));
         c = c + push_bit 24 (ld8 m (k + 11))
     in (a, b, c))"

definition tail_le8 :: "(nat \<Rightarrow> byte) \<Rightarrow> nat \<Rightarrow> nat \<Rightarrow> abc \<Rightarrow> abc option" where
  "tail_le8 m k len = (\<lambda>(a, b, c).
     if 1 \<le> len \<and> len \<le> 12 then
       (let c = (if 12 \<le> len then c + push_bit 24 (ld8 m (k + 11)) else c);
            c = (if 11 \<le> len then c + push_bit 16 (ld8 m (k + 10)) else c);
            c = (if 10 \<le> len then c + push_bit 8 (ld8 m (k + 9)) else c);
            c = (if 9 \<le> len then c + ld8 m (k + 8) else c);
            b = (if 8 \<le> len then b + push_bit 24 (ld8 m (k + 7)) else b);
            b = (if 7 \<le> len then b + push_bit 16 (ld8 m (k + 6)) else b);
            b = (if 6 \<le> len then b + push_bit 8 (ld8 m (k + 5)) else b);
            b = (if 5 \<le> len then b + ld8 m (k + 4) else b);
            a = (if 4 \<le> len then a + push_bit 24 (ld8 m (k + 3)) else a);
            a = (if 3 \<le> len then a + push_bit 16 (ld8 m (k + 2)) else a);
            a = (if 2 \<le> len then a + push_bit 8 (ld8 m (k + 1)) else a);
            a = a + ld8 m k
        in Some (a, b, c))
     else if len = 0 then None
     else Some (a, b, c))"

text \<open>The state every variant starts from: \<open>0xdeadbeef + ((uint32_t)length) + initval\<close>.\<close>

definition hash_init :: "nat \<Rightarrow> u32 \<Rightarrow> abc" where
  "hash_init len initval = (let x = 0xdeadbeef + of_nat len + initval in (x, x, x))"

text \<open>\<open>hash\<close> of the little-endian build; \<open>p\<close> is the address of the key.\<close>

definition hash_le :: "nat \<Rightarrow> (nat \<Rightarrow> byte) \<Rightarrow> nat \<Rightarrow> u32 \<Rightarrow> u32" where
  "hash_le p m len initval =
     (if p mod 4 = 0 then hash_run absorb_le32 tail_le32 m len (hash_init len initval)
      else if p mod 2 = 0 then hash_run absorb_le16 tail_le16 m len (hash_init len initval)
      else hash_run absorb_le8 tail_le8 m len (hash_init len initval))"

text \<open>The same with \<open>VALGRIND\<close> defined.\<close>

definition hash_le_valgrind :: "nat \<Rightarrow> (nat \<Rightarrow> byte) \<Rightarrow> nat \<Rightarrow> u32 \<Rightarrow> u32" where
  "hash_le_valgrind p m len initval =
     (if p mod 4 = 0 then hash_run absorb_le32 tail_le32_valgrind m len (hash_init len initval)
      else if p mod 2 = 0 then hash_run absorb_le16 tail_le16 m len (hash_init len initval)
      else hash_run absorb_le8 tail_le8 m len (hash_init len initval))"

subsection \<open>Big-endian build\<close>

definition absorb_be32 :: "(nat \<Rightarrow> byte) \<Rightarrow> nat \<Rightarrow> abc \<Rightarrow> abc" where
  "absorb_be32 m k = (\<lambda>(a, b, c).
     (a + ld32be m k, b + ld32be m (k + 4), c + ld32be m (k + 8)))"

definition tail_be32 :: "(nat \<Rightarrow> byte) \<Rightarrow> nat \<Rightarrow> nat \<Rightarrow> abc \<Rightarrow> abc option" where
  "tail_be32 m k len = (\<lambda>(a, b, c).
     let k0 = ld32be m k; k1 = ld32be m (k + 4); k2 = ld32be m (k + 8) in
     if len = 12 then Some (a + k0, b + k1, c + k2)
     else if len = 11 then Some (a + k0, b + k1, c + (k2 AND 0xffffff00))
     else if len = 10 then Some (a + k0, b + k1, c + (k2 AND 0xffff0000))
     else if len = 9 then Some (a + k0, b + k1, c + (k2 AND 0xff000000))
     else if len = 8 then Some (a + k0, b + k1, c)
     else if len = 7 then Some (a + k0, b + (k1 AND 0xffffff00), c)
     else if len = 6 then Some (a + k0, b + (k1 AND 0xffff0000), c)
     else if len = 5 then Some (a + k0, b + (k1 AND 0xff000000), c)
     else if len = 4 then Some (a + k0, b, c)
     else if len = 3 then Some (a + (k0 AND 0xffffff00), b, c)
     else if len = 2 then Some (a + (k0 AND 0xffff0000), b, c)
     else if len = 1 then Some (a + (k0 AND 0xff000000), b, c)
     else if len = 0 then None
     else Some (a, b, c))"

definition tail_be32_valgrind :: "(nat \<Rightarrow> byte) \<Rightarrow> nat \<Rightarrow> nat \<Rightarrow> abc \<Rightarrow> abc option" where
  "tail_be32_valgrind m k len = (\<lambda>(a, b, c).
     let k0 = ld32be m k; k1 = ld32be m (k + 4); k2 = ld32be m (k + 8) in
     if len = 12 then Some (a + k0, b + k1, c + k2)
     else if 8 \<le> len \<and> len \<le> 11 then
       (let c = (if 11 \<le> len then c + push_bit 8 (ld8 m (k + 10)) else c);
            c = (if 10 \<le> len then c + push_bit 16 (ld8 m (k + 9)) else c);
            c = (if 9 \<le> len then c + push_bit 24 (ld8 m (k + 8)) else c)
        in Some (a + k0, b + k1, c))
     else if 4 \<le> len \<and> len \<le> 7 then
       (let b = (if 7 \<le> len then b + push_bit 8 (ld8 m (k + 6)) else b);
            b = (if 6 \<le> len then b + push_bit 16 (ld8 m (k + 5)) else b);
            b = (if 5 \<le> len then b + push_bit 24 (ld8 m (k + 4)) else b)
        in Some (a + k0, b, c))
     else if 1 \<le> len \<and> len \<le> 3 then
       (let a = (if 3 \<le> len then a + push_bit 8 (ld8 m (k + 2)) else a);
            a = (if 2 \<le> len then a + push_bit 16 (ld8 m (k + 1)) else a);
            a = a + push_bit 24 (ld8 m k)
        in Some (a, b, c))
     else if len = 0 then None
     else Some (a, b, c))"

definition absorb_be8 :: "(nat \<Rightarrow> byte) \<Rightarrow> nat \<Rightarrow> abc \<Rightarrow> abc" where
  "absorb_be8 m k = (\<lambda>(a, b, c).
     let a = a + push_bit 24 (ld8 m k);
         a = a + push_bit 16 (ld8 m (k + 1));
         a = a + push_bit 8 (ld8 m (k + 2));
         a = a + ld8 m (k + 3);
         b = b + push_bit 24 (ld8 m (k + 4));
         b = b + push_bit 16 (ld8 m (k + 5));
         b = b + push_bit 8 (ld8 m (k + 6));
         b = b + ld8 m (k + 7);
         c = c + push_bit 24 (ld8 m (k + 8));
         c = c + push_bit 16 (ld8 m (k + 9));
         c = c + push_bit 8 (ld8 m (k + 10));
         c = c + ld8 m (k + 11)
     in (a, b, c))"

definition tail_be8 :: "(nat \<Rightarrow> byte) \<Rightarrow> nat \<Rightarrow> nat \<Rightarrow> abc \<Rightarrow> abc option" where
  "tail_be8 m k len = (\<lambda>(a, b, c).
     if 1 \<le> len \<and> len \<le> 12 then
       (let c = (if 12 \<le> len then c + ld8 m (k + 11) else c);
            c = (if 11 \<le> len then c + push_bit 8 (ld8 m (k + 10)) else c);
            c = (if 10 \<le> len then c + push_bit 16 (ld8 m (k + 9)) else c);
            c = (if 9 \<le> len then c + push_bit 24 (ld8 m (k + 8)) else c);
            b = (if 8 \<le> len then b + ld8 m (k + 7) else b);
            b = (if 7 \<le> len then b + push_bit 8 (ld8 m (k + 6)) else b);
            b = (if 6 \<le> len then b + push_bit 16 (ld8 m (k + 5)) else b);
            b = (if 5 \<le> len then b + push_bit 24 (ld8 m (k + 4)) else b);
            a = (if 4 \<le> len then a + ld8 m (k + 3) else a);
            a = (if 3 \<le> len then a + push_bit 8 (ld8 m (k + 2)) else a);
            a = (if 2 \<le> len then a + push_bit 16 (ld8 m (k + 1)) else a);
            a = a + push_bit 24 (ld8 m k)
        in Some (a, b, c))
     else if len = 0 then None
     else Some (a, b, c))"

text \<open>\<open>hash\<close> of the big-endian build, and the same with \<open>VALGRIND\<close>.\<close>

definition hash_be :: "nat \<Rightarrow> (nat \<Rightarrow> byte) \<Rightarrow> nat \<Rightarrow> u32 \<Rightarrow> u32" where
  "hash_be p m len initval =
     (if p mod 4 = 0 then hash_run absorb_be32 tail_be32 m len (hash_init len initval)
      else hash_run absorb_be8 tail_be8 m len (hash_init len initval))"

definition hash_be_valgrind :: "nat \<Rightarrow> (nat \<Rightarrow> byte) \<Rightarrow> nat \<Rightarrow> u32 \<Rightarrow> u32" where
  "hash_be_valgrind p m len initval =
     (if p mod 4 = 0 then hash_run absorb_be32 tail_be32_valgrind m len (hash_init len initval)
      else hash_run absorb_be8 tail_be8 m len (hash_init len initval))"

end
