(* ===== verification/Hash_Reader.thy ===== *)
theory Hash_Reader
  imports Jenkins_Hash
begin

text \<open>
  The reference for \<open>hash.c\<close>: the hash as a function of the list of key bytes, and the
  interface \<open>block_reader\<close> between the loop of \<open>hash\<close> and the ways of reading a key.
  A reader promises that its loop body adds the next three 32-bit words of the key and
  that its last block adds the rest of the key padded with zeros; then the whole run is
  the reference. Every variant of the code is an interpretation.
\<close>

section \<open>Reference\<close>

definition word_le :: "byte \<Rightarrow> byte \<Rightarrow> byte \<Rightarrow> byte \<Rightarrow> u32" where
  "word_le p q r s = ucast p + push_bit 8 (ucast q) + push_bit 16 (ucast r) + push_bit 24 (ucast s)"

definition word_be :: "byte \<Rightarrow> byte \<Rightarrow> byte \<Rightarrow> byte \<Rightarrow> u32" where
  "word_be p q r s = word_le s r q p"

text \<open>Adding three words, given as bytes 0 to 11, to the state.\<close>

definition add_words :: "(byte \<Rightarrow> byte \<Rightarrow> byte \<Rightarrow> byte \<Rightarrow> u32) \<Rightarrow> (nat \<Rightarrow> byte) \<Rightarrow> abc \<Rightarrow> abc" where
  "add_words w f = (\<lambda>(a, b, c).
     (a + w (f 0) (f 1) (f 2) (f 3), b + w (f 4) (f 5) (f 6) (f 7), c + w (f 8) (f 9) (f 10) (f 11)))"

definition pad12 :: "byte list \<Rightarrow> byte list" where
  "pad12 bs = bs @ replicate (12 - length bs) 0"

definition abc_c :: "abc \<Rightarrow> u32" where
  "abc_c = (\<lambda>(a, b, c). c)"

function hash_ref_loop :: "(byte \<Rightarrow> byte \<Rightarrow> byte \<Rightarrow> byte \<Rightarrow> u32) \<Rightarrow> byte list \<Rightarrow> abc \<Rightarrow> u32" where
  "hash_ref_loop w bs s =
     (if 12 < length bs then hash_ref_loop w (drop 12 bs) (mix (add_words w (nth bs) s))
      else if bs = [] then abc_c s
      else abc_c (final (add_words w (nth (pad12 bs)) s)))"
  by pat_completeness auto
termination by (relation "measure (\<lambda>(w, bs, s). length bs)") auto

declare hash_ref_loop.simps [simp del]

definition hash_ref :: "(byte \<Rightarrow> byte \<Rightarrow> byte \<Rightarrow> byte \<Rightarrow> u32) \<Rightarrow> byte list \<Rightarrow> u32 \<Rightarrow> u32" where
  "hash_ref w bs initval = hash_ref_loop w bs (hash_init (length bs) initval)"

lemma pad12_nth:
  "i < 12 \<Longrightarrow> pad12 (map m [k..<k + n]) ! i = (if i < n then m (k + i) else 0)"
  by (simp add: pad12_def nth_append)

section \<open>The interface of a key reader\<close>

locale block_reader =
  fixes w :: "byte \<Rightarrow> byte \<Rightarrow> byte \<Rightarrow> byte \<Rightarrow> u32"
    and absorb :: "(nat \<Rightarrow> byte) \<Rightarrow> nat \<Rightarrow> abc \<Rightarrow> abc"
    and tail :: "(nat \<Rightarrow> byte) \<Rightarrow> nat \<Rightarrow> nat \<Rightarrow> abc \<Rightarrow> abc option"
  assumes absorb_block: "absorb m k s = add_words w (\<lambda>i. m (k + i)) s"
    and tail_block: "n \<le> 12 \<Longrightarrow>
      tail m k n s =
        (if n = 0 then None else Some (add_words w (\<lambda>i. if i < n then m (k + i) else 0) s))"
begin

lemma absorb_list: "12 < n \<Longrightarrow> add_words w (nth (map m [k..<k + n])) s = absorb m k s"
  by (cases s) (simp add: absorb_block add_words_def)

lemma tail_list:
  "n \<le> 12 \<Longrightarrow> tail m k n s =
     (if n = 0 then None else Some (add_words w (nth (pad12 (map m [k..<k + n]))) s))"
  by (cases s) (simp add: tail_block add_words_def pad12_nth)

lemma loop_eq_ref:
  "hash_ref_loop w (map m [k..<k + len]) s =
    (case hash_loop absorb m k len s of (k', len', s') \<Rightarrow>
       (case tail m k' len' s' of None \<Rightarrow> abc_c s' | Some s'' \<Rightarrow> abc_c (final s'')))"
proof (induction len arbitrary: k s rule: less_induct)
  case (less len)
  show ?case
  proof (cases "12 < len")
    case True
    have dr: "drop 12 (map m [k..<k + len]) = map m [k + 12..<(k + 12) + (len - 12)]"
      using True by (simp add: drop_map)
    have "hash_ref_loop w (map m [k..<k + len]) s =
        hash_ref_loop w (map m [k + 12..<(k + 12) + (len - 12)]) (mix (absorb m k s))"
      using True by (subst hash_ref_loop.simps) (simp only: dr absorb_list [OF True], simp)
    also have "\<dots> = (case hash_loop absorb m (k + 12) (len - 12) (mix (absorb m k s)) of (k', len', s') \<Rightarrow>
        (case tail m k' len' s' of None \<Rightarrow> abc_c s' | Some s'' \<Rightarrow> abc_c (final s'')))"
      by (rule less.IH) (use True in simp)
    finally show ?thesis
      using True by (simp add: hash_loop.simps [of _ m k len])
  next
    case False
    then show ?thesis
      by (simp add: hash_ref_loop.simps [of w "map m [k..<k + len]"] hash_loop.simps [of _ m k len]
          tail_list)
  qed
qed

lemma run_eq_ref:
  "hash_run absorb tail m len (hash_init len iv) = hash_ref w (map m [0..<len]) iv"
  using loop_eq_ref [of m 0 len "hash_init len iv"]
  by (simp add: hash_run_def hash_ref_def abc_c_def split: prod.splits option.splits)

end

section \<open>Loads as words of bytes\<close>

text \<open>The bytes of a 32-bit word do not overlap, so or-ing them is adding them.\<close>

lemma or4_eq_sum:
  fixes a b c d :: byte
  shows "(ucast a :: u32) OR push_bit 8 (ucast b) OR push_bit 16 (ucast c) OR push_bit 24 (ucast d)
   = ucast a + push_bit 8 (ucast b) + push_bit 16 (ucast c) + push_bit 24 (ucast d)"
proof -
  have 1: "(ucast a :: u32) AND push_bit 8 (ucast b) = 0"
    by (rule bit_word_eqI) (auto simp: bit_simps dest: bit_imp_le_length)
  have 2: "((ucast a :: u32) OR push_bit 8 (ucast b)) AND push_bit 16 (ucast c) = 0"
    by (rule bit_word_eqI) (auto simp: bit_simps dest!: bit_imp_le_length)
  have 3: "((ucast a :: u32) OR push_bit 8 (ucast b) OR push_bit 16 (ucast c)) AND push_bit 24 (ucast d) = 0"
    by (rule bit_word_eqI) (auto simp: bit_simps dest!: bit_imp_le_length)
  show ?thesis
    using 1 2 3 by (simp add: disjunctive_add_eq_or or.assoc)
qed

lemma u16_cat:
  fixes a b :: byte
  shows "(ucast (ucast a OR push_bit 8 (ucast b) :: u16) :: u32) = ucast a + push_bit 8 (ucast b)"
proof -
  have 1: "(ucast a :: u32) AND push_bit 8 (ucast b) = 0"
    by (rule bit_word_eqI) (auto simp: bit_simps dest: bit_imp_le_length)
  have 2: "(ucast (ucast a OR push_bit 8 (ucast b) :: u16) :: u32) = ucast a OR push_bit 8 (ucast b)"
    by (rule bit_word_eqI) (auto simp: bit_simps dest: bit_imp_le_length)
  show ?thesis using 1 2 by (simp add: disjunctive_add_eq_or)
qed

lemma hash_masks:
  "(0xffffff :: u32) = mask 24" "(0xffff :: u32) = mask 16" "(0xff :: u32) = mask 8"
  "(0xffffff00 :: u32) = NOT (mask 8)" "(0xffff0000 :: u32) = NOT (mask 16)"
  "(0xff000000 :: u32) = NOT (mask 24)"
  by (simp_all add: mask_eq_exp_minus_1)

lemma or4_low_mask:
  fixes a b c d :: byte
  defines "x \<equiv> (ucast a :: u32) OR push_bit 8 (ucast b) OR push_bit 16 (ucast c) OR push_bit 24 (ucast d)"
  shows "x AND 0xffffff = ucast a OR push_bit 8 (ucast b) OR push_bit 16 (ucast c) OR push_bit 24 (ucast (0::byte))"
    and "x AND 0xffff = ucast a OR push_bit 8 (ucast b) OR push_bit 16 (ucast (0::byte)) OR push_bit 24 (ucast (0::byte))"
    and "x AND 0xff = ucast a OR push_bit 8 (ucast (0::byte)) OR push_bit 16 (ucast (0::byte)) OR push_bit 24 (ucast (0::byte))"
  unfolding x_def hash_masks
  by (rule bit_word_eqI; auto simp: bit_simps dest: bit_imp_le_length)+

lemma or4_high_mask:
  fixes a b c d :: byte
  defines "x \<equiv> (ucast a :: u32) OR push_bit 8 (ucast b) OR push_bit 16 (ucast c) OR push_bit 24 (ucast d)"
  shows "x AND 0xffffff00 = ucast (0::byte) OR push_bit 8 (ucast b) OR push_bit 16 (ucast c) OR push_bit 24 (ucast d)"
    and "x AND 0xffff0000 = ucast (0::byte) OR push_bit 8 (ucast (0::byte)) OR push_bit 16 (ucast c) OR push_bit 24 (ucast d)"
    and "x AND 0xff000000 = ucast (0::byte) OR push_bit 8 (ucast (0::byte)) OR push_bit 16 (ucast (0::byte)) OR push_bit 24 (ucast d)"
  unfolding x_def hash_masks
  by (rule bit_word_eqI; auto simp: bit_simps dest: bit_imp_le_length)+

lemma word_le_or:
  "word_le p q r s = ucast p OR push_bit 8 (ucast q) OR push_bit 16 (ucast r) OR push_bit 24 (ucast s)"
  by (simp only: word_le_def or4_eq_sum)

lemma ld32le_word: "ld32le m i = word_le (m i) (m (i + 1)) (m (i + 2)) (m (i + 3))"
  by (simp only: ld32le_def word_le_or)

lemma ld32be_word: "ld32be m i = word_be (m i) (m (i + 1)) (m (i + 2)) (m (i + 3))"
  by (simp only: ld32be_def word_be_def word_le_or ac_simps)

lemma word_le_mask:
  "word_le p q r s AND 0xffffff = word_le p q r 0"
  "word_le p q r s AND 0xffff = word_le p q 0 0"
  "word_le p q r s AND 0xff = word_le p 0 0 0"
  by (simp_all only: word_le_or or4_low_mask)

lemma word_be_mask:
  "word_be p q r s AND 0xffffff00 = word_be p q r 0"
  "word_be p q r s AND 0xffff0000 = word_be p q 0 0"
  "word_be p q r s AND 0xff000000 = word_be p 0 0 0"
  by (simp_all only: word_be_def word_le_or or4_high_mask)

lemmas word_masks = word_le_mask word_le_mask [unfolded and.commute [of "word_le _ _ _ _"]]
  word_be_mask word_be_mask [unfolded and.commute [of "word_be _ _ _ _"]]

lemma ld16le_sum: "ld16le m i = ucast (m i) + push_bit 8 (ucast (m (i + 1)))"
  by (simp only: ld16le_def u16_cat)

lemma word_le_zero [simp]: "word_le 0 0 0 0 = 0"
  by (simp add: word_le_def)

lemma word_be_zero [simp]: "word_be 0 0 0 0 = 0"
  by (simp add: word_be_def)

lemma ld16le_pair:
  "ld16le m i + push_bit 16 (ld16le m (i + 2)) = word_le (m i) (m (i + 1)) (m (i + 2)) (m (i + 3))"
  by (simp add: ld16le_sum word_le_def push_bit_add ac_simps numeral_eq_Suc)

section \<open>The readers of the code\<close>

lemma tail_length_cases:
  assumes "n \<le> (12 :: nat)"
  shows "n \<in> {0, 1, 2, 3, 4, 5, 6, 7, 8, 9, 10, 11, 12}"
  using assms by (simp only: insert_iff empty_iff) presburger

end
