(* ===== verification/Hash_Variants.thy ===== *)
theory Hash_Variants
  imports Hash_Reader
begin

text \<open>
  Every reading loop of \<open>hash.c\<close> interprets \<open>block_reader\<close>; the properties of \<open>hash\<close>
  follow: its value does not depend on the alignment of the key, on the bytes behind it,
  or on the \<open>VALGRIND\<close> build; and \<open>mix\<close> and \<open>final\<close> lose no information.
\<close>

section \<open>Readers\<close>

lemma absorb_le32_block: "absorb_le32 m k s = add_words word_le (\<lambda>i. m (k + i)) s"
  by (cases s) (simp add: absorb_le32_def add_words_def ld32le_word ac_simps)

lemma tail_le32_block:
  "n \<le> 12 \<Longrightarrow> tail_le32 m k n s =
     (if n = 0 then None else Some (add_words word_le (\<lambda>i. if i < n then m (k + i) else 0) s))"
  by (cases s; drule tail_length_cases; elim insertE emptyE;
      simp add: tail_le32_def add_words_def ld32le_word word_masks ac_simps)

interpretation le32: block_reader word_le absorb_le32 tail_le32
  by unfold_locales (simp_all add: absorb_le32_block tail_le32_block)

lemma tail_le32_valgrind_block:
  "n \<le> 12 \<Longrightarrow> tail_le32_valgrind m k n s =
     (if n = 0 then None else Some (add_words word_le (\<lambda>i. if i < n then m (k + i) else 0) s))"
  by (cases s; drule tail_length_cases; elim insertE emptyE;
      simp add: tail_le32_valgrind_def add_words_def ld32le_word ld8_def word_le_def ac_simps)

interpretation le32_valgrind: block_reader word_le absorb_le32 tail_le32_valgrind
  by unfold_locales (simp_all add: absorb_le32_block tail_le32_valgrind_block)

lemma absorb_le16_block: "absorb_le16 m k s = add_words word_le (\<lambda>i. m (k + i)) s"
  by (cases s) (simp add: absorb_le16_def add_words_def ld16le_sum word_le_def push_bit_add numeral_3_eq_3 ac_simps)

lemma tail_le16_block:
  "n \<le> 12 \<Longrightarrow> tail_le16 m k n s =
     (if n = 0 then None else Some (add_words word_le (\<lambda>i. if i < n then m (k + i) else 0) s))"
  by (cases s; drule tail_length_cases; elim insertE emptyE;
      simp add: tail_le16_def add_words_def ld16le_sum word_le_def ld8_def push_bit_add numeral_3_eq_3 ac_simps)

interpretation le16: block_reader word_le absorb_le16 tail_le16
  by unfold_locales (simp_all add: absorb_le16_block tail_le16_block)

lemma absorb_le8_block: "absorb_le8 m k s = add_words word_le (\<lambda>i. m (k + i)) s"
  by (cases s) (simp add: absorb_le8_def add_words_def ld8_def word_le_def ac_simps)

lemma tail_le8_block:
  "n \<le> 12 \<Longrightarrow> tail_le8 m k n s =
     (if n = 0 then None else Some (add_words word_le (\<lambda>i. if i < n then m (k + i) else 0) s))"
  by (cases s; drule tail_length_cases; elim insertE emptyE;
      simp add: tail_le8_def add_words_def ld8_def word_le_def ac_simps)

interpretation le8: block_reader word_le absorb_le8 tail_le8
  by unfold_locales (simp_all add: absorb_le8_block tail_le8_block)

lemma absorb_be32_block: "absorb_be32 m k s = add_words word_be (\<lambda>i. m (k + i)) s"
  by (cases s) (simp add: absorb_be32_def add_words_def ld32be_word ac_simps)

lemma tail_be32_block:
  "n \<le> 12 \<Longrightarrow> tail_be32 m k n s =
     (if n = 0 then None else Some (add_words word_be (\<lambda>i. if i < n then m (k + i) else 0) s))"
  by (cases s; drule tail_length_cases; elim insertE emptyE;
      simp add: tail_be32_def add_words_def ld32be_word word_masks ac_simps)

interpretation be32: block_reader word_be absorb_be32 tail_be32
  by unfold_locales (simp_all add: absorb_be32_block tail_be32_block)

lemma tail_be32_valgrind_block:
  "n \<le> 12 \<Longrightarrow> tail_be32_valgrind m k n s =
     (if n = 0 then None else Some (add_words word_be (\<lambda>i. if i < n then m (k + i) else 0) s))"
  by (cases s; drule tail_length_cases; elim insertE emptyE;
      simp add: tail_be32_valgrind_def add_words_def ld32be_word ld8_def word_be_def word_le_def ac_simps)

interpretation be32_valgrind: block_reader word_be absorb_be32 tail_be32_valgrind
  by unfold_locales (simp_all add: absorb_be32_block tail_be32_valgrind_block)

lemma absorb_be8_block: "absorb_be8 m k s = add_words word_be (\<lambda>i. m (k + i)) s"
  by (cases s) (simp add: absorb_be8_def add_words_def ld8_def word_be_def word_le_def ac_simps)

lemma tail_be8_block:
  "n \<le> 12 \<Longrightarrow> tail_be8 m k n s =
     (if n = 0 then None else Some (add_words word_be (\<lambda>i. if i < n then m (k + i) else 0) s))"
  by (cases s; drule tail_length_cases; elim insertE emptyE;
      simp add: tail_be8_def add_words_def ld8_def word_be_def word_le_def ac_simps)

interpretation be8: block_reader word_be absorb_be8 tail_be8
  by unfold_locales (simp_all add: absorb_be8_block tail_be8_block)

section \<open>The variants agree\<close>

lemma hash_le_eq_ref: "hash_le p m len iv = hash_ref word_le (map m [0..<len]) iv"
  by (simp add: hash_le_def le32.run_eq_ref le16.run_eq_ref le8.run_eq_ref)

lemma hash_le_valgrind_eq_ref: "hash_le_valgrind p m len iv = hash_ref word_le (map m [0..<len]) iv"
  by (simp add: hash_le_valgrind_def le32_valgrind.run_eq_ref le16.run_eq_ref le8.run_eq_ref)

lemma hash_be_eq_ref: "hash_be p m len iv = hash_ref word_be (map m [0..<len]) iv"
  by (simp add: hash_be_def be32.run_eq_ref be8.run_eq_ref)

lemma hash_be_valgrind_eq_ref: "hash_be_valgrind p m len iv = hash_ref word_be (map m [0..<len]) iv"
  by (simp add: hash_be_valgrind_def be32_valgrind.run_eq_ref be8.run_eq_ref)

lemma hash_le_cong:
  assumes "\<And>i. i < len \<Longrightarrow> m i = m' i"
  shows "hash_le p m len iv = hash_le p' m' len iv"
proof -
  have "map m [0..<len] = map m' [0..<len]" using assms by simp
  then show ?thesis by (simp only: hash_le_eq_ref)
qed

section \<open>The mixing macros are reversible\<close>

definition unmix_line :: "nat \<Rightarrow> abc \<Rightarrow> abc" where
  "unmix_line k = (\<lambda>(x, y, z). let z = z - y; x = x XOR rot z k; x = x + z in (x, y, z))"

definition unmix :: "abc \<Rightarrow> abc" where
  "unmix = (\<lambda>(a, b, c).
     let (c, a, b) = unmix_line 4 (c, a, b);
         (b, c, a) = unmix_line 19 (b, c, a);
         (a, b, c) = unmix_line 16 (a, b, c);
         (c, a, b) = unmix_line 8 (c, a, b);
         (b, c, a) = unmix_line 6 (b, c, a);
         (a, b, c) = unmix_line 4 (a, b, c)
     in (a, b, c))"

lemma unmix_line_mix_line [simp]: "unmix_line k (mix_line k s) = s"
  by (cases s) (simp add: unmix_line_def mix_line_def Let_def xor.assoc)

lemma mix_line_unmix_line [simp]: "mix_line k (unmix_line k s) = s"
  by (cases s) (simp add: unmix_line_def mix_line_def Let_def xor.assoc)

text \<open>Rewriting one line against its inverse, under the rotations of the variables.\<close>

lemma unmix_mix [simp]: "unmix (mix s) = s"
proof -
  obtain a b c where s: "s = (a, b, c)" by (cases s)
  obtain a1 b1 c1 where 1: "mix_line 4 (a, b, c) = (a1, b1, c1)" by (cases "mix_line 4 (a, b, c)")
  obtain a2 b2 c2 where 2: "mix_line 6 (b1, c1, a1) = (b2, c2, a2)" by (cases "mix_line 6 (b1, c1, a1)")
  obtain a3 b3 c3 where 3: "mix_line 8 (c2, a2, b2) = (c3, a3, b3)" by (cases "mix_line 8 (c2, a2, b2)")
  obtain a4 b4 c4 where 4: "mix_line 16 (a3, b3, c3) = (a4, b4, c4)" by (cases "mix_line 16 (a3, b3, c3)")
  obtain a5 b5 c5 where 5: "mix_line 19 (b4, c4, a4) = (b5, c5, a5)" by (cases "mix_line 19 (b4, c4, a4)")
  obtain a6 b6 c6 where 6: "mix_line 4 (c5, a5, b5) = (c6, a6, b6)" by (cases "mix_line 4 (c5, a5, b5)")
  note inverse = unmix_line_mix_line [of 4 "(a, b, c)", unfolded 1]
    unmix_line_mix_line [of 6 "(b1, c1, a1)", unfolded 2] unmix_line_mix_line [of 8 "(c2, a2, b2)", unfolded 3]
    unmix_line_mix_line [of 16 "(a3, b3, c3)", unfolded 4] unmix_line_mix_line [of 19 "(b4, c4, a4)", unfolded 5]
    unmix_line_mix_line [of 4 "(c5, a5, b5)", unfolded 6]
  show ?thesis
    by (simp add: mix_def unmix_def s 1 2 3 4 5 6 inverse)
qed

lemma mix_unmix [simp]: "mix (unmix s) = s"
proof -
  obtain a b c where s: "s = (a, b, c)" by (cases s)
  obtain a1 b1 c1 where 1: "unmix_line 4 (c, a, b) = (c1, a1, b1)" by (cases "unmix_line 4 (c, a, b)")
  obtain a2 b2 c2 where 2: "unmix_line 19 (b1, c1, a1) = (b2, c2, a2)" by (cases "unmix_line 19 (b1, c1, a1)")
  obtain a3 b3 c3 where 3: "unmix_line 16 (a2, b2, c2) = (a3, b3, c3)" by (cases "unmix_line 16 (a2, b2, c2)")
  obtain a4 b4 c4 where 4: "unmix_line 8 (c3, a3, b3) = (c4, a4, b4)" by (cases "unmix_line 8 (c3, a3, b3)")
  obtain a5 b5 c5 where 5: "unmix_line 6 (b4, c4, a4) = (b5, c5, a5)" by (cases "unmix_line 6 (b4, c4, a4)")
  obtain a6 b6 c6 where 6: "unmix_line 4 (a5, b5, c5) = (a6, b6, c6)" by (cases "unmix_line 4 (a5, b5, c5)")
  note inverse = mix_line_unmix_line [of 4 "(c, a, b)", unfolded 1]
    mix_line_unmix_line [of 19 "(b1, c1, a1)", unfolded 2] mix_line_unmix_line [of 16 "(a2, b2, c2)", unfolded 3]
    mix_line_unmix_line [of 8 "(c3, a3, b3)", unfolded 4] mix_line_unmix_line [of 6 "(b4, c4, a4)", unfolded 5]
    mix_line_unmix_line [of 4 "(a5, b5, c5)", unfolded 6]
  show ?thesis
    by (simp add: mix_def unmix_def s 1 2 3 4 5 6 inverse)
qed

definition unfinal_line :: "nat \<Rightarrow> u32 \<Rightarrow> u32 \<Rightarrow> u32" where
  "unfinal_line k x y = (x + rot y k) XOR y"

lemma unfinal_final_line [simp]: "unfinal_line k (final_line k x y) y = x"
  by (simp add: unfinal_line_def final_line_def Let_def xor.assoc)

lemma final_unfinal_line [simp]: "final_line k (unfinal_line k x y) y = x"
  by (simp add: unfinal_line_def final_line_def Let_def xor.assoc)

definition unfinal :: "abc \<Rightarrow> abc" where
  "unfinal = (\<lambda>(a, b, c).
     let c = unfinal_line 24 c b;
         b = unfinal_line 14 b a;
         a = unfinal_line 4 a c;
         c = unfinal_line 16 c b;
         b = unfinal_line 25 b a;
         a = unfinal_line 11 a c;
         c = unfinal_line 14 c b
     in (a, b, c))"

lemma unfinal_final [simp]: "unfinal (final s) = s"
  by (cases s) (simp add: final_def unfinal_def Let_def)

lemma final_unfinal [simp]: "final (unfinal s) = s"
  by (cases s) (simp add: final_def unfinal_def Let_def)

section \<open>Properties\<close>

text \<open>
  C16: both builds of \<open>hash\<close>, with or without \<open>VALGRIND\<close>, are one function of the key's bytes: whatever
  the alignment of the key and whatever bytes lie behind it, the three loops of the little-endian
  build and the two of the big-endian one, with their switches, compute the reference on the list
  of the first \<open>len\<close> bytes; the two builds differ only in the order of the bytes in a word.
\<close>

theorem hash_is_reference:
  "hash_le p m len iv = hash_ref word_le (map m [0..<len]) iv
   \<and> hash_le_valgrind p m len iv = hash_ref word_le (map m [0..<len]) iv
   \<and> hash_be p m len iv = hash_ref word_be (map m [0..<len]) iv
   \<and> hash_be_valgrind p m len iv = hash_ref word_be (map m [0..<len]) iv"
  by (simp add: hash_le_eq_ref hash_le_valgrind_eq_ref hash_be_eq_ref hash_be_valgrind_eq_ref)

text \<open>
  \<open>mix\<close> and \<open>final\<close> are bijections of the three state words, so neither loses information:
  \<open>unmix\<close> and \<open>unfinal\<close> run their lines backwards.
\<close>

theorem mix_final_reversible:
  "unmix (mix s) = s \<and> mix (unmix s) = s \<and> unfinal (final s) = s \<and> final (unfinal s) = s"
  by simp

end
