(* ===== verification/Assoc.thy ===== *)
theory Assoc
  imports Lru Hash_Variants
begin

text \<open>
  The hash table of \<open>shmc.c\<close>: \<open>assoc_find\<close>, \<open>assoc_insert\<close> and \<open>assoc_delete\<close> over chains
  of \<open>h_next\<close> links. A key is hashed through whatever pointer the caller has: a caller's
  buffer or the key inside an item, so the placement of items relies on \<open>hash\<close> not
  depending on the alignment of the key.
\<close>

section \<open>The code\<close>

text \<open>\<open>hash(key, nkey, 0)\<close>; defined when the buffer has \<open>nkey\<close> bytes.\<close>

definition key_hash :: "buf \<Rightarrow> nat \<Rightarrow> u32 option" where
  "key_hash key nkey = do {
     guard (nkey \<le> length (buf_bytes key));
     Some (hash_le (buf_addr key) (buf_get key) nkey 0)
   }"

text \<open>\<open>hv % shmc->attr->nbuckets\<close>; a remainder by zero is undefined.\<close>

definition key_slot :: "shmc \<Rightarrow> buf \<Rightarrow> nat \<Rightarrow> nat option" where
  "key_slot s key nkey = do {
     hv \<leftarrow> key_hash key nkey;
     guard (nbuckets (attrs s) \<noteq> 0);
     Some (unat hv mod nbuckets (attrs s))
   }"

text \<open>\<open>item->nkey == nkey && memcmp(key, item->key, nkey) == 0\<close>.\<close>

definition key_matches :: "buf \<Rightarrow> nat \<Rightarrow> item \<Rightarrow> bool option" where
  "key_matches key nkey it =
     (if it_nkey it = nkey then do {
        x \<leftarrow> mem_load (buf_bytes key) 0 nkey;
        y \<leftarrow> mem_load (it_end it) (it_key it) nkey;
        Some (x = y)
      } else Some False)"

partial_function (option) assoc_find_loop ::
  "buf \<Rightarrow> nat \<Rightarrow> shmc \<Rightarrow> addr \<Rightarrow> nat \<Rightarrow> (addr \<times> shmc) option" where
  "assoc_find_loop key nkey s a depth =
     (if a \<noteq> 0 then do {
        let depth = Suc depth;
        let s = (if depth > max_depth (attrs s) then upd_attr s (max_depth_update (\<lambda>_. depth)) else s);
        it \<leftarrow> get_item s a;
        m \<leftarrow> key_matches key nkey it;
        if m then Some (a, s) else assoc_find_loop key nkey s (it_hnext it) depth
      } else Some (0, s))"

definition assoc_find :: "shmc \<Rightarrow> buf \<Rightarrow> nat \<Rightarrow> (addr \<times> shmc) option" where
  "assoc_find s key nkey = do {
     slot \<leftarrow> key_slot s key nkey;
     a \<leftarrow> read_at (buckets s) slot;
     assoc_find_loop key nkey s a 0
   }"

definition assoc_insert :: "shmc \<Rightarrow> buf \<Rightarrow> nat \<Rightarrow> addr \<Rightarrow> shmc option" where
  "assoc_insert s key nkey a = do {
     let s = upd_attr s (nitems_update Suc);
     slot \<leftarrow> key_slot s key nkey;
     h \<leftarrow> read_at (buckets s) slot;
     s \<leftarrow> put_item s a (it_hnext_update (\<lambda>_. h));
     put_bucket s slot a
   }"

text \<open>
  The \<open>shmc_item_t **item\<close> of \<open>assoc_delete\<close>: the address of a bucket or of the \<open>h_next\<close>
  field of an item.
\<close>

datatype link_ref = Bucket nat | HNext addr

definition read_ref :: "shmc \<Rightarrow> link_ref \<Rightarrow> addr option" where
  "read_ref s r = (case r of Bucket b \<Rightarrow> read_at (buckets s) b | HNext a \<Rightarrow> map_option it_hnext (get_item s a))"

definition write_ref :: "shmc \<Rightarrow> link_ref \<Rightarrow> addr \<Rightarrow> shmc option" where
  "write_ref s r v = (case r of Bucket b \<Rightarrow> put_bucket s b v | HNext a \<Rightarrow> put_item s a (it_hnext_update (\<lambda>_. v)))"

partial_function (option) assoc_delete_loop :: "buf \<Rightarrow> nat \<Rightarrow> shmc \<Rightarrow> link_ref \<Rightarrow> shmc option" where
  "assoc_delete_loop key nkey s r = do {
     a \<leftarrow> read_ref s r;
     if a \<noteq> 0 then do {
       it \<leftarrow> get_item s a;
       m \<leftarrow> key_matches key nkey it;
       if m then do {
         guard (nitems (attrs s) \<noteq> 0);
         let s = upd_attr s (nitems_update (\<lambda>n. n - 1));
         s \<leftarrow> put_item s a (it_hnext_update (\<lambda>_. 0));
         write_ref s r (it_hnext it)
       } else assoc_delete_loop key nkey s (HNext a)
     } else Some s
   }"

definition assoc_delete :: "shmc \<Rightarrow> buf \<Rightarrow> nat \<Rightarrow> shmc option" where
  "assoc_delete s key nkey = do {
     slot \<leftarrow> key_slot s key nkey;
     assoc_delete_loop key nkey s (Bucket slot)
   }"

section \<open>Keys, slots and chains\<close>

text \<open>The key an item holds, as part of its data.\<close>

definition key_at :: "shmc \<Rightarrow> addr \<Rightarrow> byte list option" where
  "key_at s a = do { it \<leftarrow> dat s a; mem_load (it_end it) (it_key it) (it_nkey it) }"

definition buf_key :: "buf \<Rightarrow> nat \<Rightarrow> byte list" where
  "buf_key key nkey = take nkey (buf_bytes key)"

text \<open>The slot of a key as a function of its bytes: where every pointer to it leads.\<close>

definition slot_of :: "nat \<Rightarrow> byte list \<Rightarrow> nat" where
  "slot_of n k = unat (hash_ref word_le k 0) mod n"

lemma map_buf_get: "n \<le> length (buf_bytes b) \<Longrightarrow> map (buf_get b) [0..<n] = take n (buf_bytes b)"
  by (rule nth_equalityI) (simp_all add: buf_get_def)

lemma key_slot_eq:
  "nkey \<le> length (buf_bytes key) \<Longrightarrow> nbuckets (attrs s) \<noteq> 0 \<Longrightarrow>
     key_slot s key nkey = Some (slot_of (nbuckets (attrs s)) (buf_key key nkey))"
  by (simp add: key_slot_def key_hash_def hash_le_eq_ref map_buf_get slot_of_def buf_key_def)

lemma slot_of_less: "0 < n \<Longrightarrow> slot_of n k < n"
  by (simp add: slot_of_def)

lemma key_matches_eq:
  assumes "heap s a = Some it" and "key_at s a = Some k" and "nkey \<le> length (buf_bytes key)"
  shows "key_matches key nkey it = Some (k = buf_key key nkey)"
proof -
  have k: "mem_load (it_end it) (it_key it) (it_nkey it) = Some k"
    using assms(1,2) by (simp add: key_at_def dat_def)
  then have "length k = it_nkey it" by (auto simp: mem_load_eq_Some)
  with k assms(3) show ?thesis by (auto simp: key_matches_def buf_key_def)
qed

lemma key_at_dat: "dat s' = dat s \<Longrightarrow> key_at s' = key_at s"
  by (simp add: key_at_def fun_eq_iff)

definition bucket_list :: "shmc \<Rightarrow> nat \<Rightarrow> addr list \<Rightarrow> bool" where
  "bucket_list s b xs \<longleftrightarrow> b < length (buckets s) \<and> set xs \<subseteq> dom (heap s) \<and> chain (hnx s) (buckets s ! b) xs"

text \<open>
  \<open>hash_frame s s' b S\<close>: from \<open>s\<close> to \<open>s'\<close> only bucket \<open>b\<close>, the \<open>h_next\<close> links of the items
  in \<open>S\<close> and the counters \<open>nitems\<close> and \<open>max_depth\<close> may differ.
\<close>

definition counters_only :: "attr \<Rightarrow> attr \<Rightarrow> bool" where
  "counters_only a a' \<longleftrightarrow> a' = a\<lparr>nitems := nitems a', max_depth := max_depth a'\<rparr>"

definition hash_frame :: "shmc \<Rightarrow> shmc \<Rightarrow> nat \<Rightarrow> addr set \<Rightarrow> bool" where
  "hash_frame s s' b S \<longleftrightarrow>
     base s' = base s \<and> heads s' = heads s \<and> tails s' = tails s \<and> slabs s' = slabs s \<and> raw s' = raw s
     \<and> dat s' = dat s \<and> nxt s' = nxt s \<and> prv s' = prv s \<and> counters_only (attrs s) (attrs s')
     \<and> (\<forall>a. a \<notin> S \<longrightarrow> hnx s' a = hnx s a)
     \<and> length (buckets s') = length (buckets s) \<and> (\<forall>d. d \<noteq> b \<longrightarrow> buckets s' ! d = buckets s ! d)"

lemma bucket_list_frame:
  assumes "bucket_list s d xs" and "hash_frame s s' b S" and "d \<noteq> b" and "set xs \<inter> S = {}"
  shows "bucket_list s' d xs"
proof -
  have "dom (heap s') = dom (heap s)" using assms(2) dat_dom [of s' s] by (simp add: hash_frame_def)
  moreover have "chain (hnx s') x xs = chain (hnx s) x xs" for x
    using assms(2,4) by (intro chain_cong) (auto simp: hash_frame_def)
  ultimately show ?thesis using assms by (simp add: bucket_list_def hash_frame_def)
qed

section \<open>Searching a chain\<close>

text \<open>The items a search visits: those before the first match, and the match.\<close>

fun probes :: "('a \<Rightarrow> bool) \<Rightarrow> 'a list \<Rightarrow> nat" where
  "probes P [] = 0"
| "probes P (x # xs) = (if P x then 1 else Suc (probes P xs))"

lemma probes_le: "probes P xs \<le> length xs"
  by (induction xs) auto

text \<open>Every item of the list has a readable key.\<close>

definition keyed :: "shmc \<Rightarrow> addr list \<Rightarrow> bool" where
  "keyed s xs \<longleftrightarrow> (\<forall>a \<in> set xs. key_at s a \<noteq> None)"

definition has_key :: "shmc \<Rightarrow> byte list \<Rightarrow> addr \<Rightarrow> bool" where
  "has_key s k a \<longleftrightarrow> key_at s a = Some k"

lemma keyed_heap: "keyed s (a # xs) \<Longrightarrow> \<exists>it k. heap s a = Some it \<and> key_at s a = Some k"
  by (cases "heap s a") (auto simp: keyed_def key_at_def dat_def)

definition with_depth :: "shmc \<Rightarrow> nat \<Rightarrow> shmc" where
  "with_depth s d = upd_attr s (max_depth_update (\<lambda>m. max m d))"

lemma with_depth_simps [simp]:
  "heap (with_depth s d) = heap s" "buckets (with_depth s d) = buckets s" "hnx (with_depth s d) = hnx s"
  "heads (with_depth s d) = heads s" "tails (with_depth s d) = tails s" "slabs (with_depth s d) = slabs s"
  "nxt (with_depth s d) = nxt s" "prv (with_depth s d) = prv s" "dat (with_depth s d) = dat s"
  "base (with_depth s d) = base s" "raw (with_depth s d) = raw s"
  "attrs (with_depth s d) = (attrs s)\<lparr>max_depth := max (max_depth (attrs s)) d\<rparr>"
  by (simp_all add: with_depth_def)

lemma with_depth_with_depth [simp]: "with_depth (with_depth s d) e = with_depth s (max d e)"
  by (simp add: with_depth_def max.assoc)

lemma with_depth_same: "d \<le> max_depth (attrs s) \<Longrightarrow> with_depth s d = s"
  by (simp add: with_depth_def max_def)

lemma keyed_with_depth [simp]: "keyed (with_depth s d) = keyed s" "has_key (with_depth s d) = has_key s"
  by (simp_all add: keyed_def has_key_def key_at_def fun_eq_iff)

lemma assoc_find_loop_chain:
  assumes "chain (hnx s) a xs" and "keyed s xs" and "nkey \<le> length (buf_bytes key)"
    and "d \<le> max_depth (attrs s)"
  shows "assoc_find_loop key nkey s a d =
    Some (case find (has_key s (buf_key key nkey)) xs of None \<Rightarrow> 0 | Some x \<Rightarrow> x,
          with_depth s (d + probes (has_key s (buf_key key nkey)) xs))"
  using assms
proof (induction xs arbitrary: a d s)
  case Nil
  then show ?case by (simp add: assoc_find_loop.simps with_depth_same)
next
  case (Cons x xs)
  let ?k = "buf_key key nkey"
  obtain it k where it: "heap s x = Some it" "key_at s x = Some k"
    using Cons.prems(2) keyed_heap by blast
  have x: "a = x" "x \<noteq> 0" "chain (hnx s) (hnx s x) xs" using Cons.prems(1) by auto
  have m: "key_matches key nkey it = Some (has_key s ?k x)"
    using key_matches_eq [OF it Cons.prems(3)] it(2) by (simp add: has_key_def)
  have s1: "(if Suc d > max_depth (attrs s) then upd_attr s (max_depth_update (\<lambda>_. Suc d)) else s)
      = with_depth s (Suc d)"
    using Cons.prems(4) by (simp add: with_depth_def max_def)
  have run: "assoc_find_loop key nkey s x d =
      (if has_key s ?k x then Some (x, with_depth s (Suc d))
       else assoc_find_loop key nkey (with_depth s (Suc d)) (hnx s x) (Suc d))"
    using it(1) x(2) by (subst assoc_find_loop.simps)
      (simp add: Let_def s1 m link_of_heap(3) [symmetric] flip: neq0_conv)
  show ?case
  proof (cases "has_key s ?k x")
    case True
    then show ?thesis by (simp add: run x(1))
  next
    case False
    have "assoc_find_loop key nkey (with_depth s (Suc d)) (hnx s x) (Suc d) =
      Some (case find (has_key s ?k) xs of None \<Rightarrow> 0 | Some y \<Rightarrow> y,
        with_depth (with_depth s (Suc d)) (Suc d + probes (has_key s ?k) xs))"
      using Cons.IH [of "with_depth s (Suc d)" "hnx s x" "Suc d"] Cons.prems x(3)
      by (simp add: keyed_def)
    with False show ?thesis by (simp add: run x(1) max_def)
  qed
qed

section \<open>What the table operations do and leave alone\<close>

lemma bucket_list_with_depth [simp]: "bucket_list (with_depth s d) = bucket_list s"
  by (simp add: bucket_list_def fun_eq_iff)

lemma hash_frame_with_depth: "hash_frame s (with_depth s d) b S"
  by (simp add: hash_frame_def counters_only_def)

lemma assoc_find_spec:
  assumes "bucket_list s b xs" and "keyed s xs" and "nkey \<le> length (buf_bytes key)"
    and "b = slot_of (nbuckets (attrs s)) (buf_key key nkey)" and "nbuckets (attrs s) \<noteq> 0"
  shows "assoc_find s key nkey =
    Some (case find (has_key s (buf_key key nkey)) xs of None \<Rightarrow> 0 | Some x \<Rightarrow> x,
          with_depth s (probes (has_key s (buf_key key nkey)) xs))"
  using assms assoc_find_loop_chain [of s "buckets s ! b" xs nkey key 0]
  by (simp add: assoc_find_def key_slot_eq bucket_list_def)

lemma assoc_insert_spec:
  assumes l: "bucket_list s b xs" and n: "nkey \<le> length (buf_bytes key)"
    and b: "b = slot_of (nbuckets (attrs s)) (buf_key key nkey)" "nbuckets (attrs s) \<noteq> 0"
    and a: "a \<in> dom (heap s)" "a \<notin> set xs" "a \<noteq> 0"
  shows "\<exists>s'. assoc_insert s key nkey a = Some s' \<and> bucket_list s' b (a # xs)
    \<and> hash_frame s s' b {a} \<and> nitems (attrs s') = Suc (nitems (attrs s))"
proof -
  define s1 where "s1 = upd_attr s (nitems_update Suc)"
  define h where "h = buckets s ! b"
  define s2 where "s2 = upd_item s1 a (it_hnext_update (\<lambda>_. h))"
  define s3 where "s3 = s2\<lparr>buckets := (buckets s2)[b := a]\<rparr>"
  note defs = s3_def s2_def s1_def
  have bl: "b < length (buckets s)" using l by (simp add: bucket_list_def)
  have steps: "key_slot s1 key nkey = Some b" "read_at (buckets s1) b = Some h"
    "put_item s1 a (it_hnext_update (\<lambda>_. h)) = Some s2" "put_bucket s2 b a = Some s3"
    using n b a(1) bl by (simp_all add: key_slot_eq s1_def s2_def s3_def h_def)
  have run: "assoc_insert s key nkey a = Some s3"
    by (simp only: assoc_insert_def Let_def s1_def [symmetric] steps Option.bind.simps)
  have links: "hnx s3 = (hnx s)(a := h)" "nxt s3 = nxt s" "prv s3 = prv s" "dat s3 = dat s"
    using a(1) by (simp_all add: defs state_simps)
  have rest: "buckets s3 = (buckets s)[b := a]" "heads s3 = heads s" "tails s3 = tails s" "base s3 = base s"
    "slabs s3 = slabs s" "raw s3 = raw s" "attrs s3 = nitems_update Suc (attrs s)"
    "dom (heap s3) = dom (heap s)"
    by (simp_all add: defs)
  have "bucket_list s3 b (a # xs)"
    using l a bl by (simp add: bucket_list_def links rest h_def)
  moreover have "hash_frame s s3 b {a}"
    by (simp add: hash_frame_def counters_only_def links rest)
  ultimately show ?thesis using run rest(7) by auto
qed

text \<open>
  \<open>assoc_delete\<close> at a reference \<open>r\<close> into the chain: the bucket, or the last item of the part
  already walked.
\<close>

definition ref_at :: "nat \<Rightarrow> addr list \<Rightarrow> link_ref" where
  "ref_at b us = (if us = [] then Bucket b else HNext (last us))"

lemma read_ref_at:
  assumes "bucket_list s b (us @ vs)"
  shows "read_ref s (ref_at b us) = Some (case vs of [] \<Rightarrow> 0 | v # _ \<Rightarrow> v)"
proof (cases us rule: rev_cases)
  case Nil
  then show ?thesis using assms by (auto simp: ref_at_def read_ref_def bucket_list_def dest: chain_head)
next
  case (snoc us' p)
  then have "chain (hnx s) (hnx s p) vs" "p \<in> dom (heap s)"
    using assms by (auto simp: bucket_list_def chain_append)
  then show ?thesis
    using snoc by (auto simp: ref_at_def read_ref_def hnx_def dest: chain_head)
qed

lemma delete_match:
  assumes l: "bucket_list s b (us @ x # vs)"
  shows "\<exists>s2 s3. put_item s x (it_hnext_update (\<lambda>_. 0)) = Some s2 \<and> write_ref s2 (ref_at b us) (hnx s x) = Some s3
    \<and> bucket_list s3 b (us @ vs) \<and> hash_frame s s3 b (insert x (set us)) \<and> attrs s3 = attrs s"
proof -
  have bl: "b < length (buckets s)" and x: "x \<in> dom (heap s)"
    and c: "chain (hnx s) (buckets s ! b) (us @ x # vs)"
    using l by (auto simp: bucket_list_def)
  have d: "distinct (us @ x # vs)" using c by (rule chain_distinct)
  define s2 where "s2 = upd_item s x (it_hnext_update (\<lambda>_. 0))"
  define s3 where "s3 = (if us = [] then s2\<lparr>buckets := (buckets s2)[b := hnx s x]\<rparr>
    else upd_item s2 (last us) (it_hnext_update (\<lambda>_. hnx s x)))"
  have "set us \<subseteq> dom (heap s)" using l by (simp add: bucket_list_def)
  then have us: "us \<noteq> [] \<Longrightarrow> last us \<in> dom (heap s) \<and> last us \<noteq> x"
    using last_in_set [of us] d by (metis distinct_append disjoint_iff list.set_intros(1) subsetD)
  have runs: "put_item s x (it_hnext_update (\<lambda>_. 0)) = Some s2"
    "write_ref s2 (ref_at b us) (hnx s x) = Some s3"
    using x us bl by (simp_all add: s2_def s3_def write_ref_def ref_at_def)
  have links: "hnx s3 = (if us = [] then (hnx s)(x := 0) else (hnx s)(x := 0, last us := hnx s x))"
    "nxt s3 = nxt s" "prv s3 = prv s" "dat s3 = dat s"
    using x us by (simp_all add: s2_def s3_def state_simps)
  have rest: "buckets s3 = (if us = [] then (buckets s)[b := hnx s x] else buckets s)"
    "heads s3 = heads s" "tails s3 = tails s" "base s3 = base s" "slabs s3 = slabs s" "raw s3 = raw s"
    "attrs s3 = attrs s" "dom (heap s3) = dom (heap s)"
    by (simp_all add: s2_def s3_def)
  have "chain (hnx s3) (buckets s3 ! b) (us @ vs)"
  proof (cases us rule: rev_cases)
    case Nil
    then show ?thesis using c d bl by (simp add: links rest)
  next
    case (snoc us' p)
    have "chain ((hnx s)(p := hnx s x)) (buckets s ! b) (us' @ p # vs)"
      using chain_remove_mid [of "hnx s" "buckets s ! b" us' p x vs] c snoc by simp
    moreover have "x \<notin> set (us' @ p # vs)" "x \<noteq> p" using snoc d by auto
    ultimately have "chain ((hnx s)(p := hnx s x, x := 0)) (buckets s ! b) (us' @ p # vs)" by simp
    then show ?thesis using snoc \<open>x \<noteq> p\<close> by (simp add: links rest fun_upd_twist [of x p])
  qed
  then have "bucket_list s3 b (us @ vs)" using l by (simp add: bucket_list_def rest)
  moreover have "hash_frame s s3 b (insert x (set us))"
    by (auto simp: hash_frame_def counters_only_def links rest)
  ultimately show ?thesis using runs rest(7) by blast
qed

lemma hash_frame_mono: "hash_frame s s' b S \<Longrightarrow> S \<subseteq> T \<Longrightarrow> hash_frame s s' b T"
  by (auto simp: hash_frame_def)

lemma bucket_list_attr [simp]:
  "bucket_list (s\<lparr>attrs := x\<rparr>) = bucket_list s" "keyed (s\<lparr>attrs := x\<rparr>) = keyed s"
  "has_key (s\<lparr>attrs := x\<rparr>) = has_key s"
  by (simp_all add: bucket_list_def keyed_def has_key_def key_at_def fun_eq_iff)

lemma assoc_delete_loop_chain:
  assumes "bucket_list s b (us @ vs)" and "keyed s vs" and "nkey \<le> length (buf_bytes key)"
    and "nitems (attrs s) \<noteq> 0"
  shows "case find (has_key s (buf_key key nkey)) vs of
      None \<Rightarrow> assoc_delete_loop key nkey s (ref_at b us) = Some s
    | Some x \<Rightarrow> \<exists>s'. assoc_delete_loop key nkey s (ref_at b us) = Some s' \<and> bucket_list s' b (us @ remove1 x vs)
        \<and> hash_frame s s' b (set (us @ vs)) \<and> nitems (attrs s') = nitems (attrs s) - 1"
  using assms
proof (induction vs arbitrary: us)
  case Nil
  have "read_ref s (ref_at b us) = Some 0" using read_ref_at [OF Nil(1)] by simp
  then show ?case by (simp add: assoc_delete_loop.simps)
next
  case (Cons x vs)
  let ?k = "buf_key key nkey"
  obtain it k where it: "heap s x = Some it" "key_at s x = Some k"
    using Cons.prems(2) keyed_heap by blast
  have r: "read_ref s (ref_at b us) = Some x" using read_ref_at [OF Cons.prems(1)] by simp
  have x: "x \<noteq> 0" using Cons.prems(1) by (auto simp: bucket_list_def chain_append)
  have m: "key_matches key nkey it = Some (has_key s ?k x)"
    using key_matches_eq [OF it Cons.prems(3)] it(2) by (simp add: has_key_def)
  define s1 where "s1 = upd_attr s (nitems_update (\<lambda>n. n - 1))"
  have run: "assoc_delete_loop key nkey s (ref_at b us) =
      (if has_key s ?k x then do {
         s2 \<leftarrow> put_item s1 x (it_hnext_update (\<lambda>_. 0)); write_ref s2 (ref_at b us) (hnx s x) }
       else assoc_delete_loop key nkey s (HNext x))"
    using it(1) x Cons.prems(4)
    by (subst assoc_delete_loop.simps)
      (simp add: r m s1_def link_of_heap(3) [symmetric] flip: neq0_conv)
  show ?case
  proof (cases "has_key s ?k x")
    case True
    have "bucket_list s1 b (us @ x # vs)" using Cons.prems(1) by (simp add: s1_def)
    from delete_match [OF this] obtain s2 s3 where d:
      "put_item s1 x (it_hnext_update (\<lambda>_. 0)) = Some s2" "write_ref s2 (ref_at b us) (hnx s1 x) = Some s3"
      "bucket_list s3 b (us @ vs)" "hash_frame s1 s3 b (insert x (set us))" "attrs s3 = attrs s1"
      by blast
    have "hash_frame s s3 b (set (us @ x # vs))"
      using d(4,5) by (auto simp: hash_frame_def s1_def counters_only_def)
    then show ?thesis using True d by (simp add: run s1_def)
  next
    case False
    have "ref_at b (us @ [x]) = HNext x" by (simp add: ref_at_def)
    then show ?thesis
      using Cons.IH [of "us @ [x]"] Cons.prems False
      by (auto simp: run keyed_def split: option.splits dest: find_SomeD)
  qed
qed

lemma assoc_delete_spec:
  assumes "bucket_list s b xs" and "keyed s xs" and "nkey \<le> length (buf_bytes key)"
    and "b = slot_of (nbuckets (attrs s)) (buf_key key nkey)" and "nbuckets (attrs s) \<noteq> 0"
    and "nitems (attrs s) \<noteq> 0" and "find (has_key s (buf_key key nkey)) xs = Some x"
  shows "\<exists>s'. assoc_delete s key nkey = Some s' \<and> bucket_list s' b (remove1 x xs)
    \<and> hash_frame s s' b (set xs) \<and> nitems (attrs s') = nitems (attrs s) - 1"
  using assms assoc_delete_loop_chain [of s b "[]" xs nkey key]
  by (simp add: assoc_delete_def key_slot_eq ref_at_def)

text \<open>Deleting a key no item of the chain has changes nothing.\<close>

lemma assoc_delete_absent:
  assumes l: "bucket_list s b xs" and k: "keyed s xs" and n: "nkey \<le> length (buf_bytes key)"
    and b: "b = slot_of (nbuckets (attrs s)) (buf_key key nkey)" "nbuckets (attrs s) \<noteq> 0"
    and f: "find (has_key s (buf_key key nkey)) xs = None"
  shows "assoc_delete s key nkey = Some s"
proof -
  have "assoc_delete_loop key nkey s (ref_at b us) = Some s"
    if "bucket_list s b (us @ vs)" "keyed s vs" "find (has_key s (buf_key key nkey)) vs = None" for us vs
    using that
  proof (induction vs arbitrary: us)
    case Nil
    have "read_ref s (ref_at b us) = Some 0" using read_ref_at [OF Nil(1)] by simp
    then show ?case by (simp add: assoc_delete_loop.simps)
  next
    case (Cons x vs)
    obtain it kk where it: "heap s x = Some it" "key_at s x = Some kk"
      using Cons.prems(2) keyed_heap by blast
    have r: "read_ref s (ref_at b us) = Some x" using read_ref_at [OF Cons.prems(1)] by simp
    have x: "x \<noteq> 0" using Cons.prems(1) by (auto simp: bucket_list_def chain_append)
    have m: "key_matches key nkey it = Some False"
      using key_matches_eq [OF it n] it(2) Cons.prems(3) by (simp add: has_key_def split: if_splits)
    have "assoc_delete_loop key nkey s (ref_at b us) = assoc_delete_loop key nkey s (HNext x)"
      using it(1) x by (subst assoc_delete_loop.simps) (simp add: r m flip: neq0_conv)
    also have "\<dots> = Some s"
      using Cons.IH [of "us @ [x]"] Cons.prems by (simp add: keyed_def ref_at_def split: if_splits)
    finally show ?case .
  qed
  from this [of "[]" xs] l k f show ?thesis
    using n b by (simp add: assoc_delete_def key_slot_eq ref_at_def)
qed

end
