(* ===== verification/Layout.thy ===== *)
theory Layout
  imports Assoc
begin

text \<open>
  The shape of a formatted segment. A \<open>ghost\<close> names the lists the links spell out: per class
  the LRU list and the free list, per bucket its chain. \<open>layout s g D\<close> says that the state
  has exactly these lists, that every chunk is in one LRU list, in one free list or in the set
  \<open>D\<close> of chunks an operation holds, and that a chunk stays in the class it was cut for.
  Each elementary operation of the code is a step from one layout to another.
\<close>

record ghost =
  g_lru :: "nat \<Rightarrow> addr list"
  g_free :: "nat \<Rightarrow> addr list"
  g_bkt :: "nat \<Rightarrow> addr list"

definition free_list :: "shmc \<Rightarrow> nat \<Rightarrow> addr list \<Rightarrow> bool" where
  "free_list s c xs \<longleftrightarrow> c < length (slabs s) \<and> set xs \<subseteq> dom (heap s)
     \<and> chain (nxt s) (free_item (slabs s ! c)) xs"

text \<open>The size of the chunk an item lives in.\<close>

definition csize :: "shmc \<Rightarrow> addr \<Rightarrow> nat option" where
  "csize s a = map_option (\<lambda>it. sizeof_item + length (it_end it)) (dat s a)"

text \<open>What no operation after \<open>shmc_init\<close> changes.\<close>

record conf =
  cf_base :: nat
  cf_raw :: addr
  cf_sizes :: "nat list"
  cf_counts :: "nat list"
  cf_attr :: attr

definition conf_of :: "shmc \<Rightarrow> conf" where
  "conf_of s = \<lparr>cf_base = base s, cf_raw = raw s, cf_sizes = map slab_size (slabs s),
     cf_counts = map slab_count (slabs s),
     cf_attr = (attrs s)\<lparr>mem_used := 0, max_depth := 0, nitems := 0\<rparr>\<rparr>"

definition layout :: "shmc \<Rightarrow> ghost \<Rightarrow> addr set \<Rightarrow> bool" where
  "layout s g D \<longleftrightarrow>
     length (heads s) = length (slabs s) \<and> length (tails s) = length (slabs s)
     \<and> length (buckets s) = nbuckets (attrs s) \<and> nbuckets (attrs s) \<noteq> 0
     \<and> sorted_wrt (<) (map slab_size (slabs s))
     \<and> (\<forall>c < length (slabs s). lru_list s c (g_lru g c))
     \<and> (\<forall>c < length (slabs s). free_list s c (g_free g c))
     \<and> (\<forall>b < nbuckets (attrs s). bucket_list s b (g_bkt g b))
     \<and> (\<forall>c < length (slabs s). \<forall>a \<in> set (g_lru g c) \<union> set (g_free g c). csize s a = Some (slab_size (slabs s ! c)))
     \<and> (\<forall>c < length (slabs s). \<forall>a \<in> set (g_lru g c). clsid_at s a = Some c)
     \<and> (\<forall>c. set (g_lru g c) \<inter> set (g_free g c) = {})
     \<and> (\<forall>c. D \<inter> (set (g_lru g c) \<union> set (g_free g c)) = {})
     \<and> (\<forall>c. length (slabs s) \<le> c \<longrightarrow> g_lru g c = [] \<and> g_free g c = [])
     \<and> (\<forall>b. nbuckets (attrs s) \<le> b \<longrightarrow> g_bkt g b = [])
     \<and> dom (heap s) = (\<Union>c. set (g_lru g c)) \<union> (\<Union>c. set (g_free g c)) \<union> D
     \<and> 0 \<notin> dom (heap s)"

section \<open>Reading a layout\<close>

lemma layout_conjuncts:
  "layout s g D \<Longrightarrow> length (heads s) = length (slabs s)"
  "layout s g D \<Longrightarrow> length (tails s) = length (slabs s)"
  "layout s g D \<Longrightarrow> length (buckets s) = nbuckets (attrs s)"
  "layout s g D \<Longrightarrow> nbuckets (attrs s) \<noteq> 0"
  "layout s g D \<Longrightarrow> sorted_wrt (<) (map slab_size (slabs s))"
  "layout s g D \<Longrightarrow> \<forall>c < length (slabs s). lru_list s c (g_lru g c)"
  "layout s g D \<Longrightarrow> \<forall>c < length (slabs s). free_list s c (g_free g c)"
  "layout s g D \<Longrightarrow> \<forall>b < nbuckets (attrs s). bucket_list s b (g_bkt g b)"
  "layout s g D \<Longrightarrow> \<forall>c < length (slabs s). \<forall>a \<in> set (g_lru g c) \<union> set (g_free g c). csize s a = Some (slab_size (slabs s ! c))"
  "layout s g D \<Longrightarrow> \<forall>c < length (slabs s). \<forall>a \<in> set (g_lru g c). clsid_at s a = Some c"
  "layout s g D \<Longrightarrow> \<forall>c. set (g_lru g c) \<inter> set (g_free g c) = {}"
  "layout s g D \<Longrightarrow> \<forall>c. D \<inter> (set (g_lru g c) \<union> set (g_free g c)) = {}"
  "layout s g D \<Longrightarrow> \<forall>c. length (slabs s) \<le> c \<longrightarrow> g_lru g c = [] \<and> g_free g c = []"
  "layout s g D \<Longrightarrow> \<forall>b. nbuckets (attrs s) \<le> b \<longrightarrow> g_bkt g b = []"
  "layout s g D \<Longrightarrow> dom (heap s) = (\<Union>c. set (g_lru g c)) \<union> (\<Union>c. set (g_free g c)) \<union> D"
  "layout s g D \<Longrightarrow> 0 \<notin> dom (heap s)"
  unfolding layout_def by (elim conjE, assumption)+

lemma layoutD:
  assumes "layout s g D"
  shows "c < length (slabs s) \<Longrightarrow> lru_list s c (g_lru g c)"
    "c < length (slabs s) \<Longrightarrow> free_list s c (g_free g c)"
    "b < nbuckets (attrs s) \<Longrightarrow> bucket_list s b (g_bkt g b)"
    "set (g_lru g c) \<inter> set (g_free g c) = {}" "D \<inter> (set (g_lru g c) \<union> set (g_free g c)) = {}"
    "length (slabs s) \<le> c \<Longrightarrow> g_lru g c = [] \<and> g_free g c = []"
    "nbuckets (attrs s) \<le> b \<Longrightarrow> g_bkt g b = []"
  using layout_conjuncts(6-8,11-14) [OF assms] by simp_all

lemma layout_class:
  assumes "layout s g D" and "a \<in> set (g_lru g c) \<union> set (g_free g c)"
  shows "c < length (slabs s)" "csize s a = Some (slab_size (slabs s ! c))" "a \<in> dom (heap s)"
proof -
  show c: "c < length (slabs s)" using layoutD(6) [OF assms(1), of c] assms(2) by (cases "c < length (slabs s)") auto
  show "csize s a = Some (slab_size (slabs s ! c))" using assms(2) c layout_conjuncts(9) [OF assms(1)] by blast
  show "a \<in> dom (heap s)" using assms(2) layout_conjuncts(15) [OF assms(1)] by blast
qed

lemma layout_lru_class: "layout s g D \<Longrightarrow> a \<in> set (g_lru g c) \<Longrightarrow> clsid_at s a = Some c"
  using layout_class(1) [of s g D a c] layout_conjuncts(10) [of s g D] by blast

text \<open>Chunks of different classes have different sizes, so no chunk is in lists of two classes.\<close>

lemma sizes_inj:
  assumes "layout s g D" and "c < length (slabs s)" and "d < length (slabs s)"
    and "slab_size (slabs s ! c) = slab_size (slabs s ! d)"
  shows "c = d"
proof -
  have "distinct (map slab_size (slabs s))"
    using layout_conjuncts(5) [OF assms(1)] strict_sorted_iff by blast
  with assms show ?thesis by (simp add: distinct_conv_nth) blast
qed

lemma layout_class_unique:
  assumes "layout s g D" and "a \<in> set (g_lru g c) \<union> set (g_free g c)"
    and "a \<in> set (g_lru g d) \<union> set (g_free g d)"
  shows "c = d"
proof -
  have "slab_size (slabs s ! c) = slab_size (slabs s ! d)"
    using layout_class(2) [OF assms(1,2)] layout_class(2) [OF assms(1,3)] by simp
  then show ?thesis
    using sizes_inj [OF assms(1)] layout_class(1) [OF assms(1,2)] layout_class(1) [OF assms(1,3)] by blast
qed

lemma layout_disjoint:
  assumes "layout s g D" and "c \<noteq> d"
  shows "set (g_lru g c) \<inter> set (g_lru g d) = {}" "set (g_free g c) \<inter> set (g_free g d) = {}"
    "set (g_lru g c) \<inter> set (g_free g d) = {}"
  using assms(2) layout_class_unique [OF assms(1)] by blast+

lemma layout_lru_free: "layout s g D \<Longrightarrow> set (g_lru g c) \<inter> set (g_free g d) = {}"
  using layout_disjoint(3) [of s g D c d] layoutD(4) [of s g D c] by (cases "c = d") auto

lemma csize_dat: "dat s' = dat s \<Longrightarrow> csize s' = csize s"
  by (simp add: csize_def fun_eq_iff)

lemma clsid_at_dat: "dat s' = dat s \<Longrightarrow> clsid_at s' = clsid_at s"
  by (simp add: clsid_at_def fun_eq_iff)

section \<open>Static configuration\<close>

lemma conf_ofD:
  assumes "conf_of s' = conf_of s"
  shows "base s' = base s" "raw s' = raw s" "length (slabs s') = length (slabs s)"
    "map slab_size (slabs s') = map slab_size (slabs s)" "map slab_count (slabs s') = map slab_count (slabs s)"
    "nbuckets (attrs s') = nbuckets (attrs s)" "mem_limit (attrs s') = mem_limit (attrs s)"
    "item_size_max (attrs s') = item_size_max (attrs s)" "evict_to_free (attrs s') = evict_to_free (attrs s)"
    "default_counter (attrs s') = default_counter (attrs s)"
proof -
  have a: "(attrs s')\<lparr>mem_used := 0, max_depth := 0, nitems := 0\<rparr> = (attrs s)\<lparr>mem_used := 0, max_depth := 0, nitems := 0\<rparr>"
    and sz: "map slab_size (slabs s') = map slab_size (slabs s)"
    using assms by (simp_all add: conf_of_def)
  show "base s' = base s" "raw s' = raw s" "map slab_size (slabs s') = map slab_size (slabs s)"
    "map slab_count (slabs s') = map slab_count (slabs s)"
    using assms by (simp_all add: conf_of_def)
  show "length (slabs s') = length (slabs s)" using sz by (rule map_eq_imp_length_eq)
  show "nbuckets (attrs s') = nbuckets (attrs s)" using arg_cong [OF a, of nbuckets] by simp
  show "mem_limit (attrs s') = mem_limit (attrs s)" using arg_cong [OF a, of mem_limit] by simp
  show "item_size_max (attrs s') = item_size_max (attrs s)" using arg_cong [OF a, of item_size_max] by simp
  show "evict_to_free (attrs s') = evict_to_free (attrs s)" using arg_cong [OF a, of evict_to_free] by simp
  show "default_counter (attrs s') = default_counter (attrs s)" using arg_cong [OF a, of default_counter] by simp
qed

lemma conf_of_nth:
  assumes "conf_of s' = conf_of s" and "c < length (slabs s)"
  shows "slab_size (slabs s' ! c) = slab_size (slabs s ! c)" "slab_count (slabs s' ! c) = slab_count (slabs s ! c)"
  using conf_ofD(3-5) [OF assms(1)] assms(2) by (metis nth_map)+

lemma conf_of_lru_frame: "lru_frame s s' c S \<Longrightarrow> conf_of s' = conf_of s"
  by (simp add: lru_frame_def conf_of_def)

lemma counters_onlyD:
  assumes "counters_only a a'"
  shows "a'\<lparr>mem_used := 0, max_depth := 0, nitems := 0\<rparr> = a\<lparr>mem_used := 0, max_depth := 0, nitems := 0\<rparr>"
    "mem_used a' = mem_used a"
proof -
  have e: "a' = a\<lparr>nitems := nitems a', max_depth := max_depth a'\<rparr>" using assms by (simp only: counters_only_def)
  show "a'\<lparr>mem_used := 0, max_depth := 0, nitems := 0\<rparr> = a\<lparr>mem_used := 0, max_depth := 0, nitems := 0\<rparr>"
    by (subst e) simp
  show "mem_used a' = mem_used a" by (subst e) simp
qed

lemma conf_of_hash_frame: "hash_frame s s' b S \<Longrightarrow> conf_of s' = conf_of s"
  by (simp add: hash_frame_def conf_of_def counters_onlyD)

section \<open>Steps between layouts\<close>

text \<open>Changing one list of a family moves elements between its union and a held set.\<close>

lemma UN_family_upd:
  assumes "set xs \<union> D' = set (f c) \<union> D"
  shows "(\<Union>d. set ((f(c := xs)) d)) \<union> D' = (\<Union>d. set (f d)) \<union> D"
proof -
  have split: "(\<Union>d. F d) = F c \<union> (\<Union>d \<in> - {c}. F d)" for F :: "_ \<Rightarrow> _ set" by blast
  have "(\<Union>d. set ((f(c := xs)) d)) = set xs \<union> (\<Union>d \<in> - {c}. set (f d))"
    by (subst split) simp
  moreover have "(\<Union>d. set (f d)) = set (f c) \<union> (\<Union>d \<in> - {c}. set (f d))" by (rule split)
  moreover have "A \<union> R \<union> D' = B \<union> R \<union> D" if "A \<union> D' = B \<union> D" for A B R
    using that by auto
  ultimately show ?thesis using assms by simp
qed

text \<open>
  What a step must show: the lists of the new layout, and that chunks keep their class and
  their heap. Only what changes has to be argued.
\<close>

lemma layoutI:
  assumes old: "layout s g D" and conf: "conf_of s' = conf_of s"
    and len: "length (heads s') = length (heads s)" "length (tails s') = length (tails s)"
      "length (buckets s') = length (buckets s)"
    and nz: "0 \<notin> dom (heap s')"
    and lru: "\<And>c. c < length (slabs s) \<Longrightarrow> lru_list s' c (g_lru g' c)"
    and free: "\<And>c. c < length (slabs s) \<Longrightarrow> free_list s' c (g_free g' c)"
    and bkt: "\<And>b. b < nbuckets (attrs s) \<Longrightarrow> bucket_list s' b (g_bkt g' b)"
    and cls: "\<And>c a. c < length (slabs s) \<Longrightarrow> a \<in> set (g_lru g' c) \<union> set (g_free g' c) \<Longrightarrow>
      csize s' a = Some (slab_size (slabs s ! c))"
    and clsid: "\<And>c a. c < length (slabs s) \<Longrightarrow> a \<in> set (g_lru g' c) \<Longrightarrow> clsid_at s' a = Some c"
    and dis: "\<And>c. set (g_lru g' c) \<inter> set (g_free g' c) = {}"
      "\<And>c. D' \<inter> (set (g_lru g' c) \<union> set (g_free g' c)) = {}"
    and out: "\<And>c. length (slabs s) \<le> c \<Longrightarrow> g_lru g' c = [] \<and> g_free g' c = []"
      "\<And>b. nbuckets (attrs s) \<le> b \<Longrightarrow> g_bkt g' b = []"
    and cover: "(\<Union>c. set (g_lru g' c)) \<union> (\<Union>c. set (g_free g' c)) \<union> D' = dom (heap s')"
  shows "layout s' g' D'"
proof -
  note cf = conf_ofD [OF conf] and lc = layout_conjuncts [OF old]
  have sz: "csize s' a = Some (slab_size (slabs s' ! c))"
    if "c < length (slabs s)" "a \<in> set (g_lru g' c) \<union> set (g_free g' c)" for c a
    using cls [OF that] conf_of_nth(1) [OF conf that(1)] by simp
  show ?thesis
    unfolding layout_def cf(3,4,6)
    using lc(1-5) len lru free bkt sz clsid dis out cover nz by simp
qed

lemma free_list_cong:
  assumes "free_list s c xs" and "slabs s' = slabs s" and "dom (heap s') = dom (heap s)"
    and "\<And>a. a \<in> set xs \<Longrightarrow> nxt s' a = nxt s a"
  shows "free_list s' c xs"
  using assms(1-3) chain_cong [of xs "nxt s'" "nxt s"] assms(4) by (simp add: free_list_def)

text \<open>A step of class \<open>c\<close>'s LRU list, with chunks moving between the list and \<open>D\<close>.\<close>

lemma layout_lru_step:
  assumes old: "layout s g D" and c: "c < length (slabs s)" and fr: "lru_frame s s' c S"
    and S: "S \<subseteq> set (g_lru g c) \<union> D" and l: "lru_list s' c xs"
    and part: "set xs \<union> D' = set (g_lru g c) \<union> D" "set xs \<inter> D' = {}"
    and cls: "\<And>a. a \<in> set xs \<Longrightarrow> csize s a = Some (slab_size (slabs s ! c)) \<and> clsid_at s a = Some c"
  shows "layout s' (g\<lparr>g_lru := (g_lru g)(c := xs)\<rparr>) D'"
proof (rule layoutI [OF old conf_of_lru_frame [OF fr]])
  have dat: "dat s' = dat s" "slabs s' = slabs s" "buckets s' = buckets s" "hnx s' = hnx s"
    using fr by (simp_all add: lru_frame_def)
  have dm: "dom (heap s') = dom (heap s)" using dat(1) by (rule dat_dom)
  note D = layoutD [OF old]
  show "length (heads s') = length (heads s)" "length (tails s') = length (tails s)"
    "length (buckets s') = length (buckets s)"
    using fr by (simp_all add: lru_frame_def)
  show "0 \<notin> dom (heap s')" using dm layout_conjuncts(16) [OF old] by simp
  show "lru_list s' d (g_lru (g\<lparr>g_lru := (g_lru g)(c := xs)\<rparr>) d)" if d: "d < length (slabs s)" for d
  proof (cases "d = c")
    case True
    then show ?thesis using l by simp
  next
    case False
    have "set (g_lru g d) \<inter> S = {}"
      using S layout_disjoint(1) [OF old, of c d] D(5) [of d] False by blast
    then show ?thesis using lru_list_frame [OF D(1) [OF d] fr False] False by simp
  qed
  show "free_list s' d (g_free (g\<lparr>g_lru := (g_lru g)(c := xs)\<rparr>) d)" if d: "d < length (slabs s)" for d
  proof -
    have "set (g_free g d) \<inter> S = {}"
      using S layout_lru_free [OF old, of c d] D(5) [of d] by blast
    then have "nxt s' a = nxt s a" if "a \<in> set (g_free g d)" for a
      using that fr by (auto simp: lru_frame_def)
    then show ?thesis using free_list_cong [OF D(2) [OF d] dat(2) dm] by simp
  qed
  show "bucket_list s' b (g_bkt (g\<lparr>g_lru := (g_lru g)(c := xs)\<rparr>) b)" if "b < nbuckets (attrs s)" for b
    using D(3) [OF that] by (simp add: bucket_list_def dat dm)
  show "csize s' a = Some (slab_size (slabs s ! d))" if "d < length (slabs s)"
    "a \<in> set (g_lru (g\<lparr>g_lru := (g_lru g)(c := xs)\<rparr>) d) \<union> set (g_free (g\<lparr>g_lru := (g_lru g)(c := xs)\<rparr>) d)" for d a
    using that cls [of a] layout_class(2) [OF old, of a d] csize_dat [OF dat(1)] by (auto split: if_splits)
  show "clsid_at s' a = Some d" if "d < length (slabs s)"
    "a \<in> set (g_lru (g\<lparr>g_lru := (g_lru g)(c := xs)\<rparr>) d)" for d a
    using that cls [of a] layout_lru_class [OF old, of a d] clsid_at_dat [OF dat(1)] by (auto split: if_splits)
  have apart: "set xs \<inter> set (g_free g d) = {}" for d
    using part(1) layout_lru_free [OF old, of c d] D(5) [of d] by blast
  show "set (g_lru (g\<lparr>g_lru := (g_lru g)(c := xs)\<rparr>) d) \<inter> set (g_free (g\<lparr>g_lru := (g_lru g)(c := xs)\<rparr>) d) = {}" for d
    using apart [of d] D(4) [of d] by (cases "d = c") simp_all
  show "D' \<inter> (set (g_lru (g\<lparr>g_lru := (g_lru g)(c := xs)\<rparr>) d) \<union> set (g_free (g\<lparr>g_lru := (g_lru g)(c := xs)\<rparr>) d)) = {}" for d
  proof (cases "d = c")
    case True
    then show ?thesis using part apart [of c] layout_lru_free [OF old, of c c] D(5) [of c] by auto
  next
    case False
    have "D' \<subseteq> set (g_lru g c) \<union> D" using part(1) by blast
    then show ?thesis
      using False layout_disjoint(1) [OF old, of c d] layout_lru_free [OF old, of c d] D(5) [of d] by auto
  qed
  show "g_lru (g\<lparr>g_lru := (g_lru g)(c := xs)\<rparr>) d = [] \<and> g_free (g\<lparr>g_lru := (g_lru g)(c := xs)\<rparr>) d = []"
    if "length (slabs s) \<le> d" for d
    using D(6) [OF that] that c by simp
  show "g_bkt (g\<lparr>g_lru := (g_lru g)(c := xs)\<rparr>) b = []" if "nbuckets (attrs s) \<le> b" for b
    using D(7) [OF that] by simp
  have "(\<Union>d. set (((g_lru g)(c := xs)) d)) \<union> D' = (\<Union>d. set (g_lru g d)) \<union> D"
    by (rule UN_family_upd [of xs D' "g_lru g" c D, OF part(1)])
  then show "(\<Union>d. set (g_lru (g\<lparr>g_lru := (g_lru g)(c := xs)\<rparr>) d))
      \<union> (\<Union>d. set (g_free (g\<lparr>g_lru := (g_lru g)(c := xs)\<rparr>) d)) \<union> D' = dom (heap s')"
    using layout_conjuncts(15) [OF old] dm by auto
qed

text \<open>A step of class \<open>c\<close>'s free list.\<close>

definition free_frame :: "shmc \<Rightarrow> shmc \<Rightarrow> nat \<Rightarrow> addr set \<Rightarrow> bool" where
  "free_frame s s' c S \<longleftrightarrow>
     base s' = base s \<and> attrs s' = attrs s \<and> heads s' = heads s \<and> tails s' = tails s
     \<and> buckets s' = buckets s \<and> raw s' = raw s \<and> dat s' = dat s \<and> hnx s' = hnx s \<and> prv s' = prv s
     \<and> (\<forall>b. b \<notin> S \<longrightarrow> nxt s' b = nxt s b)
     \<and> (\<exists>x. slabs s' = (slabs s)[c := (slabs s ! c)\<lparr>free_item := x\<rparr>])"

lemma map_slab_upd:
  "c < length sls \<Longrightarrow> map slab_size (sls[c := (sls ! c)\<lparr>free_item := x\<rparr>]) = map slab_size sls"
  "c < length sls \<Longrightarrow> map slab_count (sls[c := (sls ! c)\<lparr>free_item := x\<rparr>]) = map slab_count sls"
  by (simp_all add: list_eq_iff_nth_eq nth_list_update)

lemma conf_of_free_frame: "free_frame s s' c S \<Longrightarrow> c < length (slabs s) \<Longrightarrow> conf_of s' = conf_of s"
  by (auto simp: free_frame_def conf_of_def map_slab_upd)

lemma layout_free_step:
  assumes old: "layout s g D" and c: "c < length (slabs s)" and fr: "free_frame s s' c S"
    and S: "S \<subseteq> set (g_free g c) \<union> D" and l: "free_list s' c xs"
    and part: "set xs \<union> D' = set (g_free g c) \<union> D" "set xs \<inter> D' = {}"
    and cls: "\<And>a. a \<in> set xs \<Longrightarrow> csize s a = Some (slab_size (slabs s ! c))"
  shows "layout s' (g\<lparr>g_free := (g_free g)(c := xs)\<rparr>) D'"
proof (rule layoutI [OF old conf_of_free_frame [OF fr c]])
  have same: "dat s' = dat s" "hnx s' = hnx s" "prv s' = prv s" "heads s' = heads s" "tails s' = tails s"
    "buckets s' = buckets s" "\<And>b. b \<notin> S \<Longrightarrow> nxt s' b = nxt s b"
    using fr by (simp_all add: free_frame_def)
  obtain x where sl: "slabs s' = (slabs s)[c := (slabs s ! c)\<lparr>free_item := x\<rparr>]"
    using fr by (auto simp: free_frame_def)
  have dm: "dom (heap s') = dom (heap s)" using same(1) by (rule dat_dom)
  note D = layoutD [OF old]
  show "length (heads s') = length (heads s)" "length (tails s') = length (tails s)"
    "length (buckets s') = length (buckets s)" using same by simp_all
  show "0 \<notin> dom (heap s')" using dm layout_conjuncts(16) [OF old] by simp
  show "lru_list s' d (g_lru (g\<lparr>g_free := (g_free g)(c := xs)\<rparr>) d)" if d: "d < length (slabs s)" for d
  proof -
    have "set (g_lru g d) \<inter> S = {}"
      using S layout_lru_free [OF old, of d c] D(5) [of d] by blast
    then have "dll (nxt s') (prv s') h t (g_lru g d) = dll (nxt s) (prv s) h t (g_lru g d)" for h t
      using same(3,7) by (intro dll_cong) auto
    then show ?thesis using D(1) [OF d] dm by (simp add: lru_list_def same(4,5))
  qed
  show "free_list s' d (g_free (g\<lparr>g_free := (g_free g)(c := xs)\<rparr>) d)" if d: "d < length (slabs s)" for d
  proof (cases "d = c")
    case True
    then show ?thesis using l by simp
  next
    case False
    have "set (g_free g d) \<inter> S = {}"
      using S layout_disjoint(2) [OF old, of c d] D(5) [of d] False by blast
    then have "chain (nxt s') x (g_free g d) = chain (nxt s) x (g_free g d)" for x
      using same(7) by (intro chain_cong) auto
    then show ?thesis using D(2) [OF d] False dm by (simp add: free_list_def sl)
  qed
  show "bucket_list s' b (g_bkt (g\<lparr>g_free := (g_free g)(c := xs)\<rparr>) b)" if "b < nbuckets (attrs s)" for b
    using D(3) [OF that] by (simp add: bucket_list_def same dm)
  show "csize s' a = Some (slab_size (slabs s ! d))" if "d < length (slabs s)"
    "a \<in> set (g_lru (g\<lparr>g_free := (g_free g)(c := xs)\<rparr>) d) \<union> set (g_free (g\<lparr>g_free := (g_free g)(c := xs)\<rparr>) d)" for d a
    using that cls [of a] layout_class(2) [OF old, of a d] csize_dat [OF same(1)] by (auto split: if_splits)
  show "clsid_at s' a = Some d" if "d < length (slabs s)"
    "a \<in> set (g_lru (g\<lparr>g_free := (g_free g)(c := xs)\<rparr>) d)" for d a
    using that layout_lru_class [OF old, of a d] clsid_at_dat [OF same(1)] by simp
  have apart: "set (g_lru g d) \<inter> set xs = {}" for d
    using part(1) layout_lru_free [OF old, of d c] D(5) [of d] by blast
  show "set (g_lru (g\<lparr>g_free := (g_free g)(c := xs)\<rparr>) d) \<inter> set (g_free (g\<lparr>g_free := (g_free g)(c := xs)\<rparr>) d) = {}" for d
    using apart [of d] D(4) [of d] by (cases "d = c") simp_all
  show "D' \<inter> (set (g_lru (g\<lparr>g_free := (g_free g)(c := xs)\<rparr>) d) \<union> set (g_free (g\<lparr>g_free := (g_free g)(c := xs)\<rparr>) d)) = {}" for d
  proof (cases "d = c")
    case True
    then show ?thesis using part apart [of c] layout_lru_free [OF old, of c c] D(5) [of c] by auto
  next
    case False
    have "D' \<subseteq> set (g_free g c) \<union> D" using part(1) by blast
    then show ?thesis
      using False layout_disjoint(2) [OF old, of c d] layout_lru_free [OF old, of d c] D(5) [of d] by auto
  qed
  show "g_lru (g\<lparr>g_free := (g_free g)(c := xs)\<rparr>) d = [] \<and> g_free (g\<lparr>g_free := (g_free g)(c := xs)\<rparr>) d = []"
    if "length (slabs s) \<le> d" for d
    using D(6) [OF that] that c by simp
  show "g_bkt (g\<lparr>g_free := (g_free g)(c := xs)\<rparr>) b = []" if "nbuckets (attrs s) \<le> b" for b
    using D(7) [OF that] by simp
  have "(\<Union>d. set (((g_free g)(c := xs)) d)) \<union> D' = (\<Union>d. set (g_free g d)) \<union> D"
    by (rule UN_family_upd [of xs D' "g_free g" c D, OF part(1)])
  then show "(\<Union>d. set (g_lru (g\<lparr>g_free := (g_free g)(c := xs)\<rparr>) d))
      \<union> (\<Union>d. set (g_free (g\<lparr>g_free := (g_free g)(c := xs)\<rparr>) d)) \<union> D' = dom (heap s')"
    using layout_conjuncts(15) [OF old] dm by auto
qed

text \<open>A step of one bucket.\<close>

lemma layout_bkt_step:
  assumes old: "layout s g D" and b: "b < nbuckets (attrs s)" and fr: "hash_frame s s' b S"
    and S: "\<And>d. d \<noteq> b \<Longrightarrow> set (g_bkt g d) \<inter> S = {}" and l: "bucket_list s' b xs"
  shows "layout s' (g\<lparr>g_bkt := (g_bkt g)(b := xs)\<rparr>) D"
proof (rule layoutI [OF old conf_of_hash_frame [OF fr]])
  have same: "dat s' = dat s" "nxt s' = nxt s" "prv s' = prv s" "heads s' = heads s" "tails s' = tails s"
    "slabs s' = slabs s" "length (buckets s') = length (buckets s)"
    using fr by (simp_all add: hash_frame_def)
  have dm: "dom (heap s') = dom (heap s)" using same(1) by (rule dat_dom)
  note D = layoutD [OF old]
  show "length (heads s') = length (heads s)" "length (tails s') = length (tails s)"
    "length (buckets s') = length (buckets s)" using same by simp_all
  show "0 \<notin> dom (heap s')" using dm layout_conjuncts(16) [OF old] by simp
  show "lru_list s' d (g_lru (g\<lparr>g_bkt := (g_bkt g)(b := xs)\<rparr>) d)" if "d < length (slabs s)" for d
    using D(1) [OF that] by (simp add: lru_list_def same dm)
  show "free_list s' d (g_free (g\<lparr>g_bkt := (g_bkt g)(b := xs)\<rparr>) d)" if "d < length (slabs s)" for d
    using D(2) [OF that] by (simp add: free_list_def same dm)
  show "bucket_list s' d (g_bkt (g\<lparr>g_bkt := (g_bkt g)(b := xs)\<rparr>) d)" if "d < nbuckets (attrs s)" for d
    using l bucket_list_frame [OF D(3) [OF that] fr] S [of d] by (cases "d = b") simp_all
  show "csize s' a = Some (slab_size (slabs s ! d))" if "d < length (slabs s)"
    "a \<in> set (g_lru (g\<lparr>g_bkt := (g_bkt g)(b := xs)\<rparr>) d) \<union> set (g_free (g\<lparr>g_bkt := (g_bkt g)(b := xs)\<rparr>) d)" for d a
    using that layout_class(2) [OF old, of a d] csize_dat [OF same(1)] by simp
  show "clsid_at s' a = Some d" if "d < length (slabs s)"
    "a \<in> set (g_lru (g\<lparr>g_bkt := (g_bkt g)(b := xs)\<rparr>) d)" for d a
    using that layout_lru_class [OF old, of a d] clsid_at_dat [OF same(1)] by simp
  show "g_bkt (g\<lparr>g_bkt := (g_bkt g)(b := xs)\<rparr>) d = []" if "nbuckets (attrs s) \<le> d" for d
    using D(7) [OF that] that b by simp
qed (use layoutD(4-6) [OF old] layout_conjuncts(15) [OF old] dat_dom [of s' s] fr in \<open>simp_all add: hash_frame_def\<close>)

end
