(* ===== verification/Steps.thy ===== *)
theory Steps
  imports Layout
begin

text \<open>
  Every elementary operation as a step from one layout to another: unlinking, linking and
  relinking an item, writing its data, entering it into and removing it from the hash table,
  and cutting new chunks from the pool. The component proofs compose these steps.
\<close>

section \<open>Updates of the ghost lists\<close>

abbreviation lru_upd :: "ghost \<Rightarrow> nat \<Rightarrow> addr list \<Rightarrow> ghost" where
  "lru_upd g c xs \<equiv> g\<lparr>g_lru := (g_lru g)(c := xs)\<rparr>"

abbreviation free_upd :: "ghost \<Rightarrow> nat \<Rightarrow> addr list \<Rightarrow> ghost" where
  "free_upd g c xs \<equiv> g\<lparr>g_free := (g_free g)(c := xs)\<rparr>"

abbreviation bkt_upd :: "ghost \<Rightarrow> nat \<Rightarrow> addr list \<Rightarrow> ghost" where
  "bkt_upd g b xs \<equiv> g\<lparr>g_bkt := (g_bkt g)(b := xs)\<rparr>"

text \<open>What every step but carving leaves alone.\<close>

definition calm :: "shmc \<Rightarrow> shmc \<Rightarrow> bool" where
  "calm s s' \<longleftrightarrow> conf_of s' = conf_of s \<and> mem_used (attrs s') = mem_used (attrs s)"

lemma calm_refl [simp]: "calm s s"
  by (simp add: calm_def)

lemma calm_trans: "calm s s' \<Longrightarrow> calm s' s'' \<Longrightarrow> calm s s''"
  by (simp add: calm_def)

lemma calmD:
  assumes "calm s s'"
  shows "conf_of s' = conf_of s" "mem_used (attrs s') = mem_used (attrs s)"
    "base s' = base s" "raw s' = raw s" "length (slabs s') = length (slabs s)"
    "map slab_size (slabs s') = map slab_size (slabs s)" "map slab_count (slabs s') = map slab_count (slabs s)"
    "nbuckets (attrs s') = nbuckets (attrs s)" "mem_limit (attrs s') = mem_limit (attrs s)"
    "item_size_max (attrs s') = item_size_max (attrs s)" "evict_to_free (attrs s') = evict_to_free (attrs s)"
    "default_counter (attrs s') = default_counter (attrs s)"
proof -
  show c: "conf_of s' = conf_of s" "mem_used (attrs s') = mem_used (attrs s)"
    using assms unfolding calm_def by blast+
  show "base s' = base s" "raw s' = raw s" "length (slabs s') = length (slabs s)"
    "map slab_size (slabs s') = map slab_size (slabs s)" "map slab_count (slabs s') = map slab_count (slabs s)"
    "nbuckets (attrs s') = nbuckets (attrs s)" "mem_limit (attrs s') = mem_limit (attrs s)"
    "item_size_max (attrs s') = item_size_max (attrs s)" "evict_to_free (attrs s') = evict_to_free (attrs s)"
    "default_counter (attrs s') = default_counter (attrs s)"
    using conf_ofD [OF c(1)] by blast+
qed

section \<open>LRU steps\<close>

lemma layout_list_distinct:
  assumes "layout s g D"
  shows "distinct (g_lru g c)" "distinct (g_free g c)" "0 \<notin> set (g_lru g c)" "0 \<notin> set (g_free g c)"
proof -
  show "distinct (g_lru g c)" "0 \<notin> set (g_lru g c)"
    using layoutD(1,6) [OF assms, of c] lru.listed_distinct by (cases "c < length (slabs s)"; auto)+
  show "distinct (g_free g c)" "0 \<notin> set (g_free g c)"
    using layoutD(2,6) [OF assms, of c] chain_distinct chain_nz
    by (cases "c < length (slabs s)"; force simp: free_list_def)+
qed

lemma layout_held_nz:
  assumes "layout s g D" and "a \<in> D"
  shows "a \<in> dom (heap s) \<and> a \<noteq> 0"
proof
  show "a \<in> dom (heap s)" using assms(2) by (simp add: layout_conjuncts(15) [OF assms(1)])
  then show "a \<noteq> 0" using layout_conjuncts(16) [OF assms(1)] by (cases "a = 0") simp_all
qed

lemma unlink_step:
  assumes l: "layout s g D" and a: "a \<in> set (g_lru g c)"
  shows "\<exists>s'. item_unlink s a = Some s' \<and> layout s' (lru_upd g c (remove1 a (g_lru g c))) (insert a D)
    \<and> dat s' = dat s \<and> attrs s' = attrs s \<and> calm s s'"
proof -
  have c: "c < length (slabs s)" using layout_class(1) [OF l, of a c] a by simp
  obtain s' where s': "item_unlink s a = Some s'" "lru_list s' c (remove1 a (g_lru g c))"
      "lru_frame s s' c (set (g_lru g c))"
    using lru.unlink_remove1 [OF layoutD(1) [OF l c] a layout_lru_class [OF l a]] by blast
  have "layout s' (lru_upd g c (remove1 a (g_lru g c))) (insert a D)"
  proof (rule layout_lru_step [OF l c s'(3) _ s'(2)])
    show "set (remove1 a (g_lru g c)) \<union> insert a D = set (g_lru g c) \<union> D"
      using layout_list_distinct(1) [OF l] a by auto
    show "set (remove1 a (g_lru g c)) \<inter> insert a D = {}"
      using layout_list_distinct(1) [OF l, of c] layoutD(5) [OF l, of c] by auto
    show "csize s b = Some (slab_size (slabs s ! c)) \<and> clsid_at s b = Some c"
      if "b \<in> set (remove1 a (g_lru g c))" for b
      using that layout_class(2) [OF l, of b c] layout_lru_class [OF l, of b c] notin_set_remove1 [of b _ a] by blast
  qed blast
  then show ?thesis
    using s'(1,3) conf_of_lru_frame [OF s'(3)] by (simp add: calm_def lru_frame_def)
qed

lemma link_step:
  assumes l: "layout s g D" and a: "a \<in> D" "csize s a = Some (slab_size (slabs s ! c))"
    "clsid_at s a = Some c" and c: "c < length (slabs s)"
  shows "\<exists>s'. item_link s a = Some s' \<and> layout s' (lru_upd g c (a # g_lru g c)) (D - {a})
    \<and> dat s' = dat s \<and> attrs s' = attrs s \<and> calm s s'"
proof -
  have "a \<notin> set (g_lru g c)" "a \<noteq> 0"
    using layoutD(5) [OF l, of c] layout_held_nz [OF l] a(1) by blast+
  then obtain s' where s': "item_link s a = Some s'" "lru_list s' c (a # g_lru g c)"
      "lru_frame s s' c (insert a (set (g_lru g c)))"
    using lru.link_law [OF layoutD(1) [OF l c] a(3)] by blast
  have "layout s' (lru_upd g c (a # g_lru g c)) (D - {a})"
  proof (rule layout_lru_step [OF l c s'(3) _ s'(2)])
    show "csize s b = Some (slab_size (slabs s ! c)) \<and> clsid_at s b = Some c"
      if "b \<in> set (a # g_lru g c)" for b
      using that a layout_class(2) [OF l, of b c] layout_lru_class [OF l, of b c] by auto
  qed (use a layoutD(5) [OF l, of c] in auto)
  then show ?thesis
    using s'(1,3) conf_of_lru_frame [OF s'(3)] by (simp add: calm_def lru_frame_def)
qed

lemma relink_step:
  assumes l: "layout s g D" and a: "a \<in> set (g_lru g c)"
  shows "\<exists>s'. item_relink s a = Some s' \<and> layout s' (lru_upd g c (a # remove1 a (g_lru g c))) D
    \<and> dat s' = dat s \<and> attrs s' = attrs s \<and> calm s s'"
proof -
  have c: "c < length (slabs s)" using layout_class(1) [OF l, of a c] a by simp
  obtain s' where s': "item_relink s a = Some s'" "lru_list s' c (a # remove1 a (g_lru g c))"
      "lru_frame s s' c (set (g_lru g c))"
    using item_relink_spec [OF layoutD(1) [OF l c] a layout_lru_class [OF l a]] by blast
  have set: "set (a # remove1 a (g_lru g c)) = set (g_lru g c)"
    using layout_list_distinct(1) [OF l] a by auto
  have "layout s' (lru_upd g c (a # remove1 a (g_lru g c))) D"
  proof (rule layout_lru_step [OF l c s'(3) _ s'(2)])
    show "csize s b = Some (slab_size (slabs s ! c)) \<and> clsid_at s b = Some c"
      if "b \<in> set (a # remove1 a (g_lru g c))" for b
      using that layout_class(2) [OF l, of b c] layout_lru_class [OF l, of b c] unfolding set by blast
  qed (use layoutD(5) [OF l, of c] in \<open>unfold set, blast+\<close>)
  then show ?thesis
    using s'(1,3) conf_of_lru_frame [OF s'(3)] by (simp add: calm_def lru_frame_def)
qed

section \<open>Writes to the heap\<close>

text \<open>
  A change of the heap alone that keeps the links, the size and the class of every listed item;
  new chunks, if any, are held.
\<close>

lemma layout_heap_step:
  assumes old: "layout s g D" and s': "s' = s\<lparr>heap := h\<rparr>"
    and dm: "dom h = dom (heap s) \<union> N" and N: "N \<inter> dom (heap s) = {}" "0 \<notin> N"
    and keep: "\<And>c a. a \<in> set (g_lru g c) \<union> set (g_free g c) \<Longrightarrow> csize s' a = csize s a \<and> nxt s' a = nxt s a"
      "\<And>c a. a \<in> set (g_lru g c) \<Longrightarrow> clsid_at s' a = clsid_at s a \<and> prv s' a = prv s a"
      "\<And>b a. a \<in> set (g_bkt g b) \<Longrightarrow> hnx s' a = hnx s a"
  shows "layout s' g (D \<union> N)"
proof (rule layoutI [OF old])
  note D = layoutD [OF old]
  have f: "heap s' = h" "slabs s' = slabs s" "heads s' = heads s" "tails s' = tails s"
    "buckets s' = buckets s" "attrs s' = attrs s" by (simp_all add: s')
  have sub: "dom (heap s) \<subseteq> dom (heap s')" using dm by (simp add: f(1))
  show "conf_of s' = conf_of s" by (simp add: s' conf_of_def)
  show "0 \<notin> dom (heap s')" using dm N layout_conjuncts(16) [OF old] by (simp add: f(1))
  show "lru_list s' c (g_lru g c)" if "c < length (slabs s)" for c
  proof -
    have "dll (nxt s') (prv s') x y (g_lru g c) = dll (nxt s) (prv s) x y (g_lru g c)" for x y
      using keep(1,2) by (intro dll_cong) blast+
    then show ?thesis using D(1) [OF that] subset_trans [OF _ sub] by (simp add: lru_list_def f(3,4))
  qed
  show "free_list s' c (g_free g c)" if "c < length (slabs s)" for c
  proof -
    have "chain (nxt s') x (g_free g c) = chain (nxt s) x (g_free g c)" for x
      using keep(1) by (intro chain_cong) blast
    then show ?thesis using D(2) [OF that] subset_trans [OF _ sub] by (simp add: free_list_def f(2))
  qed
  show "bucket_list s' b (g_bkt g b)" if "b < nbuckets (attrs s)" for b
  proof -
    have "chain (hnx s') x (g_bkt g b) = chain (hnx s) x (g_bkt g b)" for x
      using keep(3) by (intro chain_cong) blast
    then show ?thesis using D(3) [OF that] subset_trans [OF _ sub] by (simp add: bucket_list_def f(5))
  qed
  show "csize s' a = Some (slab_size (slabs s ! c))" if "a \<in> set (g_lru g c) \<union> set (g_free g c)" for c a
    using keep(1) [OF that] layout_class(2) [OF old that] by simp
  show "clsid_at s' a = Some c" if "a \<in> set (g_lru g c)" for c a
    using keep(2) [OF that] layout_lru_class [OF old that] by simp
  show "(D \<union> N) \<inter> (set (g_lru g c) \<union> set (g_free g c)) = {}" for c
    using D(5) [of c] N(1) layout_class(3) [OF old, of _ c] by blast
  show "(\<Union>c. set (g_lru g c)) \<union> (\<Union>c. set (g_free g c)) \<union> (D \<union> N) = dom (heap s')"
    using layout_conjuncts(15) [OF old] dm by (simp add: f(1) Un_assoc)
qed (use layoutD [OF old] s' in simp_all)

lemma dat_upd_item:
  assumes "\<And>it. f it\<lparr>it_next := 0, it_prev := 0, it_hnext := 0\<rparr>
      = (f' (it\<lparr>it_next := 0, it_prev := 0, it_hnext := 0\<rparr>))"
  shows "dat (upd_item s a f) = (dat s)(a := map_option f' (dat s a))"
  by (rule ext) (cases "heap s a"; simp add: dat_def heap_upd_item assms)

text \<open>Writing the data of any chunk: the links, the size and the class stay.\<close>

definition data_write :: "(item \<Rightarrow> item) \<Rightarrow> bool" where
  "data_write f \<longleftrightarrow> (\<forall>it. it_next (f it) = it_next it \<and> it_prev (f it) = it_prev it
     \<and> it_hnext (f it) = it_hnext it \<and> it_clsid (f it) = it_clsid it
     \<and> f (it\<lparr>it_next := 0, it_prev := 0, it_hnext := 0\<rparr>) = (f it)\<lparr>it_next := 0, it_prev := 0, it_hnext := 0\<rparr>)"

lemma write_step:
  assumes l: "layout s g D" and a: "a \<in> dom (heap s)" and f: "data_write f"
    and len: "\<And>it. heap s a = Some it \<Longrightarrow> length (it_end (f it)) = length (it_end it)"
  shows "put_item s a f = Some (upd_item s a f)" "layout (upd_item s a f) g D"
    "dat (upd_item s a f) = (dat s)(a := map_option f (dat s a))"
    "attrs (upd_item s a f) = attrs s" "calm s (upd_item s a f)" "csize (upd_item s a f) = csize s"
proof -
  obtain it where it: "heap s a = Some it" using a by blast
  have links: "nxt (upd_item s a f) = nxt s" "prv (upd_item s a f) = prv s" "hnx (upd_item s a f) = hnx s"
    using f it by (auto simp: fun_eq_iff nxt_def prv_def hnx_def heap_upd_item data_write_def)
  have cls: "clsid_at (upd_item s a f) = clsid_at s"
    using f it by (auto simp: fun_eq_iff clsid_at_def dat_def heap_upd_item data_write_def)
  show cz: "csize (upd_item s a f) = csize s"
    using len it by (auto simp: fun_eq_iff csize_def dat_def heap_upd_item)
  show "layout (upd_item s a f) g D"
    using layout_heap_step [OF l upd_item_def [of s a f], where N = "{}"] it cz links cls
    by (simp add: insert_absorb domI)
  show "dat (upd_item s a f) = (dat s)(a := map_option f (dat s a))"
    using f by (intro dat_upd_item) (simp add: data_write_def)
qed (use a in \<open>simp_all add: calm_def conf_of_def\<close>)

text \<open>Writing anything to a chunk that is held and in no bucket.\<close>

lemma held_write_step:
  assumes l: "layout s g D" and a: "a \<in> D" and b: "\<And>b. a \<notin> set (g_bkt g b)"
    and len: "\<And>it. heap s a = Some it \<Longrightarrow> length (it_end (f it)) = length (it_end it)"
  shows "put_item s a f = Some (upd_item s a f)" "layout (upd_item s a f) g D"
    "attrs (upd_item s a f) = attrs s" "calm s (upd_item s a f)" "csize (upd_item s a f) = csize s"
proof -
  have ad: "a \<in> dom (heap s)" using layout_held_nz [OF l a] by simp
  then obtain it where it: "heap s a = Some it" by blast
  show cz: "csize (upd_item s a f) = csize s"
    using len it by (auto simp: fun_eq_iff csize_def dat_def heap_upd_item)
  have other: "nxt (upd_item s a f) x = nxt s x" "prv (upd_item s a f) x = prv s x"
    "hnx (upd_item s a f) x = hnx s x" "clsid_at (upd_item s a f) x = clsid_at s x" if "x \<noteq> a" for x
    using that by (simp_all add: nxt_def prv_def hnx_def clsid_at_def dat_def heap_upd_item)
  have ne: "x \<noteq> a" if "x \<in> set (g_lru g c) \<union> set (g_free g c)" for x c
    using that a layoutD(5) [OF l, of c] by blast
  have "layout (upd_item s a f) g (D \<union> {})"
  proof (rule layout_heap_step [OF l])
    show "upd_item s a f = s\<lparr>heap := (heap s)(a := map_option f (heap s a))\<rparr>" by (simp add: upd_item_def)
    show "dom ((heap s)(a := map_option f (heap s a))) = dom (heap s) \<union> {}" using ad by auto
    show "csize (upd_item s a f) x = csize s x \<and> nxt (upd_item s a f) x = nxt s x"
      if "x \<in> set (g_lru g c) \<union> set (g_free g c)" for c x
      using ne [OF that] cz other by simp
    show "clsid_at (upd_item s a f) x = clsid_at s x \<and> prv (upd_item s a f) x = prv s x"
      if "x \<in> set (g_lru g c)" for c x
      using ne [of x c] that other by simp
    show "hnx (upd_item s a f) x = hnx s x" if "x \<in> set (g_bkt g c)" for c x
      using b [of c] that other by metis
  qed simp_all
  then show "layout (upd_item s a f) g D" by simp
qed (use layout_held_nz [OF l a] in \<open>simp_all add: calm_def conf_of_def\<close>)

section \<open>Cutting chunks\<close>

text \<open>The chunks of a run of \<open>n\<close> at \<open>p\<close>, the last one first: the order of the free list.\<close>

definition run_chunks :: "nat \<Rightarrow> addr \<Rightarrow> nat \<Rightarrow> addr list" where
  "run_chunks n p sz = rev (map (\<lambda>i. p + i * sz) [0..<n])"

lemma run_chunks_simps [simp]:
  "run_chunks 0 p sz = []"
  "run_chunks (Suc n) p sz = run_chunks n (p + sz) sz @ [p]"
proof -
  have "map (\<lambda>i. p + i * sz) [0..<Suc n] = p # map (\<lambda>i. p + i * sz) (map Suc [0..<n])"
    by (simp only: upt_conv_Cons [of 0 "Suc n"] map_Suc_upt) simp
  then show "run_chunks (Suc n) p sz = run_chunks n (p + sz) sz @ [p]"
    by (simp add: run_chunks_def o_def add.assoc)
qed (simp add: run_chunks_def)

lemma run_chunks_set: "set (run_chunks n p sz) = (\<lambda>i. p + i * sz) ` {..<n}"
  by (simp add: run_chunks_def atLeast0LessThan)

lemma run_chunks_bounds:
  assumes "a \<in> set (run_chunks n p sz)"
  shows "p \<le> a \<and> a + sz \<le> p + n * sz"
proof -
  obtain i where "i < n" "a = p + i * sz" using assms by (auto simp: run_chunks_set)
  then show ?thesis using mult_le_mono1 [of "Suc i" n sz] by simp
qed

lemma run_chunks_apart:
  assumes "a \<in> set (run_chunks n p sz)" and "b \<in> set (run_chunks n p sz)" and "a \<noteq> b"
  shows "a + sz \<le> b \<or> b + sz \<le> a"
proof -
  obtain i j where ij: "a = p + i * sz" "b = p + j * sz" using assms(1,2) by (auto simp: run_chunks_set)
  then have "i < j \<or> j < i" using assms(3) by (metis linorder_neqE_nat)
  then show ?thesis using ij mult_le_mono1 [of "Suc i" j sz] mult_le_mono1 [of "Suc j" i sz] by auto
qed

text \<open>One more chunk on the free list of its class.\<close>

lemma chunk_step:
  assumes l: "layout s g D" and c: "c < length (slabs s)" and sz: "slab_size (slabs s ! c) = sz" "64 \<le> sz"
    and p: "p \<notin> dom (heap s)" "p \<noteq> 0"
  shows "\<exists>s'. put_free (new_chunk s p sz (free_item (slabs s ! c))) c p = Some s'
    \<and> layout s' (free_upd g c (p # g_free g c)) D
    \<and> dat s' = (dat s)(p := Some (blank_item sz)) \<and> attrs s' = attrs s \<and> calm s s'"
proof -
  define n where "n = free_item (slabs s ! c)"
  define s1 where "s1 = new_chunk s p sz n"
  define s2 where "s2 = s1\<lparr>slabs := (slabs s1)[c := (slabs s1 ! c)\<lparr>free_item := p\<rparr>]\<rparr>"
  have hp: "heap s p = None" using p(1) by blast
  have f1: "slabs s1 = slabs s" "attrs s1 = attrs s" "conf_of s1 = conf_of s"
    by (simp_all add: s1_def new_chunk_def conf_of_def)
  have dat1: "dat s1 = (dat s)(p := Some (blank_item sz))"
    by (rule ext) (simp add: s1_def new_chunk_def dat_def hp blank_item_def)
  have np: "nxt s1 p = n" by (simp add: s1_def new_chunk_def nxt_def)
  have ne: "a \<noteq> p" if "a \<in> set (g_lru g d) \<union> set (g_free g d)" for a d
    using layout_class(3) [OF l that] p(1) by metis
  have other: "nxt s1 a = nxt s a" "prv s1 a = prv s a" "hnx s1 a = hnx s a"
    "csize s1 a = csize s a" "clsid_at s1 a = clsid_at s a" if "a \<noteq> p" for a
    using that dat1 by (simp_all add: s1_def new_chunk_def nxt_def prv_def hnx_def csize_def clsid_at_def)
  have "layout s1 g (D \<union> {p})"
  proof (rule layout_heap_step [OF l])
    show "s1 = s\<lparr>heap := (heap s)(p \<mapsto> blank_item sz\<lparr>it_next := n\<rparr>)\<rparr>"
      by (simp add: s1_def new_chunk_def hp)
    show "hnx s1 a = hnx s a" if "a \<in> set (g_bkt g b)" for b a
    proof -
      have "b < nbuckets (attrs s)" using layoutD(7) [OF l, of b] that by (cases "b < nbuckets (attrs s)") auto
      then have "a \<in> dom (heap s)" using layoutD(3) [OF l] that by (auto simp: bucket_list_def)
      then show ?thesis using p(1) other(3) [of a] by metis
    qed
    show "clsid_at s1 a = clsid_at s a \<and> prv s1 a = prv s a" if "a \<in> set (g_lru g d)" for d a
      using ne [of a d] that other by simp
  qed (use p ne other in auto)
  then have l1: "layout s1 g (insert p D)" by simp
  have fr: "free_frame s1 s2 c {}"
    by (auto simp: free_frame_def s2_def)
  have fl: "free_list s2 c (p # g_free g c)"
    using layoutD(2) [OF l1, of c] c p np layout_held_nz [OF l1, of p]
    by (simp add: free_list_def s2_def f1 n_def)
  have pn: "p \<notin> D" using layout_held_nz [OF l] p(1) by blast
  have cz: "csize s1 p = Some sz" using sz(2) by (simp add: csize_def dat1 blank_item_def)
  have "layout s2 (free_upd g c (p # g_free g c)) D"
  proof (rule layout_free_step [OF l1 _ fr _ fl])
    show "csize s1 a = Some (slab_size (slabs s1 ! c))" if "a \<in> set (p # g_free g c)" for a
      using that cz sz(1) layout_class(2) [OF l1, of a c] by (auto simp: f1)
    show "set (p # g_free g c) \<inter> D = {}" using pn layoutD(5) [OF l, of c] by auto
  qed (use c in \<open>auto simp: f1\<close>)
  moreover have "put_free s1 c p = Some s2" using c by (simp add: s2_def f1)
  moreover have "conf_of s2 = conf_of s" using conf_of_free_frame [OF fr] c f1 by simp
  ultimately show ?thesis
    using fr f1 dat1 by (auto simp: free_frame_def calm_def s1_def n_def)
qed

lemma carve_step:
  assumes "layout s g D" and "c < length (slabs s)" and "slab_size (slabs s ! c) = sz" and "64 \<le> sz"
    and "set (run_chunks n p sz) \<inter> dom (heap s) = {}" and "p \<noteq> 0"
  shows "\<exists>s'. carve n p c s = Some s' \<and> layout s' (free_upd g c (run_chunks n p sz @ g_free g c)) D
    \<and> dat s' = (\<lambda>a. if a \<in> set (run_chunks n p sz) then Some (blank_item sz) else dat s a)
    \<and> attrs s' = attrs s \<and> calm s s'"
  using assms
proof (induction n arbitrary: p s g)
  case 0
  then show ?case by simp
next
  case (Suc n)
  have p: "p \<notin> dom (heap s)" using Suc.prems(5) by auto
  obtain s1 where s1: "put_free (new_chunk s p sz (free_item (slabs s ! c))) c p = Some s1"
      "layout s1 (free_upd g c (p # g_free g c)) D"
      "dat s1 = (dat s)(p := Some (blank_item sz))" "attrs s1 = attrs s" "calm s s1"
    using chunk_step [OF Suc.prems(1-4) p Suc.prems(6)] by blast
  have c: "conf_of s1 = conf_of s" using s1(5) by (simp add: calm_def)
  have "p \<notin> set (run_chunks n (p + sz) sz)"
    using run_chunks_bounds [of p n "p + sz" sz] Suc.prems(4) by auto
  then have "set (run_chunks n (p + sz) sz) \<inter> dom (heap s1) = {}"
    using Suc.prems(5) by (auto simp: dom_dat s1(3))
  moreover have again: "free_upd (free_upd g c xs) c (ys @ g_free (free_upd g c xs) c) = free_upd g c (ys @ xs)" for xs ys
    by simp
  ultimately obtain s2 where s2: "carve n (p + sz) c s1 = Some s2"
      "layout s2 (free_upd g c (run_chunks n (p + sz) sz @ p # g_free g c)) D"
      "dat s2 = (\<lambda>a. if a \<in> set (run_chunks n (p + sz) sz) then Some (blank_item sz) else dat s1 a)"
      "attrs s2 = attrs s1" "calm s1 s2"
    using Suc.IH [OF s1(2), of "p + sz", unfolded again] Suc.prems(2-4) conf_of_nth(1) [OF c Suc.prems(2)]
      conf_ofD(3) [OF c] by auto
  have "carve (Suc n) p c s = Some s2" using s1(1) s2(1) Suc.prems(2,3) by simp
  moreover have "dat s2 = (\<lambda>a. if a \<in> set (run_chunks (Suc n) p sz) then Some (blank_item sz) else dat s a)"
    by (rule ext) (simp add: s2(3) s1(3))
  moreover have "layout s2 (free_upd g c (run_chunks (Suc n) p sz @ g_free g c)) D"
    using s2(2) by (simp only: run_chunks_simps append.assoc append_Cons append_Nil)
  moreover have "attrs s2 = attrs s" "calm s s2" using s2(4) s1(4) calm_trans [OF s1(5) s2(5)] by simp_all
  ultimately show ?case by (intro exI [of _ s2] conjI)
qed

section \<open>Steps of the hash table\<close>

text \<open>The chunk the table holds for a key.\<close>

definition tab :: "shmc \<Rightarrow> ghost \<Rightarrow> byte list \<Rightarrow> addr option" where
  "tab s g k = find (has_key s k) (g_bkt g (slot_of (nbuckets (attrs s)) k))"

definition in_table :: "ghost \<Rightarrow> addr set" where
  "in_table g = (\<Union>b. set (g_bkt g b))"

definition tabled :: "shmc \<Rightarrow> ghost \<Rightarrow> bool" where
  "tabled s g \<longleftrightarrow>
     (\<forall>b. \<forall>a \<in> set (g_bkt g b). \<exists>k. key_at s a = Some k \<and> slot_of (nbuckets (attrs s)) k = b)
     \<and> inj_on (key_at s) (in_table g)
     \<and> nitems (attrs s) = (\<Sum>b < nbuckets (attrs s). length (g_bkt g b))"

lemma tabledD:
  assumes "tabled s g"
  shows "a \<in> set (g_bkt g b) \<Longrightarrow> \<exists>k. key_at s a = Some k \<and> slot_of (nbuckets (attrs s)) k = b"
    "inj_on (key_at s) (in_table g)"
    "nitems (attrs s) = (\<Sum>b < nbuckets (attrs s). length (g_bkt g b))"
  using assms unfolding tabled_def by blast+

lemma tabled_keyed: "tabled s g \<Longrightarrow> keyed s (g_bkt g b)"
  using tabledD(1) by (fastforce simp: keyed_def)

lemma tab_eq_Some:
  assumes "tabled s g"
  shows "tab s g k = Some a \<longleftrightarrow> a \<in> in_table g \<and> key_at s a = Some k"
proof
  assume "tab s g k = Some a"
  then show "a \<in> in_table g \<and> key_at s a = Some k"
    using find_SomeD by (fastforce simp: tab_def in_table_def has_key_def)
next
  assume a: "a \<in> in_table g \<and> key_at s a = Some k"
  then have ab: "a \<in> set (g_bkt g (slot_of (nbuckets (attrs s)) k))"
    using tabledD(1) [OF assms] by (fastforce simp: in_table_def)
  then have "find (has_key s k) (g_bkt g (slot_of (nbuckets (attrs s)) k)) \<noteq> None"
    using a by (auto simp: find_None_iff has_key_def)
  then obtain x where x: "tab s g k = Some x" by (auto simp: tab_def)
  then have "x \<in> in_table g" "key_at s x = Some k"
    using find_SomeD by (fastforce simp: tab_def in_table_def has_key_def)+
  then have "x = a" using inj_onD [OF tabledD(2) [OF assms], of x a] a by simp
  with x show "tab s g k = Some a" by simp
qed

lemma tab_eq_None: "tabled s g \<Longrightarrow> tab s g k = None \<longleftrightarrow> (\<forall>a \<in> in_table g. key_at s a \<noteq> Some k)"
  using tab_eq_Some [of s g k] by (metis not_None_eq)

text \<open>The table only depends on the data of the items it holds.\<close>

lemma tabled_cong:
  assumes "tabled s g" and "\<And>a. a \<in> in_table g \<Longrightarrow> key_at s' a = key_at s a"
    and "nbuckets (attrs s') = nbuckets (attrs s)" and "nitems (attrs s') = nitems (attrs s)"
    and "g_bkt g' = g_bkt g"
  shows "tabled s' g'"
proof -
  have "inj_on (key_at s') (in_table g)"
    using tabledD(2) [OF assms(1)] assms(2) by (simp cong: inj_on_cong)
  moreover have "key_at s' a = key_at s a" if "a \<in> set (g_bkt g b)" for a b
    using that assms(2) by (auto simp: in_table_def)
  ultimately show ?thesis
    using tabledD(1,3) [OF assms(1)] assms(3-5) by (simp add: tabled_def in_table_def)
qed

lemma tab_cong:
  assumes "\<And>a. a \<in> in_table g \<Longrightarrow> key_at s' a = key_at s a"
    and "nbuckets (attrs s') = nbuckets (attrs s)" and "g_bkt g' = g_bkt g"
  shows "tab s' g' k = tab s g k"
proof -
  have "find (has_key s' k) (g_bkt g b) = find (has_key s k) (g_bkt g b)" for b
    using assms(1) by (intro find_cong) (simp_all add: has_key_def in_table_def, metis)
  then show ?thesis using assms(2,3) by (simp add: tab_def)
qed

lemma sum_list_upd:
  fixes f :: "nat \<Rightarrow> 'a list"
  assumes "b < n"
  shows "(\<Sum>d < n. length ((f(b := xs)) d)) + length (f b) = (\<Sum>d < n. length (f d)) + length xs"
proof -
  have "(\<Sum>d < n. length ((f(b := xs)) d)) = length xs + (\<Sum>d \<in> {..<n} - {b}. length (f d))"
    using assms by (subst sum.remove [of _ b]) auto
  moreover have "(\<Sum>d < n. length (f d)) = length (f b) + (\<Sum>d \<in> {..<n} - {b}. length (f d))"
    using assms by (subst sum.remove [of _ b]) auto
  ultimately show ?thesis by simp
qed

text \<open>A search finds the item of the key and changes only the depth statistics.\<close>

lemma find_step:
  assumes l: "layout s g D" and t: "tabled s g" and n: "nkey \<le> length (buf_bytes key)"
  shows "\<exists>s'. assoc_find s key nkey =
      Some (case tab s g (buf_key key nkey) of None \<Rightarrow> 0 | Some a \<Rightarrow> a, s')
    \<and> layout s' g D \<and> dat s' = dat s \<and> nitems (attrs s') = nitems (attrs s) \<and> calm s s'"
proof -
  define b where "b = slot_of (nbuckets (attrs s)) (buf_key key nkey)"
  define s' where "s' = with_depth s (probes (has_key s (buf_key key nkey)) (g_bkt g b))"
  have nb: "nbuckets (attrs s) \<noteq> 0" using layout_conjuncts(4) [OF l] .
  have bl: "b < nbuckets (attrs s)" using nb by (simp add: b_def slot_of_less)
  have "assoc_find s key nkey = Some (case tab s g (buf_key key nkey) of None \<Rightarrow> 0 | Some a \<Rightarrow> a, s')"
    using assoc_find_spec [OF layoutD(3) [OF l bl] tabled_keyed [OF t] n b_def nb]
    by (simp add: tab_def b_def s'_def)
  moreover have "bucket_list s' b (g_bkt g b)" using layoutD(3) [OF l bl] by (simp add: s'_def)
  then have "layout s' (bkt_upd g b (g_bkt g b)) D"
    by (intro layout_bkt_step [OF l bl, where S = "{}"]) (simp_all add: s'_def hash_frame_with_depth)
  then have "layout s' g D" by simp
  ultimately show ?thesis
    using conf_of_hash_frame [OF hash_frame_with_depth]
    by (auto simp: s'_def calm_def)
qed

lemma insert_step:
  assumes l: "layout s g D" and n: "nkey \<le> length (buf_bytes key)"
    and b: "b = slot_of (nbuckets (attrs s)) (buf_key key nkey)"
    and a: "a \<in> dom (heap s)" "a \<notin> in_table g" "a \<noteq> 0"
  shows "\<exists>s'. assoc_insert s key nkey a = Some s' \<and> layout s' (bkt_upd g b (a # g_bkt g b)) D
    \<and> dat s' = dat s \<and> nitems (attrs s') = Suc (nitems (attrs s)) \<and> calm s s'"
proof -
  have nb: "nbuckets (attrs s) \<noteq> 0" using layout_conjuncts(4) [OF l] .
  have bl: "b < nbuckets (attrs s)" using nb by (simp add: b slot_of_less)
  have an: "a \<notin> set (g_bkt g d)" for d using a(2) by (auto simp: in_table_def)
  obtain s' where s': "assoc_insert s key nkey a = Some s'" "bucket_list s' b (a # g_bkt g b)"
      "hash_frame s s' b {a}" "nitems (attrs s') = Suc (nitems (attrs s))"
    using assoc_insert_spec [OF layoutD(3) [OF l bl] n b nb a(1) an a(3)] by blast
  have "layout s' (bkt_upd g b (a # g_bkt g b)) D"
    using layout_bkt_step [OF l bl s'(3) _ s'(2)] an by simp
  then show ?thesis
    using s' conf_of_hash_frame [OF s'(3)] counters_onlyD(2) [of "attrs s" "attrs s'"]
    by (simp add: calm_def hash_frame_def)
qed

text \<open>Once the key is written the table is right again.\<close>

lemma tabled_insertI:
  assumes t: "tabled s g" and k: "key_at s' a = Some k" "tab s g k = None" "a \<notin> in_table g"
    and b: "b = slot_of (nbuckets (attrs s)) k" "nbuckets (attrs s) \<noteq> 0"
    and same: "\<And>x. x \<in> in_table g \<Longrightarrow> key_at s' x = key_at s x"
    and at: "nbuckets (attrs s') = nbuckets (attrs s)" "nitems (attrs s') = Suc (nitems (attrs s))"
    and g': "g_bkt g' = (g_bkt g)(b := a # g_bkt g b)"
  shows "tabled s' g'" "in_table g' = insert a (in_table g)"
proof -
  have bl: "b < nbuckets (attrs s)" using b by (simp add: slot_of_less)
  show it: "in_table g' = insert a (in_table g)"
    unfolding in_table_def g' by (auto split: if_splits)
  have "\<exists>k'. key_at s' x = Some k' \<and> slot_of (nbuckets (attrs s)) k' = d" if "x \<in> set (g_bkt g' d)" for x d
  proof (cases "x = a \<and> d = b")
    case True
    then show ?thesis using k(1) b(1) by simp
  next
    case False
    then have "x \<in> set (g_bkt g d)" using that by (auto simp: g' split: if_splits)
    then show ?thesis using tabledD(1) [OF t] same [of x] by (force simp: in_table_def)
  qed
  moreover have "inj_on (key_at s') (in_table g')"
  proof -
    have "inj_on (key_at s') (in_table g)" using tabledD(2) [OF t] same by (simp cong: inj_on_cong)
    moreover have "key_at s' a \<notin> key_at s' ` in_table g"
      using k same tab_eq_None [OF t, of k] by force
    ultimately show ?thesis using k(3) by (simp add: it)
  qed
  moreover have "Suc (nitems (attrs s)) = (\<Sum>d < nbuckets (attrs s). length (g_bkt g' d))"
    using sum_list_upd [OF bl, of "g_bkt g" "a # g_bkt g b"] tabledD(3) [OF t] by (simp add: g')
  ultimately show "tabled s' g'" using at by (simp add: tabled_def)
qed

lemma delete_absent_step:
  assumes l: "layout s g D" and t: "tabled s g" and n: "nkey \<le> length (buf_bytes key)"
    and k: "tab s g (buf_key key nkey) = None"
  shows "assoc_delete s key nkey = Some s"
proof -
  have nb: "nbuckets (attrs s) \<noteq> 0" using layout_conjuncts(4) [OF l] .
  have bl: "slot_of (nbuckets (attrs s)) (buf_key key nkey) < nbuckets (attrs s)" using nb by (simp add: slot_of_less)
  show ?thesis
    using assoc_delete_absent [OF layoutD(3) [OF l bl] tabled_keyed [OF t] n refl nb] k by (simp add: tab_def)
qed

lemma delete_step:
  assumes l: "layout s g D" and t: "tabled s g" and n: "nkey \<le> length (buf_bytes key)"
    and k: "tab s g (buf_key key nkey) = Some a"
  shows "\<exists>s' g'. assoc_delete s key nkey = Some s' \<and> layout s' g' D \<and> tabled s' g'
    \<and> in_table g' = in_table g - {a} \<and> g_lru g' = g_lru g \<and> g_free g' = g_free g
    \<and> dat s' = dat s \<and> calm s s'"
proof -
  define b where "b = slot_of (nbuckets (attrs s)) (buf_key key nkey)"
  define g' where "g' = bkt_upd g b (remove1 a (g_bkt g b))"
  have nb: "nbuckets (attrs s) \<noteq> 0" using layout_conjuncts(4) [OF l] .
  have bl: "b < nbuckets (attrs s)" using nb by (simp add: b_def slot_of_less)
  note D = layoutD(3) [OF l bl]
  have f: "find (has_key s (buf_key key nkey)) (g_bkt g b) = Some a" using k by (simp add: tab_def b_def)
  then have ab: "a \<in> set (g_bkt g b)" using find_SomeD by fast
  have len: "length (g_bkt g b) = Suc (length (remove1 a (g_bkt g b)))"
    using ab length_pos_if_in_set [OF ab] by (simp add: length_remove1)
  have sum: "(\<Sum>d < nbuckets (attrs s). length (g_bkt g' d)) + 1 = (\<Sum>d < nbuckets (attrs s). length (g_bkt g d))"
    using sum_list_upd [OF bl, of "g_bkt g" "remove1 a (g_bkt g b)"] unfolding len by (simp add: g'_def)
  have ni: "nitems (attrs s) \<noteq> 0" using sum tabledD(3) [OF t] by linarith
  obtain s' where s': "assoc_delete s key nkey = Some s'" "bucket_list s' b (remove1 a (g_bkt g b))"
      "hash_frame s s' b (set (g_bkt g b))" "nitems (attrs s') = nitems (attrs s) - 1"
    using assoc_delete_spec [OF D tabled_keyed [OF t] n b_def nb ni f] by blast
  have dis: "set (g_bkt g d) \<inter> set (g_bkt g b) = {}" if "d \<noteq> b" for d
  proof (rule ccontr)
    assume "set (g_bkt g d) \<inter> set (g_bkt g b) \<noteq> {}"
    then obtain x where "x \<in> set (g_bkt g d)" "x \<in> set (g_bkt g b)" by blast
    then show False using that tabledD(1) [OF t, of x d] tabledD(1) [OF t, of x b] by auto
  qed
  have l': "layout s' g' D"
    unfolding g'_def by (rule layout_bkt_step [OF l bl s'(3) dis s'(2)])
  have dist: "distinct (g_bkt g b)" using D chain_distinct by (auto simp: bucket_list_def)
  have it: "in_table g' = in_table g - {a}"
  proof -
    have "a \<notin> set (g_bkt g d)" if "d \<noteq> b" for d using dis [OF that] ab by blast
    then have "x \<in> set (g_bkt g' d) \<longleftrightarrow> x \<in> set (g_bkt g d) \<and> x \<noteq> a" for d x
      using dist by (cases "d = b") (auto simp: g'_def)
    then show ?thesis by (auto simp: in_table_def)
  qed
  have co: "counters_only (attrs s) (attrs s')" and dt: "dat s' = dat s"
    using s'(3) unfolding hash_frame_def by blast+
  have "calm s s'"
    unfolding calm_def using conf_of_hash_frame [OF s'(3)] counters_onlyD(2) [OF co] by blast
  note cf = this dt
  have nbs: "nbuckets (attrs s') = nbuckets (attrs s)"
    using cf(1) conf_ofD(6) [of s' s] unfolding calm_def by blast
  have sub: "set (g_bkt g' d) \<subseteq> set (g_bkt g d)" for d
    by (simp add: g'_def set_remove1_subset)
  have "tabled s' g'"
    unfolding tabled_def nbs key_at_dat [OF cf(2)]
  proof (intro conjI allI ballI)
    show "\<exists>k. key_at s x = Some k \<and> slot_of (nbuckets (attrs s)) k = d" if "x \<in> set (g_bkt g' d)" for d x
      using that sub [of d] tabledD(1) [OF t] by blast
    show "inj_on (key_at s) (in_table g')" using tabledD(2) [OF t] it by (auto intro: inj_on_subset)
    show "nitems (attrs s') = (\<Sum>d < nbuckets (attrs s). length (g_bkt g' d))"
      using sum s'(4) tabledD(3) [OF t] by simp
  qed
  then show ?thesis using s'(1) l' it cf by (intro exI [of _ s'] exI [of _ g']) (simp add: g'_def)
qed

end
