(* ===== verification/Alloc.thy ===== *)
theory Alloc
  imports Steps
begin

text \<open>
  \<open>item_alloc\<close> and \<open>item_free\<close> of \<open>shmc.c\<close>, the invariant of a store between operations, and
  what the allocator does to it: a chunk comes from the free list of its class, from a run
  newly cut from the pool, or from the least recently used item of the class.
\<close>

section \<open>The code\<close>

definition item_free :: "shmc \<Rightarrow> addr \<Rightarrow> shmc option" where
  "item_free s a = do {
     it \<leftarrow> get_item s a;
     cid \<leftarrow> item_clsid s (it_nkey it) (it_nval it);
     sl \<leftarrow> read_at (slabs s) cid;
     s \<leftarrow> put_item s a (it_next_update (\<lambda>_. free_item sl));
     put_free s cid a
   }"

text \<open>Taking the first chunk of a free list; 0 when it is empty.\<close>

definition pop_free :: "shmc \<Rightarrow> nat \<Rightarrow> (addr \<times> shmc) option" where
  "pop_free s cid = do {
     sl \<leftarrow> read_at (slabs s) cid;
     if free_item sl \<noteq> 0 then do {
       it \<leftarrow> get_item s (free_item sl);
       s \<leftarrow> put_free s cid (it_next it);
       Some (free_item sl, s)
     } else Some (0, s)
   }"

text \<open>The key inside an item as the \<open>char *\<close> the code passes on.\<close>

definition item_key_buf :: "shmc \<Rightarrow> addr \<Rightarrow> item \<Rightarrow> buf" where
  "item_key_buf s a it = Buf (base s + a + sizeof_item + it_key it) (drop (it_key it) (it_end it))"

definition evict_tail :: "shmc \<Rightarrow> nat \<Rightarrow> shmc option" where
  "evict_tail s cid = do {
     t \<leftarrow> read_at (tails s) cid;
     if t \<noteq> 0 then do {
       it \<leftarrow> get_item s t;
       s \<leftarrow> assoc_delete s (item_key_buf s t it) (it_nkey it);
       s \<leftarrow> item_unlink s t;
       item_free s t
     } else Some s
   }"

text \<open>The part of \<open>item_alloc\<close> between its two attempts.\<close>

definition refill :: "shmc \<Rightarrow> nat \<Rightarrow> shmc option" where
  "refill s cid = do {
     sl \<leftarrow> read_at (slabs s) cid;
     let len = slab_size sl * slab_count sl;
     if size_add (mem_used (attrs s)) len < mem_limit (attrs s) then do {
       let p = raw s + mem_used (attrs s);
       let s = upd_attr s (\<lambda>a. a\<lparr>mem_used := size_add (mem_used a) len\<rparr>);
       carve (slab_count sl) p cid s
     } else if evict_to_free (attrs s) then evict_tail s cid
     else Some s
   }"

definition init_item :: "nat \<Rightarrow> nat \<Rightarrow> nat \<Rightarrow> item \<Rightarrow> item" where
  "init_item cid nkey nval it =
     it\<lparr>it_clsid := cid, it_next := 0, it_prev := 0, it_hnext := 0,
        it_nkey := nkey, it_nval := nval, it_key := 0, it_val := nkey\<rparr>"

definition item_alloc :: "shmc \<Rightarrow> nat \<Rightarrow> nat \<Rightarrow> (addr \<times> shmc) option" where
  "item_alloc s nkey nval = do {
     guard (item_size_ok s nkey nval);
     cid \<leftarrow> item_clsid s nkey nval;
     (a, s) \<leftarrow> pop_free s cid;
     (a, s) \<leftarrow> (if a = 0 then do { s \<leftarrow> refill s cid; pop_free s cid } else Some (a, s));
     if a = 0 then Some (0, s)
     else do {
       s \<leftarrow> put_item s a (init_item cid nkey nval);
       Some (a, s)
     }
   }"

section \<open>The invariant\<close>

definition in_lru :: "ghost \<Rightarrow> addr set" where
  "in_lru g = (\<Union>c. set (g_lru g c))"

text \<open>An item of class \<open>c\<close>: its key and value lie one behind the other at the start of \<open>end[]\<close>.\<close>

definition good_item :: "slab list \<Rightarrow> nat \<Rightarrow> item \<Rightarrow> bool" where
  "good_item sls c it \<longleftrightarrow> it_key it = 0 \<and> it_val it = it_nkey it
     \<and> sizeof_item + it_nkey it + it_nval it < 2 ^ 64
     \<and> clsid_loop sls (sizeof_item + it_nkey it + it_nval it) 0 = Some c"

definition payload :: "shmc \<Rightarrow> ghost \<Rightarrow> bool" where
  "payload s g \<longleftrightarrow> (\<forall>c. \<forall>a \<in> set (g_lru g c). \<exists>it. dat s a = Some it \<and> good_item (slabs s) c it)"

text \<open>Chunks lie in the used part of the pool and do not overlap.\<close>

definition pooled :: "shmc \<Rightarrow> bool" where
  "pooled s \<longleftrightarrow> mem_used (attrs s) \<le> mem_limit (attrs s)
     \<and> (\<forall>a n. csize s a = Some n \<longrightarrow> raw s \<le> a \<and> a + n \<le> raw s + mem_used (attrs s))
     \<and> (\<forall>a b m n. csize s a = Some m \<and> csize s b = Some n \<and> a \<noteq> b \<longrightarrow> a + m \<le> b \<or> b + n \<le> a)"

text \<open>What \<open>shmc_init\<close> sets up once: sizes hold an item, and the pool is far from the end of \<open>size_t\<close>.\<close>

definition good_conf :: "shmc \<Rightarrow> bool" where
  "good_conf s \<longleftrightarrow> 0 < raw s
     \<and> (\<forall>c < length (slabs s). sizeof_item \<le> slab_size (slabs s ! c)
          \<and> mem_limit (attrs s) + slab_size (slabs s ! c) * slab_count (slabs s ! c) < 2 ^ 64)"

definition inv_held :: "shmc \<Rightarrow> ghost \<Rightarrow> addr set \<Rightarrow> bool" where
  "inv_held s g D \<longleftrightarrow> layout s g D \<and> tabled s g \<and> in_table g = in_lru g \<and> payload s g
     \<and> pooled s \<and> good_conf s"

definition store_inv :: "shmc \<Rightarrow> ghost \<Rightarrow> bool" where
  "store_inv s g \<longleftrightarrow> inv_held s g {}"

lemma inv_heldD:
  assumes "inv_held s g D"
  shows "layout s g D" "tabled s g" "in_table g = in_lru g" "payload s g" "pooled s" "good_conf s"
  using assms unfolding inv_held_def by blast+

lemma good_item_cong: "map slab_size sls' = map slab_size sls \<Longrightarrow> good_item sls' = good_item sls"
  using clsid_loop_cong [of sls' sls] by (simp add: good_item_def fun_eq_iff)

lemma payloadD:
  assumes "payload s g" and "a \<in> set (g_lru g c)"
  obtains it where "dat s a = Some it" "good_item (slabs s) c it"
  using assms unfolding payload_def by blast

lemma payload_cong:
  assumes "payload s g" and "map slab_size (slabs s') = map slab_size (slabs s)"
    and "\<And>c a. a \<in> set (g_lru g' c) \<Longrightarrow> a \<in> set (g_lru g c) \<and> dat s' a = dat s a"
  shows "payload s' g'"
  unfolding payload_def good_item_cong [OF assms(2)]
  using assms(1,3) unfolding payload_def by metis

lemma pooled_cong:
  assumes "pooled s" and "calm s s'" and "csize s' = csize s"
  shows "pooled s'"
  using assms(1) unfolding pooled_def assms(3) calmD(2,4,9) [OF assms(2)] .

lemma good_conf_cong:
  assumes "good_conf s" and "conf_of s' = conf_of s"
  shows "good_conf s'"
  unfolding good_conf_def conf_ofD(2,3,7) [OF assms(2)]
  using assms(1) conf_of_nth [OF assms(2)] unfolding good_conf_def by metis

text \<open>A step that moves chunks between lists and leaves data and table alone.\<close>

lemma inv_held_step:
  assumes i: "inv_held s g D" and l: "layout s' g' D'" and same: "dat s' = dat s" "calm s s'"
    and t: "nitems (attrs s') = nitems (attrs s)" "g_bkt g' = g_bkt g"
    and lru: "\<And>c. set (g_lru g' c) = set (g_lru g c)"
  shows "inv_held s' g' D'"
proof -
  note I = inv_heldD [OF i] and C = calmD [OF same(2)]
  have "tabled s' g'"
    by (rule tabled_cong [OF I(2) _ C(8) t]) (simp add: key_at_dat [OF same(1)])
  moreover have "in_table g' = in_lru g'"
    using I(3) by (simp add: in_table_def in_lru_def t(2) lru)
  moreover have "payload s' g'" by (rule payload_cong [OF I(4) C(6)]) (simp add: lru same(1))
  ultimately show ?thesis
    using l pooled_cong [OF I(5) same(2) csize_dat [OF same(1)]] good_conf_cong [OF I(6) C(1)]
    by (simp add: inv_held_def)
qed

section \<open>Freeing and taking chunks\<close>

lemma item_total_eq: "sizeof_item + nkey + nval < 2 ^ 64 \<Longrightarrow> item_total nkey nval = sizeof_item + nkey + nval"
  by (simp add: item_total_def)

text \<open>\<open>item_free\<close> of a held item: back on the free list of its class.\<close>

lemma free_step:
  assumes l: "layout s g D" and a: "a \<in> D" and c: "csize s a = Some (slab_size (slabs s ! c))"
    and it: "dat s a = Some it" "good_item (slabs s) c it"
  shows "\<exists>s'. item_free s a = Some s' \<and> layout s' (free_upd g c (a # g_free g c)) (D - {a})
    \<and> dat s' = dat s \<and> attrs s' = attrs s \<and> calm s s'"
proof -
  obtain it0 where it0: "heap s a = Some it0" "it_nkey it0 = it_nkey it" "it_nval it0 = it_nval it"
    using it(1) by (auto simp: dat_def)
  have ad: "a \<in> dom (heap s)" "a \<noteq> 0" using layout_held_nz [OF l a] by simp_all
  define h where "h = free_item (slabs s ! c)"
  define s1 where "s1 = upd_item s a (it_next_update (\<lambda>_. h))"
  define s2 where "s2 = s1\<lparr>slabs := (slabs s1)[c := (slabs s1 ! c)\<lparr>free_item := a\<rparr>]\<rparr>"
  have cl: "clsid_loop (slabs s) (item_total (it_nkey it) (it_nval it)) 0 = Some c"
    using it(2) by (simp add: good_item_def item_total_eq)
  then have cb: "c < length (slabs s)" by (simp add: clsid_loop_eq_Some)
  have run: "item_free s a = Some s2"
    using it0 cb ad cl by (simp add: item_free_def item_clsid_def s2_def s1_def h_def)
  have links: "nxt s2 = (nxt s)(a := h)" "prv s2 = prv s" "hnx s2 = hnx s" "dat s2 = dat s"
    using ad by (simp_all add: s2_def s1_def state_simps)
  have rest: "attrs s2 = attrs s" "slabs s2 = (slabs s)[c := (slabs s ! c)\<lparr>free_item := a\<rparr>]"
    "dom (heap s2) = dom (heap s)"
    by (simp_all add: s2_def s1_def)
  have fr: "free_frame s s2 c {a}"
    by (auto simp: free_frame_def links rest) (simp_all add: s2_def s1_def)
  have an: "a \<notin> set (g_free g c)" using layoutD(5) [OF l, of c] a by blast
  have fl: "free_list s2 c (a # g_free g c)"
    using layoutD(2) [OF l cb] an ad cb by (simp add: free_list_def links rest h_def)
  have "layout s2 (free_upd g c (a # g_free g c)) (D - {a})"
  proof (rule layout_free_step [OF l cb fr _ fl])
    show "csize s b = Some (slab_size (slabs s ! c))" if "b \<in> set (a # g_free g c)" for b
      using that c layout_class(2) [OF l, of b c] by auto
    show "set (a # g_free g c) \<inter> (D - {a}) = {}" using layoutD(5) [OF l, of c] by auto
  qed (use a in auto)
  then show ?thesis
    using run links(4) rest(1) conf_of_free_frame [OF fr cb] by (auto simp: calm_def)
qed

lemma pop_step:
  assumes l: "layout s g D" and c: "c < length (slabs s)"
  shows "case g_free g c of
      [] \<Rightarrow> pop_free s c = Some (0, s)
    | a # fs \<Rightarrow> a \<noteq> 0 \<and> (\<exists>s'. pop_free s c = Some (a, s') \<and> layout s' (free_upd g c fs) (insert a D)
        \<and> dat s' = dat s \<and> attrs s' = attrs s \<and> calm s s')"
proof (cases "g_free g c")
  case Nil
  then show ?thesis using layoutD(2) [OF l c] c by (simp add: pop_free_def free_list_def)
next
  case (Cons a fs)
  have f: "free_item (slabs s ! c) = a" "a \<noteq> 0" "chain (nxt s) (nxt s a) fs" "a \<in> dom (heap s)"
    "set fs \<subseteq> dom (heap s)"
    using layoutD(2) [OF l c] Cons by (auto simp: free_list_def)
  obtain it where it: "heap s a = Some it" using f(4) by blast
  define s' where "s' = s\<lparr>slabs := (slabs s)[c := (slabs s ! c)\<lparr>free_item := nxt s a\<rparr>]\<rparr>"
  have run: "pop_free s c = Some (a, s')"
    using c it f(1,2) by (simp add: pop_free_def s'_def link_of_heap(1))
  have links: "nxt s' = nxt s" "dat s' = dat s" "prv s' = prv s" "hnx s' = hnx s" "dom (heap s') = dom (heap s)"
    by (simp_all add: s'_def)
  have fr: "free_frame s s' c {}"
    by (auto simp: free_frame_def links) (simp_all add: s'_def, blast)
  have dist: "distinct (a # fs)" using layout_list_distinct(2) [OF l, of c] Cons by simp
  have "layout s' (free_upd g c fs) (insert a D)"
  proof (rule layout_free_step [OF l c fr])
    show "free_list s' c fs" using f(3,5) c by (simp add: free_list_def links) (simp add: s'_def)
    show "set fs \<inter> insert a D = {}" using dist Cons layoutD(5) [OF l, of c] by auto
    show "csize s b = Some (slab_size (slabs s ! c))" if "b \<in> set fs" for b
      using that Cons layout_class(2) [OF l, of b c] by simp
  qed (use Cons in auto)
  then show ?thesis
    using run f(2) Cons conf_of_free_frame [OF fr c] by (auto simp: calm_def s'_def)
qed

section \<open>Removing an item\<close>

lemma in_lruI: "a \<in> set (g_lru g c) \<Longrightarrow> a \<in> in_lru g"
  by (auto simp: in_lru_def)

lemma in_lru_upd:
  assumes "layout s g D" and "a \<in> set (g_lru g c)"
  shows "(\<Union>d. set (((g_lru g)(c := remove1 a (g_lru g c))) d)) = in_lru g - {a}"
proof -
  have "a \<notin> set (g_lru g d)" if "d \<noteq> c" for d
    using layout_disjoint(1) [OF assms(1) that] assms(2) by blast
  then have "x \<in> set (((g_lru g)(c := remove1 a (g_lru g c))) d) \<longleftrightarrow> x \<in> set (g_lru g d) \<and> x \<noteq> a" for x d
    using layout_list_distinct(1) [OF assms(1), of c] by (cases "d = c") auto
  then show ?thesis by (auto simp: in_lru_def)
qed

text \<open>
  \<open>assoc_delete\<close> and \<open>item_unlink\<close> of the item a key belongs to: the item is held, everything
  else stays where it is.
\<close>

lemma remove_step:
  assumes i: "inv_held s g D" and n: "nkey \<le> length (buf_bytes key)"
    and k: "tab s g (buf_key key nkey) = Some a" and a: "a \<in> set (g_lru g c)"
  shows "\<exists>s1 s2 g'. assoc_delete s key nkey = Some s1 \<and> item_unlink s1 a = Some s2
    \<and> inv_held s2 g' (insert a D) \<and> g_lru g' = (g_lru g)(c := remove1 a (g_lru g c)) \<and> g_free g' = g_free g
    \<and> in_table g' = in_table g - {a} \<and> dat s2 = dat s \<and> calm s s2"
proof -
  note I = inv_heldD [OF i]
  obtain s1 g1 where d: "assoc_delete s key nkey = Some s1" "layout s1 g1 D" "tabled s1 g1"
      "in_table g1 = in_table g - {a}" "g_lru g1 = g_lru g" "g_free g1 = g_free g" "dat s1 = dat s" "calm s s1"
    using delete_step [OF I(1,2) n k] by blast
  have "a \<in> set (g_lru g1 c)" using a d(5) by simp
  from unlink_step [OF d(2) this] obtain s2 where u: "item_unlink s1 a = Some s2"
      "layout s2 (lru_upd g1 c (remove1 a (g_lru g1 c))) (insert a D)"
      "dat s2 = dat s1" "attrs s2 = attrs s1" "calm s1 s2" by blast
  define g2 where "g2 = lru_upd g1 c (remove1 a (g_lru g1 c))"
  have g2: "g_lru g2 = (g_lru g)(c := remove1 a (g_lru g c))" "g_free g2 = g_free g" "g_bkt g2 = g_bkt g1"
    by (simp_all add: g2_def d(5,6))
  have same: "dat s2 = dat s" "calm s s2"
    using u(3) d(7) calm_trans [OF d(8) u(5)] by simp_all
  note C = calmD [OF same(2)]
  have "tabled s2 g2"
    by (rule tabled_cong [OF d(3)]) (simp_all add: g2(3) key_at_dat [OF u(3)] u(4))
  moreover have it: "in_table g2 = in_table g - {a}" using d(4) by (simp add: in_table_def g2(3))
  moreover have "in_lru g2 = in_lru g - {a}"
    using in_lru_upd [OF I(1) a] by (simp add: in_lru_def g2(1))
  moreover have "payload s2 g2"
    by (rule payload_cong [OF I(4) C(6)])
      (auto simp: g2(1) same(1) split: if_splits dest: subsetD [OF set_remove1_subset])
  ultimately have "inv_held s2 g2 (insert a D)"
    using u(2) I(3) pooled_cong [OF I(5) same(2) csize_dat [OF same(1)]] good_conf_cong [OF I(6) C(1)]
    unfolding inv_held_def g2_def [symmetric] by simp
  with d(1) u(1) g2(1,2) it same show ?thesis by blast
qed

text \<open>The key of an item, through the pointer the item has to it.\<close>

lemma item_key_buf_key:
  assumes "heap s a = Some it" and "key_at s a = Some k"
  shows "buf_key (item_key_buf s a it) (it_nkey it) = k" "it_nkey it \<le> length (buf_bytes (item_key_buf s a it))"
  using assms by (auto simp: key_at_def dat_def mem_load_eq_Some buf_key_def item_key_buf_def)

lemma in_table_key: "tabled s g \<Longrightarrow> a \<in> in_table g \<Longrightarrow> \<exists>k. key_at s a = Some k \<and> tab s g k = Some a"
  using tab_eq_Some tabledD(1) by (fastforce simp: in_table_def)

lemma inv_held_lru:
  assumes "inv_held s g D" and "a \<in> set (g_lru g c)"
  obtains it k where "dat s a = Some it" "good_item (slabs s) c it" "key_at s a = Some k" "tab s g k = Some a"
    "csize s a = Some (slab_size (slabs s ! c))" "c < length (slabs s)"
proof -
  note I = inv_heldD [OF assms(1)]
  have "a \<in> in_table g" using I(3) in_lruI [OF assms(2)] by simp
  then obtain k where "key_at s a = Some k" "tab s g k = Some a" using in_table_key [OF I(2)] by blast
  moreover obtain it where "dat s a = Some it" "good_item (slabs s) c it" using payloadD [OF I(4) assms(2)] .
  ultimately show ?thesis using that layout_class(1,2) [OF I(1), of a c] assms(2) by blast
qed

text \<open>Freeing a held chunk and evicting the last item of a class keep the invariant.\<close>

lemma free_held:
  assumes i: "inv_held s g D" and a: "a \<in> D" "csize s a = Some (slab_size (slabs s ! c))"
    and it: "dat s a = Some it" "good_item (slabs s) c it"
  shows "\<exists>s'. item_free s a = Some s' \<and> inv_held s' (free_upd g c (a # g_free g c)) (D - {a})
    \<and> dat s' = dat s \<and> calm s s'"
proof -
  obtain s' where s': "item_free s a = Some s'" "layout s' (free_upd g c (a # g_free g c)) (D - {a})"
      "dat s' = dat s" "attrs s' = attrs s" "calm s s'"
    using free_step [OF inv_heldD(1) [OF i] a it] by blast
  have "inv_held s' (free_upd g c (a # g_free g c)) (D - {a})"
    by (rule inv_held_step [OF i s'(2,3,5)]) (simp_all add: s'(4))
  with s' show ?thesis by blast
qed

lemma evict_step:
  assumes i: "inv_held s g D" and c: "c < length (slabs s)"
  shows "if g_lru g c = [] then evict_tail s c = Some s
    else \<exists>s' g'. evict_tail s c = Some s' \<and> inv_held s' g' D
      \<and> g_lru g' = (g_lru g)(c := butlast (g_lru g c))
      \<and> g_free g' = (g_free g)(c := last (g_lru g c) # g_free g c)
      \<and> in_table g' = in_table g - {last (g_lru g c)} \<and> dat s' = dat s \<and> calm s s'"
proof -
  note I = inv_heldD [OF i]
  have l: "lru_list s c (g_lru g c)" using layoutD(1) [OF I(1) c] .
  have t: "tails s ! c = (if g_lru g c = [] then 0 else last (g_lru g c))" "c < length (tails s)"
    using l dll_tail [of "nxt s" "prv s" "heads s ! c" "tails s ! c" "g_lru g c"] by (auto simp: lru_list_def)
  show ?thesis
  proof (cases "g_lru g c = []")
    case True
    then show ?thesis using t by (simp add: evict_tail_def)
  next
    case False
    define a where "a = last (g_lru g c)"
    have a: "a \<in> set (g_lru g c)" using False by (simp add: a_def)
    obtain it k where it: "dat s a = Some it" "good_item (slabs s) c it" "key_at s a = Some k"
        "tab s g k = Some a" "csize s a = Some (slab_size (slabs s ! c))"
      using inv_held_lru [OF i a] .
    obtain it0 where it0: "heap s a = Some it0" "it_nkey it0 = it_nkey it"
      using it(1) by (auto simp: dat_def)
    note kb = item_key_buf_key [OF it0(1) it(3)]
    obtain s1 s2 g2 where r: "assoc_delete s (item_key_buf s a it0) (it_nkey it0) = Some s1"
        "item_unlink s1 a = Some s2" "inv_held s2 g2 (insert a D)"
        "g_lru g2 = (g_lru g)(c := remove1 a (g_lru g c))" "g_free g2 = g_free g"
        "in_table g2 = in_table g - {a}" "dat s2 = dat s" "calm s s2"
      using remove_step [OF i kb(2) _ a] kb(1) it(4) by metis
    note C = calmD [OF r(8)]
    have f: "csize s2 a = Some (slab_size (slabs s2 ! c))" "dat s2 a = Some it" "good_item (slabs s2) c it"
      using it csize_dat [OF r(7)] r(7) conf_of_nth(1) [OF C(1) c] good_item_cong [OF C(6)] by simp_all
    obtain s3 where s3: "item_free s2 a = Some s3" "inv_held s3 (free_upd g2 c (a # g_free g2 c)) (insert a D - {a})"
        "dat s3 = dat s2" "calm s2 s3"
      using free_held [OF r(3) insertI1 f] by blast
    have "a \<notin> D" using layoutD(5) [OF I(1), of c] a by blast
    then have D: "insert a D - {a} = D" by blast
    have nz: "a \<noteq> 0" using layout_list_distinct(3) [OF I(1), of c] a by metis
    have run: "evict_tail s c = Some s3"
      using t False it0(1) r(1,2) s3(1) nz by (simp add: evict_tail_def a_def [symmetric])
    have last: "remove1 a (g_lru g c) = butlast (g_lru g c)"
      using False distinct_remove1_append [of "butlast (g_lru g c)" a "[]"] layout_list_distinct(1) [OF I(1), of c]
      by (simp add: a_def)
    define g3 where "g3 = free_upd g2 c (a # g_free g2 c)"
    have "g_lru g3 = (g_lru g)(c := butlast (g_lru g c))" "g_free g3 = (g_free g)(c := a # g_free g c)"
      "in_table g3 = in_table g - {a}"
      using r(4-6) last by (simp_all add: g3_def in_table_def)
    moreover have "inv_held s3 g3 D" using s3(2) D by (simp add: g3_def)
    moreover have "dat s3 = dat s" "calm s s3" using s3(3) r(7) calm_trans [OF r(8) s3(4)] by simp_all
    ultimately show ?thesis using run False by (auto simp: a_def)
  qed
qed

end
