(* ===== verification/Store.thy ===== *)
theory Store
  imports Alloc
begin

text \<open>
  The operations of \<open>shmc.c\<close> on keys and values, the \<open>_nolock\<close> functions: lookup, storing,
  deleting, and extending a value at either end. Results are the code's return code, what it
  stores through its pointer arguments, and the new state.
\<close>

section \<open>Copies into an item\<close>

text \<open>\<open>memcpy(R2A(shmc, item->key, char), key, nkey)\<close>.\<close>

definition copy_key :: "shmc \<Rightarrow> addr \<Rightarrow> buf \<Rightarrow> nat \<Rightarrow> shmc option" where
  "copy_key s a key nkey = do {
     it \<leftarrow> get_item s a;
     e \<leftarrow> memcpy (it_end it) (it_key it) (buf_bytes key) nkey;
     put_item s a (it_end_update (\<lambda>_. e))
   }"

text \<open>\<open>memcpy(R2A(shmc, item->val, char) + off, src, n)\<close>.\<close>

definition copy_val :: "shmc \<Rightarrow> addr \<Rightarrow> nat \<Rightarrow> byte list \<Rightarrow> nat \<Rightarrow> shmc option" where
  "copy_val s a off src n = do {
     it \<leftarrow> get_item s a;
     e \<leftarrow> memcpy (it_end it) (it_val it + off) src n;
     put_item s a (it_end_update (\<lambda>_. e))
   }"

text \<open>The bytes of an item's value.\<close>

definition load_val :: "shmc \<Rightarrow> addr \<Rightarrow> byte list option" where
  "load_val s a = do { it \<leftarrow> get_item s a; mem_load (it_end it) (it_val it) (it_nval it) }"

definition set_flags :: "shmc \<Rightarrow> addr \<Rightarrow> u32 \<Rightarrow> shmc option" where
  "set_flags s a f = put_item s a (it_flags_update (\<lambda>_. f))"

definition set_nval :: "shmc \<Rightarrow> addr \<Rightarrow> nat \<Rightarrow> shmc option" where
  "set_nval s a n = put_item s a (it_nval_update (\<lambda>_. n))"

section \<open>Lookup\<close>

text \<open>
  \<open>malloc_ok\<close> says whether \<open>malloc(item->nval)\<close> gives memory. The mutex around \<open>item_relink\<close> does not change
  the segment; theories \<open>Calls\<close> and \<open>Wrappers\<close> model it with the other locks.
\<close>

definition shmc_get_nolock ::
  "shmc \<Rightarrow> buf \<Rightarrow> nat \<Rightarrow> bool \<Rightarrow> (shmc_rc \<times> (byte list \<times> u32) option \<times> shmc) option" where
  "shmc_get_nolock s key nkey malloc_ok = do {
     (a, s) \<leftarrow> assoc_find s key nkey;
     if a = 0 then Some (SHMC_NOTFOUND, None, s)
     else do {
       s \<leftarrow> item_relink s a;
       it \<leftarrow> get_item s a;
       if malloc_ok then do {
         v \<leftarrow> load_val s a;
         Some (SHMC_OK, Some (v, it_flags it), s)
       } else Some (SHMC_SYSTEM, None, s)
     }
   }"

text \<open>\<open>room\<close> is \<open>*nval\<close> on entry, the size of the caller's buffer.\<close>

definition shmc_getf_nolock ::
  "shmc \<Rightarrow> buf \<Rightarrow> nat \<Rightarrow> nat \<Rightarrow> (shmc_rc \<times> (byte list \<times> u32) option \<times> shmc) option" where
  "shmc_getf_nolock s key nkey room = do {
     (a, s) \<leftarrow> assoc_find s key nkey;
     if a = 0 then Some (SHMC_NOTFOUND, None, s)
     else do {
       s \<leftarrow> item_relink s a;
       it \<leftarrow> get_item s a;
       if room \<ge> it_nval it then do {
         v \<leftarrow> load_val s a;
         Some (SHMC_OK, Some (v, it_flags it), s)
       } else Some (SHMC_ESPACE, None, s)
     }
   }"

section \<open>Deleting and storing\<close>

definition shmc_del_nolock :: "shmc \<Rightarrow> buf \<Rightarrow> nat \<Rightarrow> (shmc_rc \<times> shmc) option" where
  "shmc_del_nolock s key nkey = do {
     (a, s) \<leftarrow> assoc_find s key nkey;
     if a = 0 then Some (SHMC_NOTFOUND, s)
     else do {
       s \<leftarrow> assoc_delete s key nkey;
       s \<leftarrow> item_unlink s a;
       s \<leftarrow> item_free s a;
       Some (SHMC_OK, s)
     }
   }"

definition shmc_set_nolock ::
  "shmc \<Rightarrow> buf \<Rightarrow> nat \<Rightarrow> byte list \<Rightarrow> nat \<Rightarrow> u32 \<Rightarrow> (shmc_rc \<times> shmc) option" where
  "shmc_set_nolock s key nkey val nval flags =
     (if \<not> item_size_ok s nkey nval then Some (SHMC_ESIZE, s)
      else do {
        (_, s) \<leftarrow> shmc_del_nolock s key nkey;
        (a, s) \<leftarrow> item_alloc s nkey nval;
        if a = 0 then Some (SHMC_NOMEMORY, s)
        else do {
          s \<leftarrow> assoc_insert s key nkey a;
          s \<leftarrow> item_link s a;
          s \<leftarrow> set_flags s a flags;
          s \<leftarrow> copy_key s a key nkey;
          s \<leftarrow> copy_val s a 0 val nval;
          Some (SHMC_OK, s)
        }
      })"

definition shmc_add_nolock ::
  "shmc \<Rightarrow> buf \<Rightarrow> nat \<Rightarrow> byte list \<Rightarrow> nat \<Rightarrow> u32 \<Rightarrow> (shmc_rc \<times> shmc) option" where
  "shmc_add_nolock s key nkey val nval flags = do {
     (a, s) \<leftarrow> assoc_find s key nkey;
     if a \<noteq> 0 then Some (SHMC_EXIST, s)
     else shmc_set_nolock s key nkey val nval flags
   }"

definition shmc_replace_nolock ::
  "shmc \<Rightarrow> buf \<Rightarrow> nat \<Rightarrow> byte list \<Rightarrow> nat \<Rightarrow> u32 \<Rightarrow> (shmc_rc \<times> shmc) option" where
  "shmc_replace_nolock s key nkey val nval flags = do {
     (a, s) \<leftarrow> assoc_find s key nkey;
     if a = 0 then Some (SHMC_NOTFOUND, s)
     else do {
       it \<leftarrow> get_item s a;
       cid \<leftarrow> item_clsid s nkey nval;
       if it_clsid it = cid then do {
         s \<leftarrow> item_relink s a;
         s \<leftarrow> set_flags s a flags;
         s \<leftarrow> copy_val s a 0 val nval;
         s \<leftarrow> set_nval s a nval;
         Some (SHMC_OK, s)
       } else do {
         s \<leftarrow> assoc_delete s key nkey;
         s \<leftarrow> item_unlink s a;
         s \<leftarrow> item_free s a;
         shmc_set_nolock s key nkey val nval flags
       }
     }
   }"

section \<open>Extending a value\<close>

text \<open>
  In the moving branch of both functions \<open>item->flags = flags\<close> writes the old item.
\<close>

definition shmc_prepend_nolock ::
  "shmc \<Rightarrow> buf \<Rightarrow> nat \<Rightarrow> byte list \<Rightarrow> nat \<Rightarrow> u32 \<Rightarrow> (shmc_rc \<times> shmc) option" where
  "shmc_prepend_nolock s key nkey val nval flags = do {
     (a, s) \<leftarrow> assoc_find s key nkey;
     if a = 0 then Some (SHMC_NOTFOUND, s)
     else do {
       it \<leftarrow> get_item s a;
       cid \<leftarrow> item_clsid s nkey (size_add nval (it_nval it));
       if it_clsid it = cid then do {
         s \<leftarrow> item_relink s a;
         s \<leftarrow> set_flags s a flags;
         old \<leftarrow> load_val s a;
         s \<leftarrow> copy_val s a nval old (it_nval it);
         s \<leftarrow> copy_val s a 0 val nval;
         s \<leftarrow> set_nval s a (size_add (it_nval it) nval);
         Some (SHMC_OK, s)
       } else if \<not> item_size_ok s nkey (size_add nval (it_nval it)) then Some (SHMC_ESIZE, s)
       else do {
         (n, s) \<leftarrow> item_alloc s nkey (size_add nval (it_nval it));
         if n = 0 then Some (SHMC_NOMEMORY, s)
         else do {
           s \<leftarrow> assoc_delete s key nkey;
           s \<leftarrow> item_unlink s a;
           s \<leftarrow> assoc_insert s key nkey n;
           s \<leftarrow> item_link s n;
           s \<leftarrow> set_flags s a flags;
           it \<leftarrow> get_item s a;
           s \<leftarrow> copy_key s n key nkey;
           s \<leftarrow> copy_val s n 0 val nval;
           old \<leftarrow> load_val s a;
           s \<leftarrow> copy_val s n nval old (it_nval it);
           s \<leftarrow> item_free s a;
           Some (SHMC_OK, s)
         }
       }
     }
   }"

definition shmc_append_nolock ::
  "shmc \<Rightarrow> buf \<Rightarrow> nat \<Rightarrow> byte list \<Rightarrow> nat \<Rightarrow> u32 \<Rightarrow> (shmc_rc \<times> shmc) option" where
  "shmc_append_nolock s key nkey val nval flags = do {
     (a, s) \<leftarrow> assoc_find s key nkey;
     if a = 0 then Some (SHMC_NOTFOUND, s)
     else do {
       it \<leftarrow> get_item s a;
       cid \<leftarrow> item_clsid s nkey (size_add nval (it_nval it));
       if it_clsid it = cid then do {
         s \<leftarrow> item_relink s a;
         s \<leftarrow> set_flags s a flags;
         s \<leftarrow> copy_val s a (it_nval it) val nval;
         s \<leftarrow> set_nval s a (size_add (it_nval it) nval);
         Some (SHMC_OK, s)
       } else if \<not> item_size_ok s nkey (size_add nval (it_nval it)) then Some (SHMC_ESIZE, s)
       else do {
         (n, s) \<leftarrow> item_alloc s nkey (size_add nval (it_nval it));
         if n = 0 then Some (SHMC_NOMEMORY, s)
         else do {
           s \<leftarrow> assoc_delete s key nkey;
           s \<leftarrow> item_unlink s a;
           s \<leftarrow> assoc_insert s key nkey n;
           s \<leftarrow> item_link s n;
           s \<leftarrow> set_flags s a flags;
           it \<leftarrow> get_item s a;
           s \<leftarrow> copy_key s n key nkey;
           old \<leftarrow> load_val s a;
           s \<leftarrow> copy_val s n 0 old (it_nval it);
           s \<leftarrow> copy_val s n (it_nval it) val nval;
           s \<leftarrow> item_free s a;
           Some (SHMC_OK, s)
         }
       }
     }
   }"

section \<open>Writes to one item, one after the other\<close>

lemma put_item_put_item: "put_item s a f \<bind> (\<lambda>s. put_item s a g) = put_item s a (g \<circ> f)"
  by (cases "heap s a") (simp_all add: put_item_def upd_item_def)

lemma upd_item_upd_item: "upd_item (upd_item s a f) a g = upd_item s a (g \<circ> f)"
  by (simp add: upd_item_def option.map_comp)

lemma copy_val_in:
  "heap s a = Some it \<Longrightarrow> n \<le> length src \<Longrightarrow> it_val it + off + n \<le> length (it_end it) \<Longrightarrow>
     copy_val s a off src n = Some (upd_item s a (it_end_update (\<lambda>_. blit (it_end it) (it_val it + off) (take n src))))"
  by (simp add: copy_val_def domI)

lemma copy_key_in:
  "heap s a = Some it \<Longrightarrow> n \<le> length (buf_bytes key) \<Longrightarrow> it_key it + n \<le> length (it_end it) \<Longrightarrow>
     copy_key s a key n = Some (upd_item s a (it_end_update (\<lambda>_. blit (it_end it) (it_key it) (buf_key key n))))"
  by (simp add: copy_key_def domI buf_key_def)

lemma set_flags_in: "heap s a = Some it \<Longrightarrow> set_flags s a f = Some (upd_item s a (it_flags_update (\<lambda>_. f)))"
  by (simp add: set_flags_def domI)

lemma set_nval_in: "heap s a = Some it \<Longrightarrow> set_nval s a n = Some (upd_item s a (it_nval_update (\<lambda>_. n)))"
  by (simp add: set_nval_def domI)

lemma load_val_in:
  "heap s a = Some it \<Longrightarrow> it_val it + it_nval it \<le> length (it_end it) \<Longrightarrow>
     load_val s a = Some (take (it_nval it) (drop (it_val it) (it_end it)))"
  by (simp add: load_val_def)

lemma heap_upd_same: "heap s a = Some it \<Longrightarrow> heap (upd_item s a f) a = Some (f it)"
  by (simp add: heap_upd_item)

lemma heap_upd_other: "b \<noteq> a \<Longrightarrow> heap (upd_item s a f) b = heap s b"
  by (simp add: heap_upd_item)

lemmas item_writes = copy_val_in copy_key_in set_flags_in set_nval_in load_val_in heap_upd_same heap_upd_other

end
