(* ===== verification/Counters.thy ===== *)
theory Counters
  imports Store
begin

text \<open>
  Counters: decimal text in a value of \<open>UINT64_SIZE\<close> bytes, read by \<open>safe_strtoull\<close> and
  written by \<open>sprintf\<close>, and \<open>shmc_arithmetic\<close> behind \<open>shmc_incr_nolock\<close> and \<open>shmc_decr_nolock\<close>.
\<close>

section \<open>The code\<close>

definition UINT64_SIZE :: nat where "UINT64_SIZE = 21"

fun strtoull_loop :: "byte list \<Rightarrow> u64 \<Rightarrow> u64" where
  "strtoull_loop [] v = v"
| "strtoull_loop (ch # cs) v =
     (if ch < 48 \<or> ch > 57 then v else strtoull_loop cs (v * 10 + ucast (ch - 48)))"

definition safe_strtoull :: "byte list \<Rightarrow> nat \<Rightarrow> u64 option" where
  "safe_strtoull val nval = do {
     let nval = (if nval > UINT64_SIZE - 1 then UINT64_SIZE - 1 else nval);
     ds \<leftarrow> mem_load val 0 nval;
     Some (strtoull_loop ds 0)
   }"

text \<open>What \<open>sprintf(p, "%"PRIu64, v)\<close> writes: the decimal digits and the terminating zero.\<close>

fun dec :: "nat \<Rightarrow> byte list" where
  "dec n = (if n < 10 then [of_nat (48 + n)] else dec (n div 10) @ [of_nat (48 + n mod 10)])"

declare dec.simps [simp del]

definition sprintf_u64 :: "u64 \<Rightarrow> byte list" where
  "sprintf_u64 v = dec (unat v) @ [0]"

text \<open>The value after the operation.\<close>

definition counter_op :: "bool \<Rightarrow> u64 \<Rightarrow> u64 \<Rightarrow> u64" where
  "counter_op incr old_val val =
     (if incr then old_val + val else if old_val < val then 0 else old_val - val)"

text \<open>
  The first part of \<open>shmc_arithmetic\<close>: the old value and flags and the item to write, 0 when
  there is no memory; \<open>Inl\<close> when the key is missing and counters are not created.
\<close>

definition counter_item ::
  "shmc \<Rightarrow> buf \<Rightarrow> nat \<Rightarrow> addr \<Rightarrow> (shmc_rc + (u64 \<times> u32 \<times> addr) \<times> shmc) option" where
  "counter_item s key nkey old =
     (if old \<noteq> 0 then do {
        it \<leftarrow> get_item s old;
        old_val \<leftarrow> safe_strtoull (drop (it_val it) (it_end it)) (it_nval it);
        if it_nval it = UINT64_SIZE then Some (Inr ((old_val, it_flags it, old), s))
        else do {
          (new, s) \<leftarrow> item_alloc s nkey UINT64_SIZE;
          if new \<noteq> 0 then do {
            s \<leftarrow> assoc_delete s key nkey;
            s \<leftarrow> item_unlink s old;
            s \<leftarrow> item_free s old;
            Some (Inr ((old_val, it_flags it, new), s))
          } else Some (Inr ((old_val, it_flags it, 0), s))
        }
      } else if default_counter (attrs s) then do {
        (new, s) \<leftarrow> item_alloc s nkey UINT64_SIZE;
        Some (Inr ((0, 0, new), s))
      } else Some (Inl SHMC_NOTFOUND))"

text \<open>\<open>if (new_item != old_item) ...\<close>: a new counter is filled with blanks.\<close>

definition init_counter ::
  "shmc \<Rightarrow> buf \<Rightarrow> nat \<Rightarrow> addr \<Rightarrow> u32 \<Rightarrow> u32 option \<Rightarrow> shmc option" where
  "init_counter s key nkey new old_flags flags = do {
     s \<leftarrow> assoc_insert s key nkey new;
     s \<leftarrow> item_link s new;
     s \<leftarrow> set_flags s new old_flags;
     s \<leftarrow> copy_key s new key nkey;
     s \<leftarrow> copy_val s new 0 (replicate UINT64_SIZE 32) UINT64_SIZE;
     (case flags of None \<Rightarrow> Some s | Some f \<Rightarrow> set_flags s new f)
   }"

text \<open>\<open>flags\<close> is \<open>None\<close> for a null pointer, otherwise what it points to on entry.\<close>

definition shmc_arithmetic ::
  "shmc \<Rightarrow> buf \<Rightarrow> nat \<Rightarrow> u64 \<Rightarrow> bool \<Rightarrow> u32 option
   \<Rightarrow> (shmc_rc \<times> (u64 \<times> u32 option) option \<times> shmc) option" where
  "shmc_arithmetic s key nkey val incr flags = do {
     (old, s) \<leftarrow> assoc_find s key nkey;
     r \<leftarrow> counter_item s key nkey old;
     (case r of
        Inl rc \<Rightarrow> Some (rc, None, s)
      | Inr ((old_val, old_flags, new), s) \<Rightarrow>
          if new = 0 then Some (SHMC_NOMEMORY, None, s)
          else do {
            s \<leftarrow> (if new \<noteq> old then init_counter s key nkey new old_flags flags else Some s);
            it \<leftarrow> get_item s new;
            let new_val = counter_op incr old_val val;
            let txt = sprintf_u64 new_val;
            s \<leftarrow> copy_val s new 0 txt (length txt);
            Some (SHMC_OK, Some (new_val, map_option (\<lambda>_. it_flags it) flags), s)
          })
   }"

definition shmc_incr_nolock ::
  "shmc \<Rightarrow> buf \<Rightarrow> nat \<Rightarrow> u64 \<Rightarrow> u32 option \<Rightarrow> (shmc_rc \<times> (u64 \<times> u32 option) option \<times> shmc) option" where
  "shmc_incr_nolock s key nkey val flags = shmc_arithmetic s key nkey val True flags"

definition shmc_decr_nolock ::
  "shmc \<Rightarrow> buf \<Rightarrow> nat \<Rightarrow> u64 \<Rightarrow> u32 option \<Rightarrow> (shmc_rc \<times> (u64 \<times> u32 option) option \<times> shmc) option" where
  "shmc_decr_nolock s key nkey val flags = shmc_arithmetic s key nkey val False flags"

section \<open>Decimal text\<close>

text \<open>The bytes of \<open>dec\<close> are digits, and reading them gives the number modulo \<open>2 ^ 64\<close>.\<close>

lemma digit_byte:
  assumes "d < 10"
  shows "\<not> (of_nat (48 + d) :: byte) < 48" "\<not> (57 :: byte) < of_nat (48 + d)"
    "ucast ((of_nat (48 + d) :: byte) - 48) = (of_nat d :: u64)"
proof -
  have u: "unat (of_nat (48 + d) :: byte) = 48 + d"
    using assms by (subst unat_of_nat) simp
  show "\<not> (of_nat (48 + d) :: byte) < 48" "\<not> (57 :: byte) < of_nat (48 + d)"
    using assms by (simp_all only: word_less_nat_alt u) simp_all
  have "(of_nat (48 + d) :: byte) - 48 = of_nat d" by simp
  moreover have "ucast (of_nat d :: byte) = (of_nat d :: u64)"
    using assms by (simp add: unsigned_of_nat take_bit_nat_eq_self)
  ultimately show "ucast ((of_nat (48 + d) :: byte) - 48) = (of_nat d :: u64)" by simp
qed

lemma strtoull_dec:
  "strtoull_loop (dec n @ rest) v = strtoull_loop rest (v * 10 ^ length (dec n) + of_nat n)"
proof (induction n arbitrary: v rest rule: dec.induct)
  case (1 n)
  show ?case
  proof (cases "n < 10")
    case True
    then have "dec n = [of_nat (48 + n)]" by (simp add: dec.simps [of n])
    then show ?thesis using digit_byte [OF True] by simp
  next
    case False
    have m: "n mod 10 < 10" by simp
    have d: "dec n = dec (n div 10) @ [of_nat (48 + n mod 10)]" using False by (simp add: dec.simps [of n])
    have "strtoull_loop (dec n @ rest) v
        = strtoull_loop (of_nat (48 + n mod 10) # rest) (v * 10 ^ length (dec (n div 10)) + of_nat (n div 10))"
      using "1.IH" [OF False, of "of_nat (48 + n mod 10) # rest" v] by (simp only: d append.assoc append_Cons append_Nil)
    also have "\<dots> = strtoull_loop rest ((v * 10 ^ length (dec (n div 10)) + of_nat (n div 10)) * 10 + of_nat (n mod 10))"
      using digit_byte [OF m] by simp
    also have "(v * 10 ^ length (dec (n div 10)) + of_nat (n div 10)) * 10 + of_nat (n mod 10)
        = v * 10 ^ length (dec n) + (of_nat n :: u64)"
    proof -
      have "(of_nat n :: u64) = of_nat (n div 10) * 10 + of_nat (n mod 10)"
        by (metis div_mult_mod_eq of_nat_add of_nat_mult of_nat_numeral)
      then show ?thesis by (simp add: d algebra_simps)
    qed
    finally show ?thesis .
  qed
qed

lemma dec_length: "n < 10 ^ Suc k \<Longrightarrow> length (dec n) \<le> Suc k"
proof (induction k arbitrary: n)
  case 0
  then show ?case by (simp add: dec.simps [of n])
next
  case (Suc k)
  show ?case
  proof (cases "n < 10")
    case True
    then show ?thesis by (simp add: dec.simps [of n])
  next
    case False
    have "n div 10 < 10 ^ Suc k" using Suc.prems by (simp add: less_mult_imp_div_less)
    then show ?thesis using Suc.IH [of "n div 10"] False by (simp add: dec.simps [of n])
  qed
qed

lemma sprintf_u64_length: "length (sprintf_u64 v) \<le> UINT64_SIZE"
proof -
  have "unat v < 2 ^ 64" using unsigned_less [where 'a = nat, of v] by simp
  then have "unat v < 10 ^ Suc 19" by simp
  then have "length (dec (unat v)) \<le> Suc 19" by (rule dec_length)
  then show ?thesis by (simp add: sprintf_u64_def UINT64_SIZE_def)
qed

lemma strtoull_stop: "strtoull_loop (take n (0 # rest)) v = v"
  by (cases n) simp_all

text \<open>Reading the text of a number gives the number, whatever follows it in the value.\<close>

lemma strtoull_sprintf:
  assumes "length (sprintf_u64 v @ rest) \<ge> UINT64_SIZE"
  shows "strtoull_loop (take (UINT64_SIZE - 1) (sprintf_u64 v @ rest)) 0 = v"
proof -
  have "length (dec (unat v)) \<le> UINT64_SIZE - 1"
    using sprintf_u64_length [of v] by (simp add: sprintf_u64_def UINT64_SIZE_def)
  then have "take (UINT64_SIZE - 1) (sprintf_u64 v @ rest)
      = dec (unat v) @ take (UINT64_SIZE - 1 - length (dec (unat v))) (0 # rest)"
    by (simp add: sprintf_u64_def)
  then show ?thesis by (simp add: strtoull_dec strtoull_stop)
qed

end
