(* ===== verification/Counter_Spec.thy ===== *)
theory Counter_Spec
  imports Counters
begin

text \<open>
  What counters mean, without the loops of the code: the number a text stands for as a sum of digits
  and powers of ten, the decimal text of a number digit by digit, and the arithmetic on natural
  numbers. The lemmas show that the code computes these.
\<close>

section \<open>Reading a number\<close>

definition is_digit :: "byte \<Rightarrow> bool" where
  "is_digit b \<longleftrightarrow> 48 \<le> unat b \<and> unat b \<le> 57"

definition place_value :: "byte list \<Rightarrow> nat" where
  "place_value ds = (\<Sum>i < length ds. (unat (rev ds ! i) - 48) * 10 ^ i)"

text \<open>The digits at the front of the first 20 bytes of a value, modulo \<open>2 ^ 64\<close>.\<close>

definition counter_val :: "byte list \<Rightarrow> u64" where
  "counter_val v = of_nat (place_value (takeWhile is_digit (take 20 v)))"

lemma place_value_Cons: "place_value (d # ds) = (unat d - 48) * 10 ^ length ds + place_value ds"
  by (simp add: place_value_def nth_append)

lemma digit_word:
  assumes "is_digit b"
  shows "(ucast (b - 48) :: u64) = of_nat (unat b - 48)"
proof -
  have "unat (b - 48) = unat b - 48" using assms by (simp add: is_digit_def unat_sub word_le_nat_alt)
  then show ?thesis by (metis of_nat_unat)
qed

lemma strtoull_place_value:
  "strtoull_loop bs v = v * 10 ^ length (takeWhile is_digit bs) + of_nat (place_value (takeWhile is_digit bs))"
proof (induction bs arbitrary: v)
  case (Cons b bs)
  have d: "(b < 48 \<or> b > 57) \<longleftrightarrow> \<not> is_digit b" by (auto simp: is_digit_def word_less_nat_alt)
  show ?case
  proof (cases "is_digit b")
    case True
    have "strtoull_loop (b # bs) v = strtoull_loop bs (v * 10 + of_nat (unat b - 48))"
      using True d by (simp add: digit_word)
    also have "\<dots> = v * 10 ^ Suc (length (takeWhile is_digit bs))
        + of_nat ((unat b - 48) * 10 ^ length (takeWhile is_digit bs) + place_value (takeWhile is_digit bs))"
      unfolding Cons.IH of_nat_add of_nat_mult by (simp add: algebra_simps)
    finally show ?thesis using True by (simp add: place_value_Cons)
  qed (use d in \<open>simp add: place_value_def\<close>)
qed (simp add: place_value_def)

lemma counter_val_loop: "counter_val v = strtoull_loop (take (UINT64_SIZE - 1) v) 0"
  by (simp add: strtoull_place_value counter_val_def UINT64_SIZE_def)

section \<open>The arithmetic\<close>

text \<open>Upwards modulo \<open>2 ^ 64\<close>, downwards not below zero.\<close>

definition number_after :: "bool \<Rightarrow> u64 \<Rightarrow> u64 \<Rightarrow> u64" where
  "number_after incr old_val val = of_nat (if incr then unat old_val + unat val else unat old_val - unat val)"

lemma number_after_op [simp]: "number_after incr old_val val = counter_op incr old_val val"
proof (cases "incr \<or> old_val < val")
  case False
  then have "unat (old_val - val) = unat old_val - unat val" by (intro unat_sub) (simp add: not_less)
  then have "number_after incr old_val val = of_nat (unat (old_val - val))" using False by (simp add: number_after_def)
  also have "\<dots> = old_val - val" by simp
  finally show ?thesis using False by (simp add: counter_op_def)
qed (auto simp: number_after_def counter_op_def word_less_nat_alt)

section \<open>Writing a number\<close>

text \<open>A number below \<open>10 ^ 20\<close> has one digit, and one more for every power of ten it reaches.\<close>

definition digit_count :: "nat \<Rightarrow> nat" where
  "digit_count n = Suc (length (filter (\<lambda>i. 10 ^ i \<le> n) [1..<20]))"

definition decimal :: "nat \<Rightarrow> byte list" where
  "decimal n = map (\<lambda>i. of_nat (48 + n div 10 ^ i mod 10)) (rev [0..<digit_count n])"

text \<open>The bytes of a value after a number and its terminating zero are written over it.\<close>

definition over :: "byte list \<Rightarrow> u64 \<Rightarrow> byte list" where
  "over v n = blit v 0 (decimal (unat n) @ [0])"

text \<open>A new counter: the text, its terminating zero and blanks.\<close>

definition counter_text :: "u64 \<Rightarrow> byte list" where
  "counter_text n = over (replicate 21 32) n"

lemma dec_places:
  assumes "10 ^ d \<le> n \<or> d = 0" and "n < 10 ^ Suc d"
  shows "dec n = map (\<lambda>i. of_nat (48 + n div 10 ^ i mod 10)) (rev [0..<Suc d])"
  using assms
proof (induction d arbitrary: n)
  case 0
  then show ?case by (simp add: dec.simps [of n])
next
  case (Suc d)
  have "(10 :: nat) ^ 1 \<le> 10 ^ Suc d" by (intro power_increasing) simp_all
  moreover have "10 ^ Suc d \<le> n" using Suc.prems(1) by simp
  ultimately have n: "10 \<le> n" by (metis le_trans power_one_right)
  have "10 ^ d \<le> n div 10" "n div 10 < 10 ^ Suc d" using Suc.prems by (auto simp: less_mult_imp_div_less)
  from Suc.IH [OF disjI1 [OF this(1)] this(2)] have "dec (n div 10) = map (\<lambda>i. of_nat (48 + n div 10 ^ Suc i mod 10)) (rev [0..<Suc d])"
    by (simp add: div_mult2_eq [symmetric] del: upt_Suc)
  moreover have "rev [0..<Suc (Suc d)] = map Suc (rev [0..<Suc d]) @ [0]"
    by (metis map_Suc_upt rev.simps(2) rev_map upt_conv_Cons zero_less_Suc)
  ultimately show ?case using n by (simp add: dec.simps [of n] comp_def del: upt_Suc)
qed

lemma digit_range:
  fixes n :: nat
  shows "n < 10 ^ Suc k \<Longrightarrow> \<exists>d \<le> k. (10 ^ d \<le> n \<or> d = 0) \<and> n < 10 ^ Suc d"
proof (induction k)
  case (Suc k)
  show ?case
  proof (cases "n < 10 ^ Suc k")
    case True
    then show ?thesis using Suc.IH le_SucI by blast
  next
    case False
    then show ?thesis using Suc.prems by (intro exI [of _ "Suc k"]) (simp add: not_less)
  qed
qed auto

lemma digit_count_range:
  assumes "10 ^ d \<le> n \<or> d = 0" and "n < 10 ^ Suc d" and "d \<le> 19"
  shows "digit_count n = Suc d"
proof -
  have "(10 ^ i \<le> n) = (i \<le> d)" if "1 \<le> i" for i
  proof
    show "i \<le> d" if "10 ^ i \<le> n"
      using that assms(2) by (metis le_less_trans less_Suc_eq_le power_less_imp_less_exp one_less_numeral_iff semiring_norm(76))
    assume "i \<le> d"
    then have "(10 :: nat) ^ i \<le> 10 ^ d" by (simp add: power_increasing)
    moreover have "10 ^ d \<le> n" using assms(1) \<open>1 \<le> i\<close> \<open>i \<le> d\<close> by linarith
    ultimately show "10 ^ i \<le> n" by (rule le_trans)
  qed
  then have f: "filter (\<lambda>i. 10 ^ i \<le> n) [1..<20] = filter (\<lambda>i. i \<le> d) [1..<20]"
    by (intro filter_cong) auto
  have "[1..<20] = [1..<Suc d] @ [Suc d..<20]"
    using upt_add_eq_append [of 1 "Suc d" "19 - d"] assms(3) by simp
  then have "filter (\<lambda>i. i \<le> d) [1..<20] = filter (\<lambda>i. i \<le> d) [1..<Suc d]"
    by (simp add: filter_empty_conv del: upt_Suc)
  also have "\<dots> = [1..<Suc d]" by (simp add: filter_id_conv del: upt_Suc)
  finally show ?thesis by (simp only: digit_count_def f length_upt)
qed

lemma decimal_dec:
  assumes "n < 2 ^ 64"
  shows "decimal n = dec n"
proof -
  have "n < 10 ^ Suc 19" using assms by simp
  then obtain d where d: "d \<le> 19" "10 ^ d \<le> n \<or> d = 0" "n < 10 ^ Suc d" using digit_range by blast
  show ?thesis unfolding decimal_def dec_places [OF d(2,3)] digit_count_range [OF d(2,3,1)] ..
qed

lemma over_sprintf: "over v n = blit v 0 (sprintf_u64 n)"
  using decimal_dec [of "unat n"] unsigned_less [where 'a = nat, of n] by (simp add: over_def sprintf_u64_def)

lemma counter_text_21: "counter_text n = over (replicate UINT64_SIZE 32) n"
  by (simp add: counter_text_def UINT64_SIZE_def)

end
