(* ===== verification/Store_Spec.thy ===== *)
theory Store_Spec
  imports Layout
begin

text \<open>
  The abstract store: per size class the entries in order of use, the stale flags of its free
  chunks (an append or prepend that moves an item shows them), and the bytes cut from the pool.
  The operations are the contract of \<open>shmc.h\<close> on such stores; theory \<open>Store_Refinement\<close> shows
  that the pointer code implements them. \<open>None\<close> is an operation the code gives no meaning to:
  no size class fits an item that passed the size check.
\<close>

record entry =
  e_key :: "byte list"
  e_val :: "byte list"
  e_flags :: u32

record astore =
  a_lru :: "nat \<Rightarrow> entry list"
  a_free :: "nat \<Rightarrow> u32 list"
  a_used :: nat

section \<open>Classes and chunks\<close>

definition class_for :: "conf \<Rightarrow> nat \<Rightarrow> nat option" where
  "class_for cf t = (let c = length (takeWhile (\<lambda>z. z < t) (cf_sizes cf)) in
     if c < length (cf_sizes cf) then Some c else None)"

definition size_for :: "nat \<Rightarrow> nat \<Rightarrow> nat" where
  "size_for nkey nval = sizeof_item + nkey + nval"

abbreviation size_ok :: "conf \<Rightarrow> nat \<Rightarrow> bool" where
  "size_ok cf t \<equiv> t < item_size_max (cf_attr cf)"

abbreviation set_lru :: "astore \<Rightarrow> nat \<Rightarrow> entry list \<Rightarrow> astore" where
  "set_lru A c es \<equiv> A\<lparr>a_lru := (a_lru A)(c := es)\<rparr>"

abbreviation set_free :: "astore \<Rightarrow> nat \<Rightarrow> u32 list \<Rightarrow> astore" where
  "set_free A c fs \<equiv> A\<lparr>a_free := (a_free A)(c := fs)\<rparr>"

text \<open>Whether a run of class \<open>c\<close> can still be cut from the pool, and whether class \<open>c\<close> must evict.\<close>

definition can_cut :: "conf \<Rightarrow> nat \<Rightarrow> astore \<Rightarrow> bool" where
  "can_cut cf c A \<longleftrightarrow> a_used A + cf_sizes cf ! c * cf_counts cf ! c < mem_limit (cf_attr cf)"

definition evicts :: "conf \<Rightarrow> nat \<Rightarrow> astore \<Rightarrow> bool" where
  "evicts cf c A \<longleftrightarrow> a_free A c = [] \<and> \<not> can_cut cf c A \<and> evict_to_free (cf_attr cf) \<and> a_lru A c \<noteq> []"

text \<open>Taking a chunk of class \<open>c\<close>: its stale flags and the store without it.\<close>

definition a_take :: "conf \<Rightarrow> nat \<Rightarrow> astore \<Rightarrow> (u32 \<times> astore) option" where
  "a_take cf c A =
     (case a_free A c of
        f # fs \<Rightarrow> Some (f, set_free A c fs)
      | [] \<Rightarrow>
          if can_cut cf c A then
            (case cf_counts cf ! c of
               0 \<Rightarrow> None
             | Suc n \<Rightarrow> Some (0, set_free A c (replicate n 0)
                 \<lparr>a_used := a_used A + cf_sizes cf ! c * cf_counts cf ! c\<rparr>))
          else if evict_to_free (cf_attr cf) \<and> a_lru A c \<noteq> [] then
            Some (e_flags (last (a_lru A c)), set_lru A c (butlast (a_lru A c)))
          else None)"

section \<open>Entries\<close>

definition a_find :: "conf \<Rightarrow> astore \<Rightarrow> byte list \<Rightarrow> (nat \<times> entry) option" where
  "a_find cf A k = find (\<lambda>(c, e). e_key e = k)
     (concat (map (\<lambda>c. map (Pair c) (a_lru A c)) [0..<length (cf_sizes cf)]))"

definition without :: "byte list \<Rightarrow> entry list \<Rightarrow> entry list" where
  "without k es = filter (\<lambda>e. e_key e \<noteq> k) es"

text \<open>The entry \<open>e'\<close> in place of the one with its key, moved to the front.\<close>

definition a_touch :: "astore \<Rightarrow> nat \<Rightarrow> entry \<Rightarrow> astore" where
  "a_touch A c e' = set_lru A c (e' # without (e_key e') (a_lru A c))"

definition a_remove :: "astore \<Rightarrow> nat \<Rightarrow> byte list \<Rightarrow> astore" where
  "a_remove A c k = set_lru A c (without k (a_lru A c))"

text \<open>A chunk with stale flags \<open>f\<close> goes back to its class.\<close>

definition a_release :: "astore \<Rightarrow> nat \<Rightarrow> u32 \<Rightarrow> astore" where
  "a_release A c f = set_free A c (f # a_free A c)"

definition a_push :: "astore \<Rightarrow> nat \<Rightarrow> entry \<Rightarrow> astore" where
  "a_push A c e = set_lru A c (e # a_lru A c)"

definition a_drop :: "astore \<Rightarrow> nat \<Rightarrow> entry \<Rightarrow> astore" where
  "a_drop A c e = a_release (a_remove A c (e_key e)) c (e_flags e)"

section \<open>The operations\<close>

definition a_del :: "conf \<Rightarrow> astore \<Rightarrow> byte list \<Rightarrow> shmc_rc \<times> astore" where
  "a_del cf A k = (case a_find cf A k of
     None \<Rightarrow> (SHMC_NOTFOUND, A)
   | Some (c, e) \<Rightarrow> (SHMC_OK, a_drop A c e))"

definition a_get :: "conf \<Rightarrow> astore \<Rightarrow> byte list \<Rightarrow> bool \<Rightarrow> shmc_rc \<times> (byte list \<times> u32) option \<times> astore" where
  "a_get cf A k malloc_ok = (case a_find cf A k of
     None \<Rightarrow> (SHMC_NOTFOUND, None, A)
   | Some (c, e) \<Rightarrow>
       if malloc_ok then (SHMC_OK, Some (e_val e, e_flags e), a_touch A c e)
       else (SHMC_SYSTEM, None, a_touch A c e))"

definition a_getf :: "conf \<Rightarrow> astore \<Rightarrow> byte list \<Rightarrow> nat \<Rightarrow> shmc_rc \<times> (byte list \<times> u32) option \<times> astore" where
  "a_getf cf A k room = (case a_find cf A k of
     None \<Rightarrow> (SHMC_NOTFOUND, None, A)
   | Some (c, e) \<Rightarrow>
       if length (e_val e) \<le> room then (SHMC_OK, Some (e_val e, e_flags e), a_touch A c e)
       else (SHMC_ESPACE, None, a_touch A c e))"

definition a_set :: "conf \<Rightarrow> astore \<Rightarrow> byte list \<Rightarrow> byte list \<Rightarrow> u32 \<Rightarrow> (shmc_rc \<times> astore) option" where
  "a_set cf A k v f =
     (let t = size_for (length k) (length v) in
      if \<not> size_ok cf t then Some (SHMC_ESIZE, A)
      else do {
        let A = snd (a_del cf A k);
        c \<leftarrow> class_for cf t;
        (case a_take cf c A of
           None \<Rightarrow> Some (SHMC_NOMEMORY, A)
         | Some (stale, A) \<Rightarrow> Some (SHMC_OK, a_push A c \<lparr>e_key = k, e_val = v, e_flags = f\<rparr>))
      })"

definition a_add :: "conf \<Rightarrow> astore \<Rightarrow> byte list \<Rightarrow> byte list \<Rightarrow> u32 \<Rightarrow> (shmc_rc \<times> astore) option" where
  "a_add cf A k v f = (case a_find cf A k of
     Some (c, e) \<Rightarrow> Some (SHMC_EXIST, A)
   | None \<Rightarrow> a_set cf A k v f)"

definition a_replace :: "conf \<Rightarrow> astore \<Rightarrow> byte list \<Rightarrow> byte list \<Rightarrow> u32 \<Rightarrow> (shmc_rc \<times> astore) option" where
  "a_replace cf A k v f = (case a_find cf A k of
     None \<Rightarrow> Some (SHMC_NOTFOUND, A)
   | Some (c, e) \<Rightarrow> do {
       c' \<leftarrow> class_for cf (size_for (length k) (length v));
       if c = c' then Some (SHMC_OK, a_touch A c \<lparr>e_key = k, e_val = v, e_flags = f\<rparr>)
       else a_set cf (a_drop A c e) k v f
     })"

text \<open>
  Prepend and append, with \<open>v'\<close> the joined value. An item that moves to another class keeps the
  stale flags of its new chunk; the flags given are left in the old chunk.
\<close>

definition a_grow :: "conf \<Rightarrow> astore \<Rightarrow> byte list \<Rightarrow> (byte list \<Rightarrow> byte list) \<Rightarrow> u32 \<Rightarrow> (shmc_rc \<times> astore) option" where
  "a_grow cf A k join f = (case a_find cf A k of
     None \<Rightarrow> Some (SHMC_NOTFOUND, A)
   | Some (c, e) \<Rightarrow> do {
       let v' = join (e_val e);
       let t = size_for (length k) (length v');
       c' \<leftarrow> class_for cf t;
       if c = c' then Some (SHMC_OK, a_touch A c \<lparr>e_key = k, e_val = v', e_flags = f\<rparr>)
       else if \<not> size_ok cf t then Some (SHMC_ESIZE, A)
       else (case a_take cf c' A of
           None \<Rightarrow> Some (SHMC_NOMEMORY, A)
         | Some (stale, A) \<Rightarrow>
             Some (SHMC_OK, a_release (a_push (a_remove A c k) c'
               \<lparr>e_key = k, e_val = v', e_flags = stale\<rparr>) c f))
     })"

definition a_prepend :: "conf \<Rightarrow> astore \<Rightarrow> byte list \<Rightarrow> byte list \<Rightarrow> u32 \<Rightarrow> (shmc_rc \<times> astore) option" where
  "a_prepend cf A k v f = a_grow cf A k (\<lambda>old. v @ old) f"

definition a_append :: "conf \<Rightarrow> astore \<Rightarrow> byte list \<Rightarrow> byte list \<Rightarrow> u32 \<Rightarrow> (shmc_rc \<times> astore) option" where
  "a_append cf A k v f = a_grow cf A k (\<lambda>old. old @ v) f"

end
