(* ===== verification/Alloc_Spec.thy ===== *)
theory Alloc_Spec
  imports Alloc Store_Spec
begin

text \<open>
  The abstract store a concrete one stands for, and what \<open>item_alloc\<close> does to it.
\<close>

section \<open>Abstraction\<close>

definition entry_of :: "item \<Rightarrow> entry" where
  "entry_of it = \<lparr>e_key = take (it_nkey it) (drop (it_key it) (it_end it)),
     e_val = take (it_nval it) (drop (it_val it) (it_end it)), e_flags = it_flags it\<rparr>"

definition entry_at :: "shmc \<Rightarrow> addr \<Rightarrow> entry" where
  "entry_at s a = (case dat s a of None \<Rightarrow> \<lparr>e_key = [], e_val = [], e_flags = 0\<rparr> | Some it \<Rightarrow> entry_of it)"

definition flags_at :: "shmc \<Rightarrow> addr \<Rightarrow> u32" where
  "flags_at s a = (case dat s a of None \<Rightarrow> 0 | Some it \<Rightarrow> it_flags it)"

definition absg :: "shmc \<Rightarrow> ghost \<Rightarrow> astore" where
  "absg s g = \<lparr>a_lru = (\<lambda>c. map (entry_at s) (g_lru g c)), a_free = (\<lambda>c. map (flags_at s) (g_free g c)),
     a_used = mem_used (attrs s)\<rparr>"

lemma absg_fields [simp]:
  "a_lru (absg s g) c = map (entry_at s) (g_lru g c)" "a_free (absg s g) c = map (flags_at s) (g_free g c)"
  "a_used (absg s g) = mem_used (attrs s)"
  by (simp_all add: absg_def)

text \<open>The representation relation: \<open>s\<close> is a well-formed store and stands for \<open>A\<close>.\<close>

definition implements :: "shmc \<Rightarrow> astore \<Rightarrow> bool" where
  "implements s A \<longleftrightarrow> (\<exists>g. store_inv s g \<and> A = absg s g)"

lemma astore_eqI:
  "(\<And>c. a_lru A c = a_lru B c) \<Longrightarrow> (\<And>c. a_free A c = a_free B c) \<Longrightarrow> a_used A = a_used B \<Longrightarrow> (A :: astore) = B"
  by (cases A; cases B) (simp add: fun_eq_iff)

lemma entry_at_cong: "dat s' a = dat s a \<Longrightarrow> entry_at s' a = entry_at s a"
  by (simp add: entry_at_def)

lemma flags_at_cong: "dat s' a = dat s a \<Longrightarrow> flags_at s' a = flags_at s a"
  by (simp add: flags_at_def)

lemma entry_at_dat: "dat s' = dat s \<Longrightarrow> entry_at s' = entry_at s" "dat s' = dat s \<Longrightarrow> flags_at s' = flags_at s"
  by (simp_all add: entry_at_def flags_at_def fun_eq_iff)

lemma entry_at_flags: "dat s a \<noteq> None \<Longrightarrow> e_flags (entry_at s a) = flags_at s a"
  by (auto simp: entry_at_def flags_at_def entry_of_def)

lemma conf_fields [simp]:
  "cf_sizes (conf_of s) = map slab_size (slabs s)" "cf_counts (conf_of s) = map slab_count (slabs s)"
  "mem_limit (cf_attr (conf_of s)) = mem_limit (attrs s)"
  "evict_to_free (cf_attr (conf_of s)) = evict_to_free (attrs s)"
  "item_size_max (cf_attr (conf_of s)) = item_size_max (attrs s)"
  "default_counter (cf_attr (conf_of s)) = default_counter (attrs s)"
  by (simp_all add: conf_of_def)

lemma takeWhile_map_length:
  "length (takeWhile P (map f xs)) = length (takeWhile (\<lambda>x. P (f x)) xs)"
  by (simp add: takeWhile_map o_def)

lemma item_clsid_class_for:
  "sizeof_item + nkey + nval < 2 ^ 64 \<Longrightarrow> item_clsid s nkey nval = class_for (conf_of s) (size_for nkey nval)"
  by (simp add: item_clsid_def clsid_loop_takeWhile item_total_eq class_for_def size_for_def
      takeWhile_map_length)

lemma item_size_ok_size_ok:
  "sizeof_item + nkey + nval < 2 ^ 64 \<Longrightarrow> item_size_ok s nkey nval = size_ok (conf_of s) (size_for nkey nval)"
  by (simp add: item_size_ok_def item_total_eq size_for_def)

section \<open>Cutting a run from the pool\<close>

lemma no_wrap:
  assumes "pooled s" and "good_conf s" and "c < length (slabs s)"
  shows "size_add (mem_used (attrs s)) (slab_size (slabs s ! c) * slab_count (slabs s ! c))
      = mem_used (attrs s) + slab_size (slabs s ! c) * slab_count (slabs s ! c)"
proof -
  have "mem_used (attrs s) \<le> mem_limit (attrs s)" using assms(1) by (simp add: pooled_def)
  moreover have "mem_limit (attrs s) + slab_size (slabs s ! c) * slab_count (slabs s ! c) < 2 ^ 64"
    using assms(2,3) by (simp add: good_conf_def)
  ultimately show ?thesis by simp
qed

lemma can_cut_eq:
  assumes "c < length (slabs s)"
  shows "can_cut (conf_of s) c (absg s g) \<longleftrightarrow>
     mem_used (attrs s) + slab_size (slabs s ! c) * slab_count (slabs s ! c) < mem_limit (attrs s)"
  using assms by (simp add: can_cut_def)

lemma cut_step:
  assumes i: "inv_held s g D" and c: "c < length (slabs s)" and free: "g_free g c = []"
    and cut: "can_cut (conf_of s) c (absg s g)"
  shows "\<exists>s'. refill s c = Some s' \<and>
    inv_held s' (free_upd g c (run_chunks (slab_count (slabs s ! c)) (raw s + mem_used (attrs s)) (slab_size (slabs s ! c)))) D
    \<and> dat s' = (\<lambda>a. if a \<in> set (run_chunks (slab_count (slabs s ! c)) (raw s + mem_used (attrs s)) (slab_size (slabs s ! c)))
        then Some (blank_item (slab_size (slabs s ! c))) else dat s a)
    \<and> set (run_chunks (slab_count (slabs s ! c)) (raw s + mem_used (attrs s)) (slab_size (slabs s ! c))) \<inter> dom (heap s) = {}
    \<and> conf_of s' = conf_of s
    \<and> mem_used (attrs s') = mem_used (attrs s) + slab_size (slabs s ! c) * slab_count (slabs s ! c)"
proof -
  note I = inv_heldD [OF i]
  define z n p where "z = slab_size (slabs s ! c)" and "n = slab_count (slabs s ! c)"
    and "p = raw s + mem_used (attrs s)"
  define R where "R = run_chunks n p z"
  define u where "u = mem_used (attrs s) + z * n"
  have z: "64 \<le> z" and raw: "0 < raw s"
    using I(6) c by (simp_all add: good_conf_def z_def)
  have sa: "size_add (mem_used (attrs s)) (z * n) = u"
    using no_wrap [OF I(5,6) c] by (simp add: z_def n_def u_def)
  have lim: "u < mem_limit (attrs s)" using cut c by (simp add: can_cut_eq u_def z_def n_def)
  define s1 where "s1 = upd_attr s (\<lambda>a. a\<lparr>mem_used := u\<rparr>)"
  have s1: "slabs s1 = slabs s" "heap s1 = heap s" "dat s1 = dat s" "raw s1 = raw s"
    "conf_of s1 = conf_of s" "csize s1 = csize s" "nbuckets (attrs s1) = nbuckets (attrs s)"
    by (simp_all add: s1_def conf_of_def csize_def fun_eq_iff)
  have lay1: "layout s1 g D"
  proof (rule layoutI [OF I(1) s1(5)])
    show "\<And>d. d < length (slabs s) \<Longrightarrow> lru_list s1 d (g_lru g d)"
      using layoutD(1) [OF I(1)] by (simp add: lru_list_def s1_def)
    show "\<And>d. d < length (slabs s) \<Longrightarrow> free_list s1 d (g_free g d)"
      using layoutD(2) [OF I(1)] by (simp add: free_list_def s1_def)
    show "\<And>b. b < nbuckets (attrs s) \<Longrightarrow> bucket_list s1 b (g_bkt g b)"
      using layoutD(3) [OF I(1)] by (simp add: s1_def)
    show "\<And>d a. a \<in> set (g_lru g d) \<union> set (g_free g d) \<Longrightarrow> csize s1 a = Some (slab_size (slabs s ! d))"
      using layout_class(2) [OF I(1)] by (simp add: s1(6))
    show "\<And>d a. a \<in> set (g_lru g d) \<Longrightarrow> clsid_at s1 a = Some d"
      using layout_lru_class [OF I(1)] by (simp add: clsid_at_dat [OF s1(3)])
    show "(\<Union>d. set (g_lru g d)) \<union> (\<Union>d. set (g_free g d)) \<union> D = dom (heap s1)"
      using layout_conjuncts(15) [OF I(1)] by (simp add: s1(2))
  qed (use layoutD(4-7) [OF I(1)] layout_conjuncts(16) [OF I(1)] in \<open>simp_all add: s1_def\<close>)
  have fresh: "set R \<inter> dom (heap s) = {}"
  proof -
    have "a \<notin> set R" if "a \<in> dom (heap s)" for a
    proof -
      have "dat s a \<noteq> None" using that unfolding dom_dat by simp
      then obtain m where m: "csize s a = Some m" "64 \<le> m" by (auto simp: csize_def)
      then have "a + m \<le> p" using I(5) by (simp add: pooled_def p_def add.assoc)
      then show ?thesis using m(2) run_chunks_bounds [of a n p z] by (auto simp: R_def)
    qed
    then show ?thesis by blast
  qed
  have "p \<noteq> 0" using raw by (simp add: p_def)
  then obtain s2 where s2: "carve n p c s1 = Some s2" "layout s2 (free_upd g c (R @ g_free g c)) D"
      "dat s2 = (\<lambda>a. if a \<in> set R then Some (blank_item z) else dat s1 a)"
      "attrs s2 = attrs s1" "calm s1 s2"
    using carve_step [OF lay1, of c z n p] c z fresh by (auto simp: s1 R_def z_def)
  note C = calmD [OF s2(5)]
  have cf: "conf_of s2 = conf_of s" using C(1) s1(5) by simp
  have run: "refill s c = Some s2"
    using c sa lim s2(1) by (simp add: refill_def Let_def z_def [symmetric] n_def [symmetric] p_def [symmetric] s1_def)
  define g2 where "g2 = free_upd g c R"
  have l2: "layout s2 g2 D" using s2(2) free by (simp add: g2_def)
  have old: "dat s2 a = dat s a" if "a \<in> dom (heap s)" for a
    using that fresh by (auto simp: s2(3) s1(3))
  have lru_dom: "a \<in> dom (heap s)" if "a \<in> set (g_lru g d)" for a d
    using layout_class(3) [OF I(1), of a d] that by simp
  have t2: "tabled s2 g2"
  proof (rule tabled_cong [OF I(2)])
    show "key_at s2 a = key_at s a" if "a \<in> in_table g" for a
    proof -
      have "a \<in> dom (heap s)" using that lru_dom by (auto simp: I(3) in_lru_def)
      then show ?thesis using old by (simp add: key_at_def)
    qed
  qed (simp_all add: g2_def s2(4) s1_def)
  have pl: "payload s2 g2"
    by (rule payload_cong [OF I(4)]) (use conf_ofD(4) [OF cf] lru_dom old in \<open>auto simp: g2_def\<close>)
  have cz: "csize s2 a = (if a \<in> set R then Some z else csize s a)" for a
    using z by (simp add: csize_def s2(3) s1(3) blank_item_def)
  have po: "pooled s2"
  proof -
    have bound: "raw s \<le> a \<and> a + m \<le> raw s + u" if "csize s2 a = Some m" for a m
    proof (cases "a \<in> set R")
      case True
      then show ?thesis using that run_chunks_bounds [of a n p z] by (simp add: cz R_def p_def u_def mult.commute)
    next
      case False
      then have "raw s \<le> a \<and> a + m \<le> raw s + mem_used (attrs s)"
        using that I(5) by (simp add: cz pooled_def)
      then show ?thesis by (simp add: u_def)
    qed
    have low: "a + m \<le> p" if "a \<notin> set R" "csize s2 a = Some m" for a m
      using that I(5) by (simp add: cz pooled_def p_def)
    have apart: "a + m \<le> b \<or> b + k \<le> a" if "csize s2 a = Some m" "csize s2 b = Some k" "a \<noteq> b" for a b m k
    proof -
      consider "a \<in> set R" "b \<in> set R" | "a \<in> set R" "b \<notin> set R" | "a \<notin> set R" "b \<in> set R" | "a \<notin> set R" "b \<notin> set R"
        by blast
      then show ?thesis
      proof cases
        case 1
        then show ?thesis using that run_chunks_apart [of a n p z b] by (simp add: cz R_def)
      next
        case 2
        then show ?thesis using low [OF 2(2) that(2)] run_chunks_bounds [of a n p z] by (simp add: R_def)
      next
        case 3
        then show ?thesis using low [OF 3(1) that(1)] run_chunks_bounds [of b n p z] by (simp add: R_def)
      next
        case 4
        then show ?thesis using that I(5) unfolding pooled_def by (auto simp: cz)
      qed
    qed
    have at: "attrs s2 = (attrs s)\<lparr>mem_used := u\<rparr>" "raw s2 = raw s"
      using s2(4) C(4) by (simp_all add: s1_def)
    show ?thesis unfolding pooled_def at using bound apart lim by simp
  qed
  have "in_table g2 = in_lru g2" using I(3) by (simp add: in_table_def in_lru_def g2_def)
  then have "inv_held s2 g2 D"
    using l2 t2 pl po good_conf_cong [OF I(6) cf] by (simp add: inv_held_def)
  moreover have "dat s2 = (\<lambda>a. if a \<in> set R then Some (blank_item z) else dat s a)"
    by (rule ext) (simp add: s2(3) s1(3))
  ultimately show ?thesis
    using run s2(4) fresh cf
    unfolding g2_def R_def z_def n_def p_def by (intro exI [of _ s2]) (simp add: s1_def u_def z_def n_def)
qed

section \<open>Allocation\<close>

text \<open>Abstraction is unchanged by steps that keep the data of listed chunks.\<close>

lemma absg_cong:
  assumes "\<And>c. g_lru g' c = g_lru g c" and "\<And>c. g_free g' c = g_free g c"
    and "\<And>c a. a \<in> set (g_lru g c) \<union> set (g_free g c) \<Longrightarrow> dat s' a = dat s a"
    and "mem_used (attrs s') = mem_used (attrs s)"
  shows "absg s' g' = absg s g"
proof -
  have "map (entry_at s') (g_lru g c) = map (entry_at s) (g_lru g c)"
    "map (flags_at s') (g_free g c) = map (flags_at s) (g_free g c)" for c
    using assms(3) entry_at_cong [of s' _ s] flags_at_cong [of s' _ s] by (intro map_cong refl; blast)+
  then show ?thesis using assms(1,2,4) by (intro astore_eqI) simp_all
qed

text \<open>
  Both attempts of \<open>item_alloc\<close> together: a chunk of the class is held and the abstract store
  is the one without it. The chunk either was free, or was cut, or held the last entry.
\<close>

definition taken :: "shmc \<Rightarrow> ghost \<Rightarrow> nat \<Rightarrow> addr \<Rightarrow> shmc \<Rightarrow> ghost \<Rightarrow> bool" where
  "taken s g c a s' g' \<longleftrightarrow> a \<noteq> 0 \<and> inv_held s' g' {a} \<and> conf_of s' = conf_of s
     \<and> csize s' a = Some (slab_size (slabs s ! c)) \<and> a \<notin> in_lru g'
     \<and> g_lru g' = (g_lru g)(c := remove1 a (g_lru g c)) \<and> (\<forall>d. d \<noteq> c \<longrightarrow> a \<notin> set (g_lru g d))
     \<and> (a \<in> set (g_lru g c) \<longleftrightarrow> evicts (conf_of s) c (absg s g))
     \<and> (evicts (conf_of s) c (absg s g) \<longrightarrow> a = last (g_lru g c))
     \<and> (\<forall>b \<in> in_lru g'. dat s' b = dat s b)"

lemma pop_taken:
  assumes i: "inv_held s g {}" and c: "c < length (slabs s)" and f: "g_free g c = a # fs"
  shows "\<exists>s'. pop_free s c = Some (a, s') \<and> a \<noteq> 0 \<and> inv_held s' (free_upd g c fs) {a}
    \<and> dat s' = dat s \<and> calm s s' \<and> csize s' a = Some (slab_size (slabs s ! c))"
proof -
  note I = inv_heldD [OF i]
  obtain s' where s': "pop_free s c = Some (a, s')" "layout s' (free_upd g c fs) {a}"
      "dat s' = dat s" "attrs s' = attrs s" "calm s s'" "a \<noteq> 0"
    using pop_step [OF I(1) c] by (auto simp: f)
  have "inv_held s' (free_upd g c fs) {a}"
    by (rule inv_held_step [OF i s'(2,3,5)]) (simp_all add: s'(4))
  moreover have "csize s' a = Some (slab_size (slabs s ! c))"
    using layout_class(2) [OF I(1), of a c] f csize_dat [OF s'(3)] by simp
  ultimately show ?thesis using s' by blast
qed

lemma take_free:
  assumes i: "inv_held s g {}" and c: "c < length (slabs s)" and f: "g_free g c = a # fs"
  shows "\<exists>s'. pop_free s c = Some (a, s') \<and> taken s g c a s' (free_upd g c fs)
    \<and> a_take (conf_of s) c (absg s g) = Some (flags_at s' a, absg s' (free_upd g c fs))"
proof -
  note I = inv_heldD [OF i]
  obtain s' where s': "pop_free s c = Some (a, s')" "a \<noteq> 0" "inv_held s' (free_upd g c fs) {a}"
      "dat s' = dat s" "calm s s'" "csize s' a = Some (slab_size (slabs s ! c))"
    using pop_taken [OF assms] by blast
  note C = calmD [OF s'(5)]
  have an: "a \<notin> set (g_lru g d)" for d
    using layout_lru_free [OF I(1), of d c] f by auto
  then have "taken s g c a s' (free_upd g c fs)"
    using s' C(1) f by (simp add: taken_def evicts_def in_lru_def remove1_idem)
  moreover have "absg s' (free_upd g c fs) = set_free (absg s g) c (map (flags_at s) fs)"
    using C(2) entry_at_cong [of s' _ s] flags_at_cong [of s' _ s] s'(4)
    by (intro astore_eqI) simp_all
  then have "a_take (conf_of s) c (absg s g) = Some (flags_at s' a, absg s' (free_upd g c fs))"
    using flags_at_cong [of s' a s] s'(4) f by (simp add: a_take_def)
  ultimately show ?thesis using s'(1) by blast
qed

lemma take_cut:
  assumes i: "inv_held s g {}" and c: "c < length (slabs s)" and f: "g_free g c = []"
    and cut: "can_cut (conf_of s) c (absg s g)"
  shows "\<exists>s1. refill s c = Some s1 \<and>
    (case a_take (conf_of s) c (absg s g) of
       None \<Rightarrow> pop_free s1 c = Some (0, s1) \<and> inv_held s1 g {} \<and> conf_of s1 = conf_of s
         \<and> absg s1 g = absg s g \<and> (\<forall>b \<in> in_lru g. dat s1 b = dat s b)
     | Some (fl, A) \<Rightarrow> \<exists>a s' g'. pop_free s1 c = Some (a, s') \<and> taken s g c a s' g'
         \<and> fl = flags_at s' a \<and> A = absg s' g')"
proof -
  note I = inv_heldD [OF i]
  define z n where "z = slab_size (slabs s ! c)" and "n = slab_count (slabs s ! c)"
  define R where "R = run_chunks n (raw s + mem_used (attrs s)) z"
  define g1 where "g1 = free_upd g c R"
  obtain s1 where s1: "refill s c = Some s1" "inv_held s1 g1 {}"
      "dat s1 = (\<lambda>a. if a \<in> set R then Some (blank_item z) else dat s a)"
      "set R \<inter> dom (heap s) = {}" "conf_of s1 = conf_of s" "mem_used (attrs s1) = mem_used (attrs s) + z * n"
    using cut_step [OF i c f cut] unfolding R_def g1_def z_def n_def by blast
  have c1: "c < length (slabs s1)" using conf_ofD(3) [OF s1(5)] c by simp
  have an: "a \<notin> set (g_lru g d)" if "a \<in> set R" for a d
    using that s1(4) layout_class(3) [OF I(1), of a d] by blast
  have old: "dat s1 b = dat s b" if "b \<in> in_lru g" for b
    using that an by (auto simp: s1(3) in_lru_def)
  have lenR: "length R = n" by (simp add: R_def run_chunks_def)
  have ent: "map (entry_at s1) (g_lru g d) = map (entry_at s) (g_lru g d)" for d
    using old entry_at_cong [of s1 _ s] by (simp add: in_lruI)
  have fls: "map (flags_at s1) (g_free g d) = map (flags_at s) (g_free g d)" for d
  proof (rule map_cong [OF refl])
    fix a assume "a \<in> set (g_free g d)"
    then have "a \<notin> set R" using s1(4) layout_class(3) [OF I(1), of a d] by blast
    then show "flags_at s1 a = flags_at s a" by (simp add: flags_at_def s1(3))
  qed
  show ?thesis
  proof (cases n)
    case 0
    then have R: "R = []" using lenR by simp
    then have g1: "g1 = g" using f by (simp add: g1_def fun_upd_idem)
    have "pop_free s1 c = Some (0, s1)"
      using pop_step [OF inv_heldD(1) [OF s1(2)] c1] f by (simp add: g1)
    moreover have "absg s1 g = absg s g" using 0 ent fls s1(6) by (intro astore_eqI) simp_all
    moreover have "a_take (conf_of s) c (absg s g) = None"
      using f cut c 0 by (simp add: a_take_def n_def)
    ultimately show ?thesis using s1(1,2,5) old by (auto simp: g1)
  next
    case (Suc m)
    then obtain a fs where R: "R = a # fs" using lenR by (cases R) auto
    have "g_free g1 c = a # fs" by (simp add: g1_def R)
    from pop_taken [OF s1(2) c1 this] obtain s' where s':
      "pop_free s1 c = Some (a, s')" "a \<noteq> 0" "inv_held s' (free_upd g1 c fs) {a}"
      "dat s' = dat s1" "calm s1 s'" "csize s' a = Some (slab_size (slabs s1 ! c))"
      by blast
    note C = calmD [OF s'(5)]
    define g' where "g' = free_upd g1 c fs"
    have g': "g_lru g' = g_lru g" "g_free g' = (g_free g)(c := fs)" by (simp_all add: g'_def g1_def)
    have aR: "a \<notin> set (g_lru g d)" for d using an R by simp
    have ev: "\<not> evicts (conf_of s) c (absg s g)" using cut by (simp add: evicts_def)
    have "taken s g c a s' g'"
      using s'(2,3,6) C(1) s1(5) conf_of_nth(1) [OF s1(5) c] old s'(4) aR ev
      by (simp add: taken_def g'_def [symmetric] in_lru_def g'(1) remove1_idem)
    moreover have "absg s' g' = set_free (absg s g) c (replicate m 0)\<lparr>a_used := mem_used (attrs s) + z * n\<rparr>"
    proof (rule astore_eqI)
      show "a_lru (absg s' g') d = a_lru (set_free (absg s g) c (replicate m 0)\<lparr>a_used := mem_used (attrs s) + z * n\<rparr>) d" for d
        using ent entry_at_cong [of s' _ s1] s'(4) by (simp add: g'(1))
      have "map (flags_at s') fs = map (\<lambda>_. 0) fs"
        by (rule map_cong [OF refl]) (simp add: flags_at_def s'(4) s1(3) R blank_item_def)
      then have "map (flags_at s') fs = replicate m 0"
        using lenR R Suc by (simp add: map_replicate_const)
      moreover have "map (flags_at s') (g_free g d) = map (flags_at s) (g_free g d)" for d
        using fls flags_at_cong [of s' _ s1] s'(4) by simp
      ultimately show "a_free (absg s' g') d = a_free (set_free (absg s g) c (replicate m 0)\<lparr>a_used := mem_used (attrs s) + z * n\<rparr>) d" for d
        by (simp add: g'(2))
      show "a_used (absg s' g') = a_used (set_free (absg s g) c (replicate m 0)\<lparr>a_used := mem_used (attrs s) + z * n\<rparr>)"
        using C(2) s1(6) by simp
    qed
    moreover have "flags_at s' a = 0" by (simp add: flags_at_def s'(4) s1(3) R blank_item_def)
    moreover have "a_take (conf_of s) c (absg s g)
        = Some (0, set_free (absg s g) c (replicate m 0)\<lparr>a_used := mem_used (attrs s) + z * n\<rparr>)"
      using f cut c Suc by (simp add: a_take_def n_def z_def)
    ultimately show ?thesis using s1(1) s'(1) by auto
  qed
qed

lemma take_evict:
  assumes i: "inv_held s g {}" and c: "c < length (slabs s)" and f: "g_free g c = []"
    and cut: "\<not> can_cut (conf_of s) c (absg s g)"
  shows "\<exists>s1. refill s c = Some s1 \<and>
    (case a_take (conf_of s) c (absg s g) of
       None \<Rightarrow> pop_free s1 c = Some (0, s1) \<and> inv_held s1 g {} \<and> conf_of s1 = conf_of s
         \<and> absg s1 g = absg s g \<and> (\<forall>b \<in> in_lru g. dat s1 b = dat s b)
     | Some (fl, A) \<Rightarrow> \<exists>a s' g'. pop_free s1 c = Some (a, s') \<and> taken s g c a s' g'
         \<and> fl = flags_at s' a \<and> A = absg s' g')"
proof -
  note I = inv_heldD [OF i]
  have full: "\<not> size_add (mem_used (attrs s)) (slab_size (slabs s ! c) * slab_count (slabs s ! c)) < mem_limit (attrs s)"
    using cut c no_wrap [OF I(5,6) c] by (simp add: can_cut_eq)
  have run: "refill s c = (if evict_to_free (attrs s) then evict_tail s c else Some s)"
    using c full by (simp add: refill_def Let_def)
  show ?thesis
  proof (cases "evicts (conf_of s) c (absg s g)")
    case False
    then have "evict_to_free (attrs s) \<Longrightarrow> g_lru g c = []" using f cut by (simp add: evicts_def)
    then have "refill s c = Some s" using run evict_step [OF i c] by auto
    moreover have "pop_free s c = Some (0, s)" using pop_step [OF I(1) c] f by simp
    moreover have "a_take (conf_of s) c (absg s g) = None"
      using False f cut by (simp add: a_take_def evicts_def)
    ultimately show ?thesis using i by simp
  next
    case True
    then have ev: "evict_to_free (attrs s)" "g_lru g c \<noteq> []" by (simp_all add: evicts_def)
    define a where "a = last (g_lru g c)"
    obtain s1 g1 where s1: "evict_tail s c = Some s1" "inv_held s1 g1 {}"
        "g_lru g1 = (g_lru g)(c := butlast (g_lru g c))" "g_free g1 = (g_free g)(c := a # g_free g c)"
        "in_table g1 = in_table g - {a}" "dat s1 = dat s" "calm s s1"
      using evict_step [OF i c] ev(2) unfolding a_def by auto
    note C1 = calmD [OF s1(7)]
    have c1: "c < length (slabs s1)" using C1(5) c by simp
    have "g_free g1 c = a # []" using s1(4) f by simp
    from pop_taken [OF s1(2) c1 this] obtain s' where s':
      "pop_free s1 c = Some (a, s')" "a \<noteq> 0" "inv_held s' (free_upd g1 c []) {a}"
      "dat s' = dat s1" "calm s1 s'" "csize s' a = Some (slab_size (slabs s1 ! c))"
      by blast
    note C = calmD [OF s'(5)]
    define g' where "g' = free_upd g1 c []"
    have al: "a \<in> set (g_lru g c)" using ev(2) by (simp add: a_def)
    have last: "butlast (g_lru g c) = remove1 a (g_lru g c)"
      using ev(2) distinct_remove1_append [of "butlast (g_lru g c)" a "[]"] layout_list_distinct(1) [OF I(1), of c]
      by (simp add: a_def)
    have g': "g_lru g' = (g_lru g)(c := remove1 a (g_lru g c))" "g_free g' = g_free g"
      using s1(3,4) f last by (simp_all add: g'_def fun_upd_idem)
    have an: "a \<notin> in_lru g'"
      using in_lru_upd [OF I(1) al] by (simp add: in_lru_def g'(1))
    have other: "a \<notin> set (g_lru g d)" if "d \<noteq> c" for d
      using layout_disjoint(1) [OF I(1) that] al by blast
    have "taken s g c a s' g'"
      using s'(2,3,6) C(1) C1(1) conf_of_nth(1) [OF C1(1) c] s'(4) s1(6) al an True other g'(1)
      by (simp add: taken_def g'_def [symmetric] a_def [symmetric])
    moreover have "absg s' g' = set_lru (absg s g) c (butlast (a_lru (absg s g) c))"
      using entry_at_dat [of s' s] s'(4) s1(6) C(2) C1(2)
      by (intro astore_eqI) (simp_all add: g' last [symmetric] map_butlast)
    moreover have "flags_at s' a = e_flags (last (a_lru (absg s g) c))"
    proof -
      have "dat s a \<noteq> None" using payloadD [OF I(4) al] by blast
      then show ?thesis
        using ev(2) flags_at_cong [of s' a s] s'(4) s1(6) entry_at_flags [of s a] by (simp add: last_map a_def)
    qed
    moreover have "a_take (conf_of s) c (absg s g)
        = Some (e_flags (last (a_lru (absg s g) c)), set_lru (absg s g) c (butlast (a_lru (absg s g) c)))"
      using f cut ev by (simp add: a_take_def)
    ultimately show ?thesis using run ev(1) s1(1) s'(1) by auto
  qed
qed

text \<open>\<open>item_alloc\<close>, with the fields it sets.\<close>

lemma alloc_spec:
  assumes i: "store_inv s g" and n: "sizeof_item + nkey + nval < 2 ^ 64"
    and ok: "size_ok (conf_of s) (size_for nkey nval)" and c: "class_for (conf_of s) (size_for nkey nval) = Some c"
  shows "case a_take (conf_of s) c (absg s g) of
      None \<Rightarrow> \<exists>s'. item_alloc s nkey nval = Some (0, s') \<and> store_inv s' g \<and> absg s' g = absg s g \<and> conf_of s' = conf_of s
    | Some (fl, A) \<Rightarrow> \<exists>a s' g' it. item_alloc s nkey nval = Some (a, s') \<and> taken s g c a s' g' \<and> A = absg s' g'
        \<and> heap s' a = Some it \<and> it_flags it = fl \<and> it_clsid it = c \<and> it_key it = 0 \<and> it_nkey it = nkey
        \<and> it_val it = nkey \<and> it_nval it = nval \<and> sizeof_item + length (it_end it) = slab_size (slabs s ! c)
        \<and> it_next it = 0 \<and> it_prev it = 0"
proof -
  have i': "inv_held s g {}" using i by (simp add: store_inv_def)
  note I = inv_heldD [OF i']
  have cl: "item_clsid s nkey nval = Some c" using c item_clsid_class_for [OF n, of s] by simp
  have cb: "c < length (slabs s)" using c by (auto simp: class_for_def Let_def split: if_splits)
  have gd: "item_size_ok s nkey nval" using ok item_size_ok_size_ok [OF n, of s] by simp
  have fin: "\<exists>s'' g' it. item_alloc s nkey nval = Some (a, s'') \<and> taken s g c a s'' g' \<and> absg s' g1 = absg s'' g'
      \<and> heap s'' a = Some it \<and> it_flags it = flags_at s' a \<and> it_clsid it = c \<and> it_key it = 0 \<and> it_nkey it = nkey
      \<and> it_val it = nkey \<and> it_nval it = nval \<and> sizeof_item + length (it_end it) = slab_size (slabs s ! c)
      \<and> it_next it = 0 \<and> it_prev it = 0"
    if t: "taken s g c a s' g1"
      and run: "item_alloc s nkey nval = do { s \<leftarrow> put_item s' a (init_item c nkey nval); Some (a, s) }"
    for a s' g1
  proof -
    have t1: "a \<noteq> 0" "inv_held s' g1 {a}" "conf_of s' = conf_of s" "csize s' a = Some (slab_size (slabs s ! c))"
      "a \<notin> in_lru g1"
      using t by (simp_all add: taken_def)
    note J = inv_heldD [OF t1(2)]
    have ab: "a \<notin> set (g_bkt g1 b)" for b using t1(5) J(3) by (auto simp: in_table_def)
    obtain it0 where it0: "heap s' a = Some it0" "sizeof_item + length (it_end it0) = slab_size (slabs s ! c)"
      using t1(4) by (auto simp: csize_def dat_def)
    define f where "f = init_item c nkey nval"
    define s2 where "s2 = upd_item s' a f"
    have "length (it_end (f it)) = length (it_end it)" for it by (simp add: f_def init_item_def)
    note w = held_write_step [OF J(1) insertI1 ab this, folded s2_def]
    note C = calmD [OF w(4)]
    have other: "dat s2 b = dat s' b" if "b \<noteq> a" for b
      using that by (simp add: dat_def s2_def heap_upd_item)
    have ne: "b \<noteq> a" if "b \<in> in_lru g1" for b using that t1(5) by blast
    have "tabled s2 g1"
    proof (rule tabled_cong [OF J(2)])
      show "key_at s2 b = key_at s' b" if "b \<in> in_table g1" for b
        using other ne that J(3) by (simp add: key_at_def)
    qed (simp_all add: w(3))
    moreover have "payload s2 g1"
      by (rule payload_cong [OF J(4) C(6)]) (use other ne in_lruI in metis)
    moreover have "pooled s2" by (rule pooled_cong [OF J(5) w(4,5)])
    ultimately have inv: "inv_held s2 g1 {a}"
      using w(2) J(3) good_conf_cong [OF J(6) C(1)] by (simp add: inv_held_def)
    have "taken s g c a s2 g1"
      using t inv C(1) w(5) other ne by (simp add: taken_def)
    moreover have "absg s2 g1 = absg s' g1"
    proof (rule absg_cong)
      show "dat s2 b = dat s' b" if "b \<in> set (g_lru g1 d) \<union> set (g_free g1 d)" for d b
        using other [of b] layoutD(5) [OF J(1), of d] that by blast
    qed (simp_all add: w(3))
    moreover have "heap s2 a = Some (init_item c nkey nval it0)"
      by (simp add: s2_def heap_upd_item it0(1) f_def)
    moreover have "it_flags it0 = flags_at s' a" by (simp add: flags_at_def dat_def it0(1))
    moreover have "item_alloc s nkey nval = Some (a, s2)" using run w(1) by (simp add: f_def)
    ultimately show ?thesis
      using it0(2) by (auto simp: init_item_def)
  qed
  show ?thesis
  proof (cases "g_free g c")
    case (Cons a fs)
    obtain s' where s': "pop_free s c = Some (a, s')" "taken s g c a s' (free_upd g c fs)"
        "a_take (conf_of s) c (absg s g) = Some (flags_at s' a, absg s' (free_upd g c fs))"
      using take_free [OF i' cb Cons] by blast
    have "a \<noteq> 0" using s'(2) by (simp add: taken_def)
    then have "item_alloc s nkey nval = do { s \<leftarrow> put_item s' a (init_item c nkey nval); Some (a, s) }"
      using gd cl s'(1) by (simp add: item_alloc_def)
    from fin [OF s'(2) this] show ?thesis using s'(3) by auto
  next
    case Nil
    obtain s1 where r: "refill s c = Some s1" and alt:
      "case a_take (conf_of s) c (absg s g) of
         None \<Rightarrow> pop_free s1 c = Some (0, s1) \<and> inv_held s1 g {} \<and> conf_of s1 = conf_of s
           \<and> absg s1 g = absg s g \<and> (\<forall>b \<in> in_lru g. dat s1 b = dat s b)
       | Some (fl, A) \<Rightarrow> \<exists>a s' g'. pop_free s1 c = Some (a, s') \<and> taken s g c a s' g'
           \<and> fl = flags_at s' a \<and> A = absg s' g'"
      using take_cut [OF i' cb Nil] take_evict [OF i' cb Nil] by blast
    have p0: "pop_free s c = Some (0, s)" using pop_step [OF I(1) cb] Nil by simp
    have run: "item_alloc s nkey nval = do { (a, s) \<leftarrow> pop_free s1 c; if a = 0 then Some (0, s)
        else do { s \<leftarrow> put_item s a (init_item c nkey nval); Some (a, s) } }"
      using gd cl p0 r by (simp add: item_alloc_def)
    show ?thesis
    proof (cases "a_take (conf_of s) c (absg s g)")
      case None
      then show ?thesis using alt run by (simp add: store_inv_def)
    next
      case (Some p)
      then obtain fl A where p: "a_take (conf_of s) c (absg s g) = Some (fl, A)" by (cases p) simp
      then obtain a s' g' where s': "pop_free s1 c = Some (a, s')" "taken s g c a s' g'"
          "fl = flags_at s' a" "A = absg s' g'"
        using alt by auto
      have "a \<noteq> 0" using s'(2) by (simp add: taken_def)
      then have "item_alloc s nkey nval = do { s \<leftarrow> put_item s' a (init_item c nkey nval); Some (a, s) }"
        using run s'(1) by simp
      from fin [OF s'(2) this] show ?thesis using p s'(3,4) by auto
    qed
  qed
qed

end
