(* ===== verification/Refine_Base.thy ===== *)
theory Refine_Base
  imports Store Alloc_Spec
begin

text \<open>
  What the refinement proofs of the operations share: the search of the code finds the entry the
  abstract search finds, and the abstract effect of touching, removing, rewriting and entering
  an item.
\<close>

section \<open>Entries and keys\<close>

lemma good_item_size:
  assumes "good_item sls c it" and "c < length sls"
  shows "sizeof_item + it_nkey it + it_nval it \<le> slab_size (sls ! c)"
  using assms by (simp add: good_item_def clsid_loop_eq_Some)

lemma entry_key:
  assumes i: "inv_held s g D" and a: "a \<in> set (g_lru g c)"
  shows "key_at s a = Some (e_key (entry_at s a))"
proof -
  obtain it k where it: "dat s a = Some it" "key_at s a = Some k" using inv_held_lru [OF i a] .
  then show ?thesis by (simp add: key_at_def mem_load_eq_Some entry_at_def entry_of_def)
qed

text \<open>What an item of the store looks like, with its links.\<close>

lemma inv_held_heap:
  assumes i: "inv_held s g D" and a: "a \<in> set (g_lru g c)"
  obtains it where "heap s a = Some it" "good_item (slabs s) c it" "it_clsid it = c"
    "it_nkey it + it_nval it \<le> length (it_end it)" "entry_at s a = entry_of it"
    "sizeof_item + length (it_end it) = slab_size (slabs s ! c)" "a \<noteq> 0"
proof -
  note I = inv_heldD [OF i]
  obtain it0 k where it0: "dat s a = Some it0" "good_item (slabs s) c it0"
      "csize s a = Some (slab_size (slabs s ! c))" "c < length (slabs s)"
    using inv_held_lru [OF i a] .
  obtain it where it: "heap s a = Some it" "it0 = it\<lparr>it_next := 0, it_prev := 0, it_hnext := 0\<rparr>"
    using it0(1) by (auto simp: dat_def)
  have z: "sizeof_item + length (it_end it) = slab_size (slabs s ! c)"
    using it0(1,3) it(2) by (auto simp: csize_def)
  have "it_nkey it + it_nval it \<le> length (it_end it)"
    using good_item_size [OF it0(2,4)] z it(2) by simp
  moreover have "good_item (slabs s) c it" using it0(2) it(2) by (simp add: good_item_def)
  moreover have "it_clsid it = c"
    using layout_lru_class [OF I(1) a] it(1) by (simp add: clsid_at_Some)
  moreover have "entry_at s a = entry_of it" using it0(1) it(2) by (simp add: entry_at_def entry_of_def)
  moreover have "a \<noteq> 0" using layout_list_distinct(3) [OF I(1), of c] a by metis
  ultimately show ?thesis using that it(1) z by blast
qed

lemma key_unique:
  assumes i: "inv_held s g D" and "a \<in> set (g_lru g c)" and "b \<in> set (g_lru g d)"
    and "e_key (entry_at s a) = e_key (entry_at s b)"
  shows "a = b"
proof (rule inj_onD [OF tabledD(2) [OF inv_heldD(2) [OF i]]])
  show "key_at s a = key_at s b" using entry_key [OF i assms(2)] entry_key [OF i assms(3)] assms(4) by simp
  show "a \<in> in_table g" "b \<in> in_table g" using inv_heldD(3) [OF i] assms(2,3) by (auto dest: in_lruI)
qed

section \<open>Searching\<close>

lemma find_unique:
  assumes "x \<in> set xs" and "P x" and "\<And>y. y \<in> set xs \<Longrightarrow> P y \<Longrightarrow> y = x"
  shows "find P xs = Some x"
proof (cases "find P xs")
  case None
  then show ?thesis using assms(1,2) by (simp add: find_None_iff)
next
  case (Some y)
  then show ?thesis using find_SomeD [OF Some] assms(3) by simp
qed

lemma a_find_eq_Some:
  assumes i: "inv_held s g D" and a: "a \<in> set (g_lru g c)"
  shows "a_find (conf_of s) (absg s g) (e_key (entry_at s a)) = Some (c, entry_at s a)"
proof -
  have c: "c < length (slabs s)" using layout_class(1) [OF inv_heldD(1) [OF i], of a c] a by simp
  show ?thesis
    unfolding a_find_def
  proof (rule find_unique)
    show "(c, entry_at s a) \<in> set (concat (map (\<lambda>c. map (Pair c) (a_lru (absg s g) c)) [0..<length (cf_sizes (conf_of s))]))"
      using a c by auto
    show "y = (c, entry_at s a)"
      if "y \<in> set (concat (map (\<lambda>c. map (Pair c) (a_lru (absg s g) c)) [0..<length (cf_sizes (conf_of s))]))"
        and "case y of (d, e) \<Rightarrow> e_key e = e_key (entry_at s a)" for y
    proof -
      have "\<exists>d b. y = (d, entry_at s b) \<and> b \<in> set (g_lru g d)" using that(1) by auto
      then obtain d b where y: "y = (d, entry_at s b)" "b \<in> set (g_lru g d)" by blast
      then have "b = a" using key_unique [OF i y(2) a] that(2) by simp
      moreover have "d = c"
        using layout_disjoint(1) [OF inv_heldD(1) [OF i], of d c] y(2) a calculation by blast
      ultimately show ?thesis using y(1) by simp
    qed
  qed simp
qed

lemma a_find_eq_None:
  "(\<And>c a. a \<in> set (g_lru g c) \<Longrightarrow> e_key (entry_at s a) \<noteq> k) \<Longrightarrow> a_find (conf_of s) (absg s g) k = None"
  by (auto simp: a_find_def find_None_iff)

text \<open>The search of the table and the abstract search have the same result.\<close>

lemma tab_a_find:
  assumes i: "inv_held s g D"
  shows "(tab s g k = None \<and> a_find (conf_of s) (absg s g) k = None)
    \<or> (\<exists>a c. tab s g k = Some a \<and> a \<in> set (g_lru g c) \<and> e_key (entry_at s a) = k
        \<and> a_find (conf_of s) (absg s g) k = Some (c, entry_at s a))"
proof (cases "tab s g k")
  case None
  have "e_key (entry_at s a) \<noteq> k" if "a \<in> set (g_lru g c)" for c a
    using entry_key [OF i that] None tab_eq_None [OF inv_heldD(2) [OF i]] inv_heldD(3) [OF i] in_lruI [OF that]
    by fastforce
  then show ?thesis using None a_find_eq_None by blast
next
  case (Some a)
  then have a: "a \<in> in_lru g" "key_at s a = Some k"
    using tab_eq_Some [OF inv_heldD(2) [OF i]] inv_heldD(3) [OF i] by auto
  then obtain c where c: "a \<in> set (g_lru g c)" by (auto simp: in_lru_def)
  then have "e_key (entry_at s a) = k" using entry_key [OF i c] a(2) by simp
  then show ?thesis using Some c a_find_eq_Some [OF i c] by auto
qed

lemma find_inv:
  assumes i: "inv_held s g D" and n: "nkey \<le> length (buf_bytes key)"
  shows "\<exists>s'. assoc_find s key nkey =
      Some (case tab s g (buf_key key nkey) of None \<Rightarrow> 0 | Some a \<Rightarrow> a, s')
    \<and> inv_held s' g D \<and> absg s' g = absg s g \<and> conf_of s' = conf_of s \<and> dat s' = dat s \<and> tab s' g = tab s g"
proof -
  note I = inv_heldD [OF i]
  obtain s' where s': "assoc_find s key nkey =
      Some (case tab s g (buf_key key nkey) of None \<Rightarrow> 0 | Some a \<Rightarrow> a, s')"
      "layout s' g D" "dat s' = dat s" "nitems (attrs s') = nitems (attrs s)" "calm s s'"
    using find_step [OF I(1,2) n] by blast
  note C = calmD [OF s'(5)]
  have "inv_held s' g D" by (rule inv_held_step [OF i s'(2,3,5,4)]) simp_all
  moreover have "absg s' g = absg s g" using s'(3) C(2) by (intro absg_cong) simp_all
  moreover have "tab s' g = tab s g"
    by (rule ext, rule tab_cong) (simp_all add: key_at_dat [OF s'(3)] C(8))
  ultimately show ?thesis using s'(1,3) C(1) by blast
qed

text \<open>
  The form every operation starts with: either no entry has the key and the search gives null,
  or it gives the chunk of the entry.
\<close>

lemma find_cases:
  assumes i: "inv_held s g D" and n: "nkey \<le> length (buf_bytes key)" and k: "k = buf_key key nkey"
  obtains (absent) s' where "assoc_find s key nkey = Some (0, s')" "inv_held s' g D" "absg s' g = absg s g"
      "conf_of s' = conf_of s" "tab s' g k = None" "a_find (conf_of s) (absg s g) k = None"
  | (present) s' a c where "assoc_find s key nkey = Some (a, s')" "a \<noteq> 0" "inv_held s' g D"
      "absg s' g = absg s g" "conf_of s' = conf_of s" "tab s' g k = Some a" "a \<in> set (g_lru g c)"
      "e_key (entry_at s' a) = k" "a_find (conf_of s) (absg s g) k = Some (c, entry_at s' a)"
proof -
  obtain s' where s': "assoc_find s key nkey = Some (case tab s g k of None \<Rightarrow> 0 | Some a \<Rightarrow> a, s')"
      "inv_held s' g D" "absg s' g = absg s g" "conf_of s' = conf_of s" "dat s' = dat s" "tab s' g = tab s g"
    using find_inv [OF i n] k by blast
  from tab_a_find [OF i, of k] show ?thesis
  proof (elim disjE conjE exE)
    assume "tab s g k = None" "a_find (conf_of s) (absg s g) k = None"
    then show ?thesis using absent [of s'] s' by simp
  next
    fix a c
    assume a: "tab s g k = Some a" "a \<in> set (g_lru g c)" "e_key (entry_at s a) = k"
      "a_find (conf_of s) (absg s g) k = Some (c, entry_at s a)"
    have "a \<noteq> 0" using layout_list_distinct(3) [OF inv_heldD(1) [OF i], of c] a(2) by metis
    then show ?thesis using present [of a s' c] s' a entry_at_dat(1) [OF s'(5)] by simp
  qed
qed

section \<open>Abstract effects\<close>

lemma without_remove1:
  assumes i: "inv_held s g D" and a: "a \<in> set (g_lru g c)"
  shows "without (e_key (entry_at s a)) (map (entry_at s) (g_lru g c)) = map (entry_at s) (remove1 a (g_lru g c))"
proof -
  have "filter (\<lambda>b. e_key (entry_at s b) \<noteq> e_key (entry_at s a)) (g_lru g c) = filter (\<lambda>b. b \<noteq> a) (g_lru g c)"
    using key_unique [OF i _ a] by (intro filter_cong) auto
  also have "\<dots> = remove1 a (g_lru g c)"
    using layout_list_distinct(1) [OF inv_heldD(1) [OF i], of c] by (simp add: distinct_remove1_removeAll removeAll_filter_not_eq) (metis)
  finally show ?thesis by (simp add: without_def filter_map o_def)
qed

lemma relink_inv:
  assumes i: "inv_held s g D" and a: "a \<in> set (g_lru g c)"
  shows "\<exists>s'. item_relink s a = Some s' \<and> inv_held s' (lru_upd g c (a # remove1 a (g_lru g c))) D
    \<and> absg s' (lru_upd g c (a # remove1 a (g_lru g c))) = a_touch (absg s g) c (entry_at s a)
    \<and> conf_of s' = conf_of s \<and> dat s' = dat s"
proof -
  define g' where "g' = lru_upd g c (a # remove1 a (g_lru g c))"
  obtain s' where s': "item_relink s a = Some s'" "layout s' g' D" "dat s' = dat s" "attrs s' = attrs s" "calm s s'"
    using relink_step [OF inv_heldD(1) [OF i] a] unfolding g'_def by blast
  have "inv_held s' g' D"
    by (rule inv_held_step [OF i s'(2,3,5)])
      (use a layout_list_distinct(1) [OF inv_heldD(1) [OF i], of c] s'(4) in \<open>auto simp: g'_def\<close>)
  moreover have "absg s' g' = a_touch (absg s g) c (entry_at s a)"
    using without_remove1 [OF i a] entry_at_dat [OF s'(3)] s'(4)
    by (intro astore_eqI) (simp_all add: a_touch_def g'_def)
  ultimately show ?thesis using s'(1,3) calmD(1) [OF s'(5)] by (auto simp: g'_def)
qed

text \<open>A key whose item was taken out of the table is absent.\<close>

lemma removed_tab:
  assumes i: "inv_held s g D" and k: "tab s g k = Some a" and i': "inv_held s' g' D'"
    and d: "dat s' = dat s" and t: "in_table g' = in_table g - {a}"
  shows "tab s' g' k = None"
  unfolding tab_eq_None [OF inv_heldD(2) [OF i']]
proof
  fix x assume x: "x \<in> in_table g'"
  show "key_at s' x \<noteq> Some k"
  proof
    assume "key_at s' x = Some k"
    with x have "tab s g k = Some x"
      by (simp only: tab_eq_Some [OF inv_heldD(2) [OF i]] key_at_dat [OF d] t) simp
    with k x t show False by simp
  qed
qed

text \<open>\<open>assoc_delete\<close>, \<open>item_unlink\<close> and \<open>item_free\<close> of the item of a key.\<close>

lemma drop_inv:
  assumes i: "inv_held s g D" and n: "nkey \<le> length (buf_bytes key)"
    and k: "tab s g (buf_key key nkey) = Some a" and a: "a \<in> set (g_lru g c)"
  shows "\<exists>s1 s2 s3 g'. assoc_delete s key nkey = Some s1 \<and> item_unlink s1 a = Some s2 \<and> item_free s2 a = Some s3
    \<and> inv_held s3 g' D \<and> absg s3 g' = a_drop (absg s g) c (entry_at s a) \<and> conf_of s3 = conf_of s \<and> dat s3 = dat s
    \<and> tab s3 g' (buf_key key nkey) = None"
proof -
  note I = inv_heldD [OF i]
  obtain s1 s2 g2 where r: "assoc_delete s key nkey = Some s1" "item_unlink s1 a = Some s2"
      "inv_held s2 g2 (insert a D)" "g_lru g2 = (g_lru g)(c := remove1 a (g_lru g c))" "g_free g2 = g_free g"
      "in_table g2 = in_table g - {a}" "dat s2 = dat s" "calm s s2"
    using remove_step [OF i n k a] by blast
  note C = calmD [OF r(8)]
  obtain it where it: "dat s a = Some it" "good_item (slabs s) c it" "csize s a = Some (slab_size (slabs s ! c))"
      "c < length (slabs s)"
    using inv_held_lru [OF i a] .
  have f: "csize s2 a = Some (slab_size (slabs s2 ! c))" "dat s2 a = Some it" "good_item (slabs s2) c it"
    using it csize_dat [OF r(7)] r(7) conf_of_nth(1) [OF C(1)] good_item_cong [OF C(6)] by simp_all
  define g3 where "g3 = free_upd g2 c (a # g_free g2 c)"
  obtain s3 where s3: "item_free s2 a = Some s3" "inv_held s3 g3 (insert a D - {a})" "dat s3 = dat s2" "calm s2 s3"
    using free_held [OF r(3) insertI1 f] unfolding g3_def by blast
  note C3 = calmD [OF s3(4)]
  have "a \<notin> D" using layoutD(5) [OF I(1), of c] a by blast
  then have D: "insert a D - {a} = D" by blast
  have "e_flags (entry_at s a) = flags_at s a" using it(1) by (intro entry_at_flags) simp
  then have "absg s3 g3 = a_drop (absg s g) c (entry_at s a)"
    using without_remove1 [OF i a] entry_at_dat [of s3 s] s3(3) r(7) C(2) C3(2)
    by (intro astore_eqI) (simp_all add: a_drop_def a_release_def a_remove_def g3_def r(4,5))
  moreover have "in_table g3 = in_table g - {a}" using r(6) by (simp add: g3_def in_table_def)
  then have "tab s3 g3 (buf_key key nkey) = None"
    by (intro removed_tab [OF i k s3(2)]) (simp_all add: s3(3) r(7))
  ultimately show ?thesis using r(1,2,7) s3 C(1) C3(1) D by auto
qed

section \<open>Rewriting the data of an item\<close>

lemma held_not_listed:
  assumes "layout s g D" and "a \<in> D"
  shows "a \<notin> set (g_lru g c)" "a \<notin> set (g_free g c)"
  using layoutD(5) [OF assms(1), of c] assms(2) by blast+

lemma good_item_key:
  assumes "dat s a = Some it" and "good_item (slabs s) c it" and "c < length (slabs s)"
    and "csize s a = Some (slab_size (slabs s ! c))"
  shows "key_at s a = Some (e_key (entry_of it))"
proof -
  have "it_nkey it \<le> length (it_end it)"
    using good_item_size [OF assms(2,3)] assms(1,4) by (auto simp: csize_def)
  then show ?thesis using assms(1,2) by (simp add: key_at_def good_item_def entry_of_def)
qed

text \<open>Rewriting the flags and the value of an item, with the key kept.\<close>

lemma write_inv:
  assumes i: "inv_held s g D" and a: "a \<in> set (g_lru g c)" and it: "heap s a = Some it"
    and f: "data_write f" "length (it_end (f it)) = length (it_end it)"
    and good: "good_item (slabs s) c (f it)" and key: "e_key (entry_of (f it)) = e_key (entry_at s a)"
  shows "inv_held (upd_item s a f) g D" "entry_at (upd_item s a f) = (entry_at s)(a := entry_of (f it))"
    "\<forall>x. x \<noteq> a \<longrightarrow> flags_at (upd_item s a f) x = flags_at s x" "calm s (upd_item s a f)"
proof -
  note I = inv_heldD [OF i]
  define s2 where "s2 = upd_item s a f"
  have ad: "a \<in> dom (heap s)" using it by blast
  have len: "length (it_end (f x)) = length (it_end x)" if "heap s a = Some x" for x
    using that it f(2) by simp
  note w = write_step [OF I(1) ad f(1) len, folded s2_def]
  note C = calmD [OF w(5)]
  define z where "z = (\<lambda>x::item. x\<lparr>it_next := 0, it_prev := 0, it_hnext := 0\<rparr>)"
  have da: "dat s2 a = Some (z (f it))"
    using w(3) it f(1) by (simp add: dat_def data_write_def z_def)
  have other: "dat s2 x = dat s x" if "x \<noteq> a" for x using that w(3) by simp
  have goodz: "good_item (slabs s2) c (z (f it))"
    using good good_item_cong [OF C(6)] by (simp add: good_item_def z_def)
  have entz: "entry_of (z (f it)) = entry_of (f it)" by (simp add: entry_of_def z_def)
  have cb: "c < length (slabs s2)" using layout_class(1) [OF w(2), of a c] a by simp
  have ka: "key_at s2 a = key_at s a"
    using good_item_key [OF da goodz cb] layout_class(2) [OF w(2), of a c] a entz key entry_key [OF i a] by simp
  have "tabled s2 g"
  proof (rule tabled_cong [OF I(2)])
    show "key_at s2 x = key_at s x" for x using ka other by (cases "x = a") (simp_all add: key_at_def)
  qed (simp_all add: w(4))
  moreover have "payload s2 g"
    unfolding payload_def
  proof (intro allI ballI)
    fix d x assume x: "x \<in> set (g_lru g d)"
    show "\<exists>y. dat s2 x = Some y \<and> good_item (slabs s2) d y"
    proof (cases "x = a")
      case True
      then have "d = c" using x a layout_class_unique [OF I(1), of a d c] by simp
      then show ?thesis using True da goodz by simp
    next
      case False
      then show ?thesis
        using payloadD [OF I(4) x] other [OF False] good_item_cong [OF C(6)] by metis
    qed
  qed
  ultimately show "inv_held (upd_item s a f) g D"
    using w(2) I(3) pooled_cong [OF I(5) w(5,6)] good_conf_cong [OF I(6) C(1)] by (simp add: inv_held_def s2_def)
  show "entry_at (upd_item s a f) = (entry_at s)(a := entry_of (f it))"
    unfolding s2_def [symmetric]
  proof (rule ext)
    show "entry_at s2 x = ((entry_at s)(a := entry_of (f it))) x" for x
      using da entz entry_at_cong [OF other, of x] by (cases "x = a") (simp_all add: entry_at_def)
  qed
  show "\<forall>x. x \<noteq> a \<longrightarrow> flags_at (upd_item s a f) x = flags_at s x"
    using flags_at_cong [OF other] by (simp add: s2_def)
  show "calm s (upd_item s a f)" using w(5) by (simp add: s2_def)
qed

lemma write_abs:
  assumes i: "inv_held s g D" and a: "a \<in> set (g_lru g c)"
    and e: "entry_at s' = (entry_at s)(a := x)" and fl: "\<forall>b. b \<noteq> a \<longrightarrow> flags_at s' b = flags_at s b"
    and m: "calm s s'"
  shows "a_lru (absg s' g) d = (if d = c then map ((entry_at s)(a := x)) (g_lru g c) else a_lru (absg s g) d)"
    "a_free (absg s' g) d = a_free (absg s g) d" "a_used (absg s' g) = a_used (absg s g)"
proof -
  note I = inv_heldD [OF i]
  have "a \<notin> set (g_lru g d)" if "d \<noteq> c" using that layout_disjoint(1) [OF I(1), of d c] a by blast
  then show "a_lru (absg s' g) d = (if d = c then map ((entry_at s)(a := x)) (g_lru g c) else a_lru (absg s g) d)"
    using e by simp
  have "a \<notin> set (g_free g d)" using layout_lru_free [OF I(1), of c d] a by blast
  then show "a_free (absg s' g) d = a_free (absg s g) d" using fl by simp metis
  show "a_used (absg s' g) = a_used (absg s g)" using calmD(2) [OF m] by simp
qed

text \<open>
  Relinking an item and rewriting its flags and value: the entry is replaced and moved to the
  front.
\<close>

lemma touch_write:
  assumes i: "inv_held s g D" and a: "a \<in> set (g_lru g c)" and r: "item_relink s a = Some s1"
    and it: "heap s1 a = Some it" and f: "data_write f" "length (it_end (f it)) = length (it_end it)"
    and good: "good_item (slabs s) c (f it)" and key: "e_key (entry_of (f it)) = e_key (entry_at s a)"
  shows "\<exists>g'. inv_held (upd_item s1 a f) g' D \<and> absg (upd_item s1 a f) g' = a_touch (absg s g) c (entry_of (f it))
    \<and> conf_of (upd_item s1 a f) = conf_of s"
proof -
  define g1 where "g1 = lru_upd g c (a # remove1 a (g_lru g c))"
  have s1: "inv_held s1 g1 D" "absg s1 g1 = a_touch (absg s g) c (entry_at s a)"
      "conf_of s1 = conf_of s" "dat s1 = dat s"
    using relink_inv [OF i a] r unfolding g1_def by auto
  have al: "a \<in> set (g_lru g1 c)" by (simp add: g1_def)
  have gd: "good_item (slabs s1) c (f it)"
    using good good_item_cong [OF conf_ofD(4) [OF s1(3)]] by simp
  have ke: "e_key (entry_of (f it)) = e_key (entry_at s1 a)" using key entry_at_dat(1) [OF s1(4)] by simp
  note w = write_inv [OF s1(1) al it f gd ke]
  note ab = write_abs [OF s1(1) al w(2,3,4)]
  have an: "a \<notin> set (remove1 a (g_lru g c))"
    using layout_list_distinct(1) [OF inv_heldD(1) [OF i], of c] by simp
  then have lst: "map ((entry_at s1)(a := entry_of (f it))) (g_lru g1 c)
      = entry_of (f it) # without (e_key (entry_of (f it))) (a_lru (absg s g) c)"
    using without_remove1 [OF i a] key entry_at_dat(1) [OF s1(4)] by (simp add: g1_def)
  have "absg (upd_item s1 a f) g1 = a_touch (absg s g) c (entry_of (f it))"
  proof (rule astore_eqI)
    fix d
    show "a_lru (absg (upd_item s1 a f) g1) d = a_lru (a_touch (absg s g) c (entry_of (f it))) d"
      unfolding ab(1) [of d] lst s1(2) by (cases "d = c") (simp_all add: a_touch_def del: absg_fields)
    show "a_free (absg (upd_item s1 a f) g1) d = a_free (a_touch (absg s g) c (entry_of (f it))) d"
      unfolding ab(2) [of d] s1(2) by (simp add: a_touch_def del: absg_fields)
  next
    show "a_used (absg (upd_item s1 a f) g1) = a_used (a_touch (absg s g) c (entry_of (f it)))"
      unfolding ab(3) s1(2) by (simp add: a_touch_def del: absg_fields)
  qed
  then show ?thesis using w(1) calmD(1) [OF w(4)] s1(3) by auto
qed

section \<open>Entering a new item\<close>

lemma enroll_step:
  assumes i: "inv_held s g D" and n: "nkey \<le> length (buf_bytes key)"
    and b: "b = slot_of (nbuckets (attrs s)) (buf_key key nkey)"
    and a: "a \<in> D" "csize s a = Some (slab_size (slabs s ! c))" "clsid_at s a = Some c" and c: "c < length (slabs s)"
  shows "\<exists>s1 s2 g'. assoc_insert s key nkey a = Some s1 \<and> item_link s1 a = Some s2 \<and> layout s2 g' (D - {a})
    \<and> g_bkt g' = (g_bkt g)(b := a # g_bkt g b) \<and> g_lru g' = (g_lru g)(c := a # g_lru g c) \<and> g_free g' = g_free g
    \<and> dat s2 = dat s \<and> nitems (attrs s2) = Suc (nitems (attrs s)) \<and> calm s s2"
proof -
  note I = inv_heldD [OF i]
  have "a \<notin> in_table g" unfolding I(3) in_lru_def using held_not_listed(1) [OF I(1) a(1)] by blast
  then obtain s1 where s1: "assoc_insert s key nkey a = Some s1" "layout s1 (bkt_upd g b (a # g_bkt g b)) D"
      "dat s1 = dat s" "nitems (attrs s1) = Suc (nitems (attrs s))" "calm s s1"
    using insert_step [OF I(1) n b] layout_held_nz [OF I(1) a(1)] by blast
  note C = calmD [OF s1(5)]
  have "csize s1 a = Some (slab_size (slabs s1 ! c))" "clsid_at s1 a = Some c" "c < length (slabs s1)"
    using a(2,3) csize_dat [OF s1(3)] clsid_at_dat [OF s1(3)] conf_of_nth(1) [OF C(1) c] C(5) c by simp_all
  from link_step [OF s1(2) a(1) this] obtain s2 where s2: "item_link s1 a = Some s2"
      "layout s2 (lru_upd (bkt_upd g b (a # g_bkt g b)) c (a # g_lru (bkt_upd g b (a # g_bkt g b)) c)) (D - {a})"
      "dat s2 = dat s1" "attrs s2 = attrs s1" "calm s1 s2" by blast
  show ?thesis
    by (intro exI conjI, rule s1(1), rule s2(1), rule s2(2))
      (use s1(3,4) s2(3,4) calm_trans [OF s1(5) s2(5)] in simp_all)
qed

text \<open>The invariant is back once the key and the value are written.\<close>

lemma enrolled_inv:
  assumes i: "inv_held s g D" and a: "a \<in> D" and l: "layout s' g' D'" and same: "calm s s'" "csize s' = csize s"
    and ni: "nitems (attrs s') = Suc (nitems (attrs s))"
    and g': "g_bkt g' = (g_bkt g)(b := a # g_bkt g b)" "g_lru g' = (g_lru g)(c := a # g_lru g c)" "g_free g' = g_free g"
    and k: "tab s g k = None" "b = slot_of (nbuckets (attrs s)) k"
    and it: "dat s' a = Some it" "good_item (slabs s) c it" "e_key (entry_of it) = k"
    and other: "\<And>x. x \<notin> D \<Longrightarrow> dat s' x = dat s x"
  shows "inv_held s' g' D'" "absg s' g' = a_push (absg s g) c (entry_of it)"
proof -
  note I = inv_heldD [OF i] and C = calmD [OF same(1)]
  have al: "a \<in> set (g_lru g' c)" by (simp add: g')
  have cb: "c < length (slabs s')" using layout_class(1) [OF l, of a c] al by simp
  have good': "good_item (slabs s') c it" using it(2) good_item_cong [OF C(6)] by simp
  have ka: "key_at s' a = Some k"
    using good_item_key [OF it(1) good' cb] layout_class(2) [OF l, of a c] al it(3) by simp
  have nD: "x \<notin> D" if "x \<in> in_lru g" for x
    using that held_not_listed(1) [OF I(1), of x] by (auto simp: in_lru_def)
  have an: "a \<notin> in_table g" using nD a I(3) by blast
  have keys: "key_at s' x = key_at s x" if "x \<in> in_table g" for x
    using other [OF nD] that I(3) by (simp add: key_at_def)
  note t = tabled_insertI [OF I(2) ka k(1) an k(2) layout_conjuncts(4) [OF I(1)] keys C(8) ni g'(1)]
  have "in_table g' = in_lru g'"
    using t(2) I(3) by (auto simp: in_lru_def g'(2) split: if_splits)
  moreover have "payload s' g'"
    unfolding payload_def
  proof (intro allI ballI)
    fix d x assume x: "x \<in> set (g_lru g' d)"
    show "\<exists>y. dat s' x = Some y \<and> good_item (slabs s') d y"
    proof (cases "x = a")
      case True
      then have "d = c" using x al layout_class_unique [OF l, of a d c] by simp
      then show ?thesis using True it(1) good' by simp
    next
      case False
      then have xl: "x \<in> set (g_lru g d)" using x by (auto simp: g'(2) split: if_splits)
      have "dat s' x = dat s x" using other [OF nD [OF in_lruI [OF xl]]] .
      then show ?thesis using payloadD [OF I(4) xl] good_item_cong [OF C(6)] by metis
    qed
  qed
  ultimately show "inv_held s' g' D'"
    using l t(1) pooled_cong [OF I(5) same] good_conf_cong [OF I(6) C(1)] by (simp add: inv_held_def)
  show "absg s' g' = a_push (absg s g) c (entry_of it)"
  proof (rule astore_eqI)
    fix d
    have "map (entry_at s') (g_lru g d) = map (entry_at s) (g_lru g d)"
      using other [OF nD] in_lruI by (intro map_cong refl entry_at_cong) blast
    moreover have "entry_at s' a = entry_of it" using it(1) by (simp add: entry_at_def)
    ultimately show "a_lru (absg s' g') d = a_lru (a_push (absg s g) c (entry_of it)) d"
      by (simp add: a_push_def g'(2))
    have "x \<notin> D" if "x \<in> set (g_free g d)" for x using that held_not_listed(2) [OF I(1), of x d] by blast
    then have "map (flags_at s') (g_free g d) = map (flags_at s) (g_free g d)"
      using other by (intro map_cong refl flags_at_cong) blast
    then show "a_free (absg s' g') d = a_free (a_push (absg s g) c (entry_of it)) d"
      by (simp add: a_push_def g'(3))
  qed (simp add: a_push_def C(2))
qed

text \<open>What is absent stays absent when a chunk is taken.\<close>

lemma taken_in_lru: "taken s g c a s' g' \<Longrightarrow> in_lru g' \<subseteq> in_lru g"
proof -
  assume "taken s g c a s' g'"
  then have "g_lru g' = (g_lru g)(c := remove1 a (g_lru g c))" by (simp only: taken_def)
  then have "set (g_lru g' d) \<subseteq> set (g_lru g d)" for d by (simp add: set_remove1_subset)
  then show ?thesis unfolding in_lru_def by blast
qed

lemma taken_tab_None:
  assumes i: "inv_held s g {}" and t: "taken s g c a s' g'" and k: "tab s g k = None"
  shows "tab s' g' k = None"
proof -
  have i': "inv_held s' g' {a}" and d: "\<forall>b \<in> in_lru g'. dat s' b = dat s b" using t by (simp_all add: taken_def)
  have "key_at s' x \<noteq> Some k" if "x \<in> in_table g'" for x
  proof -
    have x: "x \<in> in_lru g'" using that inv_heldD(3) [OF i'] by simp
    then have "x \<in> in_table g" using taken_in_lru [OF t] inv_heldD(3) [OF i] by blast
    then have "key_at s x \<noteq> Some k" using tab_eq_None [OF inv_heldD(2) [OF i], of k] k by blast
    then show ?thesis using d x by (simp add: key_at_def)
  qed
  then show ?thesis unfolding tab_eq_None [OF inv_heldD(2) [OF i']] by fast
qed

end
