(* ===== verification/Store_Refinement.thy ===== *)
theory Store_Refinement
  imports Refine_Base
begin

text \<open>
  The pointer code of \<open>Store\<close> implements the operations of \<open>Store_Spec\<close>: on every store that
  stands for \<open>A\<close> an operation returns exactly when the abstract one has a meaning, with its
  return code, and the new store stands for its result. In particular no operation leaves an
  object, fails an assertion or loops.
\<close>

definition refines :: "(shmc_rc \<times> shmc) option \<Rightarrow> conf \<Rightarrow> (shmc_rc \<times> astore) option \<Rightarrow> bool" where
  "refines r cf ar \<longleftrightarrow> (case ar of
     None \<Rightarrow> r = None
   | Some (rc, A) \<Rightarrow> \<exists>s. r = Some (rc, s) \<and> implements s A \<and> conf_of s = cf)"

lemma refines_simps [simp]:
  "refines r cf None \<longleftrightarrow> r = None"
  "refines r cf (Some (rc, A)) \<longleftrightarrow> (\<exists>s. r = Some (rc, s) \<and> implements s A \<and> conf_of s = cf)"
  by (simp_all add: refines_def)

lemma implementsI: "inv_held s g {} \<Longrightarrow> absg s g = A \<Longrightarrow> implements s A"
  by (auto simp: implements_def store_inv_def)

lemma implementsE:
  assumes "implements s A"
  obtains g where "inv_held s g {}" "A = absg s g"
  using assms by (auto simp: implements_def store_inv_def)

section \<open>Lookup\<close>

text \<open>What both lookups do once the item is found.\<close>

lemma relink_load:
  assumes i: "inv_held s g {}" and a: "a \<in> set (g_lru g c)"
  shows "\<exists>s' it. item_relink s a = Some s' \<and> implements s' (a_touch (absg s g) c (entry_at s a))
    \<and> conf_of s' = conf_of s \<and> get_item s' a = Some it \<and> load_val s' a = Some (e_val (entry_at s a))
    \<and> it_flags it = e_flags (entry_at s a) \<and> it_nval it = length (e_val (entry_at s a))"
proof -
  obtain s' where s': "item_relink s a = Some s'" "inv_held s' (lru_upd g c (a # remove1 a (g_lru g c))) {}"
      "absg s' (lru_upd g c (a # remove1 a (g_lru g c))) = a_touch (absg s g) c (entry_at s a)"
      "conf_of s' = conf_of s" "dat s' = dat s"
    using relink_inv [OF i a] by blast
  have "a \<in> set (g_lru (lru_upd g c (a # remove1 a (g_lru g c))) c)" by simp
  from inv_held_heap [OF s'(2) this] obtain it where it: "heap s' a = Some it" "good_item (slabs s') c it"
      "it_nkey it + it_nval it \<le> length (it_end it)" "entry_at s' a = entry_of it"
    by blast
  have e: "entry_at s a = entry_of it" using it(4) entry_at_dat(1) [OF s'(5)] by simp
  have "it_val it = it_nkey it" using it(2) by (simp add: good_item_def)
  then show ?thesis
    using s'(1,4) implementsI [OF s'(2,3)] it(1,3) e by (auto simp: load_val_in entry_of_def)
qed

lemma get_refines:
  assumes A: "implements s A" and n: "nkey \<le> length (buf_bytes key)"
    and r: "a_get (conf_of s) A (buf_key key nkey) ok = (rc, out, A')"
  shows "\<exists>s'. shmc_get_nolock s key nkey ok = Some (rc, out, s') \<and> implements s' A' \<and> conf_of s' = conf_of s"
proof -
  obtain g where g: "inv_held s g {}" "A = absg s g" using implementsE [OF A] .
  from g(1) n refl show ?thesis
  proof (cases rule: find_cases)
    case (absent s1)
    then show ?thesis using r g(2) implementsI [OF absent(2,3)] by (simp add: shmc_get_nolock_def a_get_def)
  next
    case (present s1 a c)
    show ?thesis
      using relink_load [OF present(3,7)] present(1,2,4,5,9) r g(2)
      by (auto simp: shmc_get_nolock_def a_get_def split: if_splits)
  qed
qed

lemma getf_refines:
  assumes A: "implements s A" and n: "nkey \<le> length (buf_bytes key)"
    and r: "a_getf (conf_of s) A (buf_key key nkey) room = (rc, out, A')"
  shows "\<exists>s'. shmc_getf_nolock s key nkey room = Some (rc, out, s') \<and> implements s' A' \<and> conf_of s' = conf_of s"
proof -
  obtain g where g: "inv_held s g {}" "A = absg s g" using implementsE [OF A] .
  from g(1) n refl show ?thesis
  proof (cases rule: find_cases)
    case (absent s1)
    then show ?thesis using r g(2) implementsI [OF absent(2,3)] by (simp add: shmc_getf_nolock_def a_getf_def)
  next
    case (present s1 a c)
    show ?thesis
      using relink_load [OF present(3,7)] present(1,2,4,5,9) r g(2)
      by (auto simp: shmc_getf_nolock_def a_getf_def split: if_splits)
  qed
qed

section \<open>Deletion\<close>

lemma del_inv:
  assumes i: "inv_held s g {}" and n: "nkey \<le> length (buf_bytes key)"
  shows "\<exists>rc s' g'. shmc_del_nolock s key nkey = Some (rc, s') \<and> inv_held s' g' {}
    \<and> a_del (conf_of s) (absg s g) (buf_key key nkey) = (rc, absg s' g') \<and> conf_of s' = conf_of s
    \<and> tab s' g' (buf_key key nkey) = None"
  using i n refl
proof (cases rule: find_cases)
  case (absent s1)
  then show ?thesis by (auto simp: shmc_del_nolock_def a_del_def)
next
  case (present s1 a c)
  obtain s2 s3 s4 g' where d: "assoc_delete s1 key nkey = Some s2" "item_unlink s2 a = Some s3"
      "item_free s3 a = Some s4" "inv_held s4 g' {}" "absg s4 g' = a_drop (absg s1 g) c (entry_at s1 a)"
      "conf_of s4 = conf_of s1" "tab s4 g' (buf_key key nkey) = None"
    using drop_inv [OF present(3) n present(6,7)] by blast
  have "shmc_del_nolock s key nkey = Some (SHMC_OK, s4)"
    using present(1,2) d(1-3) by (simp add: shmc_del_nolock_def)
  then show ?thesis
    using d(4-7) present(4,5,9) by (intro exI [of _ SHMC_OK] exI [of _ s4] exI [of _ g']) (simp add: a_del_def)
qed

lemma del_refines:
  assumes A: "implements s A" and n: "nkey \<le> length (buf_bytes key)"
  shows "refines (shmc_del_nolock s key nkey) (conf_of s) (Some (a_del (conf_of s) A (buf_key key nkey)))"
proof -
  obtain g where g: "inv_held s g {}" "A = absg s g" using implementsE [OF A] .
  show ?thesis using del_inv [OF g(1) n] g(2) by (auto intro: implementsI)
qed

section \<open>Storing\<close>

lemma blit_two:
  "length K + length V \<le> length e \<Longrightarrow>
     blit (blit e 0 K) (length K) V = K @ V @ drop (length K + length V) e"
  by (simp add: blit_def add.commute)

lemma dat_heapE:
  assumes "dat s' a = dat s a" and "heap s a = Some it"
  obtains it' where "heap s' a = Some it'" "it_clsid it' = it_clsid it" "it_flags it' = it_flags it"
    "it_key it' = it_key it" "it_nkey it' = it_nkey it" "it_val it' = it_val it" "it_nval it' = it_nval it"
    "it_end it' = it_end it"
  using assms by (cases "heap s' a"; cases "the (heap s' a)"; cases it) (auto simp: dat_def)

text \<open>
  Writing the new item \<open>a\<close> after it was entered; \<open>s3\<close> is the state behind the insertion, up to
  writes to other held chunks.
\<close>

lemma fill_inv:
  assumes i: "inv_held s g D" and a: "a \<in> D" and l: "layout s3 g' (D - {a})"
    and same: "calm s s3" "csize s3 = csize s" "nitems (attrs s3) = Suc (nitems (attrs s))"
      "\<And>x. x \<notin> D \<Longrightarrow> dat s3 x = dat s x"
    and g': "g_bkt g' = (g_bkt g)(b := a # g_bkt g b)" "g_lru g' = (g_lru g)(c := a # g_lru g c)" "g_free g' = g_free g"
    and k: "tab s g k = None" "b = slot_of (nbuckets (attrs s)) k"
    and it: "heap s3 a = Some it" and f: "data_write f" "length (it_end (f it)) = length (it_end it)"
    and good: "good_item (slabs s) c (f it)" "e_key (entry_of (f it)) = k"
  shows "inv_held (upd_item s3 a f) g' (D - {a})" "absg (upd_item s3 a f) g' = a_push (absg s g) c (entry_of (f it))"
    "calm s (upd_item s3 a f)" "dat (upd_item s3 a f) = (dat s3)(a := map_option f (dat s3 a))"
proof -
  define s4 where "s4 = upd_item s3 a f"
  define z where "z = (\<lambda>x::item. x\<lparr>it_next := 0, it_prev := 0, it_hnext := 0\<rparr>)"
  have ad: "a \<in> dom (heap s3)" using it by blast
  have len: "length (it_end (f x)) = length (it_end x)" if "heap s3 a = Some x" for x
    using that it f(2) by simp
  note w = write_step [OF l ad f(1) len, folded s4_def]
  have c4: "calm s s4" using calm_trans [OF same(1) w(5)] .
  have cz: "csize s4 = csize s" using w(6) same(2) by simp
  have da: "dat s4 a = Some (z (f it))"
    using w(3) it f(1) by (simp add: dat_def data_write_def z_def)
  have ez: "entry_of (z (f it)) = entry_of (f it)" by (simp add: entry_of_def z_def)
  have ni: "nitems (attrs s4) = Suc (nitems (attrs s))" using w(4) same(3) by simp
  have gz: "good_item (slabs s) c (z (f it))" using good(1) by (simp add: good_item_def z_def)
  have kz: "e_key (entry_of (z (f it))) = k" using good(2) ez by simp
  have oth: "dat s4 x = dat s x" if "x \<notin> D" for x
  proof -
    have "x \<noteq> a" using that a by blast
    then show ?thesis using w(3) same(4) [OF that] by simp
  qed
  note e = enrolled_inv [OF i a w(2) c4 cz ni g' k da gz kz oth]
  show "inv_held (upd_item s3 a f) g' (D - {a})" using e(1) by (simp add: s4_def)
  show "absg (upd_item s3 a f) g' = a_push (absg s g) c (entry_of (f it))" using e(2) ez by (simp add: s4_def)
  show "calm s (upd_item s3 a f)" using c4 by (simp add: s4_def)
  show "dat (upd_item s3 a f) = (dat s3)(a := map_option f (dat s3 a))" using w(3) by (simp add: s4_def)
qed

text \<open>The writes \<open>item->flags = flags\<close>, key and value of a new item.\<close>

lemma write_new:
  assumes it: "heap s a = Some it" "it_key it = 0" "it_nkey it = nkey" "it_val it = nkey" "it_nval it = nval"
    and n: "nkey \<le> length (buf_bytes key)" "nval \<le> length val" "nkey + nval \<le> length (it_end it)"
  shows "do { s \<leftarrow> set_flags s a flags; s \<leftarrow> copy_key s a key nkey; s \<leftarrow> copy_val s a 0 val nval; cont s }
    = cont (upd_item s a (it_end_update (\<lambda>_. buf_key key nkey @ take nval val @ drop (nkey + nval) (it_end it))
        \<circ> it_flags_update (\<lambda>_. flags)))"
proof -
  have k: "length (buf_key key nkey) = nkey" using n(1) by (simp add: buf_key_def)
  have b: "blit (blit (it_end it) 0 (buf_key key nkey)) nkey (take nval val)
      = buf_key key nkey @ take nval val @ drop (nkey + nval) (it_end it)"
    using blit_two [of "buf_key key nkey" "take nval val" "it_end it"] n k by simp
  have e: "length (blit (it_end it) 0 (buf_key key nkey)) = length (it_end it)" using n k by simp
  show ?thesis
    using it n k e b
    by (simp add: set_flags_in [OF it(1)] copy_key_in [OF heap_upd_same [OF it(1)]]
        copy_val_in [OF heap_upd_same [OF it(1)]] upd_item_upd_item o_def)
qed

lemma set_refines:
  assumes A: "implements s A" and n: "nkey \<le> length (buf_bytes key)" and v: "nval \<le> length val"
    and small: "sizeof_item + nkey + nval < 2 ^ 64"
  shows "refines (shmc_set_nolock s key nkey val nval flags) (conf_of s)
    (a_set (conf_of s) A (buf_key key nkey) (take nval val) flags)"
proof -
  define k V where "k = buf_key key nkey" and "V = take nval val"
  have len: "length k = nkey" "length V = nval" using n v by (simp_all add: k_def V_def buf_key_def)
  obtain g where g: "inv_held s g {}" "A = absg s g" using implementsE [OF A] .
  show ?thesis
  proof (cases "size_ok (conf_of s) (size_for nkey nval)")
    case False
    then have "\<not> item_size_ok s nkey nval" using item_size_ok_size_ok [OF small, of s] by simp
    then show ?thesis using False A by (simp add: shmc_set_nolock_def a_set_def Let_def len flip: k_def V_def)
  next
    case True
    then have ok: "item_size_ok s nkey nval" using item_size_ok_size_ok [OF small, of s] by simp
    obtain rc s1 g1 where d: "shmc_del_nolock s key nkey = Some (rc, s1)" "inv_held s1 g1 {}"
        "a_del (conf_of s) (absg s g) k = (rc, absg s1 g1)" "conf_of s1 = conf_of s" "tab s1 g1 k = None"
      using del_inv [OF g(1) n] unfolding k_def by blast
    have as: "a_set (conf_of s) A k V flags = do {
        c \<leftarrow> class_for (conf_of s) (size_for nkey nval);
        (case a_take (conf_of s) c (absg s1 g1) of
           None \<Rightarrow> Some (SHMC_NOMEMORY, absg s1 g1)
         | Some (stale, A) \<Rightarrow> Some (SHMC_OK, a_push A c \<lparr>e_key = k, e_val = V, e_flags = flags\<rparr>)) }"
      using True by (simp add: a_set_def Let_def len g(2) d(3))
    have cs: "shmc_set_nolock s key nkey val nval flags = do {
        (a, s) \<leftarrow> item_alloc s1 nkey nval;
        if a = 0 then Some (SHMC_NOMEMORY, s)
        else do {
          s \<leftarrow> assoc_insert s key nkey a;
          s \<leftarrow> item_link s a;
          s \<leftarrow> set_flags s a flags;
          s \<leftarrow> copy_key s a key nkey;
          s \<leftarrow> copy_val s a 0 val nval;
          Some (SHMC_OK, s)
        } }"
      using ok d(1) by (simp add: shmc_set_nolock_def cong: if_cong)
    show ?thesis
    proof (cases "class_for (conf_of s) (size_for nkey nval)")
      case None
      then have "item_clsid s1 nkey nval = None" using item_clsid_class_for [OF small, of s1] d(4) by simp
      then have "item_alloc s1 nkey nval = None" by (cases "item_size_ok s1 nkey nval") (simp_all add: item_alloc_def)
      then show ?thesis using as cs None by (simp add: k_def V_def)
    next
      case (Some c)
      have al: "store_inv s1 g1" "size_ok (conf_of s1) (size_for nkey nval)"
        "class_for (conf_of s1) (size_for nkey nval) = Some c"
        using d(2,4) True Some by (simp_all add: store_inv_def)
      note spec = alloc_spec [OF al(1) small al(2,3)]
      show ?thesis
      proof (cases "a_take (conf_of s) c (absg s1 g1)")
        case None
        then obtain s2 where "item_alloc s1 nkey nval = Some (0, s2)" "store_inv s2 g1" "absg s2 g1 = absg s1 g1"
            "conf_of s2 = conf_of s"
          using spec d(4) by auto
        then show ?thesis
          using as cs Some None by (auto simp: k_def V_def store_inv_def intro: implementsI)
      next
        case take: (Some p)
        then obtain fl A2 where p: "a_take (conf_of s) c (absg s1 g1) = Some (fl, A2)" by (cases p) simp
        then obtain a s2 g2 it where al2: "item_alloc s1 nkey nval = Some (a, s2)" "taken s1 g1 c a s2 g2"
            "A2 = absg s2 g2" "heap s2 a = Some it" "it_clsid it = c" "it_key it = 0" "it_nkey it = nkey"
            "it_val it = nkey" "it_nval it = nval" "sizeof_item + length (it_end it) = slab_size (slabs s1 ! c)"
          using spec d(4) by auto
        have t: "a \<noteq> 0" "inv_held s2 g2 {a}" "conf_of s2 = conf_of s1" "csize s2 a = Some (slab_size (slabs s1 ! c))"
          using al2(2) by (simp_all add: taken_def)
        have cl: "clsid_loop (slabs s1) (sizeof_item + nkey + nval) 0 = Some c"
          using al(3) item_clsid_class_for [OF small, of s1] item_total_eq [OF small] by (simp add: item_clsid_def)
        then have c1: "c < length (slabs s1)" "sizeof_item + nkey + nval \<le> slab_size (slabs s1 ! c)"
          by (simp_all add: clsid_loop_eq_Some)
        note cf = conf_ofD(3,4) [OF t(3)]
        have e: "csize s2 a = Some (slab_size (slabs s2 ! c))" "clsid_at s2 a = Some c" "c < length (slabs s2)"
          using t(4) conf_of_nth(1) [OF t(3) c1(1)] al2(4,5) c1(1) cf(1) by (simp_all add: clsid_at_Some)
        define b where "b = slot_of (nbuckets (attrs s2)) k"
        obtain s3 s4 g4 where en: "assoc_insert s2 key nkey a = Some s3" "item_link s3 a = Some s4"
            "layout s4 g4 ({a} - {a})" "g_bkt g4 = (g_bkt g2)(b := a # g_bkt g2 b)"
            "g_lru g4 = (g_lru g2)(c := a # g_lru g2 c)" "g_free g4 = g_free g2" "dat s4 = dat s2"
            "nitems (attrs s4) = Suc (nitems (attrs s2))" "calm s2 s4"
          using enroll_step [OF t(2) n b_def [unfolded k_def] _ e] by auto
        obtain it4 where it4: "heap s4 a = Some it4" "it_key it4 = 0" "it_nkey it4 = nkey"
            "it_val it4 = nkey" "it_nval it4 = nval" "it_end it4 = it_end it"
          using dat_heapE [OF fun_cong [OF en(7), of a] al2(4)] al2(6-9) by metis
        have room: "nkey + nval \<le> length (it_end it4)" using al2(10) c1(2) it4(6) by simp
        define f :: "item \<Rightarrow> item" where "f = it_end_update (\<lambda>_. k @ V @ drop (nkey + nval) (it_end it4)) \<circ> it_flags_update (\<lambda>_. flags)"
        have wr: "do { s \<leftarrow> set_flags s4 a flags; s \<leftarrow> copy_key s a key nkey; s \<leftarrow> copy_val s a 0 val nval; cont s }
            = cont (upd_item s4 a f)" for cont :: "shmc \<Rightarrow> (shmc_rc \<times> shmc) option"
          unfolding f_def k_def V_def by (rule write_new [OF it4(1-5) n v room])
        have fw: "data_write f" "length (it_end (f it4)) = length (it_end it4)"
          using room len by (simp_all add: f_def data_write_def)
        have good: "good_item (slabs s2) c (f it4)"
          using it4 small cl clsid_loop_cong [OF cf(2)] by (simp add: good_item_def f_def)
        have ent: "entry_of (f it4) = \<lparr>e_key = k, e_val = V, e_flags = flags\<rparr>"
          using it4 len by (simp add: entry_of_def f_def)
        have tb: "tab s2 g2 k = None" by (rule taken_tab_None [OF d(2) al2(2) d(5)])
        note fi = fill_inv [OF t(2) insertI1 en(3,9) csize_dat [OF en(7)] en(8) fun_cong [OF en(7)] en(4-6) tb b_def
            it4(1) fw good, unfolded ent]
        have "implements (upd_item s4 a f) (a_push A2 c \<lparr>e_key = k, e_val = V, e_flags = flags\<rparr>)"
          using fi(1,2) al2(3) by (intro implementsI) simp_all
        moreover have "conf_of (upd_item s4 a f) = conf_of s"
          using calmD(1) [OF fi(3)] t(3) d(4) by simp
        ultimately show ?thesis
          using as cs Some p al2(1) t(1) en(1,2) wr by (simp add: k_def V_def)
      qed
    qed
  qed
qed

lemma add_refines:
  assumes A: "implements s A" and n: "nkey \<le> length (buf_bytes key)" and v: "nval \<le> length val"
    and small: "sizeof_item + nkey + nval < 2 ^ 64"
  shows "refines (shmc_add_nolock s key nkey val nval flags) (conf_of s)
    (a_add (conf_of s) A (buf_key key nkey) (take nval val) flags)"
proof -
  obtain g where g: "inv_held s g {}" "A = absg s g" using implementsE [OF A] .
  from g(1) n refl show ?thesis
  proof (cases rule: find_cases)
    case (absent s1)
    then show ?thesis
      using set_refines [OF implementsI [OF absent(2,3)] n v small] g(2)
      by (simp add: shmc_add_nolock_def a_add_def)
  next
    case (present s1 a c)
    then show ?thesis using g(2) implementsI [OF present(3,4)] by (simp add: shmc_add_nolock_def a_add_def)
  qed
qed

end
