(* ===== verification/Grow_Refinement.thy ===== *)
theory Grow_Refinement
  imports Store_Refinement
begin

text \<open>
  Replacing, prepending and appending: in place while the item stays in its size class, by
  moving it to a chunk of another class otherwise.
\<close>

section \<open>In place\<close>

lemma class_forD:
  assumes "class_for (conf_of s) (size_for nkey nval) = Some c" and "sizeof_item + nkey + nval < 2 ^ 64"
  shows "c < length (slabs s)" "sizeof_item + nkey + nval \<le> slab_size (slabs s ! c)"
    "clsid_loop (slabs s) (sizeof_item + nkey + nval) 0 = Some c"
proof -
  show cl: "clsid_loop (slabs s) (sizeof_item + nkey + nval) 0 = Some c"
    using assms item_clsid_class_for [OF assms(2), of s] item_total_eq [OF assms(2)] by (simp add: item_clsid_def)
  then show "c < length (slabs s)" "sizeof_item + nkey + nval \<le> slab_size (slabs s ! c)"
    by (simp_all add: clsid_loop_eq_Some)
qed

lemma entry_nkey:
  assumes "it_nkey it + it_nval it \<le> length (it_end it)" and "good_item sls c it"
  shows "length (e_key (entry_of it)) = it_nkey it" "length (e_val (entry_of it)) = it_nval it"
  using assms by (simp_all add: entry_of_def good_item_def)

text \<open>
  An item that stays in its class and gets the value \<open>v'\<close>, by whatever writes put \<open>v'\<close> behind
  the key.
\<close>

lemma rewrite_refines:
  assumes i: "inv_held s g {}" and a: "a \<in> set (g_lru g c)" and k: "e_key (entry_at s a) = k"
    and small: "sizeof_item + length k + length v' < 2 ^ 64"
    and c: "class_for (conf_of s) (size_for (length k) (length v')) = Some c"
  shows "\<exists>s1 it. item_relink s a = Some s1 \<and> heap s1 a = Some it \<and> it_key it = 0 \<and> it_val it = length k
    \<and> it_nkey it = length k \<and> entry_at s a = entry_of it \<and> length k + it_nval it \<le> length (it_end it)
    \<and> length k + length v' \<le> length (it_end it) \<and> k = take (length k) (it_end it)
    \<and> (\<forall>e. length e = length (it_end it) \<longrightarrow> take (length k) e = k \<longrightarrow> take (length v') (drop (length k) e) = v' \<longrightarrow>
        implements (upd_item s1 a (\<lambda>x. x\<lparr>it_flags := fl, it_end := e, it_nval := length v'\<rparr>))
          (a_touch (absg s g) c \<lparr>e_key = k, e_val = v', e_flags = fl\<rparr>)
        \<and> conf_of (upd_item s1 a (\<lambda>x. x\<lparr>it_flags := fl, it_end := e, it_nval := length v'\<rparr>)) = conf_of s)"
proof -
  obtain s1 where s1: "item_relink s a = Some s1" "dat s1 = dat s" using relink_inv [OF i a] by blast
  obtain it0 where it0: "heap s a = Some it0" "good_item (slabs s) c it0" "it_clsid it0 = c"
      "it_nkey it0 + it_nval it0 \<le> length (it_end it0)" "entry_at s a = entry_of it0"
      "sizeof_item + length (it_end it0) = slab_size (slabs s ! c)"
    using inv_held_heap [OF i a] by blast
  obtain it where it: "heap s1 a = Some it" "it_clsid it = it_clsid it0" "it_flags it = it_flags it0"
      "it_key it = it_key it0" "it_nkey it = it_nkey it0" "it_val it = it_val it0" "it_nval it = it_nval it0"
      "it_end it = it_end it0"
    using dat_heapE [OF fun_cong [OF s1(2), of a] it0(1)] .
  have nk: "it_nkey it = length k" using entry_nkey(1) [OF it0(4,2)] it0(5) k it(5) by simp
  have kv: "it_key it = 0" "it_val it = length k" using it0(2) it(4,6) nk it(5) by (simp_all add: good_item_def)
  have ent: "entry_at s a = entry_of it" using it0(5) it by (simp add: entry_of_def)
  note C = class_forD [OF c small]
  have room: "length k + length v' \<le> length (it_end it)" using C(2) it0(6) it(8) by simp
  have ktake: "k = take (length k) (it_end it)" using k ent kv(1) nk by (simp add: entry_of_def)
  have fin: "implements (upd_item s1 a F) (a_touch (absg s g) c \<lparr>e_key = k, e_val = v', e_flags = fl\<rparr>)
      \<and> conf_of (upd_item s1 a F) = conf_of s"
    if e: "length e = length (it_end it)" "take (length k) e = k" "take (length v') (drop (length k) e) = v'"
      and F: "F = (\<lambda>x. x\<lparr>it_flags := fl, it_end := e, it_nval := length v'\<rparr>)" for e F
  proof -
    have en: "entry_of (F it) = \<lparr>e_key = k, e_val = v', e_flags = fl\<rparr>"
      using e kv nk by (simp add: entry_of_def F)
    have gd: "good_item (slabs s) c (F it)" using kv nk small C(3) by (simp add: good_item_def F)
    have dw: "data_write F" "length (it_end (F it)) = length (it_end it)" using e(1) by (simp_all add: data_write_def F)
    have ke: "e_key (entry_of (F it)) = e_key (entry_at s a)" using en k by simp
    show ?thesis
      using touch_write [OF i a s1(1) it(1) dw gd ke] en by (auto intro: implementsI)
  qed
  have "length k + it_nval it \<le> length (it_end it)" using it0(4) it(5,7,8) nk by simp
  then show ?thesis using s1(1) it(1) kv nk ent room ktake fin by blast
qed

lemma blit_key: "length k \<le> off \<Longrightarrow> off \<le> length e \<Longrightarrow> take (length k) (blit e off v) = take (length k) e"
  using blit_read_before [of 0 "length k" off e v] by simp

lemma replace_refines:
  assumes A: "implements s A" and n: "nkey \<le> length (buf_bytes key)" and v: "nval \<le> length val"
    and small: "sizeof_item + nkey + nval < 2 ^ 64"
  shows "refines (shmc_replace_nolock s key nkey val nval flags) (conf_of s)
    (a_replace (conf_of s) A (buf_key key nkey) (take nval val) flags)"
proof -
  define k V where "k = buf_key key nkey" and "V = take nval val"
  have len: "length k = nkey" "length V = nval" using n v by (simp_all add: k_def V_def buf_key_def)
  obtain g where g: "inv_held s g {}" "A = absg s g" using implementsE [OF A] .
  from g(1) n k_def show ?thesis
  proof (cases rule: find_cases)
    case (absent s1)
    then show ?thesis using implementsI [OF absent(2,3)] g(2)
      by (simp add: shmc_replace_nolock_def a_replace_def k_def)
  next
    case (present s1 a c)
    obtain it where it: "heap s1 a = Some it" "it_clsid it = c" using inv_held_heap [OF present(3,7)] by blast
    have cls: "item_clsid s1 nkey nval = class_for (conf_of s) (size_for nkey nval)"
      using item_clsid_class_for [OF small, of s1] present(5) by simp
    have as: "a_replace (conf_of s) A k V flags = do {
        c' \<leftarrow> class_for (conf_of s) (size_for nkey nval);
        if c = c' then Some (SHMC_OK, a_touch (absg s1 g) c \<lparr>e_key = k, e_val = V, e_flags = flags\<rparr>)
        else a_set (conf_of s) (a_drop (absg s1 g) c (entry_at s1 a)) k V flags }"
      using present(4,9) g(2) by (simp add: a_replace_def len cong: if_cong)
    show ?thesis
    proof (cases "class_for (conf_of s) (size_for nkey nval)")
      case None
      then have "shmc_replace_nolock s key nkey val nval flags = None"
        using present(1,2) it cls by (simp add: shmc_replace_nolock_def)
      then show ?thesis using as None by (simp add: k_def V_def)
    next
      case (Some c')
      show ?thesis
      proof (cases "c = c'")
        case True
        have small': "sizeof_item + length k + length V < 2 ^ 64" using small len by simp
        have cl: "class_for (conf_of s1) (size_for (length k) (length V)) = Some c"
          using Some True present(5) len by simp
        obtain s2 it2 where w: "item_relink s1 a = Some s2" "heap s2 a = Some it2" "it_val it2 = length k"
            "length k + length V \<le> length (it_end it2)" "k = take (length k) (it_end it2)"
            "\<forall>e. length e = length (it_end it2) \<longrightarrow> take (length k) e = k \<longrightarrow> take (length V) (drop (length k) e) = V \<longrightarrow>
              implements (upd_item s2 a (\<lambda>x. x\<lparr>it_flags := flags, it_end := e, it_nval := length V\<rparr>))
                (a_touch (absg s1 g) c \<lparr>e_key = k, e_val = V, e_flags = flags\<rparr>)
              \<and> conf_of (upd_item s2 a (\<lambda>x. x\<lparr>it_flags := flags, it_end := e, it_nval := length V\<rparr>)) = conf_of s1"
          using rewrite_refines [OF present(3,7,8) small' cl, of flags] by blast
        define e where "e = blit (it_end it2) nkey V"
        have e: "length e = length (it_end it2)" "take (length k) e = k" "take (length V) (drop (length k) e) = V"
          using w(4,5) len blit_read_same [of nkey "it_end it2" V] blit_key [of k nkey "it_end it2" V]
          by (simp_all add: e_def)
        define F :: "item \<Rightarrow> item" where "F = (\<lambda>x. x\<lparr>it_flags := flags, it_end := e, it_nval := length V\<rparr>)"
        have "do { s \<leftarrow> set_flags s2 a flags; s \<leftarrow> copy_val s a 0 val nval; s \<leftarrow> set_nval s a nval; Some (SHMC_OK, s) }
            = Some (SHMC_OK, upd_item s2 a F)"
          using w(2,3,4) len v
          by (simp add: set_flags_in [OF w(2)] copy_val_in [OF heap_upd_same [OF w(2)]]
              set_nval_in [OF heap_upd_same [OF w(2)]] upd_item_upd_item o_def F_def e_def V_def)
        then have "shmc_replace_nolock s key nkey val nval flags = Some (SHMC_OK, upd_item s2 a F)"
          using present(1,2) it cls Some True w(1) by (simp add: shmc_replace_nolock_def)
        moreover have "implements (upd_item s2 a F) (a_touch (absg s1 g) c \<lparr>e_key = k, e_val = V, e_flags = flags\<rparr>)
            \<and> conf_of (upd_item s2 a F) = conf_of s"
          using w(6) e present(5) unfolding F_def by metis
        ultimately show ?thesis using as Some True by (simp add: k_def V_def)
      next
        case False
        have tk: "tab s1 g (buf_key key nkey) = Some a" using present(6) by (simp add: k_def)
        obtain s2 s3 s4 g' where d: "assoc_delete s1 key nkey = Some s2" "item_unlink s2 a = Some s3"
            "item_free s3 a = Some s4" "inv_held s4 g' {}" "absg s4 g' = a_drop (absg s1 g) c (entry_at s1 a)"
            "conf_of s4 = conf_of s1"
          using drop_inv [OF present(3) n tk present(7)] by blast
        have "shmc_replace_nolock s key nkey val nval flags = shmc_set_nolock s4 key nkey val nval flags"
          using present(1,2) it cls Some False d(1-3) by (simp add: shmc_replace_nolock_def)
        then show ?thesis
          using set_refines [OF implementsI [OF d(4,5)] n v small, of flags] as Some False d(6) present(5)
          by (simp add: k_def V_def)
      qed
    qed
  qed
qed

section \<open>Moving to another class\<close>

text \<open>
  The state is the one behind a successful \<open>item_alloc\<close>, with \<open>n\<close> the new chunk; \<open>a\<close> is the
  old item. The code writes the flags given into the old item and then the new key and value.
\<close>

lemma move_item:
  assumes i: "inv_held s g {n}" and nk: "nkey \<le> length (buf_bytes key)"
    and k: "tab s g (buf_key key nkey) = Some a" and a: "a \<in> set (g_lru g c)"
    and it: "heap s n = Some it" "it_clsid it = c'" "csize s n = Some (slab_size (slabs s ! c'))"
    and c': "c' < length (slabs s)"
  shows "\<exists>s1 s2 s3 s4 old new. assoc_delete s key nkey = Some s1 \<and> item_unlink s1 a = Some s2
    \<and> assoc_insert s2 key nkey n = Some s3 \<and> item_link s3 n = Some s4
    \<and> heap s4 a = Some old \<and> entry_of old = entry_at s a \<and> it_val old + it_nval old \<le> length (it_end old)
    \<and> it_nval old = length (e_val (entry_at s a))
    \<and> heap s4 n = Some new \<and> it_key new = it_key it \<and> it_nkey new = it_nkey it \<and> it_val new = it_val it
    \<and> it_nval new = it_nval it \<and> it_flags new = it_flags it \<and> it_end new = it_end it
    \<and> (\<forall>f. data_write f \<longrightarrow> length (it_end (f new)) = length (it_end new) \<longrightarrow> good_item (slabs s) c' (f new) \<longrightarrow>
        e_key (entry_of (f new)) = buf_key key nkey \<longrightarrow>
        (\<exists>s6. item_free (upd_item (upd_item s4 a (it_flags_update (\<lambda>_. fl))) n f) a = Some s6
          \<and> implements s6 (a_release (a_push (a_remove (absg s g) c (buf_key key nkey)) c' (entry_of (f new))) c fl)
          \<and> conf_of s6 = conf_of s))"
proof -
  note I = inv_heldD [OF i]
  have an: "a \<noteq> n" using held_not_listed(1) [OF I(1), of n c] a by blast
  obtain s1 s2 g2 where r: "assoc_delete s key nkey = Some s1" "item_unlink s1 a = Some s2"
      "inv_held s2 g2 (insert a {n})" "g_lru g2 = (g_lru g)(c := remove1 a (g_lru g c))" "g_free g2 = g_free g"
      "in_table g2 = in_table g - {a}" "dat s2 = dat s" "calm s s2"
    using remove_step [OF i nk k a] by blast
  note C2 = calmD [OF r(8)]
  have tb: "tab s2 g2 (buf_key key nkey) = None" by (rule removed_tab [OF i k r(3,7,6)])
  have e2: "csize s2 n = Some (slab_size (slabs s2 ! c'))" "clsid_at s2 n = Some c'" "c' < length (slabs s2)"
    using it csize_dat [OF r(7)] clsid_at_dat [OF r(7)] conf_of_nth(1) [OF C2(1) c'] C2(5) c'
    by (simp_all add: clsid_at_Some)
  define b where "b = slot_of (nbuckets (attrs s2)) (buf_key key nkey)"
  have nD: "n \<in> insert a {n}" by simp
  obtain s3 s4 g4 where en: "assoc_insert s2 key nkey n = Some s3" "item_link s3 n = Some s4"
      "layout s4 g4 (insert a {n} - {n})" "g_bkt g4 = (g_bkt g2)(b := n # g_bkt g2 b)"
      "g_lru g4 = (g_lru g2)(c' := n # g_lru g2 c')" "g_free g4 = g_free g2" "dat s4 = dat s2"
      "nitems (attrs s4) = Suc (nitems (attrs s2))" "calm s2 s4"
    using enroll_step [OF r(3) nk b_def nD e2] by blast
  have dat4: "dat s4 = dat s" using en(7) r(7) by simp
  obtain old0 where old0: "heap s a = Some old0" "good_item (slabs s) c old0"
      "it_nkey old0 + it_nval old0 \<le> length (it_end old0)" "entry_at s a = entry_of old0"
      "sizeof_item + length (it_end old0) = slab_size (slabs s ! c)"
    using inv_held_heap [OF i a] by blast
  obtain old where old: "heap s4 a = Some old" "it_clsid old = it_clsid old0" "it_flags old = it_flags old0"
      "it_key old = it_key old0" "it_nkey old = it_nkey old0" "it_val old = it_val old0" "it_nval old = it_nval old0"
      "it_end old = it_end old0"
    using dat_heapE [OF fun_cong [OF dat4, of a] old0(1)] .
  obtain new where new: "heap s4 n = Some new" "it_clsid new = it_clsid it" "it_flags new = it_flags it"
      "it_key new = it_key it" "it_nkey new = it_nkey it" "it_val new = it_val it" "it_nval new = it_nval it"
      "it_end new = it_end it"
    using dat_heapE [OF fun_cong [OF dat4, of n] it(1)] .
  have cb: "c < length (slabs s)" using layout_class(1) [OF I(1), of a c] a by simp
  have fin: "\<exists>s6. item_free (upd_item (upd_item s4 a (it_flags_update (\<lambda>_. fl))) n f) a = Some s6
      \<and> implements s6 (a_release (a_push (a_remove (absg s g) c (buf_key key nkey)) c' (entry_of (f new))) c fl)
      \<and> conf_of s6 = conf_of s"
    if f: "data_write f" "length (it_end (f new)) = length (it_end new)" "good_item (slabs s) c' (f new)"
      "e_key (entry_of (f new)) = buf_key key nkey" for f
  proof -
    define s5 where "s5 = upd_item s4 a (it_flags_update (\<lambda>_. fl))"
    define s6 where "s6 = upd_item s5 n f"
    have ad: "a \<in> dom (heap s4)" using old(1) by blast
    have dw: "data_write (it_flags_update (\<lambda>_. fl))" by (simp add: data_write_def)
    have len: "length (it_end (it_flags_update (\<lambda>_. fl) x)) = length (it_end x)" for x :: item by simp
    note w = write_step [OF en(3) ad dw len, folded s5_def]
    have c5: "calm s2 s5" "csize s5 = csize s2" "nitems (attrs s5) = Suc (nitems (attrs s2))"
      using calm_trans [OF en(9) w(5)] w(6) csize_dat [OF en(7)] w(4) en(8) by simp_all
    have oth: "dat s5 x = dat s2 x" if "x \<notin> insert a {n}" for x
      using that w(3) en(7) by simp
    have new5: "heap s5 n = Some new" using new(1) an by (simp add: s5_def heap_upd_other)
    have gd: "good_item (slabs s2) c' (f new)" using f(3) good_item_cong [OF C2(6)] by simp
    note fi = fill_inv [OF r(3) nD w(2) c5 oth en(4-6) tb b_def new5 f(1,2) gd f(4), folded s6_def]
    have D: "insert a {n} - {n} = {a}" using an by blast
    have i6: "inv_held s6 g4 {a}" using fi(1) unfolding D .
    define z where "z = (\<lambda>x::item. x\<lparr>it_next := 0, it_prev := 0, it_hnext := 0\<rparr>)"
    have da: "dat s6 a = Some ((z old0)\<lparr>it_flags := fl\<rparr>)"
      using fi(4) an w(3) dat4 old0(1) by (simp add: dat_def z_def)
    note C6 = calmD [OF fi(3)]
    have cf6: "conf_of s6 = conf_of s" using C6(1) C2(1) by simp
    have "csize s6 a = Some (slab_size (slabs s6 ! c))"
      using da old0(5) conf_of_nth(1) [OF cf6 cb] by (simp add: csize_def z_def)
    moreover have "good_item (slabs s6) c ((z old0)\<lparr>it_flags := fl\<rparr>)"
      using old0(2) good_item_cong [of "slabs s6" "slabs s"] conf_ofD(4) [OF cf6] by (simp add: good_item_def z_def)
    ultimately obtain s7 where s7: "item_free s6 a = Some s7" "inv_held s7 (free_upd g4 c (a # g_free g4 c)) ({a} - {a})"
        "dat s7 = dat s6" "calm s6 s7"
      using free_held [OF i6 singletonI _ da] by blast
    define g7 where "g7 = free_upd g4 c (a # g_free g4 c)"
    have "absg s7 g7 = a_release (absg s6 g4) c fl"
    proof (rule astore_eqI)
      have "flags_at s7 a = fl" using da s7(3) by (simp add: flags_at_def)
      then show "a_free (absg s7 g7) d = a_free (a_release (absg s6 g4) c fl) d" for d
        using entry_at_dat(2) [OF s7(3)] by (simp add: a_release_def g7_def)
    qed (use entry_at_dat [OF s7(3)] calmD(2) [OF s7(4)] in \<open>simp_all add: a_release_def g7_def\<close>)
    moreover have "absg s2 g2 = a_remove (absg s g) c (buf_key key nkey)"
    proof (rule astore_eqI)
      have "e_key (entry_at s a) = buf_key key nkey"
        using entry_key [OF i a] k tab_eq_Some [OF I(2), of "buf_key key nkey" a] by simp
      then show "a_lru (absg s2 g2) d = a_lru (a_remove (absg s g) c (buf_key key nkey)) d" for d
        using without_remove1 [OF i a] entry_at_dat [OF r(7)] by (simp add: a_remove_def r(4))
    qed (use entry_at_dat [OF r(7)] C2(2) in \<open>simp_all add: a_remove_def r(5)\<close>)
    ultimately have "absg s7 g7 = a_release (a_push (a_remove (absg s g) c (buf_key key nkey)) c' (entry_of (f new))) c fl"
      using fi(2) by simp
    moreover have "inv_held s7 g7 {}" using s7(2) by (simp add: g7_def)
    ultimately show ?thesis
      using s7(1) calmD(1) [OF s7(4)] cf6 by (auto simp: s6_def s5_def intro: implementsI)
  qed
  have "it_val old + it_nval old \<le> length (it_end old)"
    using old0(2,3) old(6-8) by (simp add: good_item_def)
  moreover have "entry_of old = entry_at s a" using old0(4) old by (simp add: entry_of_def)
  moreover have "it_nval old = length (e_val (entry_at s a))"
    using entry_nkey(2) [OF old0(3,2)] old0(4) old(7) by simp
  ultimately show ?thesis
    using r(1,2) en(1,2) old(1) new fin by blast
qed

text \<open>
  The moving branch with any joined value \<open>v'\<close>: what the allocation and the steps up to
  \<open>item->flags = flags\<close> give, and what freeing the old item behind the writes gives.
\<close>

lemma grow_move:
  assumes i: "inv_held s g {}" and nk: "nkey \<le> length (buf_bytes key)" and K: "K = buf_key key nkey"
    and k: "tab s g K = Some a" and a: "a \<in> set (g_lru g c)"
    and small: "sizeof_item + nkey + length v' < 2 ^ 64" and ok: "size_ok (conf_of s) (size_for nkey (length v'))"
    and c': "class_for (conf_of s) (size_for nkey (length v')) = Some c'" "c \<noteq> c'"
  shows "case a_take (conf_of s) c' (absg s g) of
      None \<Rightarrow> \<exists>s0. item_alloc s nkey (length v') = Some (0, s0) \<and> implements s0 (absg s g) \<and> conf_of s0 = conf_of s
    | Some (stale, A) \<Rightarrow> \<exists>n s0 s1 s2 s3 s4 s5 old new. item_alloc s nkey (length v') = Some (n, s0) \<and> n \<noteq> 0 \<and> a \<noteq> n
        \<and> assoc_delete s0 key nkey = Some s1 \<and> item_unlink s1 a = Some s2
        \<and> assoc_insert s2 key nkey n = Some s3 \<and> item_link s3 n = Some s4 \<and> set_flags s4 a fl = Some s5
        \<and> heap s5 a = Some old \<and> it_val old + it_nval old \<le> length (it_end old)
        \<and> it_nval old = length (e_val (entry_at s a)) \<and> e_val (entry_of old) = e_val (entry_at s a)
        \<and> heap s5 n = Some new \<and> it_key new = 0 \<and> it_val new = nkey \<and> nkey + length v' \<le> length (it_end new)
        \<and> (\<exists>s6. item_free (upd_item s5 n (it_end_update (\<lambda>_. K @ v' @ drop (nkey + length v') (it_end new)))) a = Some s6
            \<and> implements s6 (a_release (a_push (a_remove A c K) c' \<lparr>e_key = K, e_val = v', e_flags = stale\<rparr>) c fl)
            \<and> conf_of s6 = conf_of s)"
proof -
  have al: "store_inv s g" using i by (simp add: store_inv_def)
  note spec = alloc_spec [OF al small ok c'(1)] and C = class_forD [OF c'(1) small] and I = inv_heldD [OF i]
  show ?thesis
  proof (cases "a_take (conf_of s) c' (absg s g)")
    case None
    then show ?thesis using spec by (auto simp: store_inv_def intro: implementsI)
  next
    case (Some p)
    then obtain stale A where p: "a_take (conf_of s) c' (absg s g) = Some (stale, A)" by (cases p) simp
    then obtain n s0 g0 it where al2: "item_alloc s nkey (length v') = Some (n, s0)" "taken s g c' n s0 g0"
        "A = absg s0 g0" "heap s0 n = Some it" "it_flags it = stale" "it_clsid it = c'" "it_key it = 0"
        "it_nkey it = nkey" "it_val it = nkey" "it_nval it = length v'"
        "sizeof_item + length (it_end it) = slab_size (slabs s ! c')"
      using spec by auto
    have t: "n \<noteq> 0" "inv_held s0 g0 {n}" "conf_of s0 = conf_of s" "csize s0 n = Some (slab_size (slabs s ! c'))"
      "g_lru g0 = (g_lru g)(c' := remove1 n (g_lru g c'))" "\<forall>b \<in> in_lru g0. dat s0 b = dat s b"
      using al2(2) by (simp_all add: taken_def)
    have a0: "a \<in> set (g_lru g0 c)" using a c'(2) by (simp add: t(5))
    have d0: "dat s0 a = dat s a" using t(6) in_lruI [OF a0] by blast
    have e0: "entry_at s0 a = entry_at s a" by (rule entry_at_cong [OF d0])
    have "key_at s a = Some K" using k tab_eq_Some [OF I(2)] by blast
    then have "key_at s0 a = Some K" using d0 by (simp add: key_at_def)
    moreover have "a \<in> in_table g0" using in_lruI [OF a0] inv_heldD(3) [OF t(2)] by simp
    ultimately have k0: "tab s0 g0 (buf_key key nkey) = Some a"
      using tab_eq_Some [OF inv_heldD(2) [OF t(2)]] K by blast
    have z0: "csize s0 n = Some (slab_size (slabs s0 ! c'))" "c' < length (slabs s0)"
      using t(4) conf_of_nth(1) [OF t(3) C(1)] conf_ofD(3) [OF t(3)] C(1) by simp_all
    have an: "a \<noteq> n" using held_not_listed(1) [OF inv_heldD(1) [OF t(2)], of n c] a0 by blast
    from move_item [OF t(2) nk k0 a0 al2(4,6) z0, of fl] obtain s1 s2 s3 s4 old new where m:
      "assoc_delete s0 key nkey = Some s1" "item_unlink s1 a = Some s2"
      "assoc_insert s2 key nkey n = Some s3" "item_link s3 n = Some s4"
      "heap s4 a = Some old" "entry_of old = entry_at s0 a" "it_val old + it_nval old \<le> length (it_end old)"
      "it_nval old = length (e_val (entry_at s0 a))"
      "heap s4 n = Some new" "it_key new = it_key it" "it_nkey new = it_nkey it" "it_val new = it_val it"
      "it_nval new = it_nval it" "it_flags new = it_flags it" "it_end new = it_end it" and fin:
      "\<forall>f. data_write f \<longrightarrow> length (it_end (f new)) = length (it_end new) \<longrightarrow> good_item (slabs s0) c' (f new) \<longrightarrow>
        e_key (entry_of (f new)) = buf_key key nkey \<longrightarrow>
        (\<exists>s6. item_free (upd_item (upd_item s4 a (it_flags_update (\<lambda>_. fl))) n f) a = Some s6
          \<and> implements s6 (a_release (a_push (a_remove (absg s0 g0) c (buf_key key nkey)) c' (entry_of (f new))) c fl)
          \<and> conf_of s6 = conf_of s0)" by blast
    define s5 where "s5 = upd_item s4 a (it_flags_update (\<lambda>_. fl))"
    have s5: "set_flags s4 a fl = Some s5" "heap s5 a = Some (it_flags_update (\<lambda>_. fl) old)" "heap s5 n = Some new"
      using m(5,9) an by (simp_all add: s5_def set_flags_in heap_upd_item)
    have klen: "length K = nkey" using nk by (simp add: K buf_key_def)
    have room: "nkey + length v' \<le> length (it_end new)" using m(15) al2(11) C(2) by simp
    define f :: "item \<Rightarrow> item" where "f = it_end_update (\<lambda>_. K @ v' @ drop (nkey + length v') (it_end new))"
    have fw: "data_write f" "length (it_end (f new)) = length (it_end new)"
      using room klen by (simp_all add: f_def data_write_def)
    have gd: "good_item (slabs s0) c' (f new)"
      using m(10-13) al2(7-10) small C(3) clsid_loop_cong [OF conf_ofD(4) [OF t(3)]] by (simp add: good_item_def f_def)
    have en: "entry_of (f new) = \<lparr>e_key = K, e_val = v', e_flags = stale\<rparr>"
      using m(10-14) al2(5,7-10) klen by (simp add: entry_of_def f_def)
    have ke: "e_key (entry_of (f new)) = buf_key key nkey" using en K by simp
    obtain s6 where s6: "item_free (upd_item s5 n f) a = Some s6"
        "implements s6 (a_release (a_push (a_remove A c K) c' \<lparr>e_key = K, e_val = v', e_flags = stale\<rparr>) c fl)"
        "conf_of s6 = conf_of s"
      using fin [rule_format, OF fw gd ke] en K al2(3) t(3) by (auto simp: s5_def)
    have ev: "e_val (entry_of (it_flags_update (\<lambda>_. fl) old)) = e_val (entry_at s a)"
    proof -
      have "e_val (entry_of (it_flags_update (\<lambda>_. fl) old)) = e_val (entry_of old)" by (simp add: entry_of_def)
      then show ?thesis using m(6) e0 by simp
    qed
    have s6x: "\<exists>s6. item_free (upd_item s5 n (it_end_update (\<lambda>_. K @ v' @ drop (nkey + length v') (it_end new)))) a = Some s6
        \<and> implements s6 (a_release (a_push (a_remove A c K) c' \<lparr>e_key = K, e_val = v', e_flags = stale\<rparr>) c fl)
        \<and> conf_of s6 = conf_of s"
      using s6 unfolding f_def by blast
    show ?thesis
      unfolding p option.case prod.case
      by (rule exI [of _ n], rule exI [of _ s0], rule exI [of _ s1], rule exI [of _ s2], rule exI [of _ s3],
          rule exI [of _ s4], rule exI [of _ s5], rule exI [of _ "it_flags_update (\<lambda>_. fl) old"], rule exI [of _ new])
        (use al2(1) t(1) an m(1-4,7,8,10,12) al2(7,9) e0 ev s5 room s6x in simp)
  qed
qed

section \<open>The interface of a join\<close>

text \<open>
  Prepend and append are one function up to the writes that put the joined value in place and
  into a new item. A \<open>value_join\<close> promises what these writes leave behind the key.
\<close>

definition grow_with ::
  "(byte list \<Rightarrow> nat \<Rightarrow> shmc \<Rightarrow> addr \<Rightarrow> nat \<Rightarrow> shmc option)
   \<Rightarrow> (byte list \<Rightarrow> nat \<Rightarrow> shmc \<Rightarrow> addr \<Rightarrow> addr \<Rightarrow> nat \<Rightarrow> shmc option)
   \<Rightarrow> shmc \<Rightarrow> buf \<Rightarrow> nat \<Rightarrow> byte list \<Rightarrow> nat \<Rightarrow> u32 \<Rightarrow> (shmc_rc \<times> shmc) option" where
  "grow_with place move s key nkey val nval flags = do {
     (a, s) \<leftarrow> assoc_find s key nkey;
     if a = 0 then Some (SHMC_NOTFOUND, s)
     else do {
       it \<leftarrow> get_item s a;
       cid \<leftarrow> item_clsid s nkey (size_add nval (it_nval it));
       if it_clsid it = cid then do {
         s \<leftarrow> item_relink s a;
         s \<leftarrow> set_flags s a flags;
         s \<leftarrow> place val nval s a (it_nval it);
         s \<leftarrow> set_nval s a (size_add (it_nval it) nval);
         Some (SHMC_OK, s)
       } else if \<not> item_size_ok s nkey (size_add nval (it_nval it)) then Some (SHMC_ESIZE, s)
       else do {
         (n, s) \<leftarrow> item_alloc s nkey (size_add nval (it_nval it));
         if n = 0 then Some (SHMC_NOMEMORY, s)
         else do {
           s \<leftarrow> assoc_delete s key nkey;
           s \<leftarrow> item_unlink s a;
           s \<leftarrow> assoc_insert s key nkey n;
           s \<leftarrow> item_link s n;
           s \<leftarrow> set_flags s a flags;
           it \<leftarrow> get_item s a;
           s \<leftarrow> copy_key s n key nkey;
           s \<leftarrow> move val nval s n a (it_nval it);
           s \<leftarrow> item_free s a;
           Some (SHMC_OK, s)
         }
       }
     }
   }"

text \<open>Sizes of the joined value do not wrap around.\<close>

definition joins :: "conf \<Rightarrow> astore \<Rightarrow> byte list \<Rightarrow> nat \<Rightarrow> bool" where
  "joins cf A k nval \<longleftrightarrow> (case a_find cf A k of None \<Rightarrow> True
     | Some (c, e) \<Rightarrow> sizeof_item + length k + nval + length (e_val e) < 2 ^ 64)"

locale value_join =
  fixes place :: "byte list \<Rightarrow> nat \<Rightarrow> shmc \<Rightarrow> addr \<Rightarrow> nat \<Rightarrow> shmc option"
    and move :: "byte list \<Rightarrow> nat \<Rightarrow> shmc \<Rightarrow> addr \<Rightarrow> addr \<Rightarrow> nat \<Rightarrow> shmc option"
    and join :: "byte list \<Rightarrow> byte list \<Rightarrow> byte list"
  assumes join_length: "length (join v w) = length v + length w"
    and place_law: "heap s a = Some it \<Longrightarrow> nval \<le> length val \<Longrightarrow> it_nval it = length w \<Longrightarrow>
      take (length w) (drop (it_val it) (it_end it)) = w \<Longrightarrow> it_val it + (nval + length w) \<le> length (it_end it) \<Longrightarrow>
      place val nval s a (length w) = Some (upd_item s a (it_end_update (\<lambda>_. take (it_val it) (it_end it)
        @ join (take nval val) w @ drop (it_val it + (nval + length w)) (it_end it))))"
    and move_law: "heap s n = Some it \<Longrightarrow> heap s a = Some old \<Longrightarrow> a \<noteq> n \<Longrightarrow> nval \<le> length val \<Longrightarrow>
      it_val old + it_nval old \<le> length (it_end old) \<Longrightarrow> it_nval old = length w \<Longrightarrow> e_val (entry_of old) = w \<Longrightarrow>
      it_val it + (nval + length w) \<le> length (it_end it) \<Longrightarrow>
      move val nval s n a (length w) = Some (upd_item s n (it_end_update (\<lambda>_. take (it_val it) (it_end it)
        @ join (take nval val) w @ drop (it_val it + (nval + length w)) (it_end it))))"
begin

text \<open>The branch that stays in its class.\<close>

lemma in_place:
  assumes i: "inv_held s g {}" and a: "a \<in> set (g_lru g c)" and k: "e_key (entry_at s a) = k"
    and w: "w = e_val (entry_at s a)" and v: "nval \<le> length val" and v': "v' = join (take nval val) w"
    and small: "sizeof_item + length k + length v' < 2 ^ 64"
    and c: "class_for (conf_of s) (size_for (length k) (length v')) = Some c"
  shows "\<exists>s'. do { s \<leftarrow> item_relink s a; s \<leftarrow> set_flags s a flags; s \<leftarrow> place val nval s a (length w);
      s \<leftarrow> set_nval s a (length v'); Some (SHMC_OK, s) } = Some (SHMC_OK, s')
    \<and> implements s' (a_touch (absg s g) c \<lparr>e_key = k, e_val = v', e_flags = flags\<rparr>) \<and> conf_of s' = conf_of s"
proof -
  obtain s1 it where r: "item_relink s a = Some s1" "heap s1 a = Some it" "it_key it = 0" "it_val it = length k"
      "entry_at s a = entry_of it" "length k + it_nval it \<le> length (it_end it)"
      "length k + length v' \<le> length (it_end it)" "k = take (length k) (it_end it)" and fin:
      "\<forall>e. length e = length (it_end it) \<longrightarrow> take (length k) e = k \<longrightarrow> take (length v') (drop (length k) e) = v' \<longrightarrow>
        implements (upd_item s1 a (\<lambda>x. x\<lparr>it_flags := flags, it_end := e, it_nval := length v'\<rparr>))
          (a_touch (absg s g) c \<lparr>e_key = k, e_val = v', e_flags = flags\<rparr>)
        \<and> conf_of (upd_item s1 a (\<lambda>x. x\<lparr>it_flags := flags, it_end := e, it_nval := length v'\<rparr>)) = conf_of s"
    using rewrite_refines [OF i a k small c, of flags] by blast
  have lv: "length v' = nval + length w" using v by (simp add: v' join_length)
  have w2: "take (it_nval it) (drop (length k) (it_end it)) = w" "it_nval it = length w"
    using r(4,5,6) by (simp_all add: w entry_of_def)
  define e where "e = k @ v' @ drop (length k + (nval + length w)) (it_end it)"
  have ec: "length e = length (it_end it)" "take (length k) e = k" "take (length v') (drop (length k) e) = v'"
    using r(7) by (simp_all add: e_def lv)
  define F :: "item \<Rightarrow> item" where "F = (\<lambda>x. x\<lparr>it_flags := flags, it_end := e, it_nval := length v'\<rparr>)"
  have h1: "heap (upd_item s1 a (it_flags_update (\<lambda>_. flags))) a = Some (it\<lparr>it_flags := flags\<rparr>)"
    using r(2) by (simp add: heap_upd_same)
  have pl: "place val nval (upd_item s1 a (it_flags_update (\<lambda>_. flags))) a (length w)
      = Some (upd_item (upd_item s1 a (it_flags_update (\<lambda>_. flags))) a (it_end_update (\<lambda>_. e)))"
  proof -
    have "length k + (nval + length w) \<le> length (it_end it)" using r(7) lv by simp
    then show ?thesis using place_law [OF h1 v, of w] w2 r(4,8) by (simp add: e_def v')
  qed
  have "do { s \<leftarrow> set_flags s1 a flags; s \<leftarrow> place val nval s a (length w); s \<leftarrow> set_nval s a (length v'); Some (SHMC_OK, s) }
      = Some (SHMC_OK, upd_item s1 a F)"
    using pl by (simp add: set_flags_in [OF r(2)] set_nval_in [OF heap_upd_same [OF r(2)]]
        upd_item_upd_item o_def F_def)
  moreover have "implements (upd_item s1 a F) (a_touch (absg s g) c \<lparr>e_key = k, e_val = v', e_flags = flags\<rparr>)
      \<and> conf_of (upd_item s1 a F) = conf_of s"
    using fin ec unfolding F_def by metis
  ultimately show ?thesis using r(1) by simp
qed

text \<open>The branch that moves the item.\<close>

lemma moved:
  assumes i: "inv_held s g {}" and nk: "nkey \<le> length (buf_bytes key)" and K: "K = buf_key key nkey"
    and k: "tab s g K = Some a" and a: "a \<in> set (g_lru g c)"
    and w: "w = e_val (entry_at s a)" and v: "nval \<le> length val" and v': "v' = join (take nval val) w"
    and small: "sizeof_item + nkey + length v' < 2 ^ 64" and ok: "size_ok (conf_of s) (size_for nkey (length v'))"
    and c': "class_for (conf_of s) (size_for nkey (length v')) = Some c'" "c \<noteq> c'"
  shows "refines (do { (n, s) \<leftarrow> item_alloc s nkey (length v');
      if n = 0 then Some (SHMC_NOMEMORY, s)
      else do {
        s \<leftarrow> assoc_delete s key nkey; s \<leftarrow> item_unlink s a; s \<leftarrow> assoc_insert s key nkey n; s \<leftarrow> item_link s n;
        s \<leftarrow> set_flags s a flags; it \<leftarrow> get_item s a; s \<leftarrow> copy_key s n key nkey;
        s \<leftarrow> move val nval s n a (it_nval it); s \<leftarrow> item_free s a; Some (SHMC_OK, s) } }) (conf_of s)
    (case a_take (conf_of s) c' (absg s g) of
       None \<Rightarrow> Some (SHMC_NOMEMORY, absg s g)
     | Some (stale, A) \<Rightarrow> Some (SHMC_OK, a_release (a_push (a_remove A c K) c'
         \<lparr>e_key = K, e_val = v', e_flags = stale\<rparr>) c flags))"
proof -
  note gm = grow_move [OF i nk K k a small ok c', of flags]
  have lv: "length v' = nval + length w" using v by (simp add: v' join_length)
  show ?thesis
  proof (cases "a_take (conf_of s) c' (absg s g)")
    case None
    then show ?thesis using gm by auto
  next
    case (Some p)
    then obtain stale A where p: "a_take (conf_of s) c' (absg s g) = Some (stale, A)" by (cases p) simp
    then obtain m t0 t1 t2 t3 t4 t5 t6 old new where q: "item_alloc s nkey (length v') = Some (m, t0)"
        "m \<noteq> 0" "a \<noteq> m" "assoc_delete t0 key nkey = Some t1" "item_unlink t1 a = Some t2"
        "assoc_insert t2 key nkey m = Some t3" "item_link t3 m = Some t4" "set_flags t4 a flags = Some t5"
        "heap t5 a = Some old" "it_val old + it_nval old \<le> length (it_end old)" "it_nval old = length w"
        "e_val (entry_of old) = w" "heap t5 m = Some new" "it_key new = 0" "it_val new = nkey"
        "nkey + length v' \<le> length (it_end new)"
        "item_free (upd_item t5 m (it_end_update (\<lambda>_. K @ v' @ drop (nkey + length v') (it_end new)))) a = Some t6"
        "implements t6 (a_release (a_push (a_remove A c K) c' \<lparr>e_key = K, e_val = v', e_flags = stale\<rparr>) c flags)"
        "conf_of t6 = conf_of s"
      using gm by (auto simp: w)
    have kl: "length K = nkey" using nk by (simp add: K buf_key_def)
    define e1 where "e1 = blit (it_end new) 0 K"
    have e1: "e1 = K @ drop nkey (it_end new)" by (simp add: e1_def blit_def kl)
    define t where "t = upd_item t5 m (it_end_update (\<lambda>_. e1))"
    have ck: "copy_key t5 m key nkey = Some t"
      using copy_key_in [OF q(13) nk] q(14,16) by (simp add: t_def e1_def K)
    have ht: "heap t m = Some (new\<lparr>it_end := e1\<rparr>)" "heap t a = Some old"
      using q(3,9,13) by (simp_all add: t_def heap_upd_item)
    have room: "it_val (new\<lparr>it_end := e1\<rparr>) + (nval + length w) \<le> length (it_end (new\<lparr>it_end := e1\<rparr>))"
      using q(15,16) kl by (simp add: e1 lv)
    have "move val nval t m a (length w)
        = Some (upd_item t m (it_end_update (\<lambda>_. K @ v' @ drop (nkey + length v') (it_end new))))"
      using move_law [OF ht q(3) v q(10,11,12) room] kl q(15)
      by (simp add: e1 v' [symmetric] lv add.commute)
    then have mv: "move val nval t m a (length w)
        = Some (upd_item t5 m (it_end_update (\<lambda>_. K @ v' @ drop (nkey + length v') (it_end new))))"
      by (simp add: t_def upd_item_upd_item o_def)
    show ?thesis
      using q(1-9,11,17-19) ck mv p by simp
  qed
qed

lemma grow_refines:
  assumes A: "implements s A" and n: "nkey \<le> length (buf_bytes key)" and v: "nval \<le> length val"
    and small: "joins (conf_of s) A (buf_key key nkey) nval"
  shows "refines (grow_with place move s key nkey val nval flags) (conf_of s)
    (a_grow (conf_of s) A (buf_key key nkey) (join (take nval val)) flags)"
proof -
  define k where "k = buf_key key nkey"
  have kl: "length k = nkey" using n by (simp add: k_def buf_key_def)
  obtain g where g: "inv_held s g {}" "A = absg s g" using implementsE [OF A] .
  from g(1) n k_def show ?thesis
  proof (cases rule: find_cases)
    case (absent s1)
    then show ?thesis using implementsI [OF absent(2,3)] g(2) by (simp add: grow_with_def a_grow_def k_def)
  next
    case (present s1 a c)
    define w where "w = e_val (entry_at s1 a)"
    define v' where "v' = join (take nval val) w"
    have lv: "length v' = nval + length w" using v by (simp add: v'_def join_length)
    have sm: "sizeof_item + nkey + length v' < 2 ^ 64"
      using small present(9) g(2) kl by (simp add: joins_def w_def lv flip: k_def)
    obtain it where it: "heap s1 a = Some it" "good_item (slabs s1) c it" "it_clsid it = c"
        "it_nkey it + it_nval it \<le> length (it_end it)" "entry_at s1 a = entry_of it"
      using inv_held_heap [OF present(3,7)] by blast
    have nv: "it_nval it = length w" using entry_nkey(2) [OF it(4,2)] it(5) by (simp add: w_def)
    have sa: "size_add nval (length w) = length v'" "size_add (length w) nval = length v'"
      using sm by (simp_all add: lv)
    have cls: "item_clsid s1 nkey (length v') = class_for (conf_of s) (size_for nkey (length v'))"
      "item_size_ok s1 nkey (length v') = size_ok (conf_of s) (size_for nkey (length v'))"
      using item_clsid_class_for [OF sm, of s1] item_size_ok_size_ok [OF sm, of s1] present(5) by simp_all
    note go = present(1,2) it(1,3) nv sa cls
    have as: "a_grow (conf_of s) A k (join (take nval val)) flags = do {
        c' \<leftarrow> class_for (conf_of s) (size_for nkey (length v'));
        if c = c' then Some (SHMC_OK, a_touch (absg s1 g) c \<lparr>e_key = k, e_val = v', e_flags = flags\<rparr>)
        else if \<not> size_ok (conf_of s) (size_for nkey (length v')) then Some (SHMC_ESIZE, absg s1 g)
        else (case a_take (conf_of s) c' (absg s1 g) of
            None \<Rightarrow> Some (SHMC_NOMEMORY, absg s1 g)
          | Some (stale, A) \<Rightarrow> Some (SHMC_OK, a_release (a_push (a_remove A c k) c'
              \<lparr>e_key = k, e_val = v', e_flags = stale\<rparr>) c flags)) }"
      using present(4,9) g(2)
      by (simp add: a_grow_def Let_def kl w_def [symmetric] v'_def [symmetric] cong: if_cong option.case_cong)
    consider (undef) "class_for (conf_of s) (size_for nkey (length v')) = None"
      | (same) "class_for (conf_of s) (size_for nkey (length v')) = Some c"
      | (big) c' where "class_for (conf_of s) (size_for nkey (length v')) = Some c'" "c \<noteq> c'"
          "\<not> size_ok (conf_of s) (size_for nkey (length v'))"
      | (move) c' where "class_for (conf_of s) (size_for nkey (length v')) = Some c'" "c \<noteq> c'"
          "size_ok (conf_of s) (size_for nkey (length v'))"
      by fastforce
    then show ?thesis
    proof cases
      case undef
      then show ?thesis using as go by (simp add: grow_with_def k_def)
    next
      case same
      have "sizeof_item + length k + length v' < 2 ^ 64"
        "class_for (conf_of s1) (size_for (length k) (length v')) = Some c"
        using sm same present(5) kl by simp_all
      note ip = in_place [OF present(3,7,8) w_def v v'_def this, of flags]
      show ?thesis using ip as go same present(5) by (auto simp: grow_with_def k_def)
    next
      case big
      then show ?thesis
        using as go implementsI [OF present(3) refl] present(5) by (simp add: grow_with_def k_def)
    next
      case move
      have "class_for (conf_of s1) (size_for nkey (length v')) = Some c'"
        "size_ok (conf_of s1) (size_for nkey (length v'))" using move present(5) by simp_all
      note mv = moved [OF present(3) n k_def present(6,7) w_def v v'_def sm this(2,1) move(2), of flags]
      show ?thesis using mv as go move present(5) by (simp add: grow_with_def k_def cong: if_cong)
    qed
  qed
qed

end

section \<open>Prepend and append\<close>

definition place_prepend :: "byte list \<Rightarrow> nat \<Rightarrow> shmc \<Rightarrow> addr \<Rightarrow> nat \<Rightarrow> shmc option" where
  "place_prepend val nval s a n = do { old \<leftarrow> load_val s a; s \<leftarrow> copy_val s a nval old n; copy_val s a 0 val nval }"

definition move_prepend :: "byte list \<Rightarrow> nat \<Rightarrow> shmc \<Rightarrow> addr \<Rightarrow> addr \<Rightarrow> nat \<Rightarrow> shmc option" where
  "move_prepend val nval s n a m = do { s \<leftarrow> copy_val s n 0 val nval; old \<leftarrow> load_val s a; copy_val s n nval old m }"

definition place_append :: "byte list \<Rightarrow> nat \<Rightarrow> shmc \<Rightarrow> addr \<Rightarrow> nat \<Rightarrow> shmc option" where
  "place_append val nval s a n = copy_val s a n val nval"

definition move_append :: "byte list \<Rightarrow> nat \<Rightarrow> shmc \<Rightarrow> addr \<Rightarrow> addr \<Rightarrow> nat \<Rightarrow> shmc option" where
  "move_append val nval s n a m = do { old \<leftarrow> load_val s a; s \<leftarrow> copy_val s n 0 old m; copy_val s n m val nval }"

lemma prepend_grow_with: "shmc_prepend_nolock = grow_with place_prepend move_prepend"
  by (intro ext) (simp add: shmc_prepend_nolock_def grow_with_def place_prepend_def move_prepend_def cong: if_cong)

lemma append_grow_with: "shmc_append_nolock = grow_with place_append move_append"
  by (intro ext) (simp add: shmc_append_nolock_def grow_with_def place_append_def move_append_def cong: if_cong)

lemma blit_prepend:
  "n + (length V + length W) \<le> length e \<Longrightarrow>
     blit (blit e (n + length V) W) n V = take n e @ V @ W @ drop (n + (length V + length W)) e"
  by (simp add: blit_def ac_simps)

lemma blit_append:
  assumes "n + (length V + length W) \<le> length e" and "take (length W) (drop n e) = W"
  shows "blit e (n + length W) V = take n e @ W @ V @ drop (n + (length V + length W)) e"
  using assms by (simp add: blit_def take_add ac_simps)

lemma blit_both:
  "n + (length V + length W) \<le> length e \<Longrightarrow>
     blit (blit e n V) (n + length V) W = take n e @ V @ W @ drop (n + (length V + length W)) e"
  by (simp add: blit_def ac_simps)

interpretation prepend: value_join place_prepend move_prepend "\<lambda>v w. v @ w"
proof unfold_locales
  show "place_prepend val nval s a (length w) = Some (upd_item s a (it_end_update (\<lambda>_. take (it_val it) (it_end it)
      @ (take nval val @ w) @ drop (it_val it + (nval + length w)) (it_end it))))"
    if h: "heap s a = Some it" "nval \<le> length val" "it_nval it = length w"
      "take (length w) (drop (it_val it) (it_end it)) = w" "it_val it + (nval + length w) \<le> length (it_end it)"
    for s a it nval and val w :: "byte list"
    using h blit_prepend [of "it_val it" "take nval val" w "it_end it"]
    by (simp add: place_prepend_def load_val_in [OF h(1)] copy_val_in [OF h(1)] copy_val_in [OF heap_upd_same [OF h(1)]]
        upd_item_upd_item o_def)
  show "move_prepend val nval s n a (length w) = Some (upd_item s n (it_end_update (\<lambda>_. take (it_val it) (it_end it)
      @ (take nval val @ w) @ drop (it_val it + (nval + length w)) (it_end it))))"
    if h: "heap s n = Some it" "heap s a = Some old" "a \<noteq> n" "nval \<le> length val"
      "it_val old + it_nval old \<le> length (it_end old)" "it_nval old = length w" "e_val (entry_of old) = w"
      "it_val it + (nval + length w) \<le> length (it_end it)"
    for s n it a old nval and val w :: "byte list"
  proof -
    have "load_val (upd_item s n f) a = Some w" for f
      using h by (simp add: load_val_def heap_upd_other entry_of_def)
    then show ?thesis
      using h blit_both [of "it_val it" "take nval val" w "it_end it"]
      by (simp add: move_prepend_def copy_val_in [OF h(1)] copy_val_in [OF heap_upd_same [OF h(1)]]
          upd_item_upd_item o_def)
  qed
qed simp

interpretation append: value_join place_append move_append "\<lambda>v w. w @ v"
proof unfold_locales
  show "place_append val nval s a (length w) = Some (upd_item s a (it_end_update (\<lambda>_. take (it_val it) (it_end it)
      @ (w @ take nval val) @ drop (it_val it + (nval + length w)) (it_end it))))"
    if h: "heap s a = Some it" "nval \<le> length val" "it_nval it = length w"
      "take (length w) (drop (it_val it) (it_end it)) = w" "it_val it + (nval + length w) \<le> length (it_end it)"
    for s a it nval and val w :: "byte list"
    using h blit_append [of "it_val it" "take nval val" w "it_end it"]
    by (simp add: place_append_def copy_val_in [OF h(1)])
  show "move_append val nval s n a (length w) = Some (upd_item s n (it_end_update (\<lambda>_. take (it_val it) (it_end it)
      @ (w @ take nval val) @ drop (it_val it + (nval + length w)) (it_end it))))"
    if h: "heap s n = Some it" "heap s a = Some old" "a \<noteq> n" "nval \<le> length val"
      "it_val old + it_nval old \<le> length (it_end old)" "it_nval old = length w" "e_val (entry_of old) = w"
      "it_val it + (nval + length w) \<le> length (it_end it)"
    for s n it a old nval and val w :: "byte list"
  proof -
    have "load_val s a = Some w" using h by (simp add: load_val_def entry_of_def)
    then show ?thesis
      using h blit_both [of "it_val it" w "take nval val" "it_end it"]
      by (simp add: move_append_def copy_val_in [OF h(1)] copy_val_in [OF heap_upd_same [OF h(1)]]
          upd_item_upd_item o_def ac_simps)
  qed
qed simp

lemma prepend_refines:
  assumes "implements s A" and "nkey \<le> length (buf_bytes key)" and "nval \<le> length val"
    and "joins (conf_of s) A (buf_key key nkey) nval"
  shows "refines (shmc_prepend_nolock s key nkey val nval flags) (conf_of s)
    (a_prepend (conf_of s) A (buf_key key nkey) (take nval val) flags)"
  using prepend.grow_refines [OF assms] by (simp add: prepend_grow_with a_prepend_def)

lemma append_refines:
  assumes "implements s A" and "nkey \<le> length (buf_bytes key)" and "nval \<le> length val"
    and "joins (conf_of s) A (buf_key key nkey) nval"
  shows "refines (shmc_append_nolock s key nkey val nval flags) (conf_of s)
    (a_append (conf_of s) A (buf_key key nkey) (take nval val) flags)"
  using append.grow_refines [OF assms] by (simp add: append_grow_with a_append_def)

end
