(* ===== verification/Counter_Refinement.thy ===== *)
theory Counter_Refinement
  imports Counter_Spec Grow_Refinement
begin

text \<open>
  \<open>shmc_arithmetic\<close> against its specification on abstract stores.
\<close>

section \<open>Specification\<close>

definition a_set_val :: "astore \<Rightarrow> nat \<Rightarrow> byte list \<Rightarrow> byte list \<Rightarrow> astore" where
  "a_set_val A c k v = set_lru A c (map (\<lambda>e. if e_key e = k then e\<lparr>e_val := v\<rparr> else e) (a_lru A c))"

text \<open>
  The last but one branch is the eviction of the old item by its own replacement: the result
  is reported, but the entry is gone.
\<close>

definition a_arith ::
  "conf \<Rightarrow> astore \<Rightarrow> byte list \<Rightarrow> u64 \<Rightarrow> bool \<Rightarrow> u32 option
   \<Rightarrow> (shmc_rc \<times> (u64 \<times> u32 option) option \<times> astore) option" where
  "a_arith cf A k val incr flags =
     (let t = size_for (length k) UINT64_SIZE in
      case a_find cf A k of
        None \<Rightarrow>
          if \<not> default_counter (cf_attr cf) then Some (SHMC_NOTFOUND, None, A)
          else if \<not> size_ok cf t then None
          else do {
            c \<leftarrow> class_for cf t;
            let n = number_after incr 0 val;
            let f = (case flags of None \<Rightarrow> 0 | Some f \<Rightarrow> f);
            (case a_take cf c A of
               None \<Rightarrow> Some (SHMC_NOMEMORY, None, A)
             | Some (stale, A') \<Rightarrow> Some (SHMC_OK, Some (n, map_option (\<lambda>_. f) flags),
                 a_push A' c \<lparr>e_key = k, e_val = counter_text n, e_flags = f\<rparr>))
          }
      | Some (c, e) \<Rightarrow>
          let n = number_after incr (counter_val (e_val e)) val in
          if length (e_val e) = UINT64_SIZE then
            Some (SHMC_OK, Some (n, map_option (\<lambda>_. e_flags e) flags), a_set_val A c k (over (e_val e) n))
          else if \<not> size_ok cf t then None
          else do {
            c' \<leftarrow> class_for cf t;
            let f = (case flags of None \<Rightarrow> e_flags e | Some f \<Rightarrow> f);
            (case a_take cf c' A of
               None \<Rightarrow> Some (SHMC_NOMEMORY, None, A)
             | Some (stale, A') \<Rightarrow>
                 if c' = c \<and> evicts cf c A \<and> e_key (last (a_lru A c)) = k then
                   Some (SHMC_OK, Some (n, map_option (\<lambda>_. e_flags e) flags), a_release A' c (e_flags e))
                 else
                   Some (SHMC_OK, Some (n, map_option (\<lambda>_. f) flags),
                     a_push (a_drop A' c e) c' \<lparr>e_key = k, e_val = counter_text n, e_flags = f\<rparr>))
          })"

definition refines3 ::
  "(shmc_rc \<times> 'o \<times> shmc) option \<Rightarrow> conf \<Rightarrow> (shmc_rc \<times> 'o \<times> astore) option \<Rightarrow> bool" where
  "refines3 r cf ar \<longleftrightarrow> (case ar of
     None \<Rightarrow> r = None
   | Some (rc, out, A) \<Rightarrow> \<exists>s. r = Some (rc, out, s) \<and> implements s A \<and> conf_of s = cf)"

lemma refines3_simps [simp]:
  "refines3 r cf None \<longleftrightarrow> r = None"
  "refines3 r cf (Some (rc, out, A)) \<longleftrightarrow> (\<exists>s. r = Some (rc, out, s) \<and> implements s A \<and> conf_of s = cf)"
  by (simp_all add: refines3_def)

section \<open>Reading and rewriting a counter\<close>

lemma safe_strtoull_val:
  assumes "it_val it + it_nval it \<le> length (it_end it)"
  shows "safe_strtoull (drop (it_val it) (it_end it)) (it_nval it) = Some (counter_val (e_val (entry_of it)))"
  using assms by (auto simp: safe_strtoull_def counter_val_loop entry_of_def Let_def UINT64_SIZE_def min_def not_less)

lemma over_length: "length v = UINT64_SIZE \<Longrightarrow> length (over v n) = UINT64_SIZE"
  using sprintf_u64_length [of n] by (simp add: over_sprintf)

lemma over_split:
  assumes "length (sprintf_u64 n) \<le> m" and "p + m \<le> length e"
  shows "take m (drop p (blit e p (sprintf_u64 n))) = over (take m (drop p e)) n"
  using assms by (simp add: over_sprintf blit_def min_def take_drop ac_simps)

text \<open>Writing the text over a value of 21 bytes, in place and without relinking.\<close>

lemma rewrite_counter:
  assumes i: "inv_held s g {}" and a: "a \<in> set (g_lru g c)" and k: "e_key (entry_at s a) = k"
    and l: "length (e_val (entry_at s a)) = UINT64_SIZE"
  shows "\<exists>s'. copy_val s a 0 (sprintf_u64 n) (length (sprintf_u64 n)) = Some s'
    \<and> implements s' (a_set_val (absg s g) c k (over (e_val (entry_at s a)) n)) \<and> conf_of s' = conf_of s"
proof -
  obtain it where it: "heap s a = Some it" "good_item (slabs s) c it"
      "it_nkey it + it_nval it \<le> length (it_end it)" "entry_at s a = entry_of it"
    using inv_held_heap [OF i a] by blast
  have gv: "it_key it = 0" "it_val it = it_nkey it" using it(2) by (simp_all add: good_item_def)
  have nv: "it_nval it = UINT64_SIZE" using entry_nkey(2) [OF it(3,2)] it(4) l by simp
  define e where "e = blit (it_end it) (it_val it) (sprintf_u64 n)"
  have room: "it_val it + length (sprintf_u64 n) \<le> length (it_end it)"
    using sprintf_u64_length [of n] it(3) gv nv by simp
  have el: "length e = length (it_end it)" using room by (simp add: e_def)
  define F :: "item \<Rightarrow> item" where "F = it_end_update (\<lambda>_. e)"
  define s' where "s' = upd_item s a F"
  have run: "copy_val s a 0 (sprintf_u64 n) (length (sprintf_u64 n)) = Some s'"
    using copy_val_in [OF it(1), of "length (sprintf_u64 n)" "sprintf_u64 n" 0] room by (simp add: s'_def F_def e_def)
  have kt: "take (it_nkey it) e = take (it_nkey it) (it_end it)"
    using blit_read_before [of 0 "it_nkey it" "it_val it" "it_end it"] room gv by (simp add: e_def)
  have vt: "take (it_nval it) (drop (it_val it) e) = over (e_val (entry_at s a)) n"
    using over_split [of n "it_nval it" "it_val it" "it_end it"] sprintf_u64_length [of n] it(3,4) gv nv
    by (simp add: e_def entry_of_def)
  have ent: "entry_of (F it) = (entry_at s a)\<lparr>e_val := over (e_val (entry_at s a)) n\<rparr>"
    using kt vt gv it(4) by (simp add: entry_of_def F_def)
  have w: "data_write F" "length (it_end (F it)) = length (it_end it)" "good_item (slabs s) c (F it)"
    "e_key (entry_of (F it)) = e_key (entry_at s a)"
    using el it(2) ent by (simp_all add: F_def data_write_def good_item_def)
  note wi = write_inv [OF i a it(1) w, folded s'_def] and wa = write_abs [OF i a wi(2,3,4)]
  have "absg s' g = a_set_val (absg s g) c k (over (e_val (entry_at s a)) n)"
  proof (rule astore_eqI)
    fix d
    have "map ((entry_at s)(a := entry_of (F it))) (g_lru g c)
        = map (\<lambda>e. if e_key e = k then e\<lparr>e_val := over (e_val (entry_at s a)) n\<rparr> else e) (map (entry_at s) (g_lru g c))"
    proof -
      have "((entry_at s)(a := entry_of (F it))) b = (\<lambda>e. if e_key e = k then e\<lparr>e_val := over (e_val (entry_at s a)) n\<rparr> else e) (entry_at s b)"
        if "b \<in> set (g_lru g c)" for b
      proof (cases "b = a")
        case True
        then show ?thesis using k ent by simp
      next
        case False
        then have "e_key (entry_at s b) \<noteq> k" using key_unique [OF i that a] k by metis
        then show ?thesis using False by simp
      qed
      then show ?thesis by simp
    qed
    then show "a_lru (absg s' g) d = a_lru (a_set_val (absg s g) c k (over (e_val (entry_at s a)) n)) d"
      unfolding wa(1) [of d] by (simp add: a_set_val_def)
    show "a_free (absg s' g) d = a_free (a_set_val (absg s g) c k (over (e_val (entry_at s a)) n)) d"
      unfolding wa(2) [of d] by (simp add: a_set_val_def)
  next
    show "a_used (absg s' g) = a_used (a_set_val (absg s g) c k (over (e_val (entry_at s a)) n))"
      unfolding wa(3) by (simp add: a_set_val_def)
  qed
  then show ?thesis using run implementsI [OF wi(1)] calmD(1) [OF wi(4)] by blast
qed

section \<open>A new counter\<close>

text \<open>The writes of \<open>init_counter\<close> behind the insertion, and the text.\<close>

lemma write_counter:
  fixes flags :: "u32 option" and old_flags :: u32
  assumes it: "heap s a = Some it" "it_key it = 0" "it_nkey it = nkey" "it_val it = nkey" "it_nval it = UINT64_SIZE"
    and n: "nkey \<le> length (buf_bytes key)" "nkey + UINT64_SIZE \<le> length (it_end it)"
  defines "f \<equiv> (case flags of None \<Rightarrow> old_flags | Some f \<Rightarrow> f)"
  shows "\<exists>s1 it1. do { s \<leftarrow> set_flags s a old_flags; s \<leftarrow> copy_key s a key nkey;
        s \<leftarrow> copy_val s a 0 (replicate UINT64_SIZE 32) UINT64_SIZE;
        (case flags of None \<Rightarrow> Some s | Some f \<Rightarrow> set_flags s a f) } = Some s1
      \<and> get_item s1 a = Some it1 \<and> it_flags it1 = f
      \<and> copy_val s1 a 0 (sprintf_u64 v) (length (sprintf_u64 v)) = Some (upd_item s a
          (\<lambda>x. x\<lparr>it_flags := f, it_end := buf_key key nkey @ counter_text v @ drop (nkey + UINT64_SIZE) (it_end it)\<rparr>))"
proof -
  have k: "length (buf_key key nkey) = nkey" using n(1) by (simp add: buf_key_def)
  have l: "length (blit (it_end it) 0 (buf_key key nkey)) = length (it_end it)" using n k by simp
  define e where "e = blit (blit (it_end it) 0 (buf_key key nkey)) nkey (replicate UINT64_SIZE 32)"
  have e: "e = buf_key key nkey @ replicate UINT64_SIZE 32 @ drop (nkey + UINT64_SIZE) (it_end it)"
    using blit_two [of "buf_key key nkey" "replicate UINT64_SIZE 32" "it_end it"] n k by (simp add: e_def)
  have el: "length e = length (it_end it)" using n(2) k by (simp add: e)
  have t: "blit e nkey (sprintf_u64 v) = buf_key key nkey @ counter_text v @ drop (nkey + UINT64_SIZE) (it_end it)"
    using sprintf_u64_length [of v] k by (simp add: e counter_text_21 over_sprintf blit_def)
  define s1 where "s1 = upd_item s a (\<lambda>x. x\<lparr>it_flags := f, it_end := e\<rparr>)"
  have room: "nkey + length (sprintf_u64 v) \<le> length (it_end it)" using sprintf_u64_length [of v] n(2) by simp
  have cm: "(\<lambda>x::item. x\<lparr>it_end := e, it_flags := f'\<rparr>) = (\<lambda>x. x\<lparr>it_flags := f', it_end := e\<rparr>)" for f'
    by (rule ext) simp
  have "do { s \<leftarrow> set_flags s a old_flags; s \<leftarrow> copy_key s a key nkey;
        s \<leftarrow> copy_val s a 0 (replicate UINT64_SIZE 32) UINT64_SIZE;
        (case flags of None \<Rightarrow> Some s | Some f \<Rightarrow> set_flags s a f) } = Some s1"
    using it n k l cm
    by (cases flags) (simp_all add: set_flags_in [OF it(1)] copy_key_in [OF heap_upd_same [OF it(1)]]
        copy_val_in [OF heap_upd_same [OF it(1)]] set_flags_in [OF heap_upd_same [OF it(1)]]
        upd_item_upd_item o_def s1_def e_def f_def)
  moreover have h1: "heap s1 a = Some (it\<lparr>it_flags := f, it_end := e\<rparr>)"
    by (simp add: s1_def heap_upd_same [OF it(1)])
  moreover have "copy_val s1 a 0 (sprintf_u64 v) (length (sprintf_u64 v)) = Some (upd_item s a
      (\<lambda>x. x\<lparr>it_flags := f, it_end := buf_key key nkey @ counter_text v @ drop (nkey + UINT64_SIZE) (it_end it)\<rparr>))"
    using room it(4) el copy_val_in [OF h1, of "length (sprintf_u64 v)" "sprintf_u64 v" 0]
    by (simp add: t s1_def upd_item_upd_item o_def)
  ultimately show ?thesis by (auto simp: get_item_def)
qed

lemma new_counter:
  fixes flags :: "u32 option" and old_flags :: u32
  assumes i: "inv_held s g {a}" and n: "nkey \<le> length (buf_bytes key)" and K: "K = buf_key key nkey"
    and it: "heap s a = Some it" "it_clsid it = c" "it_key it = 0" "it_nkey it = nkey" "it_val it = nkey"
      "it_nval it = UINT64_SIZE" "csize s a = Some (slab_size (slabs s ! c))"
    and c: "clsid_loop (slabs s) (sizeof_item + nkey + UINT64_SIZE) 0 = Some c"
    and small: "sizeof_item + nkey + UINT64_SIZE < 2 ^ 64" and k: "tab s g K = None"
  defines "f \<equiv> (case flags of None \<Rightarrow> old_flags | Some f \<Rightarrow> f)"
  shows "\<exists>s1 it1 s2. init_counter s key nkey a old_flags flags = Some s1 \<and> get_item s1 a = Some it1 \<and> it_flags it1 = f
    \<and> copy_val s1 a 0 (sprintf_u64 v) (length (sprintf_u64 v)) = Some s2
    \<and> implements s2 (a_push (absg s g) c \<lparr>e_key = K, e_val = counter_text v, e_flags = f\<rparr>) \<and> conf_of s2 = conf_of s"
proof -
  have cb: "c < length (slabs s)" "sizeof_item + nkey + UINT64_SIZE \<le> slab_size (slabs s ! c)"
    using c by (simp_all add: clsid_loop_eq_Some)
  have cl: "clsid_at s a = Some c" using it(1,2) by (simp add: clsid_at_Some)
  define b where "b = slot_of (nbuckets (attrs s)) K"
  obtain s3 s4 g4 where en: "assoc_insert s key nkey a = Some s3" "item_link s3 a = Some s4"
      "layout s4 g4 ({a} - {a})" "g_bkt g4 = (g_bkt g)(b := a # g_bkt g b)"
      "g_lru g4 = (g_lru g)(c := a # g_lru g c)" "g_free g4 = g_free g" "dat s4 = dat s"
      "nitems (attrs s4) = Suc (nitems (attrs s))" "calm s s4"
    using enroll_step [OF i n b_def [unfolded K] _ it(7) cl cb(1)] by auto
  obtain it4 where it4: "heap s4 a = Some it4" "it_key it4 = 0" "it_nkey it4 = nkey"
      "it_val it4 = nkey" "it_nval it4 = UINT64_SIZE" "it_end it4 = it_end it"
    using dat_heapE [OF fun_cong [OF en(7), of a] it(1)] it(3-6) by metis
  have "sizeof_item + length (it_end it) = slab_size (slabs s ! c)"
    using it(1,7) by (simp add: csize_def dat_def)
  then have room: "nkey + UINT64_SIZE \<le> length (it_end it4)" using cb(2) it4(6) by simp
  have kl: "length K = nkey" using n by (simp add: K buf_key_def)
  have tl: "length (counter_text v) = UINT64_SIZE" by (simp add: counter_text_21 over_length)
  define F :: "item \<Rightarrow> item" where
    "F = (\<lambda>x. x\<lparr>it_flags := f, it_end := K @ counter_text v @ drop (nkey + UINT64_SIZE) (it_end it4)\<rparr>)"
  obtain s5 it5 where w: "do { s \<leftarrow> set_flags s4 a old_flags; s \<leftarrow> copy_key s a key nkey;
        s \<leftarrow> copy_val s a 0 (replicate UINT64_SIZE 32) UINT64_SIZE;
        (case flags of None \<Rightarrow> Some s | Some f \<Rightarrow> set_flags s a f) } = Some s5"
      "get_item s5 a = Some it5" "it_flags it5 = f"
      "copy_val s5 a 0 (sprintf_u64 v) (length (sprintf_u64 v)) = Some (upd_item s4 a F)"
    using write_counter [OF it4(1-5) n room, where flags = flags and old_flags = old_flags and v = v] unfolding F_def f_def K by blast
  have ini: "init_counter s key nkey a old_flags flags = Some s5"
    using en(1,2) w(1) by (simp add: init_counter_def)
  have fw: "data_write F" "length (it_end (F it4)) = length (it_end it4)"
    using room kl tl by (simp_all add: F_def data_write_def)
  have good: "good_item (slabs s) c (F it4)" using it4 small c by (simp add: good_item_def F_def)
  have ent: "entry_of (F it4) = \<lparr>e_key = K, e_val = counter_text v, e_flags = f\<rparr>"
    using it4 kl tl by (simp add: entry_of_def F_def)
  note fi = fill_inv [OF i insertI1 en(3,9) csize_dat [OF en(7)] en(8) fun_cong [OF en(7)] en(4-6) k b_def
      it4(1) fw good, unfolded ent]
  have "implements (upd_item s4 a F) (a_push (absg s g) c \<lparr>e_key = K, e_val = counter_text v, e_flags = f\<rparr>)"
    using fi(1,2) by (intro implementsI) simp_all
  moreover have "conf_of (upd_item s4 a F) = conf_of s" using calmD(1) [OF fi(3)] by simp
  ultimately show ?thesis using ini w(2-4) by blast
qed

section \<open>The old item evicted by its replacement\<close>

text \<open>Unlinking an item that is in no list does nothing when its links are null.\<close>

lemma unlink_loose:
  assumes "heap s a = Some it" and "it_next it = 0" and "it_prev it = 0" and "it_clsid it = c"
    and "lru_list s c xs" and "a \<notin> set xs" and "a \<noteq> 0"
  shows "item_unlink s a = Some s"
proof -
  have d: "dll (nxt s) (prv s) (heads s ! c) (tails s ! c) xs" "c < length (heads s)" "c < length (tails s)"
    using assms(5) by (simp_all add: lru_list_def)
  have "heads s ! c \<noteq> a" using dll_head [OF d(1)] assms(6,7) by (cases xs) auto
  moreover have "tails s ! c \<noteq> a" using dll_tail [OF d(1)] assms(6,7) by (auto split: if_splits)
  ultimately show ?thesis using assms(1-4) d(2,3) by (simp add: item_unlink_def)
qed

text \<open>Writing bytes of a chunk that holds no item changes nothing that can be seen.\<close>

lemma write_unlisted:
  assumes i: "inv_held s g D" and a: "a \<notin> in_lru g" and it: "heap s a = Some it"
    and e: "length e = length (it_end it)"
  shows "inv_held (upd_item s a (it_end_update (\<lambda>_. e))) g D"
    "absg (upd_item s a (it_end_update (\<lambda>_. e))) g = absg s g" "calm s (upd_item s a (it_end_update (\<lambda>_. e)))"
proof -
  note I = inv_heldD [OF i]
  define s' where "s' = upd_item s a (it_end_update (\<lambda>_. e))"
  have ad: "a \<in> dom (heap s)" using it by blast
  have dw: "data_write (it_end_update (\<lambda>_. e))" by (simp add: data_write_def)
  have len: "length (it_end (it_end_update (\<lambda>_. e) x)) = length (it_end x)" if "heap s a = Some x" for x
    using that it e by simp
  note w = write_step [OF I(1) ad dw len, folded s'_def]
  note C = calmD [OF w(5)]
  have other: "dat s' x = dat s x" if "x \<noteq> a" for x using that w(3) by simp
  have ne: "x \<noteq> a" if "x \<in> in_lru g" for x using that a by blast
  have "tabled s' g"
    by (rule tabled_cong [OF I(2)]) (use ne other I(3) in \<open>simp_all add: key_at_def w(4)\<close>)
  moreover have "payload s' g"
  proof (rule payload_cong [OF I(4) C(6)])
    show "x \<in> set (g_lru g d) \<and> dat s' x = dat s x" if "x \<in> set (g_lru g d)" for x d
      using other [OF ne [OF in_lruI [OF that]]] that by blast
  qed
  ultimately show "inv_held (upd_item s a (it_end_update (\<lambda>_. e))) g D"
    using w(2) I(3) pooled_cong [OF I(5) w(5,6)] good_conf_cong [OF I(6) C(1)] by (simp add: inv_held_def s'_def)
  show "absg (upd_item s a (it_end_update (\<lambda>_. e))) g = absg s g"
    unfolding s'_def [symmetric]
  proof (rule astore_eqI)
    fix d
    have "map (entry_at s') (g_lru g d) = map (entry_at s) (g_lru g d)"
      using other [OF ne] in_lruI by (intro map_cong refl entry_at_cong) blast
    then show "a_lru (absg s' g) d = a_lru (absg s g) d" by simp
    have "flags_at s' x = flags_at s x" for x
      using w(3) flags_at_cong [OF other, of x] it by (cases "x = a") (simp_all add: flags_at_def dat_def)
    then show "a_free (absg s' g) d = a_free (absg s g) d" by simp
  qed (simp add: C(2))
  show "calm s (upd_item s a (it_end_update (\<lambda>_. e)))" using w(5) by (simp add: s'_def)
qed

section \<open>Refinement\<close>

lemma taken_held:
  assumes "taken s g c a s' g'"
  shows "a \<noteq> 0" "inv_held s' g' {a}" "conf_of s' = conf_of s" "csize s' a = Some (slab_size (slabs s ! c))"
    "a \<notin> in_lru g'" "g_lru g' = (g_lru g)(c := remove1 a (g_lru g c))"
    "d \<noteq> c \<Longrightarrow> a \<notin> set (g_lru g d)" "a \<in> set (g_lru g c) \<longleftrightarrow> evicts (conf_of s) c (absg s g)"
    "evicts (conf_of s) c (absg s g) \<Longrightarrow> a = last (g_lru g c)" "b \<in> in_lru g' \<Longrightarrow> dat s' b = dat s b"
  using assms unfolding taken_def by blast+

text \<open>Allocation of a counter, in the form the three branches use.\<close>

lemma alloc_counter:
  assumes i: "inv_held s g {}" and small: "sizeof_item + nkey + UINT64_SIZE < 2 ^ 64"
  defines "t \<equiv> size_for nkey UINT64_SIZE"
  obtains (undef) "\<not> size_ok (conf_of s) t \<or> class_for (conf_of s) t = None" "item_alloc s nkey UINT64_SIZE = None"
  | (full) c s' where "size_ok (conf_of s) t" "class_for (conf_of s) t = Some c" "a_take (conf_of s) c (absg s g) = None"
      "item_alloc s nkey UINT64_SIZE = Some (0, s')" "implements s' (absg s g)" "conf_of s' = conf_of s"
  | (got) c fl a s' g' it where "size_ok (conf_of s) t" "class_for (conf_of s) t = Some c"
      "a_take (conf_of s) c (absg s g) = Some (fl, absg s' g')" "item_alloc s nkey UINT64_SIZE = Some (a, s')"
      "taken s g c a s' g'" "heap s' a = Some it" "it_flags it = fl" "it_clsid it = c" "it_key it = 0" "it_nkey it = nkey"
      "it_val it = nkey" "it_nval it = UINT64_SIZE" "sizeof_item + length (it_end it) = slab_size (slabs s ! c)"
      "it_next it = 0" "it_prev it = 0" "csize s' a = Some (slab_size (slabs s' ! c))"
      "clsid_loop (slabs s') (sizeof_item + nkey + UINT64_SIZE) 0 = Some c"
proof (cases "size_ok (conf_of s) t \<and> class_for (conf_of s) t \<noteq> None")
  case False
  then have "item_alloc s nkey UINT64_SIZE = None"
    using item_size_ok_size_ok [OF small, of s] item_clsid_class_for [OF small, of s]
    by (cases "size_ok (conf_of s) t") (simp_all add: item_alloc_def t_def)
  then show ?thesis using False undef by blast
next
  case True
  then obtain c where c: "class_for (conf_of s) t = Some c" and ok: "size_ok (conf_of s) t" by blast
  have "store_inv s g" using i by (simp add: store_inv_def)
  note spec = alloc_spec [OF this small ok [unfolded t_def] c [unfolded t_def]]
  note C = class_forD [OF c [unfolded t_def] small]
  show ?thesis
  proof (cases "a_take (conf_of s) c (absg s g)")
    case None
    then show ?thesis using spec full [OF ok c] by (auto simp: store_inv_def intro: implementsI)
  next
    case (Some p)
    then obtain fl A where p: "a_take (conf_of s) c (absg s g) = Some (fl, A)" by (cases p) simp
    then obtain a s' g' it where q: "item_alloc s nkey UINT64_SIZE = Some (a, s')" "taken s g c a s' g'" "A = absg s' g'"
        "heap s' a = Some it" "it_flags it = fl" "it_clsid it = c" "it_key it = 0" "it_nkey it = nkey"
        "it_val it = nkey" "it_nval it = UINT64_SIZE" "sizeof_item + length (it_end it) = slab_size (slabs s ! c)"
        "it_next it = 0" "it_prev it = 0"
      using spec by auto
    note T = taken_held(3,4) [OF q(2)]
    show ?thesis
      by (rule got [OF ok c p [unfolded q(3)] q(1,2,4-13)])
        (use T conf_of_nth(1) [OF T(1) C(1)] C(3) clsid_loop_cong [OF conf_ofD(4) [OF T(1)]] in simp_all)
  qed
qed

text \<open>The key is gone when its item was the one evicted.\<close>

lemma evicted_tab:
  assumes i: "inv_held s g {}" and t: "taken s g c a s' g'" and k: "tab s g k = Some a"
  shows "tab s' g' k = None"
  unfolding tab_eq_None [OF inv_heldD(2) [OF taken_held(2) [OF t]]]
proof
  fix x assume "x \<in> in_table g'"
  then have x: "x \<in> in_lru g'" using inv_heldD(3) [OF taken_held(2) [OF t]] by simp
  show "key_at s' x \<noteq> Some k"
  proof
    assume "key_at s' x = Some k"
    then have "key_at s x = Some k" using taken_held(10) [OF t x] by (simp add: key_at_def)
    moreover have "x \<in> in_table g" using taken_in_lru [OF t] x inv_heldD(3) [OF i] by blast
    ultimately have "tab s g k = Some x" using tab_eq_Some [OF inv_heldD(2) [OF i]] by blast
    then show False using k x taken_held(5) [OF t] by simp
  qed
qed

text \<open>
  The branch in which the allocation evicts the old item: its chunk is freed once more and the
  text is written into the free chunk.
\<close>

lemma lost_counter:
  assumes i: "inv_held s g {a}" and n: "nkey \<le> length (buf_bytes key)" and k: "tab s g (buf_key key nkey) = None"
    and it: "heap s a = Some it" "it_clsid it = c" "it_key it = 0" "it_nkey it = nkey" "it_val it = nkey"
      "it_nval it = UINT64_SIZE" "it_next it = 0" "it_prev it = 0" "csize s a = Some (slab_size (slabs s ! c))"
    and c: "clsid_loop (slabs s) (sizeof_item + nkey + UINT64_SIZE) 0 = Some c"
    and small: "sizeof_item + nkey + UINT64_SIZE < 2 ^ 64"
  shows "\<exists>s2 it2 s3. assoc_delete s key nkey = Some s \<and> item_unlink s a = Some s \<and> item_free s a = Some s2
    \<and> get_item s2 a = Some it2 \<and> it_flags it2 = it_flags it
    \<and> copy_val s2 a 0 (sprintf_u64 v) (length (sprintf_u64 v)) = Some s3
    \<and> implements s3 (a_release (absg s g) c (it_flags it)) \<and> conf_of s3 = conf_of s"
proof -
  note I = inv_heldD [OF i]
  have cb: "c < length (slabs s)" "sizeof_item + nkey + UINT64_SIZE \<le> slab_size (slabs s ! c)"
    using c by (simp_all add: clsid_loop_eq_Some)
  have an: "a \<notin> set (g_lru g d)" for d using held_not_listed(1) [OF I(1)] by blast
  have nz: "a \<noteq> 0" using layout_held_nz [OF I(1)] by blast
  have del: "assoc_delete s key nkey = Some s" by (rule delete_absent_step [OF I(1,2) n k])
  have unl: "item_unlink s a = Some s"
    by (rule unlink_loose [OF it(1,7,8,2) layoutD(1) [OF I(1) cb(1)] an nz])
  define z where "z = it\<lparr>it_next := 0, it_prev := 0, it_hnext := 0\<rparr>"
  have da: "dat s a = Some z" using it(1) by (simp add: dat_def z_def)
  have gz: "good_item (slabs s) c z" using it small c by (simp add: good_item_def z_def)
  define g2 where "g2 = free_upd g c (a # g_free g c)"
  obtain s2 where s2: "item_free s a = Some s2" "inv_held s2 g2 ({a} - {a})" "dat s2 = dat s" "calm s s2"
    using free_held [OF i singletonI it(9) da gz] unfolding g2_def by blast
  obtain it2 where it2: "heap s2 a = Some it2" "it_flags it2 = it_flags it" "it_val it2 = nkey" "it_end it2 = it_end it"
    using dat_heapE [OF fun_cong [OF s2(3), of a] it(1)] it(5) by metis
  have "sizeof_item + length (it_end it) = slab_size (slabs s ! c)"
    using it(1,9) by (simp add: csize_def dat_def)
  then have room: "nkey + length (sprintf_u64 v) \<le> length (it_end it2)"
    using cb(2) it2(4) sprintf_u64_length [of v] by simp
  define e where "e = blit (it_end it2) nkey (sprintf_u64 v)"
  have el: "length e = length (it_end it2)" using room by (simp add: e_def)
  have cp: "copy_val s2 a 0 (sprintf_u64 v) (length (sprintf_u64 v)) = Some (upd_item s2 a (it_end_update (\<lambda>_. e)))"
    using copy_val_in [OF it2(1), of "length (sprintf_u64 v)" "sprintf_u64 v" 0] room it2(3) by (simp add: e_def)
  have "a \<notin> in_lru g2" using an by (simp add: in_lru_def g2_def)
  note wu = write_unlisted [OF s2(2) this it2(1) el]
  have "absg s2 g2 = a_release (absg s g) c (it_flags it)"
  proof (rule astore_eqI)
    have "flags_at s2 a = it_flags it" using it2(1,2) by (simp add: flags_at_def dat_def)
    then show "a_free (absg s2 g2) d = a_free (a_release (absg s g) c (it_flags it)) d" for d
      using entry_at_dat(2) [OF s2(3)] by (simp add: a_release_def g2_def)
  qed (use entry_at_dat [OF s2(3)] calmD(2) [OF s2(4)] in \<open>simp_all add: a_release_def g2_def\<close>)
  then have "implements (upd_item s2 a (it_end_update (\<lambda>_. e))) (a_release (absg s g) c (it_flags it))"
    using wu(1,2) by (intro implementsI) simp_all
  then show ?thesis
    using del unl s2(1) it2(1,2) cp calmD(1) [OF wu(3)] calmD(1) [OF s2(4)] by (auto simp: get_item_def)
qed

text \<open>A counter that exists and does not have the size of a counter.\<close>

lemma resize_counter:
  fixes flags :: "u32 option" and val :: u64 and incr :: bool
  assumes i: "inv_held s g {}" and n: "nkey \<le> length (buf_bytes key)" and K: "K = buf_key key nkey"
    and k: "tab s g K = Some a" and a: "a \<in> set (g_lru g c)" and e: "e = entry_at s a"
    and small: "sizeof_item + nkey + UINT64_SIZE < 2 ^ 64"
    and it: "heap s a = Some it" "it_flags it = e_flags e" "a \<noteq> 0"
      "safe_strtoull (drop (it_val it) (it_end it)) (it_nval it) = Some old_val" "it_nval it \<noteq> UINT64_SIZE"
    and find: "assoc_find s0 key nkey = Some (a, s)"
  defines "nv \<equiv> counter_op incr old_val val" and "f \<equiv> (case flags of None \<Rightarrow> e_flags e | Some f \<Rightarrow> f)"
    and "t \<equiv> size_for nkey UINT64_SIZE"
  shows "refines3 (shmc_arithmetic s0 key nkey val incr flags) (conf_of s)
    (if \<not> size_ok (conf_of s) t then None
     else do {
       c' \<leftarrow> class_for (conf_of s) t;
       (case a_take (conf_of s) c' (absg s g) of
          None \<Rightarrow> Some (SHMC_NOMEMORY, None, absg s g)
        | Some (stale, A') \<Rightarrow>
            if c' = c \<and> evicts (conf_of s) c (absg s g) \<and> e_key (last (a_lru (absg s g) c)) = K then
              Some (SHMC_OK, Some (nv, map_option (\<lambda>_. e_flags e) flags), a_release A' c (e_flags e))
            else
              Some (SHMC_OK, Some (nv, map_option (\<lambda>_. f) flags),
                a_push (a_drop A' c e) c' \<lparr>e_key = K, e_val = counter_text nv, e_flags = f\<rparr>))
     })"
  using i small
proof (cases rule: alloc_counter)
  case undef
  then show ?thesis
    using find it by (auto simp: shmc_arithmetic_def counter_item_def t_def)
next
  case (full c' s')
  then show ?thesis using find it by (auto simp: shmc_arithmetic_def counter_item_def t_def)
next
  case (got c' fl m s' g' itm)
  note I = inv_heldD [OF i] and T = taken_held [OF got(5)]
  have ka: "key_at s a = Some K" using k tab_eq_Some [OF I(2)] by blast
  have ek: "e_key (entry_at s a) = K" using entry_key [OF i a] ka by simp
  show ?thesis
  proof (cases "m = a")
    case True
    have c: "c' = c" using T(7) [of c] True a by blast
    have ev: "evicts (conf_of s) c (absg s g)" using T(8) True a c by simp
    have last: "a = last (g_lru g c)" using T(9) ev True c by simp
    have ne: "g_lru g c \<noteq> []" using a by auto
    have le: "last (a_lru (absg s g) c) = e" using ne last by (simp add: last_map e)
    have fe: "fl = e_flags e"
    proof -
      have "g_free g c = []" "\<not> can_cut (conf_of s) c (absg s g)" "evict_to_free (attrs s)"
        using ev by (simp_all add: evicts_def)
      then have "a_take (conf_of s) c (absg s g) = Some (e_flags (last (a_lru (absg s g) c)),
          set_lru (absg s g) c (butlast (a_lru (absg s g) c)))"
        using ne by (simp add: a_take_def)
      then show ?thesis using got(3) c le by simp
    qed
    have tb: "tab s' g' (buf_key key nkey) = None"
      using evicted_tab [OF i got(5)] k True K by simp
    obtain s2 it2 s3 where q: "assoc_delete s' key nkey = Some s'" "item_unlink s' a = Some s'" "item_free s' a = Some s2"
        "get_item s2 a = Some it2" "it_flags it2 = it_flags itm"
        "copy_val s2 a 0 (sprintf_u64 nv) (length (sprintf_u64 nv)) = Some s3"
        "implements s3 (a_release (absg s' g') c (it_flags itm))" "conf_of s3 = conf_of s'"
      using lost_counter [OF T(2) n tb got(6,8-12,14-17) small, of nv] unfolding True c by blast
    have "shmc_arithmetic s0 key nkey val incr flags
        = Some (SHMC_OK, Some (nv, map_option (\<lambda>_. e_flags e) flags), s3)"
      using find it got(4) True q(1-6) got(7) fe
      by (simp add: shmc_arithmetic_def counter_item_def nv_def [symmetric] Let_def)
    then show ?thesis
      using got(1-3,7) q(7,8) c ev le fe ek T(3) by (simp add: t_def e)
  next
    case False
    have a': "a \<in> set (g_lru g' c)" using a False by (auto simp: T(6))
    have d': "dat s' a = dat s a" by (rule T(10) [OF in_lruI [OF a']])
    have e': "entry_at s' a = e" using entry_at_cong [OF d'] e by simp
    have "key_at s' a = Some K" using ka d' by (simp add: key_at_def)
    moreover have "a \<in> in_table g'" using in_lruI [OF a'] inv_heldD(3) [OF T(2)] by simp
    ultimately have k': "tab s' g' (buf_key key nkey) = Some a"
      using tab_eq_Some [OF inv_heldD(2) [OF T(2)]] K by blast
    obtain s1 s2 s3 g3 where d: "assoc_delete s' key nkey = Some s1" "item_unlink s1 a = Some s2" "item_free s2 a = Some s3"
        "inv_held s3 g3 {m}" "absg s3 g3 = a_drop (absg s' g') c (entry_at s' a)" "conf_of s3 = conf_of s'"
        "dat s3 = dat s'" "tab s3 g3 (buf_key key nkey) = None"
      using drop_inv [OF T(2) n k' a'] by blast
    obtain it3 where it3: "heap s3 m = Some it3" "it_clsid it3 = c'" "it_key it3 = 0" "it_nkey it3 = nkey"
        "it_val it3 = nkey" "it_nval it3 = UINT64_SIZE"
      using dat_heapE [OF fun_cong [OF d(7), of m] got(6)] got(8-12) by metis
    have cb: "c' < length (slabs s')" using got(17) by (simp add: clsid_loop_eq_Some)
    have z3: "csize s3 m = Some (slab_size (slabs s3 ! c'))"
      using got(16) csize_dat [OF d(7)] conf_of_nth(1) [OF d(6) cb] by simp
    have l3: "clsid_loop (slabs s3) (sizeof_item + nkey + UINT64_SIZE) 0 = Some c'"
      using got(17) clsid_loop_cong [OF conf_ofD(4) [OF d(6)]] by simp
    have tk: "tab s3 g3 K = None" using d(8) K by simp
    obtain s4 it4 s5 where q: "init_counter s3 key nkey m (e_flags e) flags = Some s4" "get_item s4 m = Some it4"
        "it_flags it4 = f" "copy_val s4 m 0 (sprintf_u64 nv) (length (sprintf_u64 nv)) = Some s5"
        "implements s5 (a_push (absg s3 g3) c' \<lparr>e_key = K, e_val = counter_text nv, e_flags = f\<rparr>)"
        "conf_of s5 = conf_of s3"
      using new_counter [OF d(4) n K it3 z3 l3 small tk, where flags = flags and old_flags = "e_flags e" and v = nv]
      unfolding f_def by blast
    have run: "shmc_arithmetic s0 key nkey val incr flags
        = Some (SHMC_OK, Some (nv, map_option (\<lambda>_. f) flags), s5)"
      using find it got(4) T(1) False d(1-3) q(1-4)
      by (simp add: shmc_arithmetic_def counter_item_def nv_def [symmetric] Let_def)
    have "\<not> (c' = c \<and> evicts (conf_of s) c (absg s g) \<and> e_key (last (a_lru (absg s g) c)) = K)"
    proof (intro notI, elim conjE)
      assume h: "c' = c" "evicts (conf_of s) c (absg s g)" "e_key (last (a_lru (absg s g) c)) = K"
      have m: "m = last (g_lru g c)" "m \<in> set (g_lru g c)" using T(8,9) h(1,2) by simp_all
      then have "last (a_lru (absg s g) c) = entry_at s m" by (cases "g_lru g c") (simp_all add: last_map)
      then have "m = a" using key_unique [OF i m(2) a] h(3) ek by simp
      then show False using False by simp
    qed
    then show ?thesis
      using run got(1-3) q(5,6) d(5,6) e' T(3) by (auto simp: t_def)
  qed
qed

lemma arith_refines:
  assumes A: "implements s A" and n: "nkey \<le> length (buf_bytes key)"
    and small: "sizeof_item + nkey + UINT64_SIZE < 2 ^ 64"
  shows "refines3 (shmc_arithmetic s key nkey val incr flags) (conf_of s)
    (a_arith (conf_of s) A (buf_key key nkey) val incr flags)"
proof -
  define K where "K = buf_key key nkey"
  have kl: "length K = nkey" using n by (simp add: K_def buf_key_def)
  obtain g where g: "inv_held s g {}" "A = absg s g" using implementsE [OF A] .
  from g(1) n K_def show ?thesis
  proof (cases rule: find_cases)
    case (present s1 a c)
    define e where "e = entry_at s1 a"
    obtain it where it: "heap s1 a = Some it" "good_item (slabs s1) c it"
        "it_nkey it + it_nval it \<le> length (it_end it)" "entry_at s1 a = entry_of it"
      using inv_held_heap [OF present(3,7)] by blast
    have it2: "it_val it + it_nval it \<le> length (it_end it)" "it_flags it = e_flags e" "it_nval it = length (e_val e)"
      using it entry_nkey(2) [OF it(3,2)] by (simp_all add: good_item_def e_def) (simp add: entry_of_def)
    have ov: "safe_strtoull (drop (it_val it) (it_end it)) (it_nval it) = Some (counter_val (e_val e))"
      using safe_strtoull_val [OF it2(1)] it(4) by (simp add: e_def)
    show ?thesis
    proof (cases "length (e_val e) = UINT64_SIZE")
      case True
      obtain s2 where s2: "copy_val s1 a 0 (sprintf_u64 (counter_op incr (counter_val (e_val e)) val))
          (length (sprintf_u64 (counter_op incr (counter_val (e_val e)) val))) = Some s2"
          "implements s2 (a_set_val (absg s1 g) c K (over (e_val e) (counter_op incr (counter_val (e_val e)) val)))"
          "conf_of s2 = conf_of s1"
        using rewrite_counter [OF present(3,7,8)] True unfolding e_def by blast
      then show ?thesis
        using present(1,2,4,5,9) it(1) it2 ov True g(2)
        by (simp add: shmc_arithmetic_def counter_item_def a_arith_def Let_def e_def flip: K_def)
    next
      case False
      have ne: "it_nval it \<noteq> UINT64_SIZE" using False it2(3) by simp
      show ?thesis
        using resize_counter [OF present(3) n K_def present(6,7) e_def small it(1) it2(2) present(2) ov ne present(1),
            where incr = incr and val = val and flags = flags]
          present(4,5,9) g(2) False
        by (simp add: a_arith_def Let_def kl e_def [symmetric] K_def [symmetric] cong: if_cong option.case_cong)
    qed
  next
    case (absent s1)
    show ?thesis
    proof (cases "default_counter (attrs s)")
      case False
      then show ?thesis
        using absent implementsI [OF absent(2,3)] g(2) conf_ofD(10) [OF absent(4)]
        by (simp add: shmc_arithmetic_def counter_item_def a_arith_def Let_def flip: K_def)
    next
      case True
      have dc: "default_counter (attrs s1)" using True conf_ofD(10) [OF absent(4)] by simp
      from absent(2) small show ?thesis
      proof (cases rule: alloc_counter)
        case undef
        then show ?thesis
          using absent(1,4,6) g(2) True dc
          by (auto simp: shmc_arithmetic_def counter_item_def a_arith_def Let_def kl K_def [symmetric])
      next
        case (full c s')
        then show ?thesis
          using absent(1,3,4,6) g(2) True dc
          by (auto simp: shmc_arithmetic_def counter_item_def a_arith_def Let_def kl K_def [symmetric])
      next
        case (got c fl m s' g' itm)
        note T = taken_held [OF got(5)]
        have tb: "tab s' g' K = None" by (rule taken_tab_None [OF absent(2) got(5) absent(5)])
        define nv f where "nv = counter_op incr 0 val" and "f = (case flags of None \<Rightarrow> 0 | Some f \<Rightarrow> f)"
        obtain s4 it4 s5 where q: "init_counter s' key nkey m 0 flags = Some s4" "get_item s4 m = Some it4"
            "it_flags it4 = f" "copy_val s4 m 0 (sprintf_u64 nv) (length (sprintf_u64 nv)) = Some s5"
            "implements s5 (a_push (absg s' g') c \<lparr>e_key = K, e_val = counter_text nv, e_flags = f\<rparr>)"
            "conf_of s5 = conf_of s'"
          using new_counter [OF T(2) n K_def got(6,8-12,16,17) small tb, where flags = flags and old_flags = 0 and v = nv]
          unfolding f_def by blast
        have run: "shmc_arithmetic s key nkey val incr flags
            = Some (SHMC_OK, Some (nv, map_option (\<lambda>_. f) flags), s5)"
          using absent(1) dc got(4) T(1) q(1-4)
          by (simp add: shmc_arithmetic_def counter_item_def nv_def [symmetric] Let_def)
        then show ?thesis
          using absent(3,4,6) g(2) True got(1-3) q(5,6) T(3)
          by (simp add: a_arith_def Let_def kl nv_def [symmetric] f_def [symmetric] K_def [symmetric])
      qed
    qed
  qed
qed

end
