(* ===== verification/Dictionary.thy ===== *)
theory Dictionary
  imports Counter_Refinement
begin

text \<open>
  The abstract store as a dictionary: the map from keys to values and flags that lookups see.
  Each operation is an update of this map; taking a chunk may drop the entry that was used least
  recently in the class.
\<close>

lemma not_in_imageD: "y \<notin> f ` S \<Longrightarrow> x \<in> S \<Longrightarrow> f x \<noteq> y"
  by blast

section \<open>Well-formed stores\<close>

definition a_wf :: "conf \<Rightarrow> astore \<Rightarrow> bool" where
  "a_wf cf A \<longleftrightarrow>
     (\<forall>c. distinct (map e_key (a_lru A c)))
     \<and> (\<forall>c d. c \<noteq> d \<longrightarrow> e_key ` set (a_lru A c) \<inter> e_key ` set (a_lru A d) = {})
     \<and> (\<forall>c. length (cf_sizes cf) \<le> c \<longrightarrow> a_lru A c = [])
     \<and> (\<forall>c. \<forall>e \<in> set (a_lru A c). class_for cf (size_for (length (e_key e)) (length (e_val e))) = Some c)"

lemma a_wfD:
  assumes "a_wf cf A"
  shows "distinct (map e_key (a_lru A c))"
    "c \<noteq> d \<Longrightarrow> e_key ` set (a_lru A c) \<inter> e_key ` set (a_lru A d) = {}"
    "length (cf_sizes cf) \<le> c \<Longrightarrow> a_lru A c = []"
    "e \<in> set (a_lru A c) \<Longrightarrow> class_for cf (size_for (length (e_key e)) (length (e_val e))) = Some c"
  using assms unfolding a_wf_def by blast+

lemma implements_wf:
  assumes "implements s A"
  shows "a_wf (conf_of s) A"
proof -
  obtain g where g: "inv_held s g {}" "A = absg s g" using implementsE [OF assms] .
  note L = inv_heldD(1) [OF g(1)]
  have "distinct (map e_key (a_lru A c))" for c
    using layout_list_distinct(1) [OF L, of c] key_unique [OF g(1)]
    by (auto simp: g(2) distinct_map inj_on_def)
  moreover have "e_key ` set (a_lru A c) \<inter> e_key ` set (a_lru A d) = {}" if "c \<noteq> d" for c d
    using key_unique [OF g(1)] layout_disjoint(1) [OF L that] by (force simp: g(2))
  moreover have "a_lru A c = []" if "length (cf_sizes (conf_of s)) \<le> c" for c
    using layoutD(6) [OF L, of c] that by (simp add: g(2))
  moreover have "class_for (conf_of s) (size_for (length (e_key e)) (length (e_val e))) = Some c"
    if e: "e \<in> set (a_lru A c)" for e c
  proof -
    obtain a where a: "a \<in> set (g_lru g c)" "e = entry_at s a" using e by (auto simp: g(2))
    obtain it where it: "good_item (slabs s) c it" "it_nkey it + it_nval it \<le> length (it_end it)" "entry_at s a = entry_of it"
      using inv_held_heap [OF g(1) a(1)] by metis
    have n: "sizeof_item + it_nkey it + it_nval it < 2 ^ 64" using it(1) by (simp add: good_item_def)
    then have "item_clsid s (it_nkey it) (it_nval it) = Some c"
      using it(1) by (simp add: item_clsid_def item_total_eq good_item_def)
    then show ?thesis
      using item_clsid_class_for [OF n, of s] entry_nkey [OF it(2,1)] a(2) it(3) by simp
  qed
  ultimately show ?thesis unfolding a_wf_def by blast
qed

lemma a_find_iff:
  assumes "a_wf cf A"
  shows "a_find cf A k = Some (c, e) \<longleftrightarrow> e \<in> set (a_lru A c) \<and> e_key e = k"
proof
  assume "a_find cf A k = Some (c, e)"
  from find_SomeD [OF this [unfolded a_find_def]] show "e \<in> set (a_lru A c) \<and> e_key e = k" by auto
next
  assume e: "e \<in> set (a_lru A c) \<and> e_key e = k"
  then have c: "c < length (cf_sizes cf)" using a_wfD(3) [OF assms, of c] by (cases "c < length (cf_sizes cf)") auto
  show "a_find cf A k = Some (c, e)"
    unfolding a_find_def
  proof (rule find_unique)
    fix y assume y: "y \<in> set (concat (map (\<lambda>c. map (Pair c) (a_lru A c)) [0..<length (cf_sizes cf)]))"
      "case y of (c, e) \<Rightarrow> e_key e = k"
    then obtain d e' where d: "y = (d, e')" "e' \<in> set (a_lru A d)" "e_key e' = k" by auto
    then have "d = c" using a_wfD(2) [OF assms, of d c] e by (cases "d = c") auto
    moreover have "e' = e"
      using a_wfD(1) [OF assms, of c] d e calculation by (auto simp: distinct_map inj_on_def)
    ultimately show "y = (c, e)" using d(1) by simp
  qed (use c e in auto)
qed

section \<open>The dictionary\<close>

definition dict :: "conf \<Rightarrow> astore \<Rightarrow> byte list \<Rightarrow> (byte list \<times> u32) option" where
  "dict cf A k = map_option (\<lambda>(c, e). (e_val e, e_flags e)) (a_find cf A k)"

lemma dict_iff:
  "a_wf cf A \<Longrightarrow> dict cf A k = Some (v, f) \<longleftrightarrow>
     (\<exists>c e. e \<in> set (a_lru A c) \<and> e_key e = k \<and> e_val e = v \<and> e_flags e = f)"
  by (auto simp: dict_def a_find_iff intro: exI)

lemma dict_eqI:
  assumes "\<And>k v f. dict cf A k = Some (v, f) \<longleftrightarrow> m k = Some (v, f)"
  shows "dict cf A = m"
proof (rule ext)
  fix k show "dict cf A k = m k"
    using assms [of k] by (cases "dict cf A k"; cases "m k") auto
qed

text \<open>Only the entries count.\<close>

lemma dict_cong: "(\<And>c. a_lru A' c = a_lru A c) \<Longrightarrow> dict cf A' = dict cf A"
  by (simp add: fun_eq_iff dict_def a_find_def)

lemma a_wf_cong: "(\<And>c. a_lru A' c = a_lru A c) \<Longrightarrow> a_wf cf A' = a_wf cf A"
  by (simp add: a_wf_def)

text \<open>Taking entries out of a class.\<close>

lemma a_wf_fewer:
  assumes "a_wf cf A" and "distinct (map e_key es)" and "set es \<subseteq> set (a_lru A c)"
  shows "a_wf cf (set_lru A c es)"
proof -
  note W = a_wfD [OF assms(1)]
  have sub: "set (a_lru (set_lru A c es) d) \<subseteq> set (a_lru A d)" for d using assms(3) by simp
  have "distinct (map e_key (a_lru (set_lru A c es) d))" for d using W(1) assms(2) by simp
  moreover have "e_key ` set (a_lru (set_lru A c es) d) \<inter> e_key ` set (a_lru (set_lru A c es) d') = {}" if "d \<noteq> d'" for d d'
    using W(2) [OF that] sub [of d] sub [of d'] by blast
  moreover have "a_lru (set_lru A c es) d = []" if "length (cf_sizes cf) \<le> d" for d
    using W(3) [OF that] sub [of d] by simp
  moreover have "\<forall>e \<in> set (a_lru (set_lru A c es) d). class_for cf (size_for (length (e_key e)) (length (e_val e))) = Some d" for d
    using W(4) sub [of d] by blast
  ultimately show ?thesis unfolding a_wf_def by blast
qed

lemma dict_fewer:
  assumes wf: "a_wf cf A" and es: "distinct (map e_key es)" "set es = {e \<in> set (a_lru A c). e_key e \<noteq> k}"
    and k: "k \<in> e_key ` set (a_lru A c)"
  shows "dict cf (set_lru A c es) = (dict cf A)(k := None)"
proof (rule dict_eqI)
  fix k' v f
  have wf': "a_wf cf (set_lru A c es)" by (rule a_wf_fewer [OF wf es(1)]) (use es(2) in blast)
  have out: "e_key e \<noteq> k" if "e \<in> set (a_lru A d)" "d \<noteq> c" for e d
    using a_wfD(2) [OF wf that(2)] that(1) k by blast
  have "(\<exists>d e. e \<in> set (a_lru (set_lru A c es) d) \<and> e_key e = k' \<and> e_val e = v \<and> e_flags e = f)
    \<longleftrightarrow> k' \<noteq> k \<and> (\<exists>d e. e \<in> set (a_lru A d) \<and> e_key e = k' \<and> e_val e = v \<and> e_flags e = f)"
    using es(2) out by (auto split: if_splits) metis+
  then show "dict cf (set_lru A c es) k' = Some (v, f) \<longleftrightarrow> ((dict cf A)(k := None)) k' = Some (v, f)"
    by (simp add: dict_iff [OF wf] dict_iff [OF wf'])
qed

lemma remove_facts:
  assumes "a_wf cf A" and "a_find cf A k = Some (c, e)"
  shows "a_wf cf (a_remove A c k)" "dict cf (a_remove A c k) = (dict cf A)(k := None)"
proof -
  have d: "distinct (map e_key (without k (a_lru A c)))"
    using a_wfD(1) [OF assms(1), of c] by (simp add: without_def distinct_map_filter)
  show "a_wf cf (a_remove A c k)"
    unfolding a_remove_def by (rule a_wf_fewer [OF assms(1) d]) (auto simp: without_def)
  show "dict cf (a_remove A c k) = (dict cf A)(k := None)"
    unfolding a_remove_def
    by (rule dict_fewer [OF assms(1) d]) (use assms in \<open>auto simp: without_def a_find_iff\<close>)
qed

lemma butlast_facts:
  assumes "a_wf cf A" and "a_lru A c \<noteq> []"
  shows "a_wf cf (set_lru A c (butlast (a_lru A c)))"
    "dict cf (set_lru A c (butlast (a_lru A c))) = (dict cf A)(e_key (last (a_lru A c)) := None)"
proof -
  define bs l where "bs = butlast (a_lru A c)" and "l = last (a_lru A c)"
  have es: "a_lru A c = bs @ [l]" using assms(2) by (simp add: bs_def l_def)
  have d: "distinct (map e_key (bs @ [l]))" using a_wfD(1) [OF assms(1), of c] es by simp
  then have db: "distinct (map e_key bs)" and nin: "e_key l \<notin> e_key ` set bs" by auto
  from nin have l: "\<forall>x \<in> set bs. e_key x \<noteq> e_key l" by (metis imageI)
  show "a_wf cf (set_lru A c (butlast (a_lru A c)))"
    unfolding bs_def [symmetric] by (rule a_wf_fewer [OF assms(1) db]) (auto simp: es)
  show "dict cf (set_lru A c (butlast (a_lru A c))) = (dict cf A)(e_key (last (a_lru A c)) := None)"
    unfolding bs_def [symmetric] l_def [symmetric]
    by (rule dict_fewer [OF assms(1) db]) (use l in \<open>auto simp: es\<close>)
qed

text \<open>Putting an entry in front of its class.\<close>

lemma push_facts:
  assumes wf: "a_wf cf A" and new: "dict cf A (e_key e) = None"
    and c: "class_for cf (size_for (length (e_key e)) (length (e_val e))) = Some c"
  shows "a_wf cf (a_push A c e)" "dict cf (a_push A c e) = (dict cf A)(e_key e \<mapsto> (e_val e, e_flags e))"
proof -
  note W = a_wfD [OF wf]
  have absent: "e_key e \<notin> e_key ` set (a_lru A d)" for d
    using new dict_iff [OF wf, of "e_key e"] by (metis imageE option.distinct(1))
  have cl: "c < length (cf_sizes cf)" using c by (auto simp: class_for_def Let_def split: if_splits)
  have lru: "a_lru (a_push A c e) d = (if d = c then e # a_lru A c else a_lru A d)" for d by (simp add: a_push_def)
  have "distinct (map e_key (a_lru (a_push A c e) d))" for d using W(1) absent by (auto simp: lru)
  moreover have "e_key ` set (a_lru (a_push A c e) d) \<inter> e_key ` set (a_lru (a_push A c e) d') = {}" if "d \<noteq> d'" for d d'
    using W(2) [OF that] absent [of d] absent [of d'] that by (auto simp: lru split: if_splits)
  moreover have "a_lru (a_push A c e) d = []" if "length (cf_sizes cf) \<le> d" for d
    using W(3) [OF that] that cl by (simp add: lru)
  moreover have "\<forall>x \<in> set (a_lru (a_push A c e) d). class_for cf (size_for (length (e_key x)) (length (e_val x))) = Some d" for d
    using W(4) [of _ d] c by (auto simp: lru)
  ultimately show wf': "a_wf cf (a_push A c e)" unfolding a_wf_def by blast
  show "dict cf (a_push A c e) = (dict cf A)(e_key e \<mapsto> (e_val e, e_flags e))"
  proof (rule dict_eqI)
    fix k v f
    have "(\<exists>d x. x \<in> set (a_lru (a_push A c e) d) \<and> e_key x = k \<and> e_val x = v \<and> e_flags x = f)
      \<longleftrightarrow> (if k = e_key e then v = e_val e \<and> f = e_flags e
           else (\<exists>d x. x \<in> set (a_lru A d) \<and> e_key x = k \<and> e_val x = v \<and> e_flags x = f))"
    proof (cases "k = e_key e")
      case True
      have "x = e" if "x \<in> set (a_lru (a_push A c e) d)" "e_key x = k" for x d
        using that True absent [THEN not_in_imageD] by (auto simp: lru split: if_splits)
      moreover have "e \<in> set (a_lru (a_push A c e) c)" by (simp add: lru)
      ultimately show ?thesis using True by auto
    next
      case False
      then have "x \<in> set (a_lru (a_push A c e) d) \<and> e_key x = k \<longleftrightarrow> x \<in> set (a_lru A d) \<and> e_key x = k" for x d
        by (auto simp: lru)
      then show ?thesis using False by metis
    qed
    then show "dict cf (a_push A c e) k = Some (v, f) \<longleftrightarrow>
        ((dict cf A)(e_key e \<mapsto> (e_val e, e_flags e))) k = Some (v, f)"
      by (auto simp: dict_iff [OF wf] dict_iff [OF wf'])
  qed
qed

section \<open>What eviction takes away\<close>

definition evicted :: "conf \<Rightarrow> nat \<Rightarrow> astore \<Rightarrow> byte list option" where
  "evicted cf c A = (if evicts cf c A then Some (e_key (last (a_lru A c))) else None)"

definition forget :: "byte list option \<Rightarrow> (byte list \<Rightarrow> 'a option) \<Rightarrow> byte list \<Rightarrow> 'a option" where
  "forget ko m = (case ko of None \<Rightarrow> m | Some k \<Rightarrow> m(k := None))"

lemma forget_simps [simp]: "forget None m = m" "forget (Some k) m = m(k := None)"
  by (simp_all add: forget_def)

lemma a_take_cases:
  assumes "a_take cf c A = Some (fl, A')"
  shows "(evicts cf c A \<and> a_lru A c \<noteq> [] \<and> A' = set_lru A c (butlast (a_lru A c)))
    \<or> (\<not> evicts cf c A \<and> (\<forall>d. a_lru A' d = a_lru A d))"
proof (cases "a_free A c")
  case (Cons f fs)
  then show ?thesis using assms by (auto simp: a_take_def evicts_def)
next
  case Nil
  show ?thesis
  proof (cases "can_cut cf c A")
    case True
    then show ?thesis using assms Nil by (auto simp: a_take_def evicts_def split: nat.splits)
  next
    case False
    then show ?thesis using assms Nil by (auto simp: a_take_def evicts_def split: if_splits)
  qed
qed

lemma take_facts:
  assumes "a_wf cf A" and "a_take cf c A = Some (fl, A')"
  shows "a_wf cf A'" "dict cf A' = forget (evicted cf c A) (dict cf A)"
  using a_take_cases [OF assms(2)] butlast_facts [OF assms(1), of c] a_wf_cong [of A' A cf]
    dict_cong [of A' A cf] assms(1)
  by (auto simp: evicted_def)

text \<open>A store that refuses to give a chunk is unchanged.\<close>

lemma release_facts [simp]: "dict cf (a_release A c f) = dict cf A" "a_wf cf (a_release A c f) = a_wf cf A"
  by (rule dict_cong a_wf_cong, simp add: a_release_def)+

section \<open>The operations on the dictionary\<close>

lemma a_find_None_iff: "a_find cf A k = None \<longleftrightarrow> dict cf A k = None"
  by (simp add: dict_def)

lemma a_find_dict: "a_find cf A k = Some (c, e) \<Longrightarrow> dict cf A k = Some (e_val e, e_flags e)"
  by (simp add: dict_def)

lemma del_facts:
  assumes "a_wf cf A"
  shows "a_wf cf (snd (a_del cf A k))" "dict cf (snd (a_del cf A k)) = (dict cf A)(k := None)"
proof -
  show "a_wf cf (snd (a_del cf A k))"
    using assms remove_facts(1) [OF assms] find_SomeD
    by (auto simp: a_del_def a_drop_def a_find_iff split: option.split)
  show "dict cf (snd (a_del cf A k)) = (dict cf A)(k := None)"
  proof (cases "a_find cf A k")
    case None
    then have "dict cf A k = None" by (simp add: a_find_None_iff)
    with None show ?thesis by (simp add: a_del_def fun_upd_idem)
  next
    case (Some p)
    then obtain c e where p: "a_find cf A k = Some (c, e)" by (cases p) simp
    then have "e_key e = k" using a_find_iff [OF assms] by blast
    then show ?thesis using p remove_facts(2) [OF assms] by (simp add: a_del_def a_drop_def)
  qed
qed

text \<open>The store a new item of class \<open>c\<close> is pushed into, and what the dictionary is then.\<close>

lemma insert_facts:
  assumes wf: "a_wf cf A" and t: "a_take cf c A = Some (fl, A')" and k: "dict cf A k = None"
    and c: "class_for cf (size_for (length k) (length v)) = Some c"
  shows "a_wf cf (a_push A' c \<lparr>e_key = k, e_val = v, e_flags = f\<rparr>)"
    "dict cf (a_push A' c \<lparr>e_key = k, e_val = v, e_flags = f\<rparr>) = (forget (evicted cf c A) (dict cf A))(k \<mapsto> (v, f))"
proof -
  note T = take_facts [OF wf t]
  have "dict cf A' k = None" using k T(2) by (cases "evicted cf c A") simp_all
  then show "a_wf cf (a_push A' c \<lparr>e_key = k, e_val = v, e_flags = f\<rparr>)"
    "dict cf (a_push A' c \<lparr>e_key = k, e_val = v, e_flags = f\<rparr>) = (forget (evicted cf c A) (dict cf A))(k \<mapsto> (v, f))"
    using push_facts [OF T(1), of "\<lparr>e_key = k, e_val = v, e_flags = f\<rparr>" c] c T(2) by simp_all
qed

text \<open>The victim of \<open>set\<close>: after the old entry of the key is gone.\<close>

definition set_victim :: "conf \<Rightarrow> astore \<Rightarrow> byte list \<Rightarrow> byte list \<Rightarrow> byte list option" where
  "set_victim cf A k v = (case class_for cf (size_for (length k) (length v)) of
     None \<Rightarrow> None | Some c \<Rightarrow> evicted cf c (snd (a_del cf A k)))"

lemma set_facts:
  assumes wf: "a_wf cf A" and r: "a_set cf A k v f = Some (rc, A')"
  shows "(rc = SHMC_ESIZE \<and> \<not> size_ok cf (size_for (length k) (length v)) \<and> A' = A)
    \<or> (rc = SHMC_NOMEMORY \<and> dict cf A' = (dict cf A)(k := None))
    \<or> (rc = SHMC_OK \<and> dict cf A' = (forget (set_victim cf A k v) ((dict cf A)(k := None)))(k \<mapsto> (v, f)))"
proof (cases "size_ok cf (size_for (length k) (length v))")
  case False
  then show ?thesis using r by (simp add: a_set_def)
next
  case True
  define B where "B = snd (a_del cf A k)"
  note D = del_facts [OF wf, of k, folded B_def]
  obtain c where c: "class_for cf (size_for (length k) (length v)) = Some c"
    and t: "(case a_take cf c B of None \<Rightarrow> Some (SHMC_NOMEMORY, B)
       | Some (stale, A) \<Rightarrow> Some (SHMC_OK, a_push A c \<lparr>e_key = k, e_val = v, e_flags = f\<rparr>)) = Some (rc, A')"
    using r True by (auto simp: a_set_def Let_def B_def [symmetric] split: Option.bind_splits)
  show ?thesis
  proof (cases "a_take cf c B")
    case None
    then show ?thesis using t D(2) by simp
  next
    case (Some p)
    then obtain fl B' where p: "a_take cf c B = Some (fl, B')" by (cases p) simp
    have k: "dict cf B k = None" by (simp add: D(2))
    show ?thesis
      using t p insert_facts(2) [OF D(1) p k c, of f] D(2) c by (auto simp: set_victim_def B_def)
  qed
qed

lemma touch_facts:
  assumes wf: "a_wf cf A" and k: "a_find cf A k = Some (c, e)"
    and c: "class_for cf (size_for (length k) (length v)) = Some c"
  shows "dict cf (a_touch A c \<lparr>e_key = k, e_val = v, e_flags = f\<rparr>) = (dict cf A)(k \<mapsto> (v, f))"
proof -
  note R = remove_facts [OF wf k]
  have "a_touch A c \<lparr>e_key = k, e_val = v, e_flags = f\<rparr> = a_push (a_remove A c k) c \<lparr>e_key = k, e_val = v, e_flags = f\<rparr>"
    by (simp add: a_touch_def a_push_def a_remove_def)
  then show ?thesis using push_facts(2) [OF R(1), of "\<lparr>e_key = k, e_val = v, e_flags = f\<rparr>" c] R(2) c by simp
qed

lemma touch_same:
  assumes wf: "a_wf cf A" and k: "a_find cf A k = Some (c, e)"
  shows "dict cf (a_touch A c e) = dict cf A"
proof -
  have e: "e \<in> set (a_lru A c)" "e_key e = k" using k by (simp_all add: a_find_iff [OF wf])
  have eq: "\<lparr>e_key = k, e_val = e_val e, e_flags = e_flags e\<rparr> = e" using e(2) by (cases e) simp
  then have "dict cf (a_touch A c e) = (dict cf A)(k \<mapsto> (e_val e, e_flags e))"
    using touch_facts [OF wf k, of "e_val e" "e_flags e"] a_wfD(4) [OF wf e(1)] e(2) by (simp add: eq)
  then show ?thesis using a_find_dict [OF k] by (simp add: fun_upd_idem)
qed

text \<open>Replace, and extension by any \<open>join\<close>.\<close>

lemma drop_facts:
  assumes "a_wf cf A" and "a_find cf A k = Some (c, e)"
  shows "a_wf cf (a_drop A c e)" "dict cf (a_drop A c e) = (dict cf A)(k := None)"
proof -
  have "e_key e = k" using assms by (simp add: a_find_iff)
  then show "a_wf cf (a_drop A c e)" "dict cf (a_drop A c e) = (dict cf A)(k := None)"
    using remove_facts [OF assms] by (simp_all add: a_drop_def)
qed

lemma grow_facts:
  assumes wf: "a_wf cf A" and k: "a_find cf A k = Some (c, e)" and r: "a_grow cf A k join f = Some (rc, A')"
  shows "(rc \<noteq> SHMC_OK \<and> A' = A) \<or> (rc = SHMC_OK \<and>
    (\<exists>c' f'. class_for cf (size_for (length k) (length (join (e_val e)))) = Some c' \<and> (c' = c \<longrightarrow> f' = f)
      \<and> dict cf A' = ((if c' = c then dict cf A else forget (evicted cf c' A) (dict cf A)))(k \<mapsto> (join (e_val e), f'))))"
proof -
  define v where "v = join (e_val e)"
  obtain c' where c': "class_for cf (size_for (length k) (length v)) = Some c'"
    using r k by (auto simp: a_grow_def Let_def v_def split: Option.bind_splits)
  note e = k [unfolded a_find_iff [OF wf]]
  show ?thesis
  proof (cases "c = c'")
    case True
    then have "rc = SHMC_OK" "A' = a_touch A c \<lparr>e_key = k, e_val = v, e_flags = f\<rparr>"
      using r k c' by (simp_all add: a_grow_def Let_def v_def)
    then show ?thesis using touch_facts [OF wf k, of v f] c' True by (auto simp: v_def)
  next
    case ne: False
    show ?thesis
    proof (cases "size_ok cf (size_for (length k) (length v)) \<and> a_take cf c' A \<noteq> None")
      case False
      then have "rc \<noteq> SHMC_OK \<and> A' = A"
        using r k c' ne by (cases "a_take cf c' A") (auto simp: a_grow_def Let_def v_def [symmetric] split: if_splits)
      then show ?thesis by blast
    next
      case True
      then obtain fl B where t: "a_take cf c' A = Some (fl, B)" by auto
      have r': "rc = SHMC_OK" "A' = a_release (a_push (a_remove B c k) c' \<lparr>e_key = k, e_val = v, e_flags = fl\<rparr>) c f"
        using r k c' ne True t by (simp_all add: a_grow_def Let_def v_def [symmetric])
      note T = take_facts [OF wf t]
      have "a_lru B c = a_lru A c" using a_take_cases [OF t] ne by auto
      then have kB: "a_find cf B k = Some (c, e)" using e by (simp add: a_find_iff [OF T(1)])
      note R = remove_facts [OF T(1) kB]
      have "dict cf A' = (forget (evicted cf c' A) (dict cf A))(k \<mapsto> (v, fl))"
        using push_facts(2) [OF R(1), of "\<lparr>e_key = k, e_val = v, e_flags = fl\<rparr>" c'] R(2) T(2) c' r'(2) by simp
      then show ?thesis using r'(1) c' ne by (auto simp: v_def)
    qed
  qed
qed

end
