(* ===== verification/Segment.thy ===== *)
theory Segment
  imports Store
begin

text \<open>
  The token file and its mapping: \<open>size_of_mmap\<close>, \<open>format_mmap\<close>, \<open>mmap_create\<close>,
  \<open>mmap_attach\<close>, \<open>shmc_init\<close> and \<open>shmc_destroy\<close> of \<open>shmc.c\<close>. The answers of the operating
  system that the code cannot foresee (memory, permissions, addresses) are the fields of a
  record \<open>sys\<close>; a file is known by what the library put into it.
\<close>

section \<open>The areas of the segment\<close>

definition sizeof_version :: nat where "sizeof_version = 4"
definition sizeof_attr :: nat where "sizeof_attr = 72"
definition sizeof_rwlock :: nat where "sizeof_rwlock = 56"
definition sizeof_mutex :: nat where "sizeof_mutex = 40"
definition sizeof_pointer :: nat where "sizeof_pointer = 8"
definition sizeof_slab :: nat where "sizeof_slab = 24"

lemmas sizeof_simps = sizeof_version_def sizeof_attr_def sizeof_rwlock_def sizeof_mutex_def
  sizeof_pointer_def sizeof_slab_def

definition size_of_mmap :: "attr \<Rightarrow> nat \<Rightarrow> nat" where
  "size_of_mmap a n =
     (let sz = 0;
          sz = size_add sz sizeof_version;
          sz = size_add sz sizeof_attr;
          sz = size_add sz sizeof_rwlock;
          sz = size_add sz sizeof_mutex;
          sz = size_add sz (sizeof_pointer * n);
          sz = size_add sz (sizeof_pointer * n);
          sz = size_add sz (sizeof_pointer * nbuckets a);
          sz = size_add sz (sizeof_slab * n);
          sz = size_add sz (mem_limit a)
      in sz)"

text \<open>The pointers of a \<open>shmc_t\<close>.\<close>

record handle =
  p_version :: nat
  p_attr :: nat
  p_lock :: nat
  p_mutex :: nat
  p_heads :: nat
  p_tails :: nat
  p_buckets :: nat
  p_slabs :: nat
  p_raw :: nat

definition format_mmap :: "nat \<Rightarrow> nat \<Rightarrow> nat \<Rightarrow> handle" where
  "format_mmap p nb n =
     (let version = p;
          attrp = version + sizeof_version;
          lock = attrp + sizeof_attr;
          mutex = lock + sizeof_rwlock;
          hds = mutex + sizeof_mutex;
          tls = hds + sizeof_pointer * n;
          bkts = tls + sizeof_pointer * n;
          sls = bkts + sizeof_pointer * nb;
          rw = sls + sizeof_slab * n
      in \<lparr>p_version = version, p_attr = attrp, p_lock = lock, p_mutex = mutex, p_heads = hds,
          p_tails = tls, p_buckets = bkts, p_slabs = sls, p_raw = rw\<rparr>)"

section \<open>Files and the operating system\<close>

text \<open>
  The token file: \<open>Zeroed n\<close> is \<open>n\<close> zero bytes (a file just created or extended by
  \<open>ftruncate\<close>); \<open>Image v s\<close> holds a version word and the segment behind it, whose \<open>base\<close> has
  no meaning in the file.
\<close>

datatype tokfile = Zeroed nat | Image nat shmc

type_synonym files = "string \<Rightarrow> tokfile option"

record sys =
  malloc_works :: bool
  open_works :: bool
  ftruncate_works :: bool
  first_map :: "nat option"
  second_map :: "nat option"

definition SHMC_VERSION :: nat where "SHMC_VERSION = 10101012"

definition shmc_version :: nat where "shmc_version = SHMC_VERSION"

text \<open>
  The handle and the segment seen through it: the arrays are those of the file, \<open>base\<close> is
  where the file is mapped.
\<close>

definition view :: "handle \<Rightarrow> shmc \<Rightarrow> shmc" where
  "view h s = s\<lparr>base := p_version h, raw := p_raw h - p_version h\<rparr>"

text \<open>A segment of zero bytes with the attributes copied in.\<close>

definition fresh_segment :: "handle \<Rightarrow> attr \<Rightarrow> nat \<Rightarrow> shmc" where
  "fresh_segment h a n =
     \<lparr>base = p_version h, attrs = a\<lparr>slabs_count := n\<rparr>,
      heads = replicate n 0, tails = replicate n 0,
      buckets = replicate (nbuckets a) 0,
      slabs = replicate n \<lparr>free_item = 0, slab_size = 0, slab_count = 0\<rparr>,
      raw = p_raw h - p_version h, heap = Map.empty\<rparr>"

text \<open>
  \<open>mmap_create\<close>: \<open>O_CREAT | O_EXCL\<close> fails with \<open>EEXIST\<close> on a file that exists. A later failure
  leaves the file behind. The failing \<open>assert\<close> of \<open>format_slabs\<close> ends the process: \<open>None\<close>.
\<close>

definition mmap_create :: "sys \<Rightarrow> files \<Rightarrow> string \<Rightarrow> attr \<Rightarrow> (shmc_rc \<times> shmc option \<times> files) option" where
  "mmap_create os fs token a =
     (if fs token \<noteq> None then Some (SHMC_ECREATE, None, fs)
      else if \<not> open_works os then Some (SHMC_SYSTEM, None, fs)
      else do {
        n \<leftarrow> count_of_slabs a;
        let sz = size_of_mmap a n;
        if \<not> ftruncate_works os then Some (SHMC_SYSTEM, None, fs(token \<mapsto> Zeroed 0))
        else (case first_map os of
          None \<Rightarrow> Some (SHMC_SYSTEM, None, fs(token \<mapsto> Zeroed sz))
        | Some p \<Rightarrow> do {
            let h = format_mmap p (nbuckets a) n;
            s \<leftarrow> format_slabs (fresh_segment h a n) n;
            Some (SHMC_OK, Some s, fs(token \<mapsto> Image SHMC_VERSION s))
          })
      })"

text \<open>
  \<open>mmap_attach\<close>: the version word is read through a first mapping; reading it from an empty file
  is a bus error.
\<close>

definition mmap_attach :: "sys \<Rightarrow> files \<Rightarrow> string \<Rightarrow> (shmc_rc \<times> shmc option \<times> files) option" where
  "mmap_attach os fs token =
     (case fs token of
        None \<Rightarrow> Some (SHMC_ETOKEN, None, fs)
      | Some f \<Rightarrow>
          if \<not> open_works os then Some (SHMC_SYSTEM, None, fs)
          else if first_map os = None then Some (SHMC_SYSTEM, None, fs)
          else (case f of
            Zeroed len \<Rightarrow> do { guard (len \<noteq> 0); Some (SHMC_EVERSION, None, fs) }
          | Image v s \<Rightarrow>
              if v \<noteq> SHMC_VERSION then Some (SHMC_EVERSION, None, fs)
              else do {
                n \<leftarrow> count_of_slabs (attrs s);
                (case second_map os of
                   None \<Rightarrow> Some (SHMC_SYSTEM, None, fs)
                 | Some p \<Rightarrow> Some (SHMC_OK, Some (view (format_mmap p (nbuckets (attrs s)) n) s), fs))
              }))"

text \<open>The setters of \<open>shmc.h\<close>.\<close>

definition shmc_attr_set_mem_limit :: "nat \<Rightarrow> attr \<Rightarrow> attr" where
  "shmc_attr_set_mem_limit limit a = a\<lparr>mem_limit := limit\<rparr>"

definition shmc_attr_set_nbuckets :: "nat \<Rightarrow> attr \<Rightarrow> attr" where
  "shmc_attr_set_nbuckets n a = a\<lparr>nbuckets := n\<rparr>"

definition shmc_attr_set_mode :: "nat \<Rightarrow> attr \<Rightarrow> attr" where
  "shmc_attr_set_mode m a = a\<lparr>mode := m\<rparr>"

definition shmc_attr_set_item_size_min :: "nat \<Rightarrow> attr \<Rightarrow> attr" where
  "shmc_attr_set_item_size_min m a = a\<lparr>item_size_min := m\<rparr>"

definition shmc_attr_set_item_size_max :: "nat \<Rightarrow> attr \<Rightarrow> attr" where
  "shmc_attr_set_item_size_max m a = a\<lparr>item_size_max := m\<rparr>"

definition shmc_attr_set_item_size_factor :: "f32 \<Rightarrow> attr \<Rightarrow> attr" where
  "shmc_attr_set_item_size_factor f a = a\<lparr>item_size_factor := f\<rparr>"

definition shmc_attr_set_evict_to_free :: "bool \<Rightarrow> attr \<Rightarrow> attr" where
  "shmc_attr_set_evict_to_free on a = a\<lparr>evict_to_free := on\<rparr>"

definition shmc_attr_set_default_counter :: "bool \<Rightarrow> attr \<Rightarrow> attr" where
  "shmc_attr_set_default_counter on a = a\<lparr>default_counter := on\<rparr>"

definition shmc_attr_use_flock :: "bool \<Rightarrow> attr \<Rightarrow> attr" where
  "shmc_attr_use_flock on a = a\<lparr>use_flock := on\<rparr>"

lemmas attr_setters = shmc_attr_set_mem_limit_def shmc_attr_set_nbuckets_def shmc_attr_set_mode_def
  shmc_attr_set_item_size_min_def shmc_attr_set_item_size_max_def shmc_attr_set_item_size_factor_def
  shmc_attr_set_evict_to_free_def shmc_attr_set_default_counter_def shmc_attr_use_flock_def

text \<open>The attributes \<open>shmc_init\<close> writes back into the caller's block.\<close>

definition at_most_1_5 :: "f32 \<Rightarrow> bool" where
  "at_most_1_5 f \<longleftrightarrow> 2 * f32_num f \<le> 3 * 2 ^ f32_scale f"

definition fix_attr :: "attr \<Rightarrow> attr" where
  "fix_attr a =
     (let a = a\<lparr>mem_used := 0, slabs_count := 0, max_depth := 0, nitems := 0\<rparr> in
      if at_most_1_5 (item_size_factor a) then a\<lparr>item_size_factor := F32 3 1\<rparr> else a)"

definition shmc_init :: "sys \<Rightarrow> files \<Rightarrow> string \<Rightarrow> attr option \<Rightarrow> (shmc_rc \<times> shmc option \<times> files) option" where
  "shmc_init os fs token attr =
     (if \<not> malloc_works os then Some (SHMC_SYSTEM, None, fs)
      else (case attr of
        Some a \<Rightarrow> mmap_create os fs token (fix_attr a)
      | None \<Rightarrow> mmap_attach os fs token))"

text \<open>
  \<open>shmc_destroy\<close>: \<open>msync\<close> with \<open>MS_SYNC\<close> and \<open>munmap\<close>, of exactly the size mapped; what the file
  then holds is the segment as the handle saw it.
\<close>

definition shmc_destroy :: "files \<Rightarrow> string \<Rightarrow> shmc \<Rightarrow> nat \<times> files" where
  "shmc_destroy fs token s =
     (size_of_mmap (attrs s) (slabs_count (attrs s)), fs(token \<mapsto> Image SHMC_VERSION s))"

section \<open>The areas are disjoint and fill the mapping\<close>

text \<open>The length of each area, in the order of \<open>format_mmap\<close>.\<close>

definition areas :: "handle \<Rightarrow> attr \<Rightarrow> nat \<Rightarrow> (nat \<times> nat) list" where
  "areas h a n =
     [(p_version h, sizeof_version), (p_attr h, sizeof_attr), (p_lock h, sizeof_rwlock),
      (p_mutex h, sizeof_mutex), (p_heads h, sizeof_pointer * n), (p_tails h, sizeof_pointer * n),
      (p_buckets h, sizeof_pointer * nbuckets a), (p_slabs h, sizeof_slab * n), (p_raw h, mem_limit a)]"

definition header_size :: "nat \<Rightarrow> nat \<Rightarrow> nat" where
  "header_size nb n = 172 + 16 * n + 8 * nb + 24 * n"

lemma size_of_mmap_eq:
  "header_size (nbuckets a) n + mem_limit a < 2 ^ 64 \<Longrightarrow>
     size_of_mmap a n = header_size (nbuckets a) n + mem_limit a"
  by (simp add: size_of_mmap_def sizeof_simps header_size_def)

lemma format_mmap_raw: "p_raw (format_mmap p nb n) = p + header_size nb n"
  by (simp add: format_mmap_def sizeof_simps header_size_def Let_def)

lemma format_mmap_base [simp]: "p_version (format_mmap p nb n) = p"
  by (simp add: format_mmap_def Let_def)

end
