(* ===== verification/Format.thy ===== *)
theory Format
  imports Segment Refine_Base
begin

text \<open>
  What \<open>format_slabs\<close> builds: the classes of the size sequence, each with one run of chunks on
  its free list. The proof follows the loop: after \<open>i\<close> rounds the first \<open>i\<close> classes form a
  well-formed empty store, and a round adds a class and cuts its run from the pool, which is the
  step \<open>item_alloc\<close> makes when it grows a class.
\<close>

section \<open>The sequence of sizes\<close>

fun size_seq :: "f32 \<Rightarrow> nat \<Rightarrow> nat \<Rightarrow> nat list option" where
  "size_seq f 0 sz = Some []"
| "size_seq f (Suc n) sz = do {
     let z = align_size sz;
     sz' \<leftarrow> scale_size f z;
     zs \<leftarrow> size_seq f n sz';
     Some (z # zs)
   }"

text \<open>The bytes \<open>format_slabs\<close> cuts from the pool.\<close>

definition pool_need :: "nat \<Rightarrow> nat list \<Rightarrow> nat" where
  "pool_need m zs = (\<Sum>z \<leftarrow> zs. z * (m div z))"

lemma pool_need_simps [simp]:
  "pool_need m [] = 0" "pool_need m (z # zs) = z * (m div z) + pool_need m zs"
  by (simp_all add: pool_need_def)

lemma pool_need_bound: "pool_need m zs \<le> length zs * m"
proof (induction zs)
  case (Cons z zs)
  have "z * (m div z) \<le> m" by simp
  with Cons show ?case by (simp add: add_mono)
qed simp

lemma size_seq_length: "size_seq f n sz = Some zs \<Longrightarrow> length zs = n"
  by (induction f n sz arbitrary: zs rule: size_seq.induct) (auto simp: Let_def split: Option.bind_splits)

text \<open>Where the counting loop makes \<open>n\<close> more rounds, the sizes of these rounds exist and increase.\<close>

lemma size_seq_of_count:
  assumes f: "factor_ok a"
  shows "3 \<le> sz \<Longrightarrow> count_slabs_loop a sz c = Some (c + n) \<Longrightarrow>
    \<exists>zs. size_seq (item_size_factor a) n sz = Some zs \<and> sorted_wrt (<) zs
      \<and> (\<forall>z \<in> set zs. sz \<le> z \<and> z < item_size_max a + 8)"
proof (induction n arbitrary: sz c)
  case 0
  then show ?case by simp
next
  case (Suc n)
  let ?f = "item_size_factor a"
  have lt: "sz < item_size_max a"
    using Suc.prems(2) by (rule contrapos_pp) (simp add: count_slabs_loop.simps [of a sz c])
  then obtain r where r: "scale_size ?f (align_size sz) = Some r" "count_slabs_loop a r (Suc c) = Some (Suc c + n)"
    using Suc.prems(2) by (auto simp: count_slabs_loop.simps [of a sz c] split: Option.bind_splits)
  have ge: "sz \<le> align_size sz" "align_size sz < item_size_max a + 8"
    using align_size_ge [of sz] align_size_less [of sz] lt by linarith+
  then have gr: "align_size sz < r"
    using f scale_size_grows [of ?f "align_size sz" r] r(1) Suc.prems(1) unfolding factor_ok_def by linarith
  then obtain zs where zs: "size_seq ?f n r = Some zs" "sorted_wrt (<) zs"
      "\<forall>z \<in> set zs. r \<le> z \<and> z < item_size_max a + 8"
    using Suc.IH [OF _ r(2)] Suc.prems(1) ge(1) by force
  have "\<forall>z \<in> set zs. align_size sz < z" using zs(3) gr by auto
  then show ?case
    using r(1) zs ge by (intro exI [of _ "align_size sz # zs"]) (auto simp: Let_def)
qed

lemma count_slabs_loop_ge: "factor_ok a \<Longrightarrow> 3 \<le> sz \<Longrightarrow> count_slabs_loop a sz c = Some n \<Longrightarrow> c \<le> n"
  using count_slabs_loop_total [of a sz c] by auto

lemma size_seq_of_slabs:
  assumes "factor_ok a" and "count_of_slabs a = Some n"
  shows "\<exists>zs. size_seq (item_size_factor a) n (sizeof_item + item_size_min a) = Some zs \<and> sorted_wrt (<) zs
    \<and> (\<forall>z \<in> set zs. 64 \<le> z \<and> z < item_size_max a + 8)"
proof -
  have "sizeof_item + item_size_min a < 2 ^ 64" using assms(1) by (simp add: factor_ok_def)
  then have "count_slabs_loop a (sizeof_item + item_size_min a) 0 = Some (0 + n)"
    using assms(2) by (simp add: count_of_slabs_def)
  from size_seq_of_count [OF assms(1) _ this] show ?thesis by fastforce
qed

section \<open>The first classes of a segment\<close>

definition trunc :: "nat \<Rightarrow> shmc \<Rightarrow> shmc" where
  "trunc i s = s\<lparr>heads := take i (heads s), tails := take i (tails s), slabs := take i (slabs s)\<rparr>"

lemma trunc_fields [simp]:
  "heads (trunc i s) = take i (heads s)" "tails (trunc i s) = take i (tails s)"
  "slabs (trunc i s) = take i (slabs s)" "heap (trunc i s) = heap s" "attrs (trunc i s) = attrs s"
  "buckets (trunc i s) = buckets s" "base (trunc i s) = base s" "raw (trunc i s) = raw s"
  by (simp_all add: trunc_def)

lemma trunc_links [simp]:
  "nxt (trunc i s) = nxt s" "prv (trunc i s) = prv s" "hnx (trunc i s) = hnx s" "dat (trunc i s) = dat s"
  "csize (trunc i s) = csize s"
  by (simp_all add: fun_eq_iff nxt_def prv_def hnx_def dat_def csize_def)

lemma trunc_new_chunk: "new_chunk (trunc i s) p sz n = trunc i (new_chunk s p sz n)"
  by (simp add: new_chunk_def trunc_def)

lemma new_chunk_slabs [simp]: "slabs (new_chunk s p sz n) = slabs s"
  by (simp add: new_chunk_def)

lemma trunc_put_free: "c < i \<Longrightarrow> put_free (trunc i s) c a = map_option (trunc i) (put_free s c a)"
  by (cases "c < length (slabs s)") (simp_all add: put_free_def trunc_def take_update_swap read_at_def)

lemma carve_trunc: "c < i \<Longrightarrow> carve n p c (trunc i s) = map_option (trunc i) (carve n p c s)"
proof (induction n arbitrary: p s)
  case (Suc n)
  show ?case
  proof (cases "c < length (slabs s)")
    case True
    have "put_free (trunc i (new_chunk s p z m)) c p = map_option (trunc i) (put_free (new_chunk s p z m) c p)" for z m
      by (rule trunc_put_free [OF Suc.prems])
    moreover obtain s1 where "put_free (new_chunk s p (slab_size (slabs s ! c)) (free_item (slabs s ! c))) c p = Some s1"
      using True by simp
    ultimately show ?thesis
      using Suc True by (simp add: trunc_new_chunk del: put_free_in)
  next
    case False
    then show ?thesis by (simp add: read_at_def)
  qed
qed simp

lemma carve_frame:
  "carve n p c s = Some s' \<Longrightarrow> heads s' = heads s \<and> tails s' = tails s \<and> length (slabs s') = length (slabs s)
     \<and> attrs s' = attrs s \<and> base s' = base s \<and> raw s' = raw s \<and> buckets s' = buckets s"
proof (induction n arbitrary: p s)
  case (Suc n)
  obtain sl :: slab and s1 where 1: "put_free (new_chunk s p (slab_size sl) (free_item sl)) c p = Some s1"
      "carve n (p + slab_size sl) c s1 = Some s'"
    using Suc.prems that by (auto split: Option.bind_splits)
  have "heads s1 = heads s \<and> tails s1 = tails s \<and> length (slabs s1) = length (slabs s)
     \<and> attrs s1 = attrs s \<and> base s1 = base s \<and> raw s1 = raw s \<and> buckets s1 = buckets s"
    using 1(1) by (auto simp: put_free_def new_chunk_def split: Option.bind_splits)
  then show ?case using Suc.IH [OF 1(2)] by simp
qed simp

text \<open>One more class, still without chunks.\<close>

definition add_class :: "shmc \<Rightarrow> nat \<Rightarrow> nat \<Rightarrow> shmc" where
  "add_class s z n = s\<lparr>heads := heads s @ [0], tails := tails s @ [0],
     slabs := slabs s @ [\<lparr>free_item = 0, slab_size = z, slab_count = n\<rparr>]\<rparr>"

lemma add_class_fields [simp]:
  "heads (add_class s z n) = heads s @ [0]" "tails (add_class s z n) = tails s @ [0]"
  "slabs (add_class s z n) = slabs s @ [\<lparr>free_item = 0, slab_size = z, slab_count = n\<rparr>]"
  "heap (add_class s z n) = heap s" "attrs (add_class s z n) = attrs s"
  "buckets (add_class s z n) = buckets s" "base (add_class s z n) = base s" "raw (add_class s z n) = raw s"
  by (simp_all add: add_class_def)

lemma add_class_links [simp]:
  "nxt (add_class s z n) = nxt s" "prv (add_class s z n) = prv s" "hnx (add_class s z n) = hnx s"
  "dat (add_class s z n) = dat s" "csize (add_class s z n) = csize s"
  by (simp_all add: fun_eq_iff nxt_def prv_def hnx_def dat_def csize_def)

lemma trunc_add_class:
  assumes "i < length (slabs s)" "i < length (heads s)" "i < length (tails s)" "heads s ! i = 0" "tails s ! i = 0"
  shows "trunc (Suc i) (s\<lparr>slabs := (slabs s)[i := \<lparr>free_item = 0, slab_size = z, slab_count = n\<rparr>]\<rparr>)
    = add_class (trunc i s) z n"
  using assms by (simp add: trunc_def add_class_def take_Suc_conv_app_nth)

lemma add_class_inv:
  assumes i: "inv_held s g {}" and lru: "g_lru g = (\<lambda>_. [])"
    and z: "\<forall>j < length (slabs s). slab_size (slabs s ! j) < z" "64 \<le> z" "mem_limit (attrs s) + z * n < 2 ^ 64"
  shows "inv_held (add_class s z n) g {}"
proof -
  note I = inv_heldD [OF i]
  note lc = layout_conjuncts [OF I(1)] and D = layoutD [OF I(1)]
  let ?s = "add_class s z n" and ?k = "length (slabs s)"
  have nf: "g_free g ?k = []" using D(6) [of ?k] by simp
  have "layout ?s g {}"
    unfolding layout_def
  proof (intro conjI allI impI ballI)
    show "sorted_wrt (<) (map slab_size (slabs ?s))"
      using lc(5) z(1) by (auto simp: sorted_wrt_append in_set_conv_nth)
    show "lru_list ?s c (g_lru g c)" if "c < length (slabs ?s)" for c
    proof (cases "c = ?k")
      case True
      then show ?thesis using lc(1,2) by (simp add: lru_list_def lru dll_def nth_append)
    next
      case False
      then have "lru_list s c (g_lru g c)" "c < ?k" using D(1) [of c] that by simp_all
      then show ?thesis using lc(1,2) by (simp add: lru_list_def nth_append)
    qed
    show "free_list ?s c (g_free g c)" if "c < length (slabs ?s)" for c
    proof (cases "c = ?k")
      case True
      then show ?thesis by (simp add: free_list_def nf)
    next
      case False
      then have "free_list s c (g_free g c)" "c < ?k" using D(2) [of c] that by simp_all
      then show ?thesis by (simp add: free_list_def nth_append)
    qed
    show "bucket_list ?s b (g_bkt g b)" if "b < nbuckets (attrs ?s)" for b
      using D(3) [of b] that by (simp add: bucket_list_def)
    show "csize ?s a = Some (slab_size (slabs ?s ! c))"
      if "c < length (slabs ?s)" "a \<in> set (g_lru g c) \<union> set (g_free g c)" for c a
      using layout_class(1,2) [OF I(1) that(2)] by (simp add: nth_append)
    show "clsid_at ?s a = Some c" if "a \<in> set (g_lru g c)" for a c
      using that by (simp add: lru)
    show "g_lru g c = []" "g_free g c = []" if "length (slabs ?s) \<le> c" for c
      using D(6) [of c] that by simp_all
    show "0 \<notin> dom (heap ?s)" using lc(16) by simp
  qed (use lc D in simp_all)
  moreover have "tabled ?s g"
    by (rule tabled_cong [OF I(2)]) (simp_all add: key_at_def)
  moreover have "payload ?s g" by (simp add: payload_def lru)
  moreover have "pooled ?s" using I(5) by (simp add: pooled_def)
  moreover have "good_conf ?s" using I(6) z(2,3) by (auto simp: good_conf_def nth_append less_Suc_eq)
  ultimately show ?thesis using I(3) by (simp add: inv_held_def)
qed

section \<open>One round\<close>

definition fresh :: "nat \<Rightarrow> shmc \<Rightarrow> ghost \<Rightarrow> bool" where
  "fresh i s g \<longleftrightarrow> inv_held (trunc i s) g {} \<and> g_lru g = (\<lambda>_. []) \<and> g_bkt g = (\<lambda>_. [])
     \<and> heads s = replicate (length (slabs s)) 0 \<and> tails s = replicate (length (slabs s)) 0
     \<and> (\<forall>a. flags_at s a = 0) \<and> (\<forall>c < i. length (g_free g c) = slab_count (slabs s ! c))
     \<and> i \<le> length (slabs s)"

lemma freshD:
  assumes "fresh i s g"
  shows "inv_held (trunc i s) g {}" "g_lru g = (\<lambda>_. [])" "g_bkt g = (\<lambda>_. [])"
    "heads s = replicate (length (slabs s)) 0" "tails s = replicate (length (slabs s)) 0"
    "\<forall>a. flags_at s a = 0" "\<forall>c < i. length (g_free g c) = slab_count (slabs s ! c)" "i \<le> length (slabs s)"
  using assms unfolding fresh_def by blast+

text \<open>The state \<open>format_slabs\<close> carves in: the class is entered and its bytes are counted as used.\<close>

definition opened :: "shmc \<Rightarrow> nat \<Rightarrow> nat \<Rightarrow> nat \<Rightarrow> shmc" where
  "opened s i z n = upd_attr (s\<lparr>slabs := (slabs s)[i := \<lparr>free_item = 0, slab_size = z, slab_count = n\<rparr>]\<rparr>)
     (\<lambda>a. a\<lparr>mem_used := mem_used a + z * n\<rparr>)"

lemma round_step:
  assumes fr: "fresh i s g" and il: "i < length (slabs s)"
    and z: "\<forall>j < i. slab_size (slabs s ! j) < z" "64 \<le> z"
    and lim: "mem_used (attrs s) + z * n < mem_limit (attrs s)" "mem_limit (attrs s) + z * n < 2 ^ 64"
  shows "\<exists>s' g'. carve n (raw s + mem_used (attrs s)) i (opened s i z n) = Some s' \<and> fresh (Suc i) s' g'
    \<and> attrs s' = (attrs s)\<lparr>mem_used := mem_used (attrs s) + z * n\<rparr>
    \<and> map slab_size (take (Suc i) (slabs s')) = map slab_size (take i (slabs s)) @ [z]
    \<and> map slab_count (take (Suc i) (slabs s')) = map slab_count (take i (slabs s)) @ [n]
    \<and> length (slabs s') = length (slabs s) \<and> base s' = base s \<and> raw s' = raw s"
proof -
  note F = freshD [OF fr]
  define s1 where "s1 = s\<lparr>slabs := (slabs s)[i := \<lparr>free_item = 0, slab_size = z, slab_count = n\<rparr>]\<rparr>"
  define t where "t = trunc (Suc i) s1"
  have t: "t = add_class (trunc i s) z n"
    unfolding t_def s1_def by (rule trunc_add_class) (use il F(4,5) in simp_all)
  have k: "length (slabs (trunc i s)) = i" using il by simp
  have it: "inv_held t g {}" unfolding t
    by (rule add_class_inv [OF F(1,2)]) (use z lim(2) il in \<open>simp_all add: k\<close>)
  have slt: "slabs t = take i (slabs s) @ [\<lparr>free_item = 0, slab_size = z, slab_count = n\<rparr>]"
    by (simp add: t)
  have ti: "i < length (slabs t)" "slab_size (slabs t ! i) = z" "slab_count (slabs t ! i) = n"
    "raw t = raw s" "attrs t = attrs s" "dat t = dat s" "base t = base s"
    using il by (simp_all add: t nth_append)
  have nf: "g_free g i = []" using layoutD(6) [OF inv_heldD(1) [OF F(1)], of i] k by simp
  have cut: "can_cut (conf_of t) i (absg t g)" using lim(1) ti by (simp add: can_cut_eq)
  define R where "R = run_chunks n (raw s + mem_used (attrs s)) z"
  obtain t' where t': "refill t i = Some t'" "inv_held t' (free_upd g i R) {}"
      "dat t' = (\<lambda>a. if a \<in> set R then Some (blank_item z) else dat s a)" "conf_of t' = conf_of t"
      "mem_used (attrs t') = mem_used (attrs s) + z * n"
    using cut_step [OF it ti(1) nf cut] unfolding ti R_def by blast
  have u: "size_add (mem_used (attrs s)) (z * n) = mem_used (attrs s) + z * n" using lim by simp
  have op: "trunc (Suc i) (opened s i z n) = upd_attr t (\<lambda>a. a\<lparr>mem_used := mem_used a + z * n\<rparr>)"
    by (simp add: opened_def t_def s1_def trunc_def)
  have "refill t i = carve n (raw s + mem_used (attrs s)) i (upd_attr t (\<lambda>a. a\<lparr>mem_used := mem_used a + z * n\<rparr>))"
    using u lim(1) by (simp add: refill_def ti Let_def)
  then have "map_option (trunc (Suc i)) (carve n (raw s + mem_used (attrs s)) i (opened s i z n)) = Some t'"
    using t'(1) carve_trunc [of i "Suc i" n "raw s + mem_used (attrs s)" "opened s i z n"] op by simp
  then obtain s' where s': "carve n (raw s + mem_used (attrs s)) i (opened s i z n) = Some s'" "t' = trunc (Suc i) s'"
    by auto
  have keep: "heads s' = heads s" "tails s' = tails s" "length (slabs s') = length (slabs s)"
    "attrs s' = (attrs s)\<lparr>mem_used := mem_used (attrs s) + z * n\<rparr>" "base s' = base s" "raw s' = raw s"
    using carve_frame [OF s'(1)] by (simp_all add: opened_def)
  have sz: "map slab_size (take (Suc i) (slabs s')) = map slab_size (take i (slabs s)) @ [z]"
    "map slab_count (take (Suc i) (slabs s')) = map slab_count (take i (slabs s)) @ [n]"
    using conf_ofD(4,5) [OF t'(4)] by (simp_all add: s'(2) slt)
  have cnt: "slab_count (slabs s' ! c) = (if c = i then n else slab_count (slabs s ! c))" if "c < Suc i" for c
  proof -
    have "slab_count (slabs s' ! c) = map slab_count (take (Suc i) (slabs s')) ! c"
      using that il keep(3) by simp
    also have "\<dots> = (if c = i then n else slab_count (slabs s ! c))"
      using that il unfolding sz(2) by (auto simp: nth_append)
    finally show ?thesis .
  qed
  have "fresh (Suc i) s' (free_upd g i R)"
    unfolding fresh_def
  proof (intro conjI allI impI)
    show "inv_held (trunc (Suc i) s') (free_upd g i R) {}" using t'(2) s'(2) by simp
    show "flags_at s' a = 0" for a
      using F(6) t'(3) s'(2) by (simp add: flags_at_def blank_item_def)
    show "length (g_free (free_upd g i R) c) = slab_count (slabs s' ! c)" if "c < Suc i" for c
      using cnt [OF that] F(7) that by (cases "c = i") (simp_all add: R_def run_chunks_def)
  qed (use F il keep in simp_all)
  then show ?thesis using s'(1) keep sz by blast
qed

section \<open>The whole loop\<close>

lemma format_loop:
  assumes "fresh i s g" and "size_seq (item_size_factor (attrs s)) (length zs) sz = Some zs"
    and "length (slabs s) = i + length zs"
    and "sorted_wrt (<) (map slab_size (take i (slabs s)) @ zs)" and "\<forall>z \<in> set zs. 64 \<le> z"
    and "mem_used (attrs s) + pool_need (item_size_max (attrs s)) zs < mem_limit (attrs s)"
    and "mem_limit (attrs s) + item_size_max (attrs s) < 2 ^ 64"
  shows "\<exists>s' g'. format_slabs_loop (length zs) i sz s = Some s' \<and> fresh (length (slabs s)) s' g'
    \<and> attrs s' = (attrs s)\<lparr>mem_used := mem_used (attrs s) + pool_need (item_size_max (attrs s)) zs\<rparr>
    \<and> map slab_size (slabs s') = map slab_size (take i (slabs s)) @ zs
    \<and> map slab_count (slabs s') = map slab_count (take i (slabs s)) @ map (\<lambda>z. item_size_max (attrs s) div z) zs
    \<and> length (slabs s') = length (slabs s) \<and> base s' = base s \<and> raw s' = raw s"
  using assms
proof (induction zs arbitrary: i s g sz)
  case Nil
  then show ?case by (intro exI [of _ s] exI [of _ g]) simp
next
  case (Cons z zs)
  note p = Cons.prems
  define m where "m = item_size_max (attrs s)"
  define n where "n = m div z"
  obtain sz' where sz: "align_size sz = z" "scale_size (item_size_factor (attrs s)) z = Some sz'"
      "size_seq (item_size_factor (attrs s)) (length zs) sz' = Some zs"
    using p(2) by (auto simp: Let_def split: Option.bind_splits)
  have il: "i < length (slabs s)" using p(3) by simp
  have nz: "z * n \<le> m" by (simp add: n_def)
  have lim: "mem_used (attrs s) + z * n < mem_limit (attrs s)" "mem_limit (attrs s) + z * n < 2 ^ 64"
    using p(6,7) nz by (simp_all add: m_def [symmetric] n_def [symmetric])
  have below: "\<forall>j < i. slab_size (slabs s ! j) < z"
  proof (intro allI impI)
    fix j assume "j < i"
    then have "slab_size (slabs s ! j) \<in> set (map slab_size (take i (slabs s)))"
      using il by (simp add: in_set_conv_nth) (metis (no_types, lifting) imageI in_set_conv_nth length_take min.absorb4 nth_take)
    then show "slab_size (slabs s ! j) < z" using p(4) by (auto simp: sorted_wrt_append)
  qed
  obtain s1 g1 where r: "carve n (raw s + mem_used (attrs s)) i (opened s i z n) = Some s1" "fresh (Suc i) s1 g1"
      "attrs s1 = (attrs s)\<lparr>mem_used := mem_used (attrs s) + z * n\<rparr>"
      "map slab_size (take (Suc i) (slabs s1)) = map slab_size (take i (slabs s)) @ [z]"
      "map slab_count (take (Suc i) (slabs s1)) = map slab_count (take i (slabs s)) @ [n]"
      "length (slabs s1) = length (slabs s)" "base s1 = base s" "raw s1 = raw s"
    using round_step [OF p(1) il below _ lim] p(5) by auto
  have u: "size_add (mem_used (attrs s)) (z * n) = mem_used (attrs s) + z * n" using lim by simp
  have "format_slabs_loop (length (z # zs)) i sz s = format_slabs_loop (length zs) (Suc i) sz' s1"
    using il u lim(1) r(1) sz(1,2) r(3) by (simp add: Let_def n_def m_def opened_def)
  moreover obtain s' g' where "format_slabs_loop (length zs) (Suc i) sz' s1 = Some s'" "fresh (length (slabs s1)) s' g'"
      "attrs s' = (attrs s1)\<lparr>mem_used := mem_used (attrs s1) + pool_need (item_size_max (attrs s1)) zs\<rparr>"
      "map slab_size (slabs s') = map slab_size (take (Suc i) (slabs s1)) @ zs"
      "map slab_count (slabs s') = map slab_count (take (Suc i) (slabs s1)) @ map (\<lambda>z. item_size_max (attrs s1) div z) zs"
      "length (slabs s') = length (slabs s1)" "base s' = base s1" "raw s' = raw s1"
    using Cons.IH [OF r(2)] sz(3) p(3-7) r(3,4,6) nz
    by (force simp: m_def [symmetric] n_def [symmetric])
  ultimately show ?case
    using r(3-8) by (intro exI [of _ s'] exI [of _ g']) (simp add: m_def n_def add.assoc)
qed

text \<open>The converse: a pool too small fails the assertion.\<close>

lemma format_loop_need:
  "format_slabs_loop n i sz s = Some s' \<Longrightarrow> size_seq (item_size_factor (attrs s)) n sz = Some zs \<Longrightarrow>
     mem_used (attrs s) < mem_limit (attrs s) \<Longrightarrow> mem_limit (attrs s) + item_size_max (attrs s) < 2 ^ 64 \<Longrightarrow>
     mem_used (attrs s) + pool_need (item_size_max (attrs s)) zs < mem_limit (attrs s)"
proof (induction n arbitrary: i sz s zs)
  case 0
  then show ?case by simp
next
  case (Suc n)
  define z where "z = align_size sz"
  define m where "m = item_size_max (attrs s)"
  define u where "u = mem_used (attrs s) + z * (m div z)"
  have nz: "z * (m div z) \<le> m" by simp
  then have "u < 2 ^ 64" using Suc.prems(3,4) unfolding u_def m_def by linarith
  then have sa: "size_add (mem_used (attrs s)) (z * (m div z)) = u" by (simp add: u_def)
  obtain sz' zs' where zs: "scale_size (item_size_factor (attrs s)) z = Some sz'"
      "size_seq (item_size_factor (attrs s)) n sz' = Some zs'" "zs = z # zs'"
    using Suc.prems(2) by (auto simp: Let_def z_def split: Option.bind_splits)
  obtain s1 s2 where s1: "attrs s1 = (attrs s)\<lparr>mem_used := u\<rparr>" "u < mem_limit (attrs s)"
      "carve (m div z) (raw s + mem_used (attrs s)) i s1 = Some s2" "format_slabs_loop n (Suc i) sz' s2 = Some s'"
  proof -
    obtain sls s2 where "write_at (slabs s) i \<lparr>free_item = 0, slab_size = z, slab_count = m div z\<rparr> = Some sls"
      "u < mem_limit (attrs s)"
      "carve (m div z) (raw s + mem_used (attrs s)) i (upd_attr (s\<lparr>slabs := sls\<rparr>) (\<lambda>a. a\<lparr>mem_used := u\<rparr>)) = Some s2"
      "scale_size (item_size_factor (attrs s2)) z \<bind> (\<lambda>r. format_slabs_loop n (Suc i) r s2) = Some s'"
      using Suc.prems(1) sa
      by (auto simp: Let_def z_def [symmetric] m_def [symmetric] split: Option.bind_splits)
    moreover from this(3) have "attrs s2 = (attrs s)\<lparr>mem_used := u\<rparr>" using carve_frame by fastforce
    ultimately show ?thesis
      using that [of "upd_attr (s\<lparr>slabs := sls\<rparr>) (\<lambda>a. a\<lparr>mem_used := u\<rparr>)" s2] zs(1) by simp
  qed
  have "attrs s2 = (attrs s)\<lparr>mem_used := u\<rparr>" using carve_frame [OF s1(3)] s1(1) by simp
  then show ?case using Suc.IH [OF s1(4)] zs(2,3) s1(2) Suc.prems(4) by (simp add: u_def m_def add.assoc)
qed

text \<open>The store right after formatting: no entries, every class with its first run free.\<close>

definition a_fresh :: "nat \<Rightarrow> nat list \<Rightarrow> astore" where
  "a_fresh m zs = \<lparr>a_lru = (\<lambda>_. []),
     a_free = (\<lambda>c. if c < length zs then replicate (m div (zs ! c)) 0 else []), a_used = pool_need m zs\<rparr>"

lemma fresh_segment_fresh:
  assumes "nbuckets a \<noteq> 0" and "nitems a = 0" and "mem_used a = 0"
  shows "fresh 0 (fresh_segment (format_mmap p (nbuckets a) n) a n) \<lparr>g_lru = (\<lambda>_. []), g_free = (\<lambda>_. []), g_bkt = (\<lambda>_. [])\<rparr>"
proof -
  define s where "s = fresh_segment (format_mmap p (nbuckets a) n) a n"
  define g :: ghost where "g = \<lparr>g_lru = (\<lambda>_. []), g_free = (\<lambda>_. []), g_bkt = (\<lambda>_. [])\<rparr>"
  have f: "heap s = Map.empty" "buckets s = replicate (nbuckets a) 0" "nbuckets (attrs s) = nbuckets a"
    "nitems (attrs s) = 0" "mem_used (attrs s) = 0" "raw s = header_size (nbuckets a) n"
    "heads s = replicate n 0" "tails s = replicate n 0" "length (slabs s) = n"
    using assms(2,3) by (simp_all add: s_def fresh_segment_def format_mmap_raw)
  have "layout (trunc 0 s) g {}"
    unfolding layout_def using assms(1) by (simp add: f g_def bucket_list_def)
  moreover have "tabled (trunc 0 s) g" by (simp add: tabled_def g_def f in_table_def)
  moreover have "in_table g = in_lru g" by (simp add: in_table_def in_lru_def g_def)
  moreover have "payload (trunc 0 s) g" by (simp add: payload_def g_def)
  moreover have "pooled (trunc 0 s)" by (simp add: pooled_def csize_def dat_def f)
  moreover have "good_conf (trunc 0 s)" by (simp add: good_conf_def f header_size_def)
  ultimately have "inv_held (trunc 0 s) g {}" by (simp add: inv_held_def)
  then have "fresh 0 s g" by (simp add: fresh_def f g_def flags_at_def dat_def)
  then show ?thesis by (simp add: s_def g_def)
qed

lemma fresh_abs:
  assumes "fresh (length (slabs s)) s g" and "map slab_count (slabs s) = map (\<lambda>z. m div z) zs"
    and "mem_used (attrs s) = pool_need m zs"
  shows "inv_held s g {}" "absg s g = a_fresh m zs"
proof -
  note F = freshD [OF assms(1)]
  have t: "trunc (length (slabs s)) s = s" by (simp add: trunc_def F(4,5))
  show i: "inv_held s g {}" using F(1) t by simp
  have n: "length (slabs s) = length zs" using assms(2) by (rule map_eq_imp_length_eq)
  have "map (flags_at s) (g_free g c) = (if c < length zs then replicate (m div (zs ! c)) 0 else [])" for c
  proof (cases "c < length zs")
    case True
    then have "slab_count (slabs s ! c) = m div (zs ! c)"
      using assms(2) n by (metis (mono_tags, lifting) nth_map)
    then have "length (g_free g c) = m div (zs ! c)" using F(7) True n by simp
    moreover have "map (flags_at s) (g_free g c) = replicate (length (g_free g c)) 0"
      using F(6) by (simp add: map_replicate_const [symmetric] cong: map_cong)
    ultimately show ?thesis using True by simp
  next
    case False
    then show ?thesis using layoutD(6) [OF inv_heldD(1) [OF i], of c] n by simp
  qed
  then show "absg s g = a_fresh m zs"
    using F(2) assms(3) by (intro astore_eqI) (simp_all add: a_fresh_def)
qed

text \<open>What the caller of \<open>shmc_init\<close> has to provide: sizes far from the end of \<open>size_t\<close>, a pool, buckets.\<close>

definition attr_ok :: "attr \<Rightarrow> bool" where
  "attr_ok a \<longleftrightarrow> factor_ok a \<and> mem_limit a + item_size_max a < 2 ^ 64 \<and> mem_limit a \<noteq> 0 \<and> nbuckets a \<noteq> 0
     \<and> mem_used a = 0 \<and> nitems a = 0 \<and> max_depth a = 0"

definition conf_for :: "nat \<Rightarrow> attr \<Rightarrow> nat list \<Rightarrow> conf" where
  "conf_for p a zs = \<lparr>cf_base = p, cf_raw = header_size (nbuckets a) (length zs), cf_sizes = zs,
     cf_counts = map (\<lambda>z. item_size_max a div z) zs, cf_attr = a\<lparr>slabs_count := length zs\<rparr>\<rparr>"

lemma format_slabs_fresh:
  assumes a: "attr_ok a" and n: "count_of_slabs a = Some n"
    and zs: "size_seq (item_size_factor a) n (sizeof_item + item_size_min a) = Some zs"
    and need: "pool_need (item_size_max a) zs < mem_limit a"
  shows "\<exists>s. format_slabs (fresh_segment (format_mmap p (nbuckets a) n) a n) n = Some s
    \<and> implements s (a_fresh (item_size_max a) zs) \<and> conf_of s = conf_for p a zs
    \<and> attrs s = a\<lparr>slabs_count := n, mem_used := pool_need (item_size_max a) zs\<rparr>"
proof -
  have A: "factor_ok a" "mem_limit a + item_size_max a < 2 ^ 64" "nbuckets a \<noteq> 0" "mem_used a = 0" "nitems a = 0"
    "max_depth a = 0"
    using a by (simp_all add: attr_ok_def)
  define s0 where "s0 = fresh_segment (format_mmap p (nbuckets a) n) a n"
  have s0: "attrs s0 = a\<lparr>slabs_count := n\<rparr>" "length (slabs s0) = n" "base s0 = p"
    "raw s0 = header_size (nbuckets a) n"
    by (simp_all add: s0_def fresh_segment_def format_mmap_raw)
  have zl: "length zs = n" using size_seq_length [OF zs] .
  have sizes: "sorted_wrt (<) zs" "\<forall>z \<in> set zs. 64 \<le> z"
    using size_seq_of_slabs [OF A(1) n] zs by auto
  have add: "size_add sizeof_item (item_size_min a) = sizeof_item + item_size_min a"
    using A(1) by (simp add: factor_ok_def)
  obtain s g where s: "format_slabs_loop n 0 (sizeof_item + item_size_min a) s0 = Some s"
      "fresh (length (slabs s0)) s g"
      "attrs s = (attrs s0)\<lparr>mem_used := mem_used (attrs s0) + pool_need (item_size_max a) zs\<rparr>"
      "map slab_size (slabs s) = zs" "map slab_count (slabs s) = map (\<lambda>z. item_size_max a div z) zs"
      "length (slabs s) = length (slabs s0)" "base s = base s0" "raw s = raw s0"
    using format_loop [OF fresh_segment_fresh [OF A(3,5,4), where p = p and n = n, folded s0_def],
        where zs = zs and sz = "sizeof_item + item_size_min a"]
      zs zl sizes need A(2,4) by (auto simp: s0)
  note ab = fresh_abs [OF _ s(5), of g]
  have "implements s (a_fresh (item_size_max a) zs)"
    using ab s(2,3,6) A(4) s0 by (auto simp: implements_def store_inv_def)
  moreover have "conf_of s = conf_for p a zs"
    using s(3-5,7,8) s0 A(4-6) zl by (simp add: conf_of_def conf_for_def)
  moreover have "format_slabs s0 n = Some s" using s(1) add by (simp add: format_slabs_def s0)
  ultimately show ?thesis using s(3) A(4) s0 by (auto simp: s0_def)
qed

end
