(* ===== verification/Lifecycle.thy ===== *)
theory Lifecycle
  imports Format
begin

text \<open>
  A token from \<open>shmc_init\<close> to \<open>shmc_destroy\<close> and the next \<open>shmc_init\<close>: creating gives the empty
  store, and attaching gives the store the file holds at whatever address the file is mapped.
\<close>

section \<open>Position independence\<close>

lemma base_links [simp]:
  "nxt (s\<lparr>base := p\<rparr>) = nxt s" "prv (s\<lparr>base := p\<rparr>) = prv s" "hnx (s\<lparr>base := p\<rparr>) = hnx s"
  "dat (s\<lparr>base := p\<rparr>) = dat s" "csize (s\<lparr>base := p\<rparr>) = csize s" "clsid_at (s\<lparr>base := p\<rparr>) = clsid_at s"
  "key_at (s\<lparr>base := p\<rparr>) = key_at s"
  by (simp_all add: fun_eq_iff nxt_def prv_def hnx_def dat_def csize_def clsid_at_def key_at_def)

lemma base_preds [simp]:
  "layout (s\<lparr>base := p\<rparr>) g D = layout s g D" "absg (s\<lparr>base := p\<rparr>) g = absg s g"
  "pooled (s\<lparr>base := p\<rparr>) = pooled s" "good_conf (s\<lparr>base := p\<rparr>) = good_conf s"
  "payload (s\<lparr>base := p\<rparr>) g = payload s g" "tabled (s\<lparr>base := p\<rparr>) g = tabled s g"
proof -
  show "layout (s\<lparr>base := p\<rparr>) g D = layout s g D"
    by (simp add: layout_def lru_list_def free_list_def bucket_list_def)
  show "absg (s\<lparr>base := p\<rparr>) g = absg s g"
    by (simp add: absg_def entry_at_def flags_at_def fun_eq_iff)
  show "pooled (s\<lparr>base := p\<rparr>) = pooled s" by (simp add: pooled_def)
  show "good_conf (s\<lparr>base := p\<rparr>) = good_conf s" by (simp add: good_conf_def)
  show "payload (s\<lparr>base := p\<rparr>) g = payload s g" by (simp add: payload_def)
  show "tabled (s\<lparr>base := p\<rparr>) g = tabled s g" by (simp add: tabled_def)
qed

lemma implements_base: "implements (s\<lparr>base := p\<rparr>) A = implements s A"
  unfolding implements_def store_inv_def inv_held_def base_preds ..

section \<open>Attributes and the number of classes\<close>

lemma count_slabs_loop_cong_Some:
  "count_slabs_loop a sz c = Some n \<Longrightarrow> item_size_max a' = item_size_max a \<Longrightarrow>
     item_size_factor a' = item_size_factor a \<Longrightarrow> count_slabs_loop a' sz c = Some n"
proof (induction rule: count_slabs_loop.raw_induct [rotated, consumes 1, case_names step])
  case (step loop a sz c n)
  show ?case
  proof (cases "sz < item_size_max a")
    case True
    then obtain r where "scale_size (item_size_factor a) (align_size sz) = Some r" "loop a r (Suc c) = Some n"
      using step.hyps by (auto split: Option.bind_splits)
    then show ?thesis using True step by (subst count_slabs_loop.simps) auto
  next
    case False
    then show ?thesis using step by (subst count_slabs_loop.simps) auto
  qed
qed

lemma count_slabs_loop_cong:
  assumes "item_size_max a' = item_size_max a" and "item_size_factor a' = item_size_factor a"
  shows "count_slabs_loop a' sz c = count_slabs_loop a sz c"
proof (cases "count_slabs_loop a sz c")
  case None
  then show ?thesis
    using count_slabs_loop_cong_Some [OF _ assms [symmetric]] by (cases "count_slabs_loop a' sz c") auto
next
  case (Some n)
  then show ?thesis using count_slabs_loop_cong_Some [OF _ assms] by simp
qed

lemma count_of_slabs_cong:
  "item_size_max a' = item_size_max a \<Longrightarrow> item_size_factor a' = item_size_factor a \<Longrightarrow>
     item_size_min a' = item_size_min a \<Longrightarrow> count_of_slabs a' = count_of_slabs a"
  unfolding count_of_slabs_def using count_slabs_loop_cong [of a' a] by simp

lemma attr_counters:
  assumes "a'\<lparr>mem_used := 0, max_depth := 0, nitems := 0\<rparr> = a\<lparr>slabs_count := n\<rparr>"
  shows "item_size_max a' = item_size_max a" "item_size_factor a' = item_size_factor a"
    "item_size_min a' = item_size_min a" "nbuckets a' = nbuckets a" "mem_limit a' = mem_limit a" "slabs_count a' = n"
  using arg_cong [OF assms, of item_size_max] arg_cong [OF assms, of item_size_factor]
    arg_cong [OF assms, of item_size_min] arg_cong [OF assms, of nbuckets] arg_cong [OF assms, of mem_limit]
    arg_cong [OF assms, of slabs_count] by simp_all

text \<open>A segment of a token created with the attributes \<open>a\<close>.\<close>

lemma conf_forD:
  assumes "conf_of s = conf_for p a zs" and "count_of_slabs a = Some (length zs)"
  shows "count_of_slabs (attrs s) = Some (length zs)" "nbuckets (attrs s) = nbuckets a"
    "slabs_count (attrs s) = length zs" "mem_limit (attrs s) = mem_limit a"
    "raw s = header_size (nbuckets a) (length zs)"
    "conf_of (s\<lparr>base := q\<rparr>) = conf_for q a zs"
proof -
  have at: "(attrs s)\<lparr>mem_used := 0, max_depth := 0, nitems := 0\<rparr> = a\<lparr>slabs_count := length zs\<rparr>"
    using assms(1) by (simp add: conf_of_def conf_for_def)
  note A = attr_counters [OF at]
  show "count_of_slabs (attrs s) = Some (length zs)"
    using assms(2) count_of_slabs_cong [OF A(1-3)] by simp
  show "nbuckets (attrs s) = nbuckets a" "slabs_count (attrs s) = length zs" "mem_limit (attrs s) = mem_limit a"
    by (rule A)+
  show "raw s = header_size (nbuckets a) (length zs)" "conf_of (s\<lparr>base := q\<rparr>) = conf_for q a zs"
    using assms(1) by (simp_all add: conf_of_def conf_for_def)
qed

section \<open>Creating and attaching\<close>

lemma create_spec:
  assumes a: "attr_ok a" and os: "open_works os" "ftruncate_works os" "first_map os = Some p"
    and new: "fs token = None"
  shows "\<exists>n zs. count_of_slabs a = Some n \<and> length zs = n
    \<and> size_seq (item_size_factor a) n (sizeof_item + item_size_min a) = Some zs
    \<and> (if pool_need (item_size_max a) zs < mem_limit a then
         \<exists>s. mmap_create os fs token a = Some (SHMC_OK, Some s, fs(token \<mapsto> Image SHMC_VERSION s))
           \<and> implements s (a_fresh (item_size_max a) zs) \<and> conf_of s = conf_for p a zs
       else mmap_create os fs token a = None)"
proof -
  have f: "factor_ok a" "mem_limit a + item_size_max a < 2 ^ 64" "mem_used a = 0" "mem_limit a \<noteq> 0"
    using a by (simp_all add: attr_ok_def)
  obtain n where n: "count_of_slabs a = Some n" using count_of_slabs_total [OF f(1)] by blast
  obtain zs where zs: "size_seq (item_size_factor a) n (sizeof_item + item_size_min a) = Some zs"
    using size_seq_of_slabs [OF f(1) n] by blast
  note zl = size_seq_length [OF zs]
  define s0 where "s0 = fresh_segment (format_mmap p (nbuckets a) n) a n"
  have s0: "attrs s0 = a\<lparr>slabs_count := n\<rparr>" by (simp add: s0_def fresh_segment_def)
  have run: "mmap_create os fs token a = do { s \<leftarrow> format_slabs s0 n;
      Some (SHMC_OK, Some s, fs(token \<mapsto> Image SHMC_VERSION s)) }"
    using os new n by (simp add: mmap_create_def Let_def s0_def)
  show ?thesis
  proof (cases "pool_need (item_size_max a) zs < mem_limit a")
    case True
    obtain s where "format_slabs s0 n = Some s" "implements s (a_fresh (item_size_max a) zs)"
        "conf_of s = conf_for p a zs"
      using format_slabs_fresh [OF a n zs True, of p] by (auto simp: s0_def)
    then show ?thesis using True n zs zl run by auto
  next
    case False
    have add: "size_add sizeof_item (item_size_min a) = sizeof_item + item_size_min a"
      using f(1) by (simp add: factor_ok_def)
    have "format_slabs s0 n = None"
    proof (rule ccontr)
      assume "format_slabs s0 n \<noteq> None"
      then obtain s where "format_slabs_loop n 0 (sizeof_item + item_size_min a) s0 = Some s"
        using add by (auto simp: format_slabs_def s0)
      from format_loop_need [OF this, of zs] show False using zs False f by (simp add: s0)
    qed
    then show ?thesis using False n zs zl run by auto
  qed
qed

lemma attach_spec:
  assumes f: "fs token = Some (Image SHMC_VERSION s)" and s: "implements s A" "conf_of s = conf_for p a zs"
    and n: "count_of_slabs a = Some (length zs)"
    and os: "open_works os" "first_map os \<noteq> None" "second_map os = Some q"
  shows "mmap_attach os fs token = Some (SHMC_OK, Some (s\<lparr>base := q\<rparr>), fs)"
    "implements (s\<lparr>base := q\<rparr>) A" "conf_of (s\<lparr>base := q\<rparr>) = conf_for q a zs"
proof -
  note C = conf_forD [OF s(2) n]
  have "view (format_mmap q (nbuckets (attrs s)) (length zs)) s = s\<lparr>base := q\<rparr>"
    by (simp add: view_def format_mmap_raw C(2) C(5) [symmetric])
  then show "mmap_attach os fs token = Some (SHMC_OK, Some (s\<lparr>base := q\<rparr>), fs)"
    using f os C(1) by (auto simp: mmap_attach_def)
  show "implements (s\<lparr>base := q\<rparr>) A" "conf_of (s\<lparr>base := q\<rparr>) = conf_for q a zs"
    using s(1) C(6) by (simp_all add: implements_base)
qed

end
