(* ===== verification/Store_Properties.thy ===== *)
theory Store_Properties
  imports Dictionary Lifecycle
begin

text \<open>
  The properties of the store: every operation of \<open>shmc.c\<close> on a well-formed store does what its
  specification says, and what that means for later lookups. The witnesses apply them to a small
  segment of two size classes.
\<close>

section \<open>Lookups\<close>

text \<open>What \<open>shmc_get_nolock\<close> hands out for a key.\<close>

definition shmc_lookup :: "shmc \<Rightarrow> byte list \<Rightarrow> (byte list \<times> u32) option" where
  "shmc_lookup s k = (case shmc_get_nolock s (Buf 0 k) (length k) True of Some (rc, out, s') \<Rightarrow> out | None \<Rightarrow> None)"

lemma lookup_dict: "implements s A \<Longrightarrow> shmc_lookup s = dict (conf_of s) A"
proof (rule ext)
  fix k assume A: "implements s A"
  obtain rc out A' where r: "a_get (conf_of s) A (buf_key (Buf 0 k) (length k)) True = (rc, out, A')"
    by (cases "a_get (conf_of s) A (buf_key (Buf 0 k) (length k)) True") auto
  obtain s' where "shmc_get_nolock s (Buf 0 k) (length k) True = Some (rc, out, s')"
    using get_refines [OF A _ r] by auto
  moreover have "out = dict (conf_of s) A k"
    using r by (auto simp: a_get_def buf_key_def dict_def split: option.splits)
  ultimately show "shmc_lookup s k = dict (conf_of s) A k" by (simp add: shmc_lookup_def)
qed

lemma buf_key_take: "nkey \<le> length (buf_bytes key) \<Longrightarrow> length (buf_key key nkey) = nkey"
  by (simp add: buf_key_def)

section \<open>A small segment\<close>

text \<open>Two classes of 72 and 144 bytes, with two chunks and one, and a pool that never grows.\<close>

definition tiny :: attr where
  "tiny = \<lparr>mem_limit = 300, nbuckets = 2, mode = 0, item_size_min = 8, item_size_max = 200,
     item_size_factor = F32 2 0, evict_to_free = True, default_counter = True, use_flock = False,
     mem_used = 0, slabs_count = 0, max_depth = 0, nitems = 0\<rparr>"

definition tiny_store :: shmc where
  "tiny_store = the (format_slabs (fresh_segment (format_mmap 4096 2 2) tiny 2) 2)"

abbreviation tiny_conf :: conf where "tiny_conf \<equiv> conf_for 4096 tiny [72, 144]"

lemma tiny_attr_ok: "attr_ok tiny"
  by (simp add: attr_ok_def factor_ok_def tiny_def)

lemma tiny_sizes: "count_of_slabs tiny = Some 2" "size_seq (item_size_factor tiny) 2 72 = Some [72, 144]"
proof -
  have b: "scale_size (F32 2 0) 72 = Some 144" "scale_size (F32 2 0) 144 = Some 288" by (simp_all add: scale_size_exact)
  have t: "item_size_max tiny = 200" "item_size_min tiny = 8" "item_size_factor tiny = F32 2 0" by (simp_all add: tiny_def)
  have l: "count_slabs_loop tiny 288 (Suc (Suc 0)) = Some 2"
    by (subst count_slabs_loop.simps) (simp add: t)
  have l: "count_slabs_loop tiny 144 (Suc 0) = Some 2"
    by (subst count_slabs_loop.simps) (simp add: t align_size_def b l)
  have l: "count_slabs_loop tiny 72 0 = Some 2"
    by (subst count_slabs_loop.simps) (simp add: t align_size_def b l)
  then show "count_of_slabs tiny = Some 2"
    by (simp add: count_of_slabs_def t)
  have "size_seq (F32 2 0) (Suc (Suc 0)) 72 = Some [72, 144]" by (simp add: align_size_def b)
  then show "size_seq (item_size_factor tiny) 2 72 = Some [72, 144]" by (simp add: t numeral_2_eq_2)
qed

lemma tiny_ok: "implements tiny_store (a_fresh 200 [72, 144])" "conf_of tiny_store = tiny_conf"
proof -
  have t: "item_size_min tiny = 8" "item_size_max tiny = 200" "mem_limit tiny = 300" "nbuckets tiny = 2"
    by (simp_all add: tiny_def)
  obtain s where "format_slabs (fresh_segment (format_mmap 4096 2 2) tiny 2) 2 = Some s"
      "implements s (a_fresh 200 [72, 144])" "conf_of s = tiny_conf"
    using format_slabs_fresh [OF tiny_attr_ok tiny_sizes(1), of "[72, 144]" 4096] tiny_sizes(2)
    by (auto simp: t pool_need_def)
  then show "implements tiny_store (a_fresh 200 [72, 144])" "conf_of tiny_store = tiny_conf"
    by (simp_all add: tiny_store_def)
qed

text \<open>Its abstract stores, by the entries and stale flags of the two classes.\<close>

definition tst :: "entry list \<Rightarrow> entry list \<Rightarrow> u32 list \<Rightarrow> u32 list \<Rightarrow> astore" where
  "tst l0 l1 f0 f1 = \<lparr>a_lru = (\<lambda>c. if c = 0 then l0 else if c = 1 then l1 else []),
     a_free = (\<lambda>c. if c = 0 then f0 else if c = 1 then f1 else []), a_used = 288\<rparr>"

lemma tst_simps [simp]:
  "a_lru (tst l0 l1 f0 f1) 0 = l0" "a_lru (tst l0 l1 f0 f1) (Suc 0) = l1"
  "a_free (tst l0 l1 f0 f1) 0 = f0" "a_free (tst l0 l1 f0 f1) (Suc 0) = f1"
  "(tst m0 m1 f0 f1)\<lparr>a_lru := (a_lru (tst l0 l1 g0 g1))(0 := es)\<rparr> = tst es l1 f0 f1"
  "(tst m0 m1 f0 f1)\<lparr>a_lru := (a_lru (tst l0 l1 g0 g1))(Suc 0 := es)\<rparr> = tst l0 es f0 f1"
  "(tst m0 m1 f0 f1)\<lparr>a_lru := (a_lru (tst l0 l1 g0 g1))(0 := es, Suc 0 := fs')\<rparr> = tst es fs' f0 f1"
  "(tst l0 l1 g0 g1)\<lparr>a_free := (a_free (tst m0 m1 f0 f1))(0 := fs)\<rparr> = tst l0 l1 fs f1"
  "(tst l0 l1 g0 g1)\<lparr>a_free := (a_free (tst m0 m1 f0 f1))(Suc 0 := fs)\<rparr> = tst l0 l1 f0 fs"
  by (auto simp: tst_def fun_eq_iff)

lemma tiny_class: "class_for tiny_conf t = (if t \<le> 72 then Some 0 else if t \<le> 144 then Some (Suc 0) else None)"
  by (simp add: class_for_def conf_for_def)

lemma tiny_conf_simps [simp]:
  "item_size_max (cf_attr tiny_conf) = 200" "evict_to_free (cf_attr tiny_conf)" "default_counter (cf_attr tiny_conf)"
  by (simp_all add: conf_for_def tiny_def)

lemma tiny_cut [simp]:
  "\<not> can_cut tiny_conf 0 (tst l0 l1 f0 f1)" "\<not> can_cut tiny_conf (Suc 0) (tst l0 l1 f0 f1)"
  by (simp_all add: can_cut_def conf_for_def tiny_def tst_def)

lemma tiny_find: "a_find tiny_conf (tst l0 l1 f0 f1) k =
    find (\<lambda>(c, e). e_key e = k) (map (Pair 0) l0 @ map (Pair (Suc 0)) l1)"
  by (simp add: a_find_def conf_for_def)

lemma tiny_fresh: "a_fresh 200 [72, 144] = tst [] [] [0, 0] [0]"
  by (simp add: a_fresh_def tst_def fun_eq_iff pool_need_def less_Suc_eq numeral_2_eq_2)

lemmas tiny_impl = tiny_ok(1) [unfolded tiny_fresh]

lemmas tiny_eval = tiny_ok(2) tiny_class tiny_find size_for_def evicts_def a_take_def without_def a_push_def a_remove_def
  a_release_def a_drop_def a_touch_def Let_def buf_key_def

text \<open>A segment with one entry.\<close>

abbreviation tiny_entry :: "byte list \<Rightarrow> u32 \<Rightarrow> entry" where
  "tiny_entry v f \<equiv> \<lparr>e_key = [1, 2], e_val = v, e_flags = f\<rparr>"

definition tiny_with :: "byte list \<Rightarrow> shmc" where
  "tiny_with v = snd (the (shmc_set_nolock tiny_store (Buf 0 [1, 2]) 2 v (length v) 5))"

lemma tiny_with_ok:
  assumes "length v \<le> 6"
  shows "implements (tiny_with v) (tst [tiny_entry v 5] [] [0] [0])" "conf_of (tiny_with v) = tiny_conf"
proof -
  have "a_set tiny_conf (tst [] [] [0, 0] [0]) [1, 2] v 5 = Some (SHMC_OK, tst [tiny_entry v 5] [] [0] [0])"
    using assms by (simp add: a_set_def a_del_def tiny_eval)
  then obtain s' where "shmc_set_nolock tiny_store (Buf 0 [1, 2]) 2 v (length v) 5 = Some (SHMC_OK, s')"
      "implements s' (tst [tiny_entry v 5] [] [0] [0])" "conf_of s' = tiny_conf"
    using set_refines [OF tiny_impl, of 2 "Buf 0 [1, 2]" "length v" v 5] assms by (auto simp: tiny_eval)
  then show "implements (tiny_with v) (tst [tiny_entry v 5] [] [0] [0])" "conf_of (tiny_with v) = tiny_conf"
    by (simp_all add: tiny_with_def)
qed

section \<open>Every operation implements its specification\<close>

text \<open>
  C7: on a well-formed store \<open>shmc_get_nolock\<close> and \<open>shmc_getf_nolock\<close>, through any buffer that
  holds the key, return what the specification says (missing key, no memory, too little room,
  or the value and flags), move the entry to the front of its class, and leave a well-formed
  store; \<open>shmc_del_nolock\<close> removes the entry and gives its chunk back to its class. In particular they
  never read outside an object and always return.
\<close>

theorem lookup_and_del_implement:
  assumes "implements s A" and "nkey \<le> length (buf_bytes key)"
  shows "(case a_get (conf_of s) A (buf_key key nkey) ok of (rc, out, A') \<Rightarrow>
      \<exists>s'. shmc_get_nolock s key nkey ok = Some (rc, out, s') \<and> implements s' A' \<and> conf_of s' = conf_of s)
    \<and> (case a_getf (conf_of s) A (buf_key key nkey) room of (rc, out, A') \<Rightarrow>
      \<exists>s'. shmc_getf_nolock s key nkey room = Some (rc, out, s') \<and> implements s' A' \<and> conf_of s' = conf_of s)
    \<and> refines (shmc_del_nolock s key nkey) (conf_of s) (Some (a_del (conf_of s) A (buf_key key nkey)))"
  using get_refines [OF assms] getf_refines [OF assms] del_refines [OF assms] by (simp split: prod.split)

theorem lookup_and_del_implement_witness:
  "(\<exists>s'. shmc_get_nolock (tiny_with [7]) (Buf 1 [1, 2, 3]) 2 True = Some (SHMC_OK, Some ([7], 5), s'))
    \<and> (\<exists>s'. shmc_del_nolock (tiny_with [7]) (Buf 1 [1, 2, 3]) 2 = Some (SHMC_OK, s')
         \<and> implements s' (tst [] [] [5, 0] [0]))"
proof -
  have "a_del tiny_conf (tst [tiny_entry [7] 5] [] [0] [0]) [1, 2] = (SHMC_OK, tst [] [] [5, 0] [0])"
    by (simp add: a_del_def tiny_eval)
  moreover have "a_get tiny_conf (tst [tiny_entry [7] 5] [] [0] [0]) [1, 2] True
      = (SHMC_OK, Some ([7], 5), tst [tiny_entry [7] 5] [] [0] [0])"
    by (simp add: a_get_def tiny_eval)
  ultimately show ?thesis
    using lookup_and_del_implement [OF tiny_with_ok(1), of "[7]" 2 "Buf 1 [1, 2, 3]" True 0]
    by (auto simp: tiny_eval tiny_with_ok(2))
qed

text \<open>
  C3: \<open>shmc_set_nolock\<close> implements \<open>a_set\<close>: it refuses an object that is too large, removes an old
  entry of the key, takes a chunk of the first class that fits (free, cut from the pool, or from
  the entry used least recently), and reports out of memory when there is none. It is undefined
  exactly when no class fits although the size check passed. \<open>shmc_add_nolock\<close> does so only when the key
  is missing, and reports \<open>SHMC_EXIST\<close> otherwise. \<open>shmc_replace_nolock\<close> overwrites the value in place when
  the new one belongs to the same class; otherwise it removes the entry first and then stores, so an
  object that turns out to be too large or finds no memory costs the old value.
\<close>

theorem storing_implements:
  assumes "implements s A" and "nkey \<le> length (buf_bytes key)" and "nval \<le> length val"
    and "sizeof_item + nkey + nval < 2 ^ 64"
  shows "refines (shmc_set_nolock s key nkey val nval flags) (conf_of s)
      (a_set (conf_of s) A (buf_key key nkey) (take nval val) flags)
    \<and> refines (shmc_add_nolock s key nkey val nval flags) (conf_of s)
      (a_add (conf_of s) A (buf_key key nkey) (take nval val) flags)
    \<and> refines (shmc_replace_nolock s key nkey val nval flags) (conf_of s)
      (a_replace (conf_of s) A (buf_key key nkey) (take nval val) flags)"
  using set_refines [OF assms] add_refines [OF assms] replace_refines [OF assms] by blast

theorem storing_implements_witness:
  "(\<exists>s'. shmc_set_nolock (tiny_with [7]) (Buf 0 [1, 2]) 2 [8, 9] 2 6 = Some (SHMC_OK, s')
      \<and> implements s' (tst [tiny_entry [8, 9] 6] [] [0] [0]))
    \<and> (\<exists>s'. shmc_add_nolock (tiny_with [7]) (Buf 0 [1, 2]) 2 [8, 9] 2 6 = Some (SHMC_EXIST, s')
      \<and> implements s' (tst [tiny_entry [7] 5] [] [0] [0]))
    \<and> (\<exists>s'. shmc_replace_nolock (tiny_with [7]) (Buf 0 [1, 2]) 2 [8, 9] 2 6 = Some (SHMC_OK, s')
      \<and> implements s' (tst [tiny_entry [8, 9] 6] [] [0] [0]))"
proof -
  have "a_set tiny_conf (tst [tiny_entry [7] 5] [] [0] [0]) [1, 2] [8, 9] 6 =
      Some (SHMC_OK, tst [tiny_entry [8, 9] 6] [] [0] [0])"
    by (simp add: a_set_def a_del_def tiny_eval)
  moreover have "a_add tiny_conf (tst [tiny_entry [7] 5] [] [0] [0]) [1, 2] [8, 9] 6 =
      Some (SHMC_EXIST, tst [tiny_entry [7] 5] [] [0] [0])"
    by (simp add: a_add_def tiny_eval)
  moreover have "a_replace tiny_conf (tst [tiny_entry [7] 5] [] [0] [0]) [1, 2] [8, 9] 6 =
      Some (SHMC_OK, tst [tiny_entry [8, 9] 6] [] [0] [0])"
    by (simp add: a_replace_def tiny_eval)
  ultimately show ?thesis
    using storing_implements [OF tiny_with_ok(1), of "[7]" 2 "Buf 0 [1, 2]" 2 "[8, 9]" 6]
    by (auto simp: tiny_eval tiny_with_ok(2))
qed

text \<open>
  C6: \<open>shmc_prepend_nolock\<close> and \<open>shmc_append_nolock\<close> put the new bytes at the front and at the
  back of the value, in place while the item stays in its class and by moving it otherwise.
\<close>

theorem grow_implements:
  assumes "implements s A" and "nkey \<le> length (buf_bytes key)" and "nval \<le> length val"
    and "joins (conf_of s) A (buf_key key nkey) nval"
  shows "refines (shmc_prepend_nolock s key nkey val nval flags) (conf_of s)
      (a_prepend (conf_of s) A (buf_key key nkey) (take nval val) flags)
    \<and> refines (shmc_append_nolock s key nkey val nval flags) (conf_of s)
      (a_append (conf_of s) A (buf_key key nkey) (take nval val) flags)"
  using prepend_refines [OF assms] append_refines [OF assms] by blast

theorem grow_implements_witness:
  "\<exists>s'. shmc_append_nolock (tiny_with [7]) (Buf 0 [1, 2]) 2 [8, 9] 2 6 = Some (SHMC_OK, s')
    \<and> implements s' (tst [tiny_entry [7, 8, 9] 6] [] [0] [0])"
proof -
  have "a_append tiny_conf (tst [tiny_entry [7] 5] [] [0] [0]) [1, 2] [8, 9] 6 =
      Some (SHMC_OK, tst [tiny_entry [7, 8, 9] 6] [] [0] [0])"
    by (simp add: a_append_def a_grow_def tiny_eval)
  moreover have "joins tiny_conf (tst [tiny_entry [7] 5] [] [0] [0]) [1, 2] 2"
    by (simp add: joins_def tiny_eval)
  ultimately show ?thesis
    using grow_implements [OF tiny_with_ok(1), of "[7]" 2 "Buf 0 [1, 2]" 2 "[8, 9]" 6]
    by (auto simp: tiny_eval tiny_with_ok(2))
qed

text \<open>
  C5: \<open>shmc_incr_nolock\<close> and \<open>shmc_decr_nolock\<close> implement the counter arithmetic of theory
  \<open>Counter_Spec\<close>: the old value stands for the sum of its digits times powers of ten, the number is
  incremented modulo \<open>2 ^ 64\<close> or decremented on natural numbers, so not below zero, and written back
  as its decimal digits and a zero byte into a value of 21 bytes, which is made when the entry has
  another length or is missing.
\<close>

theorem counters_implement:
  assumes "implements s A" and "nkey \<le> length (buf_bytes key)"
    and "sizeof_item + nkey + UINT64_SIZE < 2 ^ 64"
  shows "refines3 (shmc_incr_nolock s key nkey val flags) (conf_of s)
      (a_arith (conf_of s) A (buf_key key nkey) val True flags)
    \<and> refines3 (shmc_decr_nolock s key nkey val flags) (conf_of s)
      (a_arith (conf_of s) A (buf_key key nkey) val False flags)"
  using arith_refines [OF assms] by (simp add: shmc_incr_nolock_def shmc_decr_nolock_def)

theorem counters_implement_witness:
  "\<exists>s'. shmc_incr_nolock (tiny_with [52, 49]) (Buf 0 [1, 2]) 2 1 None = Some (SHMC_OK, Some (42, None), s')"
proof -
  have n: "counter_val [52, 49] = 41" by (simp add: counter_val_loop UINT64_SIZE_def)
  have "\<exists>B. a_arith tiny_conf (tst [tiny_entry [52, 49] 5] [] [0] [0]) [1, 2] 1 True None = Some (SHMC_OK, Some (42, None), B)"
    by (simp add: a_arith_def tiny_eval UINT64_SIZE_def n counter_op_def)
  then show ?thesis
    using counters_implement [OF tiny_with_ok(1), of "[52, 49]" 2 "Buf 0 [1, 2]" 1 None]
    by (auto simp: tiny_eval tiny_with_ok(2) UINT64_SIZE_def)
qed

end
