(* ===== verification/Lookup_Properties.thy ===== *)
theory Lookup_Properties
  imports Store_Properties
begin

text \<open>
  What the operations mean for later lookups, whatever key is looked up: the store is a
  dictionary that forgets the least recently used entry of a class when the class is full.
\<close>

section \<open>Storing and deleting\<close>

lemma refinesD:
  assumes "refines r cf (Some (rc, A))"
  shows "\<exists>s. r = Some (rc, s) \<and> implements s A \<and> conf_of s = cf"
  using assms by simp

lemma refines_SomeE:
  assumes "refines (Some (rc, s)) cf ar"
  obtains A where "ar = Some (rc, A)" "implements s A" "conf_of s = cf"
  using assms by (auto simp: refines_def split: option.splits)

text \<open>
  C2: after a successful \<open>shmc_set_nolock\<close> the key has the new value and flags, every other key is
  as before, except that the least recently used entry of the class may have been evicted
  (\<open>set_victim\<close>). This is what every other process sees, through whatever buffer it asks.
\<close>

theorem set_then_lookup:
  assumes "implements s A" and "nkey \<le> length (buf_bytes key)" and "nval \<le> length val"
    and "sizeof_item + nkey + nval < 2 ^ 64"
    and "shmc_set_nolock s key nkey val nval flags = Some (SHMC_OK, s')"
  shows "shmc_lookup s' = (forget (set_victim (conf_of s) A (buf_key key nkey) (take nval val))
    ((shmc_lookup s)(buf_key key nkey := None)))(buf_key key nkey \<mapsto> (take nval val, flags))"
proof -
  obtain A' where A': "a_set (conf_of s) A (buf_key key nkey) (take nval val) flags = Some (SHMC_OK, A')"
      "implements s' A'" "conf_of s' = conf_of s"
    using set_refines [OF assms(1-4), of flags] unfolding assms(5) by (elim refines_SomeE)
  show ?thesis
    using set_facts [OF implements_wf [OF assms(1)] A'(1)]
    by (simp add: lookup_dict [OF assms(1)] lookup_dict [OF A'(2)] A'(3))
qed

theorem set_then_lookup_witness:
  "\<exists>s'. shmc_set_nolock (tiny_with [7]) (Buf 2 [9]) 1 [8] 1 6 = Some (SHMC_OK, s')
    \<and> shmc_lookup s' [9] = Some ([8], 6) \<and> shmc_lookup s' [1, 2] = shmc_lookup (tiny_with [7]) [1, 2]"
proof -
  have "\<exists>B. a_set tiny_conf (tst [tiny_entry [7] 5] [] [0] [0]) [9] [8] 6 = Some (SHMC_OK, B)"
    by (simp add: a_set_def a_del_def tiny_eval)
  then obtain s' where s': "shmc_set_nolock (tiny_with [7]) (Buf 2 [9]) 1 [8] 1 6 = Some (SHMC_OK, s')"
    using set_refines [OF tiny_with_ok(1), of "[7]" 1 "Buf 2 [9]" 1 "[8]" 6] by (auto simp: tiny_eval tiny_with_ok(2))
  have "set_victim tiny_conf (tst [tiny_entry [7] 5] [] [0] [0]) [9] [8] = None"
    by (simp add: set_victim_def evicted_def a_del_def tiny_eval)
  then show ?thesis
    using set_then_lookup [OF tiny_with_ok(1) _ _ _ s'] s' by (simp add: tiny_eval tiny_with_ok(2))
qed

lemma del_lookup:
  assumes "implements s A" and "nkey \<le> length (buf_bytes key)"
  shows "\<exists>rc s'. shmc_del_nolock s key nkey = Some (rc, s')
    \<and> (rc = SHMC_OK \<longleftrightarrow> shmc_lookup s (buf_key key nkey) \<noteq> None)
    \<and> shmc_lookup s' = (shmc_lookup s)(buf_key key nkey := None)"
proof -
  define k where "k = buf_key key nkey"
  obtain s' where s': "shmc_del_nolock s key nkey = Some (fst (a_del (conf_of s) A k), s')"
      "implements s' (snd (a_del (conf_of s) A k))" "conf_of s' = conf_of s"
    using refinesD [of _ _ "fst (a_del (conf_of s) A k)" "snd (a_del (conf_of s) A k)"] del_refines [OF assms]
    by (auto simp: k_def)
  have "fst (a_del (conf_of s) A k) = SHMC_OK \<longleftrightarrow> dict (conf_of s) A k \<noteq> None"
    by (auto simp: a_del_def dict_def split: option.split)
  moreover have "shmc_lookup s' = (shmc_lookup s)(k := None)"
    using del_facts(2) [OF implements_wf [OF assms(1)], of k]
    by (simp add: lookup_dict [OF assms(1)] lookup_dict [OF s'(2)] s'(3))
  ultimately show ?thesis
    using s'(1) by (auto simp: lookup_dict [OF assms(1)] k_def)
qed

section \<open>Reading, and what reading protects\<close>

lemma get_facts:
  assumes A: "implements s A" and n: "nkey \<le> length (buf_bytes key)"
    and r: "shmc_get_nolock s key nkey ok = Some (rc, out, s')"
  shows "\<exists>A'. a_get (conf_of s) A (buf_key key nkey) ok = (rc, out, A') \<and> implements s' A' \<and> conf_of s' = conf_of s"
proof -
  obtain rc' out' A' where a: "a_get (conf_of s) A (buf_key key nkey) ok = (rc', out', A')"
    by (cases "a_get (conf_of s) A (buf_key key nkey) ok") auto
  then show ?thesis using get_refines [OF A n a] r by auto
qed

lemma a_get_dict:
  assumes "a_wf cf A" and "a_get cf A k ok = (rc, out, A')"
  shows "dict cf A' = dict cf A" "ok \<Longrightarrow> out = dict cf A k"
  using assms touch_same [OF assms(1)] by (auto simp: a_get_def dict_def split: option.splits if_splits)

lemma get_lookup:
  assumes "implements s A" and "nkey \<le> length (buf_bytes key)"
  shows "\<exists>rc s'. shmc_get_nolock s key nkey True = Some (rc, shmc_lookup s (buf_key key nkey), s')
    \<and> rc = (if shmc_lookup s (buf_key key nkey) = None then SHMC_NOTFOUND else SHMC_OK)
    \<and> shmc_lookup s' = shmc_lookup s"
proof -
  define k where "k = buf_key key nkey"
  obtain rc out A' where a: "a_get (conf_of s) A k True = (rc, out, A')"
    by (cases "a_get (conf_of s) A k True") auto
  obtain s' where s': "shmc_get_nolock s key nkey True = Some (rc, out, s')" "implements s' A'" "conf_of s' = conf_of s"
    using get_refines [OF assms a [unfolded k_def]] by blast
  note d = a_get_dict [OF implements_wf [OF assms(1)] a]
  have "rc = (if dict (conf_of s) A k = None then SHMC_NOTFOUND else SHMC_OK)"
    using a by (auto simp: a_get_def dict_def split: option.splits)
  then show ?thesis
    using s' d by (simp add: lookup_dict [OF assms(1)] lookup_dict [OF s'(2)] k_def)
qed

text \<open>
  C12: a lookup through any buffer that holds the key returns the value and flags of the key and
  changes no entry; it fails only when the key is missing. After \<open>shmc_del_nolock\<close> the key is gone and
  every other key is as before.
\<close>

theorem get_and_del_lookup:
  assumes "implements s A" and "nkey \<le> length (buf_bytes key)"
  shows "(\<exists>rc s'. shmc_get_nolock s key nkey True = Some (rc, shmc_lookup s (buf_key key nkey), s')
      \<and> rc = (if shmc_lookup s (buf_key key nkey) = None then SHMC_NOTFOUND else SHMC_OK)
      \<and> shmc_lookup s' = shmc_lookup s)
    \<and> (\<exists>rc s'. shmc_del_nolock s key nkey = Some (rc, s')
      \<and> (rc = SHMC_OK \<longleftrightarrow> shmc_lookup s (buf_key key nkey) \<noteq> None)
      \<and> shmc_lookup s' = (shmc_lookup s)(buf_key key nkey := None))"
  using get_lookup [OF assms] del_lookup [OF assms] by blast

theorem get_and_del_lookup_witness:
  "(\<exists>rc s'. shmc_get_nolock (tiny_with [7]) (Buf 5 [1, 2]) 2 True = Some (rc, shmc_lookup (tiny_with [7]) [1, 2], s'))
    \<and> (\<exists>rc s'. shmc_del_nolock (tiny_with [7]) (Buf 5 [1, 2]) 2 = Some (rc, s') \<and> shmc_lookup s' [1, 2] = None)"
  using get_and_del_lookup [OF tiny_with_ok(1), of "[7]" 2 "Buf 5 [1, 2]"] by (auto simp: buf_key_def)

lemma last_without_touched:
  assumes "a_wf cf A" and "a_find cf A k = Some (c, e)" and "2 \<le> length (a_lru A c)"
  shows "a_lru (a_touch A c e) c = e # without k (a_lru A c)" "without k (a_lru A c) \<noteq> []"
    "e_key (last (without k (a_lru A c))) \<noteq> k"
proof -
  have e: "e \<in> set (a_lru A c)" "e_key e = k" using assms(1,2) by (simp_all add: a_find_iff)
  then show "a_lru (a_touch A c e) c = e # without k (a_lru A c)" by (simp add: a_touch_def)
  have d: "distinct (map e_key (a_lru A c))" using a_wfD(1) [OF assms(1)] .
  show ne: "without k (a_lru A c) \<noteq> []"
  proof
    assume "without k (a_lru A c) = []"
    then have "set (map e_key (a_lru A c)) \<subseteq> {k}" by (auto simp: without_def filter_empty_conv)
    then have "length (a_lru A c) \<le> 1"
      using distinct_card [OF d] card_mono [of "{k}" "set (map e_key (a_lru A c))"] by simp
    then show False using assms(3) by simp
  qed
  from last_in_set [OF ne] show "e_key (last (without k (a_lru A c))) \<noteq> k" by (auto simp: without_def)
qed

lemma a_del_touched:
  assumes "a_lru A c = e # es" and "es \<noteq> []" and "e_key (last es) \<noteq> e_key e"
    and "evicts cf c (snd (a_del cf A k'))" and "k' \<noteq> e_key e" and "a_wf cf A"
  shows "e_key (last (a_lru (snd (a_del cf A k')) c)) \<noteq> e_key e"
proof (cases "a_find cf A k'")
  case None
  then show ?thesis using assms(1-3) by (simp add: a_del_def)
next
  case (Some p)
  then obtain d e' where p: "a_find cf A k' = Some (d, e')" by (cases p) simp
  show ?thesis
  proof (cases "d = c")
    case True
    then show ?thesis using assms(4) p by (simp add: a_del_def evicts_def a_drop_def a_release_def)
  next
    case False
    then show ?thesis
      using p assms(1-3) by (simp add: a_del_def a_drop_def a_release_def a_remove_def)
  qed
qed

text \<open>
  C4: reading protects from eviction. An entry that was just read survives the next store of
  another key, as long as its class holds at least one other entry: the victim is always the entry
  that was used least recently.
\<close>

theorem read_entry_survives_set:
  assumes A: "implements s A" and n: "nkey \<le> length (buf_bytes key)"
    and get: "shmc_get_nolock s key nkey True = Some (SHMC_OK, Some vf, s1)"
    and cls: "a_find (conf_of s) A (buf_key key nkey) = Some (c, e)" "2 \<le> length (a_lru A c)"
    and key': "nkey' \<le> length (buf_bytes key')" "nval \<le> length val" "sizeof_item + nkey' + nval < 2 ^ 64"
      "buf_key key' nkey' \<noteq> buf_key key nkey"
    and set: "shmc_set_nolock s1 key' nkey' val nval flags = Some (SHMC_OK, s2)"
  shows "shmc_lookup s2 (buf_key key nkey) = Some vf"
proof -
  define k k' V where "k = buf_key key nkey" and "k' = buf_key key' nkey'" and "V = take nval val"
  note wf = implements_wf [OF A]
  obtain A1 where A1: "a_get (conf_of s) A k True = (SHMC_OK, Some vf, A1)" "implements s1 A1" "conf_of s1 = conf_of s"
    using get_facts [OF A n get] by (auto simp: k_def)
  have t: "A1 = a_touch A c e" "vf = (e_val e, e_flags e)" using A1(1) cls(1) by (simp_all add: a_get_def k_def)
  have ek: "e_key e = k" using cls(1) by (simp add: a_find_iff [OF wf] k_def)
  note L = last_without_touched [OF wf cls [folded k_def]]
  note wf1 = implements_wf [OF A1(2), unfolded A1(3)]
  obtain A2 where A2: "a_set (conf_of s) A1 k' V flags = Some (SHMC_OK, A2)" "implements s2 A2" "conf_of s2 = conf_of s"
    using set_refines [OF A1(2) key'(1-3), of flags] unfolding set A1(3) k'_def V_def by (elim refines_SomeE)
  have "set_victim (conf_of s) A1 k' V \<noteq> Some k"
  proof
    assume "set_victim (conf_of s) A1 k' V = Some k"
    then obtain c' where c': "evicts (conf_of s) c' (snd (a_del (conf_of s) A1 k'))"
        "e_key (last (a_lru (snd (a_del (conf_of s) A1 k')) c')) = k"
      by (auto simp: set_victim_def evicted_def split: option.splits if_splits)
    have sub: "set (a_lru (snd (a_del (conf_of s) A1 k')) c') \<subseteq> set (a_lru A1 c')"
      by (auto simp: a_del_def a_drop_def a_release_def a_remove_def without_def split: option.split)
    have "last (a_lru (snd (a_del (conf_of s) A1 k')) c') \<in> set (a_lru A1 c')"
      using c'(1) sub last_in_set by (force simp: evicts_def)
    moreover have "e \<in> set (a_lru A1 c)" using L(1) by (simp add: t)
    ultimately have "c' = c" using a_wfD(2) [OF wf1, of c' c] c'(2) ek by (cases "c' = c") auto
    then show False
      using a_del_touched [OF L(1) [folded t(1)] L(2) _ _ _ wf1, of k'] L(3) c' key'(4) ek
      by (simp add: k_def k'_def)
  qed
  then have v: "forget (set_victim (conf_of s) A1 k' V) m k = m k" for m :: "byte list \<Rightarrow> (byte list \<times> u32) option"
    by (cases "set_victim (conf_of s) A1 k' V") auto
  have d1: "dict (conf_of s) A1 k = Some vf"
    using a_get_dict [OF wf A1(1)] by simp
  have "dict (conf_of s) A2 = (forget (set_victim (conf_of s) A1 k' V) ((dict (conf_of s) A1)(k' := None)))(k' \<mapsto> (V, flags))"
    using set_facts [OF wf1 A2(1)] by simp
  then have "dict (conf_of s) A2 k = Some vf" using key'(4) v d1 by (simp add: k_def [symmetric] k'_def [symmetric])
  then show ?thesis by (simp add: lookup_dict [OF A2(2)] A2(3) k_def)
qed

text \<open>A segment whose first class is full.\<close>

definition tiny_full :: shmc where
  "tiny_full = snd (the (shmc_set_nolock (tiny_with [7]) (Buf 0 [3]) 1 [8] 1 6))"

lemma tiny_full_ok:
  "implements tiny_full (tst [\<lparr>e_key = [3], e_val = [8], e_flags = 6\<rparr>, tiny_entry [7] 5] [] [] [0])"
  "conf_of tiny_full = tiny_conf"
proof -
  have "a_set tiny_conf (tst [tiny_entry [7] 5] [] [0] [0]) [3] [8] 6 =
      Some (SHMC_OK, tst [\<lparr>e_key = [3], e_val = [8], e_flags = 6\<rparr>, tiny_entry [7] 5] [] [] [0])"
    by (simp add: a_set_def a_del_def tiny_eval)
  then obtain s' where "shmc_set_nolock (tiny_with [7]) (Buf 0 [3]) 1 [8] 1 6 = Some (SHMC_OK, s')"
      "implements s' (tst [\<lparr>e_key = [3], e_val = [8], e_flags = 6\<rparr>, tiny_entry [7] 5] [] [] [0])"
      "conf_of s' = tiny_conf"
    using set_refines [OF tiny_with_ok(1), of "[7]" 1 "Buf 0 [3]" 1 "[8]" 6] by (auto simp: tiny_eval tiny_with_ok(2))
  then show "implements tiny_full (tst [\<lparr>e_key = [3], e_val = [8], e_flags = 6\<rparr>, tiny_entry [7] 5] [] [] [0])"
    "conf_of tiny_full = tiny_conf"
    by (simp_all add: tiny_full_def)
qed

theorem read_entry_survives_set_witness:
  "\<exists>s1 s2. shmc_get_nolock tiny_full (Buf 0 [1, 2]) 2 True = Some (SHMC_OK, Some ([7], 5), s1)
    \<and> shmc_set_nolock s1 (Buf 0 [4]) 1 [9] 1 0 = Some (SHMC_OK, s2) \<and> shmc_lookup s2 [1, 2] = Some ([7], 5)"
proof -
  let ?A = "tst [\<lparr>e_key = [3], e_val = [8], e_flags = 6\<rparr>, tiny_entry [7] 5] [] [] [0]"
  let ?B = "tst [tiny_entry [7] 5, \<lparr>e_key = [3], e_val = [8], e_flags = 6\<rparr>] [] [] [0]"
  have "a_get tiny_conf ?A [1, 2] True = (SHMC_OK, Some ([7], 5), ?B)"
    by (simp add: a_get_def tiny_eval)
  then obtain s1 where s1: "shmc_get_nolock tiny_full (Buf 0 [1, 2]) 2 True = Some (SHMC_OK, Some ([7], 5), s1)"
      "implements s1 ?B" "conf_of s1 = tiny_conf"
    using get_refines [OF tiny_full_ok(1), of 2 "Buf 0 [1, 2]" True] by (auto simp: tiny_full_ok(2) buf_key_def)
  have "\<exists>C. a_set tiny_conf ?B [4] [9] 0 = Some (SHMC_OK, C)"
    by (simp add: a_set_def a_del_def tiny_eval)
  then obtain s2 where s2: "shmc_set_nolock s1 (Buf 0 [4]) 1 [9] 1 0 = Some (SHMC_OK, s2)"
    using set_refines [OF s1(2), of 1 "Buf 0 [4]" 1 "[9]" 0] by (auto simp: s1(3) buf_key_def)
  have "a_find (conf_of tiny_full) ?A (buf_key (Buf 0 [1, 2]) 2) = Some (0, tiny_entry [7] 5)"
    by (simp add: tiny_full_ok(2) tiny_eval)
  from read_entry_survives_set [OF tiny_full_ok(1) _ s1(1) this _ _ _ _ _ s2] s1(1) s2
  show ?thesis by (simp add: buf_key_def)
qed

section \<open>Extending a value\<close>

text \<open>
  C11: after a successful \<open>shmc_append_nolock\<close> the value is the old one followed by the new bytes,
  and after \<open>shmc_prepend_nolock\<close> the other way round; any other result changes no entry. The
  flags are the ones given only when the item stays in its size class.
\<close>

theorem append_then_lookup:
  assumes "implements s A" and "nkey \<le> length (buf_bytes key)" and "nval \<le> length val"
    and "joins (conf_of s) A (buf_key key nkey) nval"
    and "shmc_lookup s (buf_key key nkey) = Some (old, fl)"
    and "shmc_append_nolock s key nkey val nval flags = Some (rc, s')"
    and "shmc_prepend_nolock s key nkey val nval flags = Some (rc'', s'')"
  shows "(if rc = SHMC_OK then \<exists>f. shmc_lookup s' (buf_key key nkey) = Some (old @ take nval val, f)
      else shmc_lookup s' = shmc_lookup s)
    \<and> (if rc'' = SHMC_OK then \<exists>f. shmc_lookup s'' (buf_key key nkey) = Some (take nval val @ old, f)
      else shmc_lookup s'' = shmc_lookup s)"
proof -
  define k where "k = buf_key key nkey"
  note wf = implements_wf [OF assms(1)]
  obtain c e where e: "a_find (conf_of s) A k = Some (c, e)" "e_val e = old"
    using assms(5) by (auto simp: lookup_dict [OF assms(1)] dict_def k_def)
  have *: "if r = SHMC_OK then \<exists>f. shmc_lookup t k = Some (join old, f) else shmc_lookup t = shmc_lookup s"
    if r: "refines (Some (r, t)) (conf_of s) (a_grow (conf_of s) A k join flags)" for r t join
  proof -
    obtain A' where A': "a_grow (conf_of s) A k join flags = Some (r, A')" "implements t A'" "conf_of t = conf_of s"
      using r by (elim refines_SomeE)
    show ?thesis
      using grow_facts [OF wf e(1) A'(1)] e(2)
      by (auto simp: lookup_dict [OF assms(1)] lookup_dict [OF A'(2)] A'(3))
  qed
  show ?thesis
    using * [OF append_refines [OF assms(1-4), of flags, unfolded assms(6) a_append_def, folded k_def]]
      * [OF prepend_refines [OF assms(1-4), of flags, unfolded assms(7) a_prepend_def, folded k_def]]
    unfolding k_def [symmetric] by blast
qed

theorem append_then_lookup_witness:
  "\<exists>s' s'' f f'. shmc_append_nolock (tiny_with [7]) (Buf 0 [1, 2]) 2 [8] 1 6 = Some (SHMC_OK, s')
    \<and> shmc_lookup s' [1, 2] = Some ([7, 8], f)
    \<and> shmc_prepend_nolock (tiny_with [7]) (Buf 0 [1, 2]) 2 [8] 1 6 = Some (SHMC_OK, s'')
    \<and> shmc_lookup s'' [1, 2] = Some ([8, 7], f')"
proof -
  let ?A = "tst [tiny_entry [7] 5] [] [0] [0]"
  have j: "joins tiny_conf ?A [1, 2] 1" by (simp add: joins_def tiny_eval)
  have "\<exists>B. a_append tiny_conf ?A [1, 2] [8] 6 = Some (SHMC_OK, B)" "\<exists>B. a_prepend tiny_conf ?A [1, 2] [8] 6 = Some (SHMC_OK, B)"
    by (simp_all add: a_append_def a_prepend_def a_grow_def tiny_eval)
  then obtain s' s'' where s: "shmc_append_nolock (tiny_with [7]) (Buf 0 [1, 2]) 2 [8] 1 6 = Some (SHMC_OK, s')"
      "shmc_prepend_nolock (tiny_with [7]) (Buf 0 [1, 2]) 2 [8] 1 6 = Some (SHMC_OK, s'')"
    using append_refines [OF tiny_with_ok(1), of "[7]" 2 "Buf 0 [1, 2]" 1 "[8]" 6]
      prepend_refines [OF tiny_with_ok(1), of "[7]" 2 "Buf 0 [1, 2]" 1 "[8]" 6] j
    by (auto simp: tiny_eval tiny_with_ok(2))
  have "shmc_lookup (tiny_with [7]) (buf_key (Buf 0 [1, 2]) 2) = Some ([7], 5)"
    by (simp add: lookup_dict [OF tiny_with_ok(1)] dict_def tiny_eval tiny_with_ok(2))
  from append_then_lookup [OF tiny_with_ok(1) _ _ _ this s] s j show ?thesis
    by (simp add: tiny_eval tiny_with_ok(2))
qed

end
