(* ===== verification/Counter_Properties.thy ===== *)
theory Counter_Properties
  imports Lookup_Properties
begin

text \<open>
  What counters promise: the text written is read back as the same number, and the value after an
  increment or decrement is the number the call reports.
\<close>

section \<open>Text\<close>

lemma length_over: "UINT64_SIZE \<le> length v \<Longrightarrow> length (over v n) = length v"
  using sprintf_u64_length [of n] by (simp add: over_sprintf)

lemma counter_val_over:
  assumes "UINT64_SIZE \<le> length v"
  shows "counter_val (over v n) = n"
proof -
  have "over v n = sprintf_u64 n @ drop (length (sprintf_u64 n)) v" by (simp add: over_sprintf blit_def)
  moreover have "UINT64_SIZE \<le> length (sprintf_u64 n @ drop (length (sprintf_u64 n)) v)" using assms by simp
  ultimately show ?thesis using strtoull_sprintf by (simp add: counter_val_loop)
qed

lemma safe_strtoull_counter_val: "length v = UINT64_SIZE \<Longrightarrow> safe_strtoull v (length v) = Some (counter_val v)"
  by (simp add: safe_strtoull_def counter_val_loop Let_def UINT64_SIZE_def)

lemma counter_text_facts: "length (counter_text n) = UINT64_SIZE" "counter_val (counter_text n) = n"
  by (simp_all add: counter_text_21 length_over counter_val_over)

text \<open>
  \<open>safe_strtoull\<close> reads back what \<open>sprintf\<close> wrote, for every 64-bit number and whatever the
  value held before: the terminating zero ends the digits, and 20 digits and the zero always fit
  into \<open>UINT64_SIZE\<close>.
\<close>

lemma counter_text_roundtrip:
  assumes "length v = UINT64_SIZE"
  shows "length (sprintf_u64 n) \<le> UINT64_SIZE \<and> safe_strtoull (over v n) UINT64_SIZE = Some n"
  using sprintf_u64_length [of n] safe_strtoull_counter_val [of "over v n"] counter_val_over [of v n]
    length_over [of v n] assms by simp

section \<open>Values\<close>

text \<open>The number a lookup stands for; a missing key counts as zero.\<close>

definition number_of :: "(byte list \<times> u32) option \<Rightarrow> u64" where
  "number_of x = (case x of None \<Rightarrow> 0 | Some (v, f) \<Rightarrow> counter_val v)"

lemma arith_facts:
  assumes A: "implements s A" and cf: "cf = conf_of s" and r: "a_arith cf A k val incr flags = Some (SHMC_OK, Some (n, fo), A')"
    and A': "implements s' A'" "conf_of s' = cf"
  shows "n = counter_op incr (number_of (dict cf A k)) val"
    "(\<exists>v f. dict cf A' k = Some (v, f) \<and> length v = UINT64_SIZE \<and> counter_val v = n)
     \<or> (dict cf A' k = None \<and> (\<exists>v f. dict cf A k = Some (v, f) \<and> length v \<noteq> UINT64_SIZE))"
proof -
  note wf = implements_wf [OF A, folded cf] and wf' = implements_wf [OF A'(1), unfolded A'(2)]
  have new: "\<exists>v f. dict cf A' k = Some (v, f) \<and> length v = UINT64_SIZE \<and> counter_val v = n"
    if "e \<in> set (a_lru A' c)" "e_key e = k" "length (e_val e) = UINT64_SIZE" "counter_val (e_val e) = n" for e c
    using that by (auto simp: dict_iff [OF wf'])
  have both: "n = counter_op incr (number_of (dict cf A k)) val \<and>
    ((\<exists>v f. dict cf A' k = Some (v, f) \<and> length v = UINT64_SIZE \<and> counter_val v = n)
     \<or> (dict cf A' k = None \<and> (\<exists>v f. dict cf A k = Some (v, f) \<and> length v \<noteq> UINT64_SIZE)))"
  proof (cases "a_find cf A k")
    case None
    obtain c B f where B: "n = counter_op incr 0 val"
        "A' = a_push B c \<lparr>e_key = k, e_val = counter_text n, e_flags = f\<rparr>"
      using r None by (auto simp: a_arith_def Let_def split: if_splits Option.bind_splits option.splits)
    show ?thesis
      using new [of "\<lparr>e_key = k, e_val = counter_text n, e_flags = f\<rparr>" c] B None
      by (simp add: a_push_def counter_text_facts number_of_def dict_def)
  next
    case (Some p)
    then obtain c e where k: "a_find cf A k = Some (c, e)" by (cases p) simp
    have e: "e \<in> set (a_lru A c)" "e_key e = k" using k by (simp_all add: a_find_iff [OF wf])
    define m where "m = counter_op incr (counter_val (e_val e)) val"
    have num: "number_of (dict cf A k) = counter_val (e_val e)" using k by (simp add: number_of_def dict_def)
    show ?thesis
    proof (cases "length (e_val e) = UINT64_SIZE")
      case True
      then have B: "n = m" "A' = a_set_val A c k (over (e_val e) n)"
        using r k by (auto simp: a_arith_def Let_def m_def)
      have "e\<lparr>e_val := over (e_val e) n\<rparr> \<in> set (a_lru A' c)" using e by (force simp: B(2) a_set_val_def)
      from new [OF this] show ?thesis
        using True e(2) B(1) num by (simp add: length_over counter_val_over m_def)
    next
      case False
      obtain c' fl B where t: "a_take cf c' A = Some (fl, B)"
        and r': "n = m" "if c' = c \<and> evicts cf c A \<and> e_key (last (a_lru A c)) = k then A' = a_release B c (e_flags e)
          else \<exists>f. A' = a_push (a_drop B c e) c' \<lparr>e_key = k, e_val = counter_text n, e_flags = f\<rparr>"
        using r k False
        by (fastforce simp: a_arith_def Let_def m_def split: if_splits Option.bind_splits option.splits)
      note T = take_facts [OF wf t]
      show ?thesis
      proof (cases "c' = c \<and> evicts cf c A \<and> e_key (last (a_lru A c)) = k")
        case True
        then have "dict cf A' k = None" using r'(2) T(2) by (simp add: evicted_def)
        moreover have "dict cf A k = Some (e_val e, e_flags e)" using k by (simp add: dict_def)
        ultimately show ?thesis using False r'(1) num by (simp add: m_def)
      next
        case keep: False
        then obtain f where A'_eq: "A' = a_push (a_drop B c e) c' \<lparr>e_key = k, e_val = counter_text n, e_flags = f\<rparr>"
          using r'(2) by auto
        show ?thesis
          using new [of "\<lparr>e_key = k, e_val = counter_text n, e_flags = f\<rparr>" c'] A'_eq r'(1) num
          by (simp add: a_push_def counter_text_facts m_def)
      qed
    qed
  qed
  then show "n = counter_op incr (number_of (dict cf A k)) val"
    "(\<exists>v f. dict cf A' k = Some (v, f) \<and> length v = UINT64_SIZE \<and> counter_val v = n)
     \<or> (dict cf A' k = None \<and> (\<exists>v f. dict cf A k = Some (v, f) \<and> length v \<noteq> UINT64_SIZE))"
    by blast+
qed

text \<open>
  A successful counter operation reports the old number plus or minus the argument (modulo
  \<open>2 ^ 64\<close> upwards, clamped at zero downwards; a missing key counts from zero), and the value stored
  is the text of that number. The one way to lose it is an entry that was not in counter form and
  has been evicted by its own replacement.
\<close>

theorem counter_then_lookup:
  assumes "implements s A" and "nkey \<le> length (buf_bytes key)"
    and "sizeof_item + nkey + UINT64_SIZE < 2 ^ 64"
    and "shmc_arithmetic s key nkey val incr flags = Some (SHMC_OK, Some (n, fo), s')"
  shows "n = counter_op incr (number_of (shmc_lookup s (buf_key key nkey))) val
    \<and> ((\<exists>v f. shmc_lookup s' (buf_key key nkey) = Some (v, f) \<and> length v = UINT64_SIZE
          \<and> safe_strtoull v (length v) = Some n)
       \<or> (shmc_lookup s' (buf_key key nkey) = None
          \<and> (\<exists>v f. shmc_lookup s (buf_key key nkey) = Some (v, f) \<and> length v \<noteq> UINT64_SIZE)))"
proof -
  define k where "k = buf_key key nkey"
  obtain A' where A': "a_arith (conf_of s) A k val incr flags = Some (SHMC_OK, Some (n, fo), A')"
      "implements s' A'" "conf_of s' = conf_of s"
    using arith_refines [OF assms(1-3), of val incr flags] unfolding assms(4)
    by (auto simp: refines3_def k_def split: option.splits)
  note F = arith_facts [OF assms(1) refl A']
  show ?thesis
    using F safe_strtoull_counter_val
    by (auto simp: lookup_dict [OF assms(1)] lookup_dict [OF A'(2)] A'(3) k_def [symmetric])
qed

theorem counter_then_lookup_witness:
  "\<exists>s' v f. shmc_arithmetic (tiny_with [52, 49]) (Buf 0 [1, 2]) 2 1 True None = Some (SHMC_OK, Some (42, None), s')
    \<and> shmc_lookup s' [1, 2] = Some (v, f) \<and> safe_strtoull v (length v) = Some 42"
proof -
  have n: "counter_val [52, 49] = 41" by (simp add: counter_val_loop UINT64_SIZE_def)
  have "a_arith tiny_conf (tst [tiny_entry [52, 49] 5] [] [0] [0]) [1, 2] 1 True None
      = Some (SHMC_OK, Some (42, None), tst [] [tiny_entry (counter_text 42) 5] [5, 0] [])"
    by (simp add: a_arith_def tiny_eval UINT64_SIZE_def n counter_op_def)
  then obtain s' where s': "shmc_arithmetic (tiny_with [52, 49]) (Buf 0 [1, 2]) 2 1 True None = Some (SHMC_OK, Some (42, None), s')"
      "implements s' (tst [] [tiny_entry (counter_text 42) 5] [5, 0] [])" "conf_of s' = tiny_conf"
    using arith_refines [OF tiny_with_ok(1), of "[52, 49]" 2 "Buf 0 [1, 2]" 1 True None]
    by (auto simp: tiny_eval tiny_with_ok(2) UINT64_SIZE_def)
  have "shmc_lookup s' [1, 2] = Some (counter_text 42, 5)"
    by (simp add: lookup_dict [OF s'(2)] s'(3) dict_def tiny_find)
  then show ?thesis
    using counter_then_lookup [OF tiny_with_ok(1) _ _ s'(1)] s'(1)
    by (auto simp: buf_key_def UINT64_SIZE_def)
qed

end
