(* ===== verification/Reachable.thy ===== *)
theory Reachable
  imports Counter_Properties
begin

text \<open>
  Every store that can come about: created by \<open>shmc_init\<close>, then any sequence of operations by
  processes that have the segment mapped at addresses of their own. The invariant holds in all of
  them, so every request returns and memory stays intact.
\<close>

section \<open>Requests\<close>

datatype request =
    Get buf nat bool
  | Getf buf nat nat
  | Set buf nat "byte list" nat u32
  | Add buf nat "byte list" nat u32
  | Replace buf nat "byte list" nat u32
  | Prepend buf nat "byte list" nat u32
  | Append buf nat "byte list" nat u32
  | Incr buf nat u64 "u32 option"
  | Decr buf nat u64 "u32 option"
  | Del buf nat

abbreviation drop_out :: "(shmc_rc \<times> 'o \<times> shmc) option \<Rightarrow> (shmc_rc \<times> shmc) option" where
  "drop_out r \<equiv> map_option (\<lambda>(rc, out, s). (rc, s)) r"

fun serve :: "request \<Rightarrow> shmc \<Rightarrow> (shmc_rc \<times> shmc) option" where
  "serve (Get key nkey ok) s = drop_out (shmc_get_nolock s key nkey ok)"
| "serve (Getf key nkey room) s = drop_out (shmc_getf_nolock s key nkey room)"
| "serve (Set key nkey val nval f) s = shmc_set_nolock s key nkey val nval f"
| "serve (Add key nkey val nval f) s = shmc_add_nolock s key nkey val nval f"
| "serve (Replace key nkey val nval f) s = shmc_replace_nolock s key nkey val nval f"
| "serve (Prepend key nkey val nval f) s = shmc_prepend_nolock s key nkey val nval f"
| "serve (Append key nkey val nval f) s = shmc_append_nolock s key nkey val nval f"
| "serve (Incr key nkey n f) s = drop_out (shmc_incr_nolock s key nkey n f)"
| "serve (Decr key nkey n f) s = drop_out (shmc_decr_nolock s key nkey n f)"
| "serve (Del key nkey) s = shmc_del_nolock s key nkey"

text \<open>
  Requests the code gives a meaning to: the buffers hold what the lengths say, and some size class
  fits what is to be stored.
\<close>

definition storable :: "shmc \<Rightarrow> nat \<Rightarrow> nat \<Rightarrow> bool" where
  "storable s nkey nval \<longleftrightarrow> sizeof_item + nkey + nval < 2 ^ 64 \<and> item_clsid s nkey nval \<noteq> None"

definition growable :: "shmc \<Rightarrow> buf \<Rightarrow> nat \<Rightarrow> nat \<Rightarrow> bool" where
  "growable s key nkey nval \<longleftrightarrow> (case shmc_lookup s (buf_key key nkey) of None \<Rightarrow> True
     | Some (old, f) \<Rightarrow> storable s nkey (nval + length old))"

fun legal :: "shmc \<Rightarrow> request \<Rightarrow> bool" where
  "legal s (Get key nkey ok) = (nkey \<le> length (buf_bytes key))"
| "legal s (Getf key nkey room) = (nkey \<le> length (buf_bytes key))"
| "legal s (Set key nkey val nval f) =
     (nkey \<le> length (buf_bytes key) \<and> nval \<le> length val \<and> storable s nkey nval)"
| "legal s (Add key nkey val nval f) =
     (nkey \<le> length (buf_bytes key) \<and> nval \<le> length val \<and> storable s nkey nval)"
| "legal s (Replace key nkey val nval f) =
     (nkey \<le> length (buf_bytes key) \<and> nval \<le> length val \<and> storable s nkey nval)"
| "legal s (Prepend key nkey val nval f) =
     (nkey \<le> length (buf_bytes key) \<and> nval \<le> length val \<and> growable s key nkey nval)"
| "legal s (Append key nkey val nval f) =
     (nkey \<le> length (buf_bytes key) \<and> nval \<le> length val \<and> growable s key nkey nval)"
| "legal s (Incr key nkey n f) =
     (nkey \<le> length (buf_bytes key) \<and> storable s nkey UINT64_SIZE \<and> item_size_ok s nkey UINT64_SIZE)"
| "legal s (Decr key nkey n f) =
     (nkey \<le> length (buf_bytes key) \<and> storable s nkey UINT64_SIZE \<and> item_size_ok s nkey UINT64_SIZE)"
| "legal s (Del key nkey) = (nkey \<le> length (buf_bytes key))"

section \<open>One request\<close>

definition serves :: "(shmc_rc \<times> shmc) option \<Rightarrow> conf \<Rightarrow> bool" where
  "serves r cf \<longleftrightarrow> (\<exists>rc s A. r = Some (rc, s) \<and> implements s A \<and> conf_of s = cf)"

lemma servesI: "refines r cf ar \<Longrightarrow> ar \<noteq> None \<Longrightarrow> serves r cf"
  by (auto simp: serves_def refines_def split: option.splits)

lemma serves3I: "refines3 r cf ar \<Longrightarrow> ar \<noteq> None \<Longrightarrow> serves (drop_out r) cf"
  by (auto simp: serves_def refines3_def split: option.splits)

lemma a_set_defined:
  "class_for cf (size_for (length k) (length v)) \<noteq> None \<Longrightarrow> a_set cf A k v f \<noteq> None"
  by (auto simp: a_set_def Let_def split: option.split)

lemma a_grow_defined:
  assumes "\<And>c e. a_find cf A k = Some (c, e) \<Longrightarrow> class_for cf (size_for (length k) (length (join (e_val e)))) \<noteq> None"
  shows "a_grow cf A k join f \<noteq> None"
  using assms by (force simp: a_grow_def Let_def split: option.split)

lemma a_arith_defined:
  assumes "class_for cf (size_for (length k) UINT64_SIZE) \<noteq> None" and "size_ok cf (size_for (length k) UINT64_SIZE)"
  shows "a_arith cf A k val incr flags \<noteq> None"
  using assms by (auto simp: a_arith_def Let_def split: option.split prod.split)

lemma storable_class:
  assumes "storable s nkey nval"
  shows "sizeof_item + nkey + nval < 2 ^ 64" "class_for (conf_of s) (size_for nkey nval) \<noteq> None"
  using assms item_clsid_class_for [of nkey nval s] by (simp_all add: storable_def)

lemma grow_legal:
  assumes A: "implements s A" and n: "nkey \<le> length (buf_bytes key)" and g: "growable s key nkey nval"
    and len: "\<And>old. length (join old) = nval + length old"
  shows "joins (conf_of s) A (buf_key key nkey) nval" "a_grow (conf_of s) A (buf_key key nkey) join f \<noteq> None"
proof -
  have st: "storable s nkey (nval + length (e_val e))" if "a_find (conf_of s) A (buf_key key nkey) = Some (c, e)" for c e
    using g that by (simp add: growable_def lookup_dict [OF A] dict_def)
  have kl: "length (buf_key key nkey) = nkey" using n by (rule buf_key_take)
  show "joins (conf_of s) A (buf_key key nkey) nval"
    using st storable_class(1) by (fastforce simp: joins_def kl split: option.split)
  show "a_grow (conf_of s) A (buf_key key nkey) join f \<noteq> None"
    by (rule a_grow_defined) (use storable_class(2) [OF st] in \<open>simp add: kl len\<close>)
qed

lemma serve_legal:
  assumes A: "implements s A" and "legal s r"
  shows "serves (serve r s) (conf_of s)"
proof (cases r)
  case (Get key nkey ok)
  then show ?thesis
    using assms get_refines [OF A, of nkey key ok]
    by (cases "a_get (conf_of s) A (buf_key key nkey) ok") (auto simp: serves_def)
next
  case (Getf key nkey room)
  then show ?thesis
    using assms getf_refines [OF A, of nkey key room]
    by (cases "a_getf (conf_of s) A (buf_key key nkey) room") (auto simp: serves_def)
next
  case (Set key nkey val nval f)
  then have l: "nkey \<le> length (buf_bytes key)" "nval \<le> length val" "storable s nkey nval" using assms(2) by simp_all
  note st = storable_class [OF l(3)]
  have "a_set (conf_of s) A (buf_key key nkey) (take nval val) f \<noteq> None"
    by (rule a_set_defined) (use st(2) l in \<open>simp add: buf_key_take\<close>)
  then show ?thesis using servesI [OF set_refines [OF A l(1,2) st(1), of f]] Set by simp
next
  case (Add key nkey val nval f)
  then have l: "nkey \<le> length (buf_bytes key)" "nval \<le> length val" "storable s nkey nval" using assms(2) by simp_all
  note st = storable_class [OF l(3)]
  have "a_set (conf_of s) A (buf_key key nkey) (take nval val) f \<noteq> None"
    by (rule a_set_defined) (use st(2) l in \<open>simp add: buf_key_take\<close>)
  then have "a_add (conf_of s) A (buf_key key nkey) (take nval val) f \<noteq> None"
    by (auto simp: a_add_def split: option.split)
  then show ?thesis using servesI [OF add_refines [OF A l(1,2) st(1), of f]] Add by simp
next
  case (Replace key nkey val nval f)
  then have l: "nkey \<le> length (buf_bytes key)" "nval \<le> length val" "storable s nkey nval" using assms(2) by simp_all
  note st = storable_class [OF l(3)]
  have "a_set (conf_of s) B (buf_key key nkey) (take nval val) f \<noteq> None" for B
    by (rule a_set_defined) (use st(2) l in \<open>simp add: buf_key_take\<close>)
  then have "a_replace (conf_of s) A (buf_key key nkey) (take nval val) f \<noteq> None"
    using st(2) l by (auto simp: a_replace_def buf_key_take split: option.split)
  then show ?thesis using servesI [OF replace_refines [OF A l(1,2) st(1), of f]] Replace by simp
next
  case (Prepend key nkey val nval f)
  then have l: "nkey \<le> length (buf_bytes key)" "nval \<le> length val" "growable s key nkey nval" using assms(2) by simp_all
  note g = grow_legal [OF A l(1,3), of "\<lambda>old. take nval val @ old"]
  show ?thesis
    using servesI [OF prepend_refines [OF A l(1,2) g(1), of f]] g(2) l(2) Prepend by (simp add: a_prepend_def)
next
  case (Append key nkey val nval f)
  then have l: "nkey \<le> length (buf_bytes key)" "nval \<le> length val" "growable s key nkey nval" using assms(2) by simp_all
  note g = grow_legal [OF A l(1,3), of "\<lambda>old. old @ take nval val"]
  show ?thesis
    using servesI [OF append_refines [OF A l(1,2) g(1), of f]] g(2) l(2) Append by (simp add: a_append_def)
next
  case (Incr key nkey n f)
  then have l: "nkey \<le> length (buf_bytes key)" "storable s nkey UINT64_SIZE" "item_size_ok s nkey UINT64_SIZE"
    using assms(2) by simp_all
  note st = storable_class [OF l(2)]
  have "a_arith (conf_of s) A (buf_key key nkey) n True f \<noteq> None"
    by (rule a_arith_defined) (use st l item_size_ok_size_ok [OF st(1), of s] in \<open>simp_all add: buf_key_take\<close>)
  then show ?thesis
    using serves3I [OF arith_refines [OF A l(1) st(1), of n True f]] Incr by (simp add: shmc_incr_nolock_def)
next
  case (Decr key nkey n f)
  then have l: "nkey \<le> length (buf_bytes key)" "storable s nkey UINT64_SIZE" "item_size_ok s nkey UINT64_SIZE"
    using assms(2) by simp_all
  note st = storable_class [OF l(2)]
  have "a_arith (conf_of s) A (buf_key key nkey) n False f \<noteq> None"
    by (rule a_arith_defined) (use st l item_size_ok_size_ok [OF st(1), of s] in \<open>simp_all add: buf_key_take\<close>)
  then show ?thesis
    using serves3I [OF arith_refines [OF A l(1) st(1), of n False f]] Decr by (simp add: shmc_decr_nolock_def)
next
  case (Del key nkey)
  then show ?thesis
    using assms servesI [OF del_refines [OF A, of nkey key]] by simp
qed

section \<open>Reachable stores\<close>

text \<open>
  The life of a token created with the attributes \<open>a\<close>: the segment as \<open>mmap_create\<close> leaves it,
  served requests, and the same segment seen by a process that has it mapped elsewhere.
\<close>

inductive reach :: "attr \<Rightarrow> shmc \<Rightarrow> bool" for a where
  created: "count_of_slabs a = Some n \<Longrightarrow>
    format_slabs (fresh_segment (format_mmap p (nbuckets a) n) a n) n = Some s \<Longrightarrow> reach a s"
| served: "reach a s \<Longrightarrow> legal s r \<Longrightarrow> serve r s = Some (rc, s') \<Longrightarrow> reach a s'"
| mapped: "reach a s \<Longrightarrow> reach a (s\<lparr>base := q\<rparr>)"

lemma reach_implements:
  assumes a: "attr_ok a" and r: "reach a s"
  shows "\<exists>A q zs. implements s A \<and> conf_of s = conf_for q a zs
    \<and> count_of_slabs a = Some (length zs) \<and> sorted_wrt (<) zs"
  using r
proof (induction rule: reach.induct)
  case (created n p s)
  have f: "factor_ok a" "mem_limit a + item_size_max a < 2 ^ 64" "mem_used a = 0" "mem_limit a \<noteq> 0"
    using a by (simp_all add: attr_ok_def)
  obtain zs where zs: "size_seq (item_size_factor a) n (sizeof_item + item_size_min a) = Some zs" "sorted_wrt (<) zs"
    using size_seq_of_slabs [OF f(1) created(1)] by blast
  define s0 where "s0 = fresh_segment (format_mmap p (nbuckets a) n) a n"
  have s0: "attrs s0 = a\<lparr>slabs_count := n\<rparr>" by (simp add: s0_def fresh_segment_def)
  have "size_add sizeof_item (item_size_min a) = sizeof_item + item_size_min a"
    using f(1) by (simp add: factor_ok_def)
  then have "format_slabs_loop n 0 (sizeof_item + item_size_min a) s0 = Some s"
    using created(2) by (simp add: format_slabs_def s0 s0_def [symmetric])
  from format_loop_need [OF this, of zs] have "pool_need (item_size_max a) zs < mem_limit a"
    using zs f by (simp add: s0)
  from format_slabs_fresh [OF a created(1) zs(1) this, of p] show ?case
    using created zs(2) size_seq_length [OF zs(1)] by auto
next
  case (served s r rc s')
  then obtain A q zs where A: "implements s A" "conf_of s = conf_for q a zs"
      "count_of_slabs a = Some (length zs)" "sorted_wrt (<) zs" by blast
  obtain A' where "implements s' A'" "conf_of s' = conf_of s"
    using serve_legal [OF A(1) served.hyps(2)] served.hyps(3) by (auto simp: serves_def)
  then show ?case using A(2-4) by auto
next
  case (mapped s q)
  then obtain A p zs where "implements s A" "conf_of s = conf_for p a zs"
      "count_of_slabs a = Some (length zs)" "sorted_wrt (<) zs" by blast
  then show ?case using conf_forD(6) [of s p a zs q] by (auto simp: implements_base)
qed

lemma tiny_reach: "reach tiny tiny_store"
proof -
  have "nbuckets tiny = 2" by (simp add: tiny_def)
  moreover obtain s where "format_slabs (fresh_segment (format_mmap 4096 (nbuckets tiny) 2) tiny 2) 2 = Some s"
    using format_slabs_fresh [OF tiny_attr_ok tiny_sizes(1), of "[72, 144]" 4096] tiny_sizes(2)
    by (auto simp: tiny_def pool_need_def)
  ultimately show ?thesis
    using reach.created [OF tiny_sizes(1), of 4096 s] by (simp add: tiny_store_def)
qed

lemma reach_returns:
  assumes "attr_ok a" and "reach a s" and "legal s r"
  shows "\<exists>rc s'. serve r s = Some (rc, s') \<and> reach a s'"
proof -
  obtain A where "implements s A" using reach_implements [OF assms(1,2)] by blast
  from serve_legal [OF this assms(3)] obtain rc s' where "serve r s = Some (rc, s')" by (auto simp: serves_def)
  with reach.served [OF assms(2,3)] show ?thesis by blast
qed

text \<open>
  C1: memory safety and termination. In every store that can come about, every request whose
  buffers hold what their lengths say and for which some size class fits returns: no access outside
  an object, no failed assertion, no endless walk along a chain; and the store after it is again
  one of these.
\<close>

theorem every_request_returns:
  assumes "attr_ok a" and "reach a s" and "legal s r"
  shows "\<exists>rc s'. serve r s = Some (rc, s') \<and> reach a s'"
  by (rule reach_returns [OF assms])

theorem every_request_returns_witness:
  "\<exists>rc s'. serve (Set (Buf 1 [1]) 1 [2, 3] 2 0) tiny_store = Some (rc, s') \<and> reach tiny s'"
proof (rule every_request_returns [OF tiny_attr_ok tiny_reach])
  show "legal tiny_store (Set (Buf 1 [1]) 1 [2, 3] 2 0)"
    using item_clsid_class_for [of 1 2 tiny_store] by (simp add: storable_def tiny_eval)
qed

section \<open>The state of a reachable store\<close>

lemma distinct_union_card:
  assumes "finite I" and "\<And>i. distinct (f i)" and "\<And>i j. i \<noteq> j \<Longrightarrow> set (f i) \<inter> set (f j) = {}"
  shows "card (\<Union>i \<in> I. set (f i)) = (\<Sum>i \<in> I. length (f i))"
  by (subst card_UN_disjoint) (use assms in \<open>auto simp: distinct_card\<close>)

lemma union_support:
  assumes "\<And>i. i \<notin> I \<Longrightarrow> set (f i) = {}"
  shows "(\<Union>i \<in> I. set (f i)) = (\<Union>i. set (f i))"
proof -
  have "i \<in> I" if "x \<in> set (f i)" for x i using that assms [of i] by (cases "i \<in> I") simp_all
  then show ?thesis by blast
qed

lemma bucket_disjoint:
  assumes "tabled s g" and "b \<noteq> d"
  shows "set (g_bkt g b) \<inter> set (g_bkt g d) = {}"
proof (rule ccontr)
  assume "set (g_bkt g b) \<inter> set (g_bkt g d) \<noteq> {}"
  then obtain x where "x \<in> set (g_bkt g b)" "x \<in> set (g_bkt g d)" by blast
  then show False using tabledD(1) [OF assms(1), of x b] tabledD(1) [OF assms(1), of x d] assms(2) by auto
qed

lemma bucket_distinct:
  assumes "layout s g D"
  shows "distinct (g_bkt g b)"
  using layoutD(3,7) [OF assms, of b] chain_distinct by (cases "b < nbuckets (attrs s)") (auto simp: bucket_list_def)

lemma nitems_entries:
  assumes "implements s A"
  shows "nitems (attrs s) = (\<Sum>c < length (cf_sizes (conf_of s)). length (a_lru A c))"
proof -
  obtain g where g: "inv_held s g {}" "A = absg s g" using implementsE [OF assms] .
  note I = inv_heldD [OF g(1)]
  let ?nb = "nbuckets (attrs s)" and ?n = "length (slabs s)"
  have "nitems (attrs s) = card (\<Union>b < ?nb. set (g_bkt g b))"
    unfolding tabledD(3) [OF I(2)]
    using bucket_distinct [OF I(1)] bucket_disjoint [OF I(2)] by (intro distinct_union_card [symmetric]) blast+
  also have "(\<Union>b < ?nb. set (g_bkt g b)) = in_table g"
    using layoutD(7) [OF I(1)] unfolding in_table_def by (intro union_support) (auto simp: not_less)
  also have "\<dots> = (\<Union>c < ?n. set (g_lru g c))"
    using layoutD(6) [OF I(1)] unfolding I(3) in_lru_def by (intro union_support [symmetric]) (auto simp: not_less)
  also have "card \<dots> = (\<Sum>c < ?n. length (g_lru g c))"
    by (rule distinct_union_card) (simp, rule layout_list_distinct(1) [OF I(1)], rule layout_disjoint(1) [OF I(1)])
  finally show ?thesis by (simp add: g(2))
qed

text \<open>
  \<open>nitems\<close> counts the entries: in every reachable store it is the sum of the lengths of the LRU
  lists, so the counter never underflows (the assertion in \<open>assoc_delete\<close>) and no item is in the
  table without being in an LRU list, or in one without the other.
\<close>

theorem nitems_counts_entries:
  assumes "attr_ok a" and "reach a s"
  shows "\<exists>A. implements s A \<and> nitems (attrs s) = (\<Sum>c < length (slabs s). length (a_lru A c))"
  using reach_implements [OF assms] nitems_entries by fastforce

theorem nitems_counts_entries_witness:
  "\<exists>A. implements tiny_store A \<and> nitems (attrs tiny_store) = (\<Sum>c < length (slabs tiny_store). length (a_lru A c))"
  by (rule nitems_counts_entries [OF tiny_attr_ok tiny_reach])

text \<open>
  C10: the chunks of a reachable store lie inside the part of the pool that has been handed out, the
  pool never exceeds \<open>mem_limit\<close>, two chunks never overlap, and all of it lies behind the header
  and inside the mapping.
\<close>

theorem chunks_apart:
  assumes "attr_ok a" and "reach a s" and "header_size (nbuckets a) (length (slabs s)) + mem_limit a < 2 ^ 64"
    and "csize s x = Some m" and "csize s y = Some n" and "x \<noteq> y"
  shows "(x + m \<le> y \<or> y + n \<le> x) \<and> header_size (nbuckets a) (length (slabs s)) \<le> x
    \<and> x + m \<le> raw s + mem_used (attrs s) \<and> mem_used (attrs s) \<le> mem_limit a
    \<and> raw s + mem_limit a = size_of_mmap (attrs s) (slabs_count (attrs s))"
proof -
  obtain A q zs where A: "implements s A" "conf_of s = conf_for q a zs" "count_of_slabs a = Some (length zs)"
    using reach_implements [OF assms(1,2)] by blast
  obtain g where "inv_held s g {}" using implementsE [OF A(1)] .
  then have po: "pooled s" by (rule inv_heldD)
  note C = conf_forD [OF A(2,3)]
  have n: "length (slabs s) = length zs"
    using arg_cong [OF A(2), of "length \<circ> cf_sizes"] by (simp add: conf_for_def)
  have "mem_used (attrs s) \<le> mem_limit (attrs s)" using po by (simp add: pooled_def)
  moreover have "raw s \<le> x \<and> x + m \<le> raw s + mem_used (attrs s)"
    using po assms(4) unfolding pooled_def by blast
  moreover have "x + m \<le> y \<or> y + n \<le> x" using po assms(4-6) unfolding pooled_def by blast
  moreover have "size_of_mmap (attrs s) (length zs) = header_size (nbuckets a) (length zs) + mem_limit a"
    using size_of_mmap_eq [of "attrs s" "length zs"] assms(3) C(2,4) n by simp
  ultimately show ?thesis using C(2-5) n by simp
qed

theorem chunks_apart_witness:
  "\<exists>x y. x \<noteq> y \<and> csize tiny_store x = Some 72 \<and> csize tiny_store y = Some 72 \<and> (x + 72 \<le> y \<or> y + 72 \<le> x)"
proof -
  obtain g where g: "inv_held tiny_store g {}" "tst [] [] [0, 0] [0] = absg tiny_store g"
    using implementsE [OF tiny_impl] .
  note L = inv_heldD(1) [OF g(1)]
  have "map (flags_at tiny_store) (g_free g 0) = [0, 0]" using g(2) by (metis absg_fields(2) tst_simps(3))
  then obtain x y where xy: "g_free g 0 = [x, y]" by (auto simp: map_eq_Cons_conv)
  have ne: "x \<noteq> y" using layout_list_distinct(2) [OF L, of 0] xy by simp
  have sl: "map slab_size (slabs tiny_store) = [72, 144]"
    using arg_cong [OF tiny_ok(2), of cf_sizes] by (simp add: conf_for_def)
  then have "slab_size (slabs tiny_store ! 0) = 72" by (cases "slabs tiny_store") auto
  then have c: "csize tiny_store x = Some 72" "csize tiny_store y = Some 72"
    using layout_class(2) [OF L, of _ 0] xy by auto
  have h: "header_size (nbuckets tiny) (length (slabs tiny_store)) + mem_limit tiny < 2 ^ 64"
    using arg_cong [OF sl, of length] by (simp add: header_size_def tiny_def)
  show ?thesis using chunks_apart [OF tiny_attr_ok tiny_reach h c ne] c ne by blast
qed

end
