(* ===== verification/Dump_Load.thy ===== *)
theory Dump_Load
  imports Reachable
begin

text \<open>
  \<open>shmc_dump_nolock\<close> and \<open>shmc_load_nolock\<close>: the entries of a store as text, one record
  \<open>nkey nval key val\<close> and a newline after the other, class by class in order of use, and the reader
  that feeds the records of such a file to \<open>shmc_set_nolock\<close> through a buffer of fixed size. A
  file is the list of its bytes.
\<close>

section \<open>Writing\<close>

text \<open>A \<open>size_t\<close> cast to \<open>int\<close>, and what \<open>%d\<close> prints for an \<open>int\<close>.\<close>

definition as_int :: "nat \<Rightarrow> int" where
  "as_int n = sint (of_nat n :: u32)"

text \<open>The bytes of a string literal.\<close>

definition text_of :: "string \<Rightarrow> byte list" where
  "text_of cs = map of_char cs"

definition fmt_d :: "int \<Rightarrow> byte list" where
  "fmt_d i = (if i < 0 then 45 # dec (nat (- i)) else dec (nat i))"

text \<open>
  \<open>%.*s\<close> with precision \<open>p\<close>: at most \<open>p\<close> bytes, ending before the first zero byte; a negative
  precision counts as none. Undefined when it runs out of the object.
\<close>

definition fmt_s :: "int \<Rightarrow> byte list \<Rightarrow> byte list option" where
  "fmt_s p bs =
     (if 0 \<le> p \<and> nat p \<le> length bs then Some (takeWhile (\<lambda>b. b \<noteq> 0) (take (nat p) bs))
      else if 0 \<in> set bs then Some (takeWhile (\<lambda>b. b \<noteq> 0) bs)
      else None)"

definition dump_record :: "item \<Rightarrow> byte list option" where
  "dump_record it = do {
     k \<leftarrow> fmt_s (as_int (it_nkey it)) (drop (it_key it) (it_end it));
     v \<leftarrow> fmt_s (as_int (it_nval it)) (drop (it_val it) (it_end it));
     Some (fmt_d (as_int (it_nkey it)) @ [32] @ fmt_d (as_int (it_nval it)) @ [32] @ k @ [32] @ v @ [10])
   }"

partial_function (option) dump_list :: "shmc \<Rightarrow> addr \<Rightarrow> byte list \<Rightarrow> byte list option" where
  "dump_list s a out =
     (if a \<noteq> 0 then do {
        it \<leftarrow> get_item s a;
        r \<leftarrow> dump_record it;
        dump_list s (it_next it) (out @ r)
      } else Some out)"

text \<open>The loop over the classes, \<open>n\<close> of them from \<open>i\<close> on.\<close>

fun dump_classes :: "shmc \<Rightarrow> nat \<Rightarrow> nat \<Rightarrow> byte list \<Rightarrow> byte list option" where
  "dump_classes s i 0 out = Some out"
| "dump_classes s i (Suc n) out = do {
     h \<leftarrow> read_at (heads s) i;
     out \<leftarrow> dump_list s h out;
     dump_classes s (Suc i) n out
   }"

text \<open>\<open>opens\<close>: whether \<open>fopen\<close> succeeds. The second result is what the file then holds.\<close>

definition shmc_dump_nolock :: "shmc \<Rightarrow> bool \<Rightarrow> (shmc_rc \<times> byte list option) option" where
  "shmc_dump_nolock s opens =
     (if \<not> opens then Some (SHMC_SYSTEM, None)
      else do {
        out \<leftarrow> dump_classes s 0 (slabs_count (attrs s)) [];
        Some (SHMC_OK, Some out)
      })"

section \<open>Reading\<close>

definition BUFFER_SIZE :: nat where "BUFFER_SIZE = 1024 * 1024 + 1024"

text \<open>
  \<open>atoi\<close>: leading white space, a sign, digits up to the first other byte; a value that is no
  \<open>int\<close> is undefined.
\<close>

definition is_space :: "byte \<Rightarrow> bool" where
  "is_space b \<longleftrightarrow> b = 32 \<or> (9 \<le> b \<and> b \<le> 13)"

fun digits :: "byte list \<Rightarrow> nat \<Rightarrow> nat" where
  "digits [] v = v"
| "digits (ch # cs) v = (if ch < 48 \<or> ch > 57 then v else digits cs (10 * v + unat (ch - 48)))"

definition signed_digits :: "byte list \<Rightarrow> int" where
  "signed_digits t =
     (case t of [] \<Rightarrow> 0
      | ch # ds \<Rightarrow> if ch = 45 then - int (digits ds 0) else if ch = 43 then int (digits ds 0) else int (digits t 0))"

definition atoi :: "byte list \<Rightarrow> int option" where
  "atoi txt = (let v = signed_digits (dropWhile is_space txt) in
     if - (2 ^ 31) \<le> v \<and> v < 2 ^ 31 then Some v else None)"

definition memchr :: "byte list \<Rightarrow> byte \<Rightarrow> nat option" where
  "memchr bs c = (if c \<in> set bs then Some (length (takeWhile (\<lambda>b. b \<noteq> c) bs)) else None)"

text \<open>
  The next record of a buffer: the places and lengths of its key and value, or \<open>None\<close> inside
  where the code breaks off because the record is not complete. A negative length would move a
  pointer out of the buffer: undefined.
\<close>

definition next_record :: "byte list \<Rightarrow> nat \<Rightarrow> (nat \<times> nat \<times> nat \<times> nat) option option" where
  "next_record buf offset =
     (case memchr (drop offset buf) 32 of
        None \<Rightarrow> Some None
      | Some i \<Rightarrow>
          let nvalp = offset + i in
          if nvalp + 1 = length buf then Some None
          else do {
            nkey \<leftarrow> atoi (take i (drop offset buf));
            let nvalp = nvalp + 1;
            (case memchr (drop nvalp buf) 32 of
               None \<Rightarrow> Some None
             | Some j \<Rightarrow>
                 let key = nvalp + j in
                 if key + 1 = length buf then Some None
                 else do {
                   nval \<leftarrow> atoi (take j (drop nvalp buf));
                   let key = key + 1;
                   guard (0 \<le> nkey \<and> 0 \<le> nval);
                   if key + nat nkey + 1 + nat nval + 1 > length buf then Some None
                   else Some (Some (key, nat nkey, key + nat nkey + 1, nat nval))
                 })
          })"

text \<open>The inner loop; \<open>p\<close> is the address of the buffer. Results: return code, offset, store.\<close>

partial_function (option) load_records ::
  "nat \<Rightarrow> byte list \<Rightarrow> nat \<Rightarrow> shmc \<Rightarrow> (shmc_rc \<times> nat \<times> shmc) option" where
  "load_records p buf offset s = do {
     r \<leftarrow> next_record buf offset;
     (case r of
        None \<Rightarrow> Some (SHMC_OK, offset, s)
      | Some (key, nkey, val, nval) \<Rightarrow> do {
          (rc, s) \<leftarrow> shmc_set_nolock s (Buf (p + key) (drop key buf)) nkey (drop val buf) nval 0;
          if rc \<noteq> SHMC_OK then Some (rc, offset, s)
          else load_records p buf (val + nval + 1) s
        })
   }"

text \<open>
  The outer loop: \<open>left\<close> is what stays at the start of the buffer, of length \<open>offset\<close>. When the
  whole buffer was used up the code keeps \<open>offset\<close> at its end.
\<close>

partial_function (option) load_loop ::
  "nat \<Rightarrow> byte list \<Rightarrow> byte list \<Rightarrow> shmc \<Rightarrow> (shmc_rc \<times> shmc) option" where
  "load_loop p left rest s =
     (let chunk = take (BUFFER_SIZE - length left) rest in
      if chunk = [] then Some (SHMC_OK, s)
      else do {
        let buf = left @ chunk;
        (rc, offset, s) \<leftarrow> load_records p buf 0 s;
        if rc = SHMC_OK then
          if offset = 0 then Some (SHMC_ESIZE, s)
          else load_loop p (if length buf \<noteq> offset then drop offset buf else buf)
                 (drop (BUFFER_SIZE - length left) rest) s
        else Some (rc, s)
      })"

text \<open>\<open>file\<close> is \<open>None\<close> when \<open>fopen\<close> fails, \<open>p\<close> the address of the buffer or \<open>None\<close> without memory.\<close>

definition shmc_load_nolock :: "shmc \<Rightarrow> byte list option \<Rightarrow> nat option \<Rightarrow> (shmc_rc \<times> shmc) option" where
  "shmc_load_nolock s file p =
     (case file of
        None \<Rightarrow> Some (SHMC_SYSTEM, s)
      | Some txt \<Rightarrow> (case p of None \<Rightarrow> Some (SHMC_SYSTEM, s) | Some p \<Rightarrow> load_loop p [] txt s))"

section \<open>Records\<close>

text \<open>The text of an entry, and loading entries as the specification of a load.\<close>

definition rec_text :: "byte list \<times> byte list \<Rightarrow> byte list" where
  "rec_text = (\<lambda>(k, v). dec (length k) @ 32 # dec (length v) @ 32 # k @ 32 # v @ [10])"

fun a_load :: "conf \<Rightarrow> astore \<Rightarrow> (byte list \<times> byte list) list \<Rightarrow> (shmc_rc \<times> astore) option" where
  "a_load cf A [] = Some (SHMC_OK, A)"
| "a_load cf A ((k, v) # rs) = do {
     (rc, A) \<leftarrow> a_set cf A k v 0;
     if rc \<noteq> SHMC_OK then Some (rc, A) else a_load cf A rs
   }"

text \<open>The entries of a store in the order of a dump.\<close>

definition dumped :: "conf \<Rightarrow> astore \<Rightarrow> (byte list \<times> byte list) list" where
  "dumped cf A = concat (map (\<lambda>c. map (\<lambda>e. (e_key e, e_val e)) (a_lru A c)) [0..<length (cf_sizes cf)])"

text \<open>The line a dump writes for an entry: up to the first zero byte of key and value.\<close>

definition cut :: "byte list \<Rightarrow> byte list" where
  "cut bs = takeWhile (\<lambda>b. b \<noteq> 0) bs"

definition dump_line :: "byte list \<times> byte list \<Rightarrow> byte list" where
  "dump_line = (\<lambda>(k, v). dec (length k) @ 32 # dec (length v) @ 32 # cut k @ 32 # cut v @ [10])"

definition moderate :: "byte list \<times> byte list \<Rightarrow> bool" where
  "moderate = (\<lambda>(k, v). length k < 2 ^ 31 \<and> length v < 2 ^ 31)"

definition printable :: "byte list \<times> byte list \<Rightarrow> bool" where
  "printable = (\<lambda>(k, v). 0 \<notin> set k \<and> 0 \<notin> set v \<and> length k < 2 ^ 31 \<and> length v < 2 ^ 31)"

lemma printable_line: "printable r \<Longrightarrow> moderate r \<and> dump_line r = rec_text r"
proof -
  have "cut bs = bs" if "0 \<notin> set bs" for bs using that by (induction bs) (auto simp: cut_def)
  then show "printable r \<Longrightarrow> moderate r \<and> dump_line r = rec_text r"
    by (auto simp: printable_def moderate_def dump_line_def rec_text_def)
qed

section \<open>Numbers\<close>

lemma dec_digits: "b \<in> set (dec n) \<Longrightarrow> \<exists>d < 10. b = of_nat (48 + d)"
proof (induction n rule: dec.induct)
  case (1 n)
  have m: "n mod 10 < 10" by simp
  show ?case
  proof (cases "n < 10")
    case True
    then show ?thesis using "1.prems" by (auto simp: dec.simps [of n])
  next
    case False
    then have "b \<in> set (dec (n div 10)) \<or> b = of_nat (48 + n mod 10)"
      using "1.prems" by (auto simp: dec.simps [of n])
    then show ?thesis using "1.IH" [OF False] m by blast
  qed
qed

lemma unat_digit: "d < 10 \<Longrightarrow> unat (of_nat (48 + d) :: byte) = 48 + d"
  by (subst unat_of_nat) simp

lemma dec_no_space: "b \<in> set (dec n) \<Longrightarrow> \<not> is_space b \<and> b \<noteq> 45 \<and> b \<noteq> 43 \<and> b \<noteq> 32 \<and> b \<noteq> 0"
proof -
  assume "b \<in> set (dec n)"
  then obtain d where "d < 10" "b = of_nat (48 + d)" using dec_digits by blast
  then have "unat b = 48 + d" using unat_digit by simp
  then have "unat b \<ge> 48" by simp
  then show ?thesis by (auto simp: is_space_def word_le_nat_alt)
qed

lemma dec_nonempty: "dec n \<noteq> []"
  by (simp add: dec.simps [of n])

lemma digits_dec: "digits (dec n @ rest) v = digits rest (v * 10 ^ length (dec n) + n)"
proof (induction n arbitrary: v rest rule: dec.induct)
  case (1 n)
  have one: "digits (of_nat (48 + d) # rest) w = digits rest (10 * w + d)" if "d < 10" for d w rest
  proof -
    have "(of_nat (48 + d) :: byte) - 48 = of_nat d" by simp
    moreover have "unat (of_nat d :: byte) = d" using that by (subst unat_of_nat) simp
    ultimately show ?thesis using digit_byte(1,2) [OF that] by simp
  qed
  show ?case
  proof (cases "n < 10")
    case True
    then have "dec n = [of_nat (48 + n)]" by (simp add: dec.simps [of n])
    then show ?thesis using one [OF True] by (simp add: mult.commute)
  next
    case False
    have d: "dec n = dec (n div 10) @ [of_nat (48 + n mod 10)]" using False by (simp add: dec.simps [of n])
    have "digits (dec n @ rest) v = digits (of_nat (48 + n mod 10) # rest) (v * 10 ^ length (dec (n div 10)) + n div 10)"
      using "1.IH" [OF False, of "of_nat (48 + n mod 10) # rest" v] by (simp only: d append.assoc append_Cons append_Nil)
    also have "\<dots> = digits rest (10 * (v * 10 ^ length (dec (n div 10)) + n div 10) + n mod 10)"
      using one [of "n mod 10"] by simp
    also have "10 * (v * 10 ^ length (dec (n div 10)) + n div 10) + n mod 10 = v * 10 ^ length (dec n) + n"
      by (simp add: d algebra_simps)
    finally show ?thesis .
  qed
qed

lemma atoi_dec:
  assumes "n < 2 ^ 31"
  shows "atoi (dec n) = Some (int n)"
proof -
  have "dropWhile is_space (dec n) = dec n"
    using dec_nonempty [of n] dec_no_space [of _ n] by (cases "dec n") auto
  moreover have "signed_digits (dec n) = int n"
    using dec_nonempty [of n] dec_no_space [of _ n] digits_dec [of n "[]" 0]
    by (cases "dec n") (auto simp: signed_digits_def)
  ultimately show ?thesis using assms by (simp add: atoi_def)
qed

lemma as_int_small: "n < 2 ^ 31 \<Longrightarrow> as_int n = int n"
  by (simp add: as_int_def signed_of_nat signed_take_bit_int_eq_self)

section \<open>Reading what was written\<close>

lemma memchr_at: "c \<notin> set xs \<Longrightarrow> memchr (xs @ c # ys) c = Some (length xs)"
proof -
  assume "c \<notin> set xs"
  then have "takeWhile (\<lambda>b. b \<noteq> c) (xs @ c # ys) = xs" by (induction xs) auto
  then show ?thesis by (simp add: memchr_def)
qed

lemma drop_prefix: "n = length xs \<Longrightarrow> drop n (xs @ ys) = ys"
  by simp

lemma memchr_nil [simp]: "memchr [] c = None"
  by (simp add: memchr_def)

lemma rec_text_length: "length (rec_text (k, v)) = length (dec (length k)) + length (dec (length v)) + length k + length v + 4"
  by (simp add: rec_text_def)

lemma next_record_text:
  fixes k v pre post :: "byte list"
  assumes "length k < 2 ^ 31" and "length v < 2 ^ 31"
  defines "key \<equiv> length pre + length (dec (length k)) + length (dec (length v)) + 2"
  shows "next_record (pre @ rec_text (k, v) @ post) (length pre)
    = Some (Some (key, length k, key + length k + 1, length v))"
proof -
  let ?a = "dec (length k)" and ?b = "dec (length v)"
  let ?buf = "pre @ rec_text (k, v) @ post"
  let ?n = "Suc (length pre + length ?a)"
  have no: "32 \<notin> set ?a" "32 \<notin> set ?b" using dec_no_space by blast+
  have d1: "drop (length pre) ?buf = ?a @ 32 # ?b @ 32 # k @ 32 # v @ [10] @ post"
    by (simp add: rec_text_def)
  have d2: "drop ?n ?buf = ?b @ 32 # k @ 32 # v @ [10] @ post"
    using drop_prefix [of ?n "pre @ ?a @ [32]"] by (simp add: rec_text_def)
  have m1: "memchr (drop (length pre) ?buf) 32 = Some (length ?a)"
    unfolding d1 by (rule memchr_at [OF no(1)])
  have m2: "memchr (drop ?n ?buf) 32 = Some (length ?b)"
    unfolding d2 by (rule memchr_at [OF no(2)])
  have t1: "take (length ?a) (drop (length pre) ?buf) = ?a" unfolding d1 by simp
  have t2: "take (length ?b) (drop ?n ?buf) = ?b" unfolding d2 by simp
  have n: "length pre + length ?a + 1 = ?n" "?n + length ?b + 1 = key" by (simp_all add: key_def)
  show ?thesis
    unfolding next_record_def m1 Let_def option.case n m2 t1 t2 atoi_dec [OF assms(1)] atoi_dec [OF assms(2)] bind.bind_lunit
    by (simp add: rec_text_length key_def)
qed

lemma next_record_end: "next_record buf (length buf) = Some None"
  by (simp add: next_record_def)

lemma rec_text_drop:
  fixes k v pre post :: "byte list"
  defines "key \<equiv> length pre + length (dec (length k)) + length (dec (length v)) + 2"
  shows "drop key (pre @ rec_text (k, v) @ post) = k @ 32 # v @ [10] @ post"
    "drop (key + length k + 1) (pre @ rec_text (k, v) @ post) = v @ [10] @ post"
    "key + length k + 1 + length v + 1 = length (pre @ rec_text (k, v))"
proof -
  let ?h = "pre @ dec (length k) @ [32] @ dec (length v) @ [32]"
  show "drop key (pre @ rec_text (k, v) @ post) = k @ 32 # v @ [10] @ post"
    using drop_prefix [of key ?h] by (simp add: key_def rec_text_def)
  show "drop (key + length k + 1) (pre @ rec_text (k, v) @ post) = v @ [10] @ post"
    using drop_prefix [of "key + length k + 1" "?h @ k @ [32]"] by (simp add: key_def rec_text_def)
  show "key + length k + 1 + length v + 1 = length (pre @ rec_text (k, v))"
    by (simp add: key_def rec_text_def)
qed

text \<open>What \<open>load_records\<close> must do for a run of records that ends the buffer.\<close>

definition loads_to :: "(shmc_rc \<times> nat \<times> shmc) option \<Rightarrow> nat \<Rightarrow> conf \<Rightarrow> (shmc_rc \<times> astore) option \<Rightarrow> bool" where
  "loads_to r n cf ar \<longleftrightarrow> (case ar of
     None \<Rightarrow> r = None
   | Some (rc, A) \<Rightarrow> \<exists>off s. r = Some (rc, off, s) \<and> implements s A \<and> conf_of s = cf \<and> (rc = SHMC_OK \<longrightarrow> off = n))"

lemma loads_to_simps [simp]:
  "loads_to r n cf None \<longleftrightarrow> r = None"
  "loads_to r n cf (Some (rc, A)) \<longleftrightarrow>
     (\<exists>off s. r = Some (rc, off, s) \<and> implements s A \<and> conf_of s = cf \<and> (rc = SHMC_OK \<longrightarrow> off = n))"
  by (simp_all add: loads_to_def)

text \<open>One turn of the inner loop on a complete record.\<close>

lemma load_records_step:
  fixes k v pre post :: "byte list"
  assumes len: "length k < 2 ^ 31" "length v < 2 ^ 31"
  shows "\<exists>q. load_records p (pre @ rec_text (k, v) @ post) (length pre) s = do {
      (rc, s) \<leftarrow> shmc_set_nolock s (Buf q (k @ 32 # v @ [10] @ post)) (length k) (v @ [10] @ post) (length v) 0;
      if rc \<noteq> SHMC_OK then Some (rc, length pre, s)
      else load_records p (pre @ rec_text (k, v) @ post) (length (pre @ rec_text (k, v))) s }"
proof -
  define buf key where "buf = pre @ rec_text (k, v) @ post"
    and "key = length pre + length (dec (length k)) + length (dec (length v)) + 2"
  note D = rec_text_drop(1,2) [of pre k v post, folded key_def buf_def] rec_text_drop(3) [of pre k v, folded key_def]
  have "load_records p buf (length pre) s = do {
      (rc, s) \<leftarrow> shmc_set_nolock s (Buf (p + key) (drop key buf)) (length k) (drop (key + length k + 1) buf) (length v) 0;
      if rc \<noteq> SHMC_OK then Some (rc, length pre, s)
      else load_records p buf (key + length k + 1 + length v + 1) s }"
    by (subst load_records.simps)
       (simp only: next_record_text [OF len, of pre post, folded buf_def key_def]
          bind.bind_lunit option.case prod.case)
  then show ?thesis unfolding D unfolding buf_def by (rule exI)
qed

lemma load_records_text:
  assumes "implements s A" and "\<And>k v. (k, v) \<in> set rs \<Longrightarrow> length k < 2 ^ 31 \<and> length v < 2 ^ 31"
  shows "loads_to (load_records p (pre @ concat (map rec_text rs)) (length pre) s)
    (length (pre @ concat (map rec_text rs))) (conf_of s) (a_load (conf_of s) A rs)"
  using assms
proof (induction rs arbitrary: pre s A)
  case Nil
  then show ?case
    using next_record_end [of pre] by (subst load_records.simps) simp
next
  case (Cons r rs)
  obtain k v where r: "r = (k, v)" by (cases r)
  define post buf where "post = concat (map rec_text rs)" and "buf = pre @ rec_text (k, v) @ post"
  have len: "length k < 2 ^ 31" "length v < 2 ^ 31" using Cons.prems(2) r by auto
  have rest: "\<And>k v. (k, v) \<in> set rs \<Longrightarrow> length k < 2 ^ 31 \<and> length v < 2 ^ 31"
    using Cons.prems(2) by (meson list.set_intros(2))
  have buf: "pre @ concat (map rec_text (r # rs)) = buf" by (simp add: r buf_def post_def)
  obtain q where run: "load_records p buf (length pre) s = do {
      (rc, s) \<leftarrow> shmc_set_nolock s (Buf q (k @ 32 # v @ [10] @ post)) (length k) (v @ [10] @ post) (length v) 0;
      if rc \<noteq> SHMC_OK then Some (rc, length pre, s)
      else load_records p buf (length (pre @ rec_text (k, v))) s }"
    unfolding buf_def using load_records_step [OF len] by blast
  define res where "res = shmc_set_nolock s (Buf q (k @ 32 # v @ [10] @ post)) (length k) (v @ [10] @ post) (length v) 0"
  have "refines res (conf_of s) (a_set (conf_of s) A (buf_key (Buf q (k @ 32 # v @ [10] @ post)) (length k))
      (take (length v) (v @ [10] @ post)) 0)"
    unfolding res_def by (rule set_refines [OF Cons.prems(1)]) (use len in simp_all)
  then have ref: "refines res (conf_of s) (a_set (conf_of s) A k v 0)"
    by (simp add: buf_key_def)
  note run = run [folded res_def]
  show ?case
  proof (cases "a_set (conf_of s) A k v 0")
    case None
    then show ?thesis using ref run unfolding buf by (simp add: r)
  next
    case (Some x)
    then obtain rc A' where a: "a_set (conf_of s) A k v 0 = Some (rc, A')" by (cases x) auto
    then obtain s' where s': "res = Some (rc, s')" "implements s' A'" "conf_of s' = conf_of s"
      using ref by auto
    show ?thesis
    proof (cases "rc = SHMC_OK")
      case False
      then show ?thesis using a s' run unfolding buf by (simp add: r)
    next
      case True
      have "loads_to (load_records p buf (length (pre @ rec_text (k, v))) s') (length buf) (conf_of s')
          (a_load (conf_of s') A' rs)"
        using Cons.IH [OF s'(2) rest, of "pre @ rec_text (k, v)"] by (simp add: buf_def post_def)
      then show ?thesis using a s' run True unfolding buf by (simp add: r)
    qed
  qed
qed

text \<open>A text that is one buffer long, or shorter and all there is: the second \<open>fread\<close> gives nothing.\<close>

lemma rec_texts_length: "(k, v) \<in> set rs \<Longrightarrow> length k + length v \<le> length (concat (map rec_text rs))"
proof (induction rs)
  case (Cons r rs)
  then show ?case by (cases "r = (k, v)") (auto simp: rec_text_length)
qed simp

lemma small_records:
  assumes "length (concat (map rec_text rs)) \<le> BUFFER_SIZE" and "(k, v) \<in> set rs"
  shows "length k < 2 ^ 31 \<and> length v < 2 ^ 31"
proof -
  have "BUFFER_SIZE < 2 ^ 31" by (simp add: BUFFER_SIZE_def)
  then show ?thesis using rec_texts_length [OF assms(2)] assms(1) by linarith
qed

lemma load_one_buffer:
  assumes fit: "length out = BUFFER_SIZE \<or> (length out \<le> BUFFER_SIZE \<and> rest = [])" and ne: "out \<noteq> []"
  shows "shmc_load_nolock s (Some (out @ rest)) (Some p) = do {
      (rc, offset, s) \<leftarrow> load_records p out 0 s;
      if rc = SHMC_OK then
        if offset = 0 then Some (SHMC_ESIZE, s)
        else if offset = length out then Some (SHMC_OK, s)
        else load_loop p (drop offset out) (drop BUFFER_SIZE (out @ rest)) s
      else Some (rc, s) }"
proof -
  define B where "B = BUFFER_SIZE"
  have B: "length out \<le> B" "length out = B \<or> rest = []" using fit by (auto simp: B_def)
  have one: "take (B - length ([] :: byte list)) (out @ rest) = out" using B by auto
  have again: "take (B - length out) (drop B (out @ rest)) = []" using B by auto
  have stop: "load_loop p out (drop B (out @ rest)) s' = Some (SHMC_OK, s')" for s'
    by (subst load_loop.simps) (simp only: B_def [symmetric] Let_def again if_True simp_thms)
  have first: "load_loop p [] (out @ rest) s = do {
      (rc, offset, s) \<leftarrow> load_records p out 0 s;
      if rc = SHMC_OK then
        if offset = 0 then Some (SHMC_ESIZE, s)
        else load_loop p (if length out \<noteq> offset then drop offset out else out)
               (drop (B - length ([] :: byte list)) (out @ rest)) s
      else Some (rc, s) }"
    by (subst load_loop.simps) (simp only: B_def [symmetric] Let_def one append_Nil ne if_False)
  show ?thesis
    unfolding shmc_load_nolock_def option.case first B_def [symmetric]
    by (cases "load_records p out 0 s") (auto simp: stop simp del: drop_append)
qed

lemma load_text:
  assumes A: "implements s A" and T: "out = concat (map rec_text rs)"
    and fit: "length out = BUFFER_SIZE \<or> (length out \<le> BUFFER_SIZE \<and> rest = [])"
  shows "refines (shmc_load_nolock s (Some (out @ rest)) (Some p)) (conf_of s) (a_load (conf_of s) A rs)"
proof (cases "out = []")
  case True
  have "rec_text r \<noteq> []" for r by (simp add: rec_text_def split: prod.split)
  then have "rs = []" using True T by (cases rs) simp_all
  moreover have "rest = []" using True fit by (simp add: BUFFER_SIZE_def)
  ultimately show ?thesis using A True by (simp add: shmc_load_nolock_def load_loop.simps)
next
  case False
  have le: "length (concat (map rec_text rs)) \<le> BUFFER_SIZE" using fit by (auto simp: T)
  have L: "loads_to (load_records p out 0 s) (length out) (conf_of s) (a_load (conf_of s) A rs)"
    using load_records_text [OF A small_records [OF le], where pre = "[]" and p = p] by (simp add: T)
  show ?thesis
  proof (cases "a_load (conf_of s) A rs")
    case None
    then show ?thesis using L unfolding load_one_buffer [OF fit False] by simp
  next
    case (Some x)
    then obtain rc A' where x: "a_load (conf_of s) A rs = Some (rc, A')" by (cases x) auto
    then obtain off s' where "load_records p out 0 s = Some (rc, off, s')" "implements s' A'" "conf_of s' = conf_of s"
        "rc = SHMC_OK \<Longrightarrow> off = length out"
      using L by auto
    then show ?thesis using x False unfolding load_one_buffer [OF fit False] by auto
  qed
qed

section \<open>Writing the entries\<close>

lemma dump_record_text:
  assumes "good_item sls c it" and "it_nkey it + it_nval it \<le> length (it_end it)"
    and "moderate (e_key (entry_of it), e_val (entry_of it))"
  shows "dump_record it = Some (dump_line (e_key (entry_of it), e_val (entry_of it)))"
proof -
  have at: "it_key it = 0" "it_val it = it_nkey it" using assms(1) by (simp_all add: good_item_def)
  define k v where "k = e_key (entry_of it)" and "v = e_val (entry_of it)"
  have kv: "k = take (it_nkey it) (it_end it)" "v = take (it_nval it) (drop (it_nkey it) (it_end it))"
    "length k = it_nkey it" "length v = it_nval it"
    using assms(2) at by (simp_all add: k_def v_def entry_of_def)
  have pr: "it_nkey it < 2 ^ 31" "it_nval it < 2 ^ 31"
    using assms(3) kv(3,4) by (simp_all add: moderate_def k_def v_def)
  have "fmt_s (int (it_nkey it)) (drop (it_key it) (it_end it)) = Some (cut k)"
    "fmt_s (int (it_nval it)) (drop (it_val it) (it_end it)) = Some (cut v)"
    using assms(2) at by (simp_all add: fmt_s_def cut_def flip: kv(1,2))
  then show ?thesis
    by (simp add: dump_record_def as_int_small [OF pr(1)] as_int_small [OF pr(2)] fmt_d_def dump_line_def
        kv(3,4) flip: k_def v_def)
qed

lemma dump_list_text:
  assumes "chain (nxt s) a xs" and "\<And>x. x \<in> set xs \<Longrightarrow> \<exists>it. heap s x = Some it \<and> dump_record it = Some (f x)"
  shows "dump_list s a out = Some (out @ concat (map f xs))"
  using assms
proof (induction xs arbitrary: a out)
  case Nil
  then show ?case by (simp add: dump_list.simps)
next
  case (Cons x xs)
  then have a: "a = x" "x \<noteq> 0" "chain (nxt s) (nxt s x) xs" by simp_all
  obtain it where it: "heap s x = Some it" "dump_record it = Some (f x)" using Cons.prems(2) by auto
  have "dump_list s (nxt s x) (out @ f x) = Some ((out @ f x) @ concat (map f xs))"
    using Cons.IH [OF a(3)] Cons.prems(2) by auto
  then show ?case using a it by (subst dump_list.simps) (simp add: nxt_def)
qed

lemma dump_classes_text:
  assumes "\<And>c out. c < i + n \<Longrightarrow> i \<le> c \<Longrightarrow>
    \<exists>h. read_at (heads s) c = Some h \<and> dump_list s h out = Some (out @ f c)"
  shows "dump_classes s i n out = Some (out @ concat (map f [i..<i + n]))"
  using assms
proof (induction n arbitrary: i out)
  case (Suc n)
  obtain h where h: "read_at (heads s) i = Some h" "dump_list s h out = Some (out @ f i)"
    using Suc.prems [of i] by auto
  have "dump_classes s (Suc i) n (out @ f i) = Some ((out @ f i) @ concat (map f [Suc i..<Suc i + n]))"
    using Suc.prems by (intro Suc.IH) auto
  then show ?case using h by (simp add: upt_conv_Cons del: upt_Suc)
qed simp

text \<open>The dump of a well-formed store is one line for every entry.\<close>

lemma dump_text:
  assumes A: "implements s A" and n: "slabs_count (attrs s) = length (slabs s)"
    and pr: "\<And>r. r \<in> set (dumped (conf_of s) A) \<Longrightarrow> moderate r"
  shows "shmc_dump_nolock s True = Some (SHMC_OK, Some (concat (map dump_line (dumped (conf_of s) A))))"
proof -
  obtain g where g: "inv_held s g {}" "A = absg s g" using implementsE [OF A] .
  note L = inv_heldD(1) [OF g(1)]
  let ?t = "\<lambda>x. dump_line (e_key (entry_at s x), e_val (entry_at s x))"
  let ?f = "\<lambda>c. concat (map ?t (g_lru g c))"
  have "\<exists>h. read_at (heads s) c = Some h \<and> dump_list s h out = Some (out @ ?f c)" if c: "c < length (slabs s)" for c out
  proof -
    have l: "lru_list s c (g_lru g c)" using layoutD(1) [OF L c] .
    have "\<exists>it. heap s x = Some it \<and> dump_record it = Some (?t x)" if x: "x \<in> set (g_lru g c)" for x
    proof -
      obtain it where it: "heap s x = Some it" "good_item (slabs s) c it"
          "it_nkey it + it_nval it \<le> length (it_end it)" "entry_at s x = entry_of it"
        using inv_held_heap [OF g(1) x] .
      have "moderate (e_key (entry_at s x), e_val (entry_at s x))"
        by (rule pr) (use c x in \<open>auto simp: dumped_def g(2)\<close>)
      then show ?thesis using dump_record_text [OF it(2,3)] it(1,4) by simp
    qed
    then show ?thesis using dump_list_text [of s "heads s ! c" "g_lru g c" ?t out] l
      by (auto simp: lru_list_def dll_def)
  qed
  then have "dump_classes s 0 (length (slabs s)) [] = Some (concat (map ?f [0..<length (slabs s)]))"
    using dump_classes_text [of 0 "length (slabs s)" s ?f "[]"] by simp
  moreover have "concat (map ?f cs) = concat (map dump_line (concat (map (\<lambda>c. map (\<lambda>e. (e_key e, e_val e)) (a_lru A c)) cs)))" for cs
    by (induction cs) (simp_all add: g(2) comp_def)
  ultimately show ?thesis by (simp add: shmc_dump_nolock_def n dumped_def)
qed

end
