(* ===== verification/Locks.thy ===== *)
theory Locks
  imports Dump_Load
begin

text \<open>
  The locks of \<open>shmc.c\<close>: a pthread read-write lock in the segment, held by threads, or an \<open>fcntl\<close>
  record lock on the token file, held by processes. A locale states what the wrappers of \<open>shmc.h\<close>
  need of a lock; both kinds provide it. A process-shared pthread mutex in the segment, the same for
  both kinds, guards the relinking that lookups do under the read lock.
\<close>

section \<open>The two kinds of lock\<close>

datatype l_type = F_RDLCK | F_WRLCK | F_UNLCK

text \<open>A thread of a process.\<close>

type_synonym agent = "nat \<times> nat"

text \<open>
  \<open>rd_holders\<close> and \<open>wr_holder\<close>: the state of the \<open>pthread_rwlock_t\<close>; \<open>file_locks\<close>: the locks processes
  have on the token file; \<open>mutex_holder\<close>: the state of the \<open>pthread_mutex_t\<close>.
\<close>

record locks =
  rd_holders :: "agent list"
  wr_holder :: "agent option"
  file_locks :: "(nat \<times> l_type) list"
  mutex_holder :: "agent option"

definition no_locks :: locks where
  "no_locks = \<lparr>rd_holders = [], wr_holder = None, file_locks = [], mutex_holder = None\<rparr>"

text \<open>
  \<open>fcntl(fd, F_SETLKW, ...)\<close> on the whole file: a process replaces its own lock and waits (\<open>None\<close>)
  while another process has a lock that conflicts.
\<close>

definition shmc_fcntl :: "(nat \<times> l_type) list \<Rightarrow> nat \<Rightarrow> l_type \<Rightarrow> (nat \<times> l_type) list option" where
  "shmc_fcntl fl p ty =
     (let others = filter (\<lambda>(q, t). q \<noteq> p) fl in
      if ty = F_UNLCK then Some others
      else if list_ex (\<lambda>(q, t). ty = F_WRLCK \<or> t = F_WRLCK) others then None
      else Some ((p, ty) # others))"

definition pthread_rdlock :: "locks \<Rightarrow> agent \<Rightarrow> locks option" where
  "pthread_rdlock l a = (if wr_holder l \<noteq> None then None else Some (l\<lparr>rd_holders := a # rd_holders l\<rparr>))"

definition pthread_wrlock :: "locks \<Rightarrow> agent \<Rightarrow> locks option" where
  "pthread_wrlock l a =
     (if wr_holder l \<noteq> None \<or> rd_holders l \<noteq> [] then None else Some (l\<lparr>wr_holder := Some a\<rparr>))"

definition pthread_unlock :: "locks \<Rightarrow> agent \<Rightarrow> locks option" where
  "pthread_unlock l a =
     (if wr_holder l = Some a then Some (l\<lparr>wr_holder := None\<rparr>)
      else Some (l\<lparr>rd_holders := remove1 a (rd_holders l)\<rparr>))"

text \<open>The functions of the library; \<open>flock\<close> is \<open>shmc->attr->use_flock\<close>. \<open>None\<close> while the caller waits.\<close>

definition flock_as :: "l_type \<Rightarrow> locks \<Rightarrow> agent \<Rightarrow> locks option" where
  "flock_as ty l a = map_option (\<lambda>fl. l\<lparr>file_locks := fl\<rparr>) (shmc_fcntl (file_locks l) (fst a) ty)"

definition shmc_rdlock :: "bool \<Rightarrow> locks \<Rightarrow> agent \<Rightarrow> locks option" where
  "shmc_rdlock flock l a = (if flock then flock_as F_RDLCK l a else pthread_rdlock l a)"

definition shmc_wrlock :: "bool \<Rightarrow> locks \<Rightarrow> agent \<Rightarrow> locks option" where
  "shmc_wrlock flock l a = (if flock then flock_as F_WRLCK l a else pthread_wrlock l a)"

definition shmc_unlock :: "bool \<Rightarrow> locks \<Rightarrow> agent \<Rightarrow> locks option" where
  "shmc_unlock flock l a = (if flock then flock_as F_UNLCK l a else pthread_unlock l a)"

text \<open>
  \<open>shmc->mutex\<close>: \<open>None\<close> while someone else has it; giving back a mutex one does not have is undefined.
\<close>

definition pthread_mutex_lock :: "locks \<Rightarrow> agent \<Rightarrow> locks option" where
  "pthread_mutex_lock l a = (if mutex_holder l = None then Some (l\<lparr>mutex_holder := Some a\<rparr>) else None)"

definition pthread_mutex_unlock :: "locks \<Rightarrow> agent \<Rightarrow> locks option" where
  "pthread_mutex_unlock l a = (if mutex_holder l = Some a then Some (l\<lparr>mutex_holder := None\<rparr>) else None)"

section \<open>What a lock promises\<close>

text \<open>
  \<open>sound l\<close> is the invariant of the lock's state, \<open>holds l a\<close> what \<open>a\<close> holds, and \<open>apart a b\<close> says
  that the lock tells \<open>a\<close> and \<open>b\<close> from each other. A lock is asked for by an agent that holds
  nothing, and refused only because of someone else.
\<close>

locale rw_lock =
  fixes rd wr un :: "'l \<Rightarrow> 'a \<Rightarrow> 'l option"
    and sound :: "'l \<Rightarrow> bool"
    and holds :: "'l \<Rightarrow> 'a \<Rightarrow> l_type"
    and apart :: "'a \<Rightarrow> 'a \<Rightarrow> bool"
  assumes rd_grant: "sound l \<Longrightarrow> holds l a = F_UNLCK \<Longrightarrow> rd l a = Some l' \<Longrightarrow>
      sound l' \<and> holds l' a = F_RDLCK \<and> (\<forall>b. apart a b \<longrightarrow> holds l b \<noteq> F_WRLCK \<and> holds l' b = holds l b)"
    and wr_grant: "sound l \<Longrightarrow> holds l a = F_UNLCK \<Longrightarrow> wr l a = Some l' \<Longrightarrow>
      sound l' \<and> holds l' a = F_WRLCK \<and> (\<forall>b. apart a b \<longrightarrow> holds l b = F_UNLCK \<and> holds l' b = F_UNLCK)"
    and un_done: "sound l \<Longrightarrow> holds l a \<noteq> F_UNLCK \<Longrightarrow> \<exists>l'. un l a = Some l'
      \<and> sound l' \<and> holds l' a = F_UNLCK \<and> (\<forall>b. apart a b \<longrightarrow> holds l' b = holds l b)"
    and same: "\<not> apart a b \<Longrightarrow> holds l a = holds l b"
    and rd_free: "sound l \<Longrightarrow> rd l a = None \<Longrightarrow> \<exists>b. holds l b \<noteq> F_UNLCK"
    and wr_free: "sound l \<Longrightarrow> wr l a = None \<Longrightarrow> \<exists>b. holds l b \<noteq> F_UNLCK"
begin

text \<open>A writer excludes everyone the lock can tell from it.\<close>

definition exclusive :: "'a set \<Rightarrow> 'l \<Rightarrow> bool" where
  "exclusive S l \<longleftrightarrow> (\<forall>a \<in> S. \<forall>b \<in> S. a \<noteq> b \<and> holds l a = F_WRLCK \<longrightarrow> holds l b = F_UNLCK)"

lemma exclusiveD: "exclusive S l \<Longrightarrow> a \<in> S \<Longrightarrow> b \<in> S \<Longrightarrow> a \<noteq> b \<Longrightarrow> holds l a = F_WRLCK \<Longrightarrow> holds l b = F_UNLCK"
  unfolding exclusive_def by blast

lemma exclusive_rd:
  assumes "exclusive S l" and "a \<in> S" and far: "\<And>b. b \<in> S \<Longrightarrow> b \<noteq> a \<Longrightarrow> apart a b"
    and "sound l" and "holds l a = F_UNLCK" and "rd l a = Some l'"
  shows "exclusive S l'"
proof -
  note g = rd_grant [OF assms(4-6)]
  have "holds l' b \<noteq> F_WRLCK" if "b \<in> S" for b using g far [OF that] by (cases "b = a") auto
  then show ?thesis by (auto simp: exclusive_def)
qed

lemma exclusive_wr:
  assumes "exclusive S l" and "a \<in> S" and far: "\<And>b. b \<in> S \<Longrightarrow> b \<noteq> a \<Longrightarrow> apart a b"
    and "sound l" and "holds l a = F_UNLCK" and "wr l a = Some l'"
  shows "exclusive S l'"
proof -
  note g = wr_grant [OF assms(4-6)]
  have "holds l' b = F_UNLCK" if "b \<in> S" "b \<noteq> a" for b using g far [OF that] by blast
  then show ?thesis unfolding exclusive_def by (metis l_type.distinct(5))
qed

lemma exclusive_un:
  assumes "exclusive S l" and "a \<in> S" and far: "\<And>b. b \<in> S \<Longrightarrow> b \<noteq> a \<Longrightarrow> apart a b"
    and "sound l" and "holds l a \<noteq> F_UNLCK" and "un l a = Some l'"
  shows "exclusive S l'"
proof -
  have g: "holds l' a = F_UNLCK" "\<And>b. apart a b \<Longrightarrow> holds l' b = holds l b"
    using un_done [OF assms(4,5)] assms(6) by auto
  have "holds l' b = (if b = a then F_UNLCK else holds l b)" if "b \<in> S" for b
    using g far [OF that] by simp
  then show ?thesis using assms(1) unfolding exclusive_def by (metis l_type.distinct(5))
qed

text \<open>Whatever is held is held by one of \<open>S\<close>.\<close>

definition owners :: "'a set \<Rightarrow> 'l \<Rightarrow> bool" where
  "owners S l \<longleftrightarrow> (\<forall>b. holds l b \<noteq> F_UNLCK \<longrightarrow> (\<exists>y \<in> S. \<not> apart y b))"

lemma owners_step:
  assumes "owners S l" and "a \<in> S" and "\<And>b. apart a b \<Longrightarrow> holds l' b = holds l b"
  shows "owners S l'"
  using assms unfolding owners_def by metis

lemma owners_wr:
  assumes "sound l" and "holds l a = F_UNLCK" and "wr l a = Some l'" and "a \<in> S"
  shows "owners S l'"
  using wr_grant [OF assms(1-3)] assms(4) unfolding owners_def by metis

lemma grant_possible:
  assumes "sound l" and "owners S l" and "\<And>y. y \<in> S \<Longrightarrow> holds l y = F_UNLCK"
  shows "\<exists>l'. rd l a = Some l'" "\<exists>l'. wr l a = Some l'"
proof -
  have "holds l b = F_UNLCK" for b using assms(2,3) same unfolding owners_def by metis
  then show "\<exists>l'. rd l a = Some l'" "\<exists>l'. wr l a = Some l'"
    using rd_free [OF assms(1)] wr_free [OF assms(1)] by (meson not_None_eq)+
qed

end

section \<open>Both kinds keep the promise\<close>

definition lock_sound :: "bool \<Rightarrow> locks \<Rightarrow> bool" where
  "lock_sound flock l \<longleftrightarrow>
     (if flock then F_UNLCK \<notin> snd ` set (file_locks l) \<and> distinct (map fst (file_locks l))
      else distinct (rd_holders l) \<and> (wr_holder l \<noteq> None \<longrightarrow> rd_holders l = []))"

definition lock_holds :: "bool \<Rightarrow> locks \<Rightarrow> agent \<Rightarrow> l_type" where
  "lock_holds flock l a =
     (if flock then (case map_of (file_locks l) (fst a) of None \<Rightarrow> F_UNLCK | Some ty \<Rightarrow> ty)
      else if wr_holder l = Some a then F_WRLCK
      else if a \<in> set (rd_holders l) then F_RDLCK
      else F_UNLCK)"

text \<open>A record lock does not tell the threads of a process from each other.\<close>

definition lock_apart :: "bool \<Rightarrow> agent \<Rightarrow> agent \<Rightarrow> bool" where
  "lock_apart flock a b \<longleftrightarrow> (if flock then fst a \<noteq> fst b else a \<noteq> b)"

text \<open>The file locks other than those of process \<open>p\<close>.\<close>

lemma map_of_others:
  "map_of (filter (\<lambda>(q, t). q \<noteq> p) fl) = (map_of fl)(p := None)"
  by (induction fl) (auto simp: fun_eq_iff)

lemma fcntl_unlock: "shmc_fcntl fl p F_UNLCK = Some (filter (\<lambda>(q, t). q \<noteq> p) fl)"
  by (simp add: shmc_fcntl_def)

lemma fcntl_grant:
  assumes "shmc_fcntl fl p ty = Some fl'" and "ty \<noteq> F_UNLCK"
  shows "map_of fl' = (map_of fl)(p \<mapsto> ty)"
    "q \<noteq> p \<Longrightarrow> map_of fl q = Some t \<Longrightarrow> ty \<noteq> F_WRLCK \<and> t \<noteq> F_WRLCK"
  using assms
  by (auto simp: shmc_fcntl_def Let_def list_ex_iff map_of_others fun_eq_iff split: if_splits dest!: map_of_SomeD)

lemma fcntl_sound:
  assumes "shmc_fcntl fl p ty = Some fl'" and "F_UNLCK \<notin> snd ` set fl" and "distinct (map fst fl)"
  shows "F_UNLCK \<notin> snd ` set fl'" "distinct (map fst fl')"
  using assms distinct_map_filter [OF assms(3), of "\<lambda>(q, t). q \<noteq> p"]
  by (auto simp: shmc_fcntl_def Let_def split: if_splits)

lemma fcntl_waits:
  assumes "shmc_fcntl fl p ty = None" and "F_UNLCK \<notin> snd ` set fl"
  shows "\<exists>q t. map_of fl q = Some t \<and> t \<noteq> F_UNLCK"
proof -
  obtain q t where "(q, t) \<in> set fl"
    using assms(1) by (auto simp: shmc_fcntl_def Let_def list_ex_iff split: if_splits)
  then obtain t' where "map_of fl q = Some t'" by (metis weak_map_of_SomeI)
  moreover from this have "t' \<noteq> F_UNLCK" using assms(2) by (force dest: map_of_SomeD)
  ultimately show ?thesis by blast
qed

lemma flock_waits:
  assumes "flock_as ty l a = None" and "lock_sound True l"
  shows "\<exists>b. lock_holds True l b \<noteq> F_UNLCK"
proof -
  obtain q t where "map_of (file_locks l) q = Some t" "t \<noteq> F_UNLCK"
    using fcntl_waits [of "file_locks l" "fst a" ty] assms by (auto simp: flock_as_def lock_sound_def)
  then have "lock_holds True l (q, 0) \<noteq> F_UNLCK" by (simp add: lock_holds_def)
  then show ?thesis ..
qed

lemma flock_lock: "rw_lock (shmc_rdlock True) (shmc_wrlock True) (shmc_unlock True) (lock_sound True) (lock_holds True) (lock_apart True)"
proof (unfold_locales, goal_cases)
  case (1 l a l')
  then obtain fl where fl: "shmc_fcntl (file_locks l) (fst a) F_RDLCK = Some fl" "l' = l\<lparr>file_locks := fl\<rparr>"
    by (auto simp: shmc_rdlock_def flock_as_def)
  have "holds \<noteq> F_WRLCK" if "map_of (file_locks l) q = Some holds" "q \<noteq> fst a" for q holds
    using fcntl_grant(2) [OF fl(1)] that by blast
  then show ?case using fcntl_grant(1) [OF fl(1)] fcntl_sound [OF fl(1)] 1(1) fl(2)
    by (auto simp: lock_sound_def lock_holds_def lock_apart_def split: option.split)
next
  case (2 l a l')
  then obtain fl where fl: "shmc_fcntl (file_locks l) (fst a) F_WRLCK = Some fl" "l' = l\<lparr>file_locks := fl\<rparr>"
    by (auto simp: shmc_wrlock_def flock_as_def)
  have "map_of (file_locks l) q = None" if "q \<noteq> fst a" for q
    using fcntl_grant(2) [OF fl(1), of q] that by (cases "map_of (file_locks l) q") auto
  then show ?case using fcntl_grant(1) [OF fl(1)] fcntl_sound [OF fl(1)] 2(1) fl(2)
    by (auto simp: lock_sound_def lock_holds_def lock_apart_def)
next
  case (3 l a)
  note s = fcntl_sound [OF fcntl_unlock, of "file_locks l"]
  show ?case using 3 s
    by (auto simp: shmc_unlock_def flock_as_def fcntl_unlock map_of_others lock_sound_def lock_holds_def lock_apart_def)
next
  case (4 a b l)
  then show ?case by (simp add: lock_apart_def lock_holds_def)
next
  case (5 l a)
  then show ?case using flock_waits by (auto simp: shmc_rdlock_def)
next
  case (6 l a)
  then show ?case using flock_waits by (auto simp: shmc_wrlock_def)
qed

lemma pthread_lock: "rw_lock (shmc_rdlock False) (shmc_wrlock False) (shmc_unlock False) (lock_sound False) (lock_holds False) (lock_apart False)"
proof (unfold_locales, goal_cases)
  case (5 l a)
  then show ?case by (auto simp: shmc_rdlock_def pthread_rdlock_def lock_holds_def split: if_splits)
next
  case (6 l a)
  then show ?case
    by (cases "wr_holder l"; cases "rd_holders l")
       (auto simp: shmc_wrlock_def pthread_wrlock_def lock_holds_def split: if_splits)
qed (auto simp: shmc_rdlock_def shmc_wrlock_def shmc_unlock_def pthread_rdlock_def pthread_wrlock_def
    pthread_unlock_def lock_sound_def lock_holds_def lock_apart_def split: if_splits)

interpretation lib: rw_lock "shmc_rdlock flock" "shmc_wrlock flock" "shmc_unlock flock"
    "lock_sound flock" "lock_holds flock" "lock_apart flock" for flock
  by (cases flock) (simp_all add: flock_lock pthread_lock)

section \<open>The lock and the mutex do not touch each other\<close>

lemma mutex_lock_apart:
  "shmc_rdlock flock l a = Some l' \<Longrightarrow> mutex_holder l' = mutex_holder l"
  "shmc_wrlock flock l a = Some l' \<Longrightarrow> mutex_holder l' = mutex_holder l"
  "shmc_unlock flock l a = Some l' \<Longrightarrow> mutex_holder l' = mutex_holder l"
  by (auto simp: shmc_rdlock_def shmc_wrlock_def shmc_unlock_def flock_as_def pthread_rdlock_def pthread_wrlock_def
      pthread_unlock_def split: if_splits)

lemma lock_mutex_apart [simp]:
  "lock_sound flock (l\<lparr>mutex_holder := m\<rparr>) = lock_sound flock l"
  "lock_holds flock (l\<lparr>mutex_holder := m\<rparr>) = lock_holds flock l"
  by (simp_all add: lock_sound_def lock_holds_def fun_eq_iff)

lemma mutex_lock_Some:
  "pthread_mutex_lock l a = Some l' \<longleftrightarrow> mutex_holder l = None \<and> l' = l\<lparr>mutex_holder := Some a\<rparr>"
  "pthread_mutex_unlock l a = Some l' \<longleftrightarrow> mutex_holder l = Some a \<and> l' = l\<lparr>mutex_holder := None\<rparr>"
  by (auto simp: pthread_mutex_lock_def pthread_mutex_unlock_def)

end
