(* ===== verification/Token_Properties.thy ===== *)
theory Token_Properties
  imports Reachable
begin

text \<open>
  The properties of a token: what \<open>shmc_init\<close> makes of its attributes, that a store survives
  \<open>shmc_destroy\<close> and is found again at another address, and what the error paths leave behind.
\<close>

section \<open>Creating\<close>

lemma fix_attr_factor: "3 * 2 ^ f32_scale (item_size_factor (fix_attr a)) \<le> 2 * f32_num (item_size_factor (fix_attr a))"
  by (simp add: fix_attr_def Let_def at_most_1_5_def)

text \<open>What a caller has to provide for \<open>shmc_init\<close>, on the attributes after \<open>shmc_init\<close> fixed them.\<close>

definition caller_ok :: "attr \<Rightarrow> bool" where
  "caller_ok a \<longleftrightarrow> 2 * (item_size_max a + 8) * f32_num (item_size_factor (fix_attr a))
        < 2 ^ 64 * 2 ^ f32_scale (item_size_factor (fix_attr a))
     \<and> sizeof_item + item_size_min a < 2 ^ 64 \<and> mem_limit a + item_size_max a < 2 ^ 64
     \<and> mem_limit a \<noteq> 0 \<and> nbuckets a \<noteq> 0"

lemma fix_attr_ok: "caller_ok a \<Longrightarrow> attr_ok (fix_attr a)"
  using fix_attr_factor [of a]
  by (auto simp: caller_ok_def attr_ok_def factor_ok_def fix_attr_def Let_def split: if_splits)

definition works :: "sys \<Rightarrow> nat \<Rightarrow> bool" where
  "works os p \<longleftrightarrow> malloc_works os \<and> open_works os \<and> ftruncate_works os \<and> first_map os = Some p"

lemma init_creation:
  assumes "caller_ok a" and "works os p" and "fs token = None"
  shows "\<exists>zs. sorted_wrt (<) zs \<and> count_of_slabs (fix_attr a) = Some (length zs)
    \<and> size_seq (item_size_factor (fix_attr a)) (length zs) (sizeof_item + item_size_min a) = Some zs
    \<and> (if pool_need (item_size_max a) zs < mem_limit a then
         \<exists>s. shmc_init os fs token (Some a) = Some (SHMC_OK, Some s, fs(token \<mapsto> Image SHMC_VERSION s))
           \<and> implements s (a_fresh (item_size_max a) zs) \<and> conf_of s = conf_for p (fix_attr a) zs
       else shmc_init os fs token (Some a) = None)"
proof -
  have same: "item_size_max (fix_attr a) = item_size_max a" "mem_limit (fix_attr a) = mem_limit a"
    "item_size_min (fix_attr a) = item_size_min a"
    by (simp_all add: fix_attr_def Let_def)
  have os: "open_works os" "ftruncate_works os" "first_map os = Some p" "malloc_works os"
    using assms(2) by (simp_all add: works_def)
  note ok = fix_attr_ok [OF assms(1)]
  obtain n zs where zs: "count_of_slabs (fix_attr a) = Some n" "length zs = n"
    "size_seq (item_size_factor (fix_attr a)) n (sizeof_item + item_size_min a) = Some zs"
    "if pool_need (item_size_max a) zs < mem_limit a then
         \<exists>s. mmap_create os fs token (fix_attr a) = Some (SHMC_OK, Some s, fs(token \<mapsto> Image SHMC_VERSION s))
           \<and> implements s (a_fresh (item_size_max a) zs) \<and> conf_of s = conf_for p (fix_attr a) zs
       else mmap_create os fs token (fix_attr a) = None"
    using create_spec [of "fix_attr a" os p fs token, unfolded same] ok os assms(3) by blast
  have "sorted_wrt (<) zs"
    using size_seq_of_slabs [of "fix_attr a" n] ok zs(1,3) same by (auto simp: attr_ok_def)
  then show ?thesis using zs os(4) by (intro exI [of _ zs]) (simp add: shmc_init_def)
qed

lemma init_fresh:
  assumes "caller_ok a" and "works os q" and "fs token = None"
    and zs: "count_of_slabs (fix_attr a) = Some (length zs)"
      "size_seq (item_size_factor (fix_attr a)) (length zs) (sizeof_item + item_size_min a) = Some zs"
    and "pool_need (item_size_max a) zs < mem_limit a"
  shows "\<exists>s. shmc_init os fs token (Some a) = Some (SHMC_OK, Some s, fs(token \<mapsto> Image SHMC_VERSION s))
    \<and> implements s (a_fresh (item_size_max a) zs) \<and> conf_of s = conf_for q (fix_attr a) zs"
proof -
  obtain zs' where zs': "count_of_slabs (fix_attr a) = Some (length zs')"
      "size_seq (item_size_factor (fix_attr a)) (length zs') (sizeof_item + item_size_min a) = Some zs'"
      "if pool_need (item_size_max a) zs' < mem_limit a then
         \<exists>s. shmc_init os fs token (Some a) = Some (SHMC_OK, Some s, fs(token \<mapsto> Image SHMC_VERSION s))
           \<and> implements s (a_fresh (item_size_max a) zs') \<and> conf_of s = conf_for q (fix_attr a) zs'
       else shmc_init os fs token (Some a) = None"
    using init_creation [OF assms(1,2), of fs token, OF assms(3)] by blast
  have "zs' = zs" using zs'(1,2) zs by simp
  then show ?thesis using zs'(3) assms(6) by auto
qed

text \<open>
  C8: \<open>shmc_init\<close> with attributes on a token that does not exist, when the system calls succeed,
  gives an empty store whose classes are the sizes \<open>item_size_min\<close> and up in steps of the factor,
  each with one run of free chunks, if these runs fit into \<open>mem_limit\<close>; otherwise the process ends
  in the failing assertion.
\<close>

theorem init_creates:
  assumes "caller_ok a" and "works os p" and "fs token = None"
  shows "\<exists>zs. sorted_wrt (<) zs \<and> count_of_slabs (fix_attr a) = Some (length zs)
    \<and> size_seq (item_size_factor (fix_attr a)) (length zs) (sizeof_item + item_size_min a) = Some zs
    \<and> (if pool_need (item_size_max a) zs < mem_limit a then
         \<exists>s. shmc_init os fs token (Some a) = Some (SHMC_OK, Some s, fs(token \<mapsto> Image SHMC_VERSION s))
           \<and> implements s (a_fresh (item_size_max a) zs) \<and> conf_of s = conf_for p (fix_attr a) zs
       else shmc_init os fs token (Some a) = None)"
  by (rule init_creation [OF assms(1,2), of fs token, OF assms(3)])

definition good_sys :: "nat \<Rightarrow> sys" where
  "good_sys p = \<lparr>malloc_works = True, open_works = True, ftruncate_works = True, first_map = Some p, second_map = Some p\<rparr>"

lemma good_sys_works: "works (good_sys p) p"
  by (simp add: works_def good_sys_def)

lemma tiny_caller: "caller_ok tiny" "fix_attr tiny = tiny"
  by (simp_all add: caller_ok_def fix_attr_def tiny_def at_most_1_5_def)

theorem init_creates_witness:
  "\<exists>s. shmc_init (good_sys 4096) Map.empty ''t'' (Some tiny)
      = Some (SHMC_OK, Some s, [''t'' \<mapsto> Image SHMC_VERSION s]) \<and> implements s (tst [] [] [0, 0] [0])"
proof -
  have t: "item_size_max tiny = 200" "mem_limit tiny = 300" "item_size_min tiny = 8" by (simp_all add: tiny_def)
  obtain zs where zs: "count_of_slabs tiny = Some (length zs)"
    "size_seq (item_size_factor tiny) (length zs) 72 = Some zs"
    "if pool_need 200 zs < 300 then
         \<exists>s. shmc_init (good_sys 4096) Map.empty ''t'' (Some tiny) = Some (SHMC_OK, Some s, [''t'' \<mapsto> Image SHMC_VERSION s])
           \<and> implements s (a_fresh 200 zs) \<and> conf_of s = conf_for 4096 tiny zs
       else shmc_init (good_sys 4096) Map.empty ''t'' (Some tiny) = None"
    using init_creates [OF tiny_caller(1) good_sys_works [of 4096], of Map.empty "''t''"]
    unfolding tiny_caller(2) t by auto
  have "zs = [72, 144]" using zs(1,2) tiny_sizes by simp
  then show ?thesis using zs(3) by (auto simp: tiny_fresh pool_need_def)
qed

section \<open>Attaching\<close>

text \<open>
  C9: a store survives its process. Whatever was served since the token was created, after
  \<open>shmc_destroy\<close> another \<open>shmc_init\<close> without attributes finds the same entries in the same order of
  use, at whatever address the file is mapped this time; and \<open>shmc_destroy\<close> has unmapped exactly
  the bytes that were mapped.
\<close>

theorem destroy_then_attach:
  assumes "attr_ok a" and "reach a s" and "malloc_works os" and "open_works os" and "first_map os \<noteq> None"
    and "second_map os = Some q"
  shows "\<exists>A len. implements s A \<and> shmc_destroy fs token s = (len, fs(token \<mapsto> Image SHMC_VERSION s))
    \<and> (\<exists>n. count_of_slabs (attrs s) = Some n \<and> len = size_of_mmap (attrs s) n)
    \<and> shmc_init os (fs(token \<mapsto> Image SHMC_VERSION s)) token None
        = Some (SHMC_OK, Some (s\<lparr>base := q\<rparr>), fs(token \<mapsto> Image SHMC_VERSION s))
    \<and> implements (s\<lparr>base := q\<rparr>) A \<and> reach a (s\<lparr>base := q\<rparr>)
    \<and> shmc_lookup (s\<lparr>base := q\<rparr>) = shmc_lookup s"
proof -
  obtain A p zs where A: "implements s A" "conf_of s = conf_for p a zs" "count_of_slabs a = Some (length zs)"
    using reach_implements [OF assms(1,2)] by blast
  note C = conf_forD [OF A(2,3)]
  let ?fs = "fs(token \<mapsto> Image SHMC_VERSION s)"
  have at: "mmap_attach os ?fs token = Some (SHMC_OK, Some (s\<lparr>base := q\<rparr>), ?fs)"
    and i: "implements (s\<lparr>base := q\<rparr>) A"
    using attach_spec [of ?fs token, OF _ A(1,2,3) assms(4-6)] by simp_all
  have "dict (conf_of (s\<lparr>base := q\<rparr>)) A = dict (conf_of s) A"
    using A(2) C(6) by (simp add: dict_def a_find_def conf_for_def fun_eq_iff)
  then show ?thesis
    using A(1) i at C(1,3) assms(3) reach.mapped [OF assms(2), of q]
    by (intro exI [of _ A]) (simp add: shmc_destroy_def shmc_init_def lookup_dict [OF A(1)] lookup_dict [OF i])
qed

theorem destroy_then_attach_witness:
  "shmc_init (good_sys 65536) [''t'' \<mapsto> Image SHMC_VERSION tiny_store] ''t'' None
      = Some (SHMC_OK, Some (tiny_store\<lparr>base := 65536\<rparr>), [''t'' \<mapsto> Image SHMC_VERSION tiny_store])
    \<and> shmc_lookup (tiny_store\<lparr>base := 65536\<rparr>) = shmc_lookup tiny_store"
  using destroy_then_attach [OF tiny_attr_ok tiny_reach, of "good_sys 65536" 65536 Map.empty "''t''"]
  by (auto simp: good_sys_def)

section \<open>Errors\<close>

text \<open>
  A \<open>shmc_init\<close> that fails after it has created the file leaves the file behind, and the token is
  then unusable: no later \<open>shmc_init\<close> succeeds on it, with or without attributes.
\<close>

theorem failed_init_blocks_token:
  assumes "malloc_works os" and "open_works os" and "fs token = None"
    and "shmc_init os fs token (Some a) = Some (SHMC_SYSTEM, None, fs')"
  shows "\<exists>len. fs' = fs(token \<mapsto> Zeroed len) \<and>
    (\<forall>os' a'. shmc_init os' fs' token (Some a') \<in> {Some (SHMC_SYSTEM, None, fs'), Some (SHMC_ECREATE, None, fs')})
    \<and> (\<forall>os'. shmc_init os' fs' token None \<in> {None, Some (SHMC_SYSTEM, None, fs'), Some (SHMC_EVERSION, None, fs')})"
proof -
  obtain len where "fs' = fs(token \<mapsto> Zeroed len)"
    using assms by (auto simp: shmc_init_def mmap_create_def Let_def split: if_splits Option.bind_splits option.splits)
  then show ?thesis by (auto simp: shmc_init_def mmap_create_def mmap_attach_def guard_def)
qed

theorem failed_init_blocks_token_witness:
  "shmc_init (good_sys 4096) [''t'' \<mapsto> Zeroed 0] ''t'' (Some tiny)
     \<in> {Some (SHMC_SYSTEM, None, [''t'' \<mapsto> Zeroed 0]), Some (SHMC_ECREATE, None, [''t'' \<mapsto> Zeroed 0])}"
proof -
  let ?os = "(good_sys 4096)\<lparr>ftruncate_works := False\<rparr>"
  have "shmc_init ?os Map.empty ''t'' (Some tiny) = Some (SHMC_SYSTEM, None, [''t'' \<mapsto> Zeroed 0])"
    using tiny_sizes(1) by (simp add: shmc_init_def tiny_caller(2) mmap_create_def good_sys_def)
  from failed_init_blocks_token [OF _ _ _ this] obtain len where "[''t'' \<mapsto> Zeroed 0] = [''t'' \<mapsto> Zeroed len]"
    "shmc_init (good_sys 4096) [''t'' \<mapsto> Zeroed 0] ''t'' (Some tiny)
     \<in> {Some (SHMC_SYSTEM, None, [''t'' \<mapsto> Zeroed 0]), Some (SHMC_ECREATE, None, [''t'' \<mapsto> Zeroed 0])}"
    by (auto simp: good_sys_def)
  then show ?thesis by blast
qed

section \<open>Areas\<close>

text \<open>
  The areas \<open>format_mmap\<close> lays out follow each other without gap or overlap, from the base of
  the mapping to its end at \<open>size_of_mmap\<close> bytes. The pthread locks behind the attributes start at
  an offset of 76, which is not a multiple of eight.
\<close>

theorem areas_fill_mapping:
  assumes "header_size (nbuckets a) n + mem_limit a < 2 ^ 64"
  shows "fst (hd (areas (format_mmap p (nbuckets a) n) a n)) = p
    \<and> map fst (tl (areas (format_mmap p (nbuckets a) n) a n))
        = map (\<lambda>(q, len). q + len) (butlast (areas (format_mmap p (nbuckets a) n) a n))
    \<and> (\<lambda>(q, len). q + len) (last (areas (format_mmap p (nbuckets a) n) a n)) = p + size_of_mmap a n
    \<and> p_lock (format_mmap p (nbuckets a) n) = p + 76"
  using size_of_mmap_eq [OF assms]
  by (simp add: areas_def format_mmap_def Let_def sizeof_simps header_size_def)

theorem areas_fill_mapping_witness:
  "(\<lambda>(q, len). q + len) (last (areas (format_mmap 4096 2 2) tiny 2)) = 4096 + size_of_mmap tiny 2"
  using areas_fill_mapping [of tiny 2 4096] by (simp add: header_size_def tiny_def)

end
