(* ===== verification/Limits.thy ===== *)
theory Limits
  imports Token_Properties
begin

text \<open>
  Where the code does less than its interface promises: sizes no class fits, flags that are lost
  when an append moves an item, a counter evicted by its own replacement, and values lost by a
  failed store. Each is proved of the model, with a segment on which it happens.
\<close>

section \<open>Sizes between the largest class and the size check\<close>

abbreviation pows :: "nat \<Rightarrow> nat \<Rightarrow> nat list" where
  "pows j k \<equiv> map (\<lambda>i. 2 ^ i) [j..<k]"

text \<open>With a factor of two and sizes that are powers of two the classes are the powers of two.\<close>

lemma align_pow: "3 \<le> k \<Longrightarrow> align_size (2 ^ k) = 2 ^ k"
proof -
  assume "3 \<le> k"
  then have "(8::nat) dvd 2 ^ k" using le_imp_power_dvd [of 3 k "2::nat"] by simp
  then show ?thesis by (simp add: align_size_def)
qed

lemma scale_pow: "k < 23 \<Longrightarrow> scale_size (F32 2 0) (2 ^ k) = Some (2 ^ Suc k)"
proof -
  assume k: "k < 23"
  then have "(2::nat) ^ Suc k \<le> 2 ^ 23" by (intro power_increasing) simp_all
  then show ?thesis by (subst scale_size_exact) simp_all
qed

lemma size_seq_pow:
  "3 \<le> k \<Longrightarrow> k + n \<le> 23 \<Longrightarrow> size_seq (F32 2 0) n (2 ^ k) = Some (pows k (k + n))"
proof (induction n arbitrary: k)
  case (Suc n)
  then have "size_seq (F32 2 0) (Suc n) (2 ^ k) = Some (2 ^ k # pows (Suc k) (Suc k + n))"
    using Suc.IH [of "Suc k"] by (simp add: align_pow scale_pow del: power_Suc)
  also have "2 ^ k # pows (Suc k) (Suc k + n) = pows k (k + Suc n)"
    by (simp add: upt_conv_Cons)
  finally show ?case .
qed simp

lemma count_slabs_pow:
  assumes "item_size_max a = 2 ^ m" and "item_size_factor a = F32 2 0" and "3 \<le> k" and "m \<le> 23" and "k + n = m"
  shows "count_slabs_loop a (2 ^ k) c = Some (c + n)"
  using assms(3,5)
proof (induction n arbitrary: k c)
  case 0
  then show ?case using assms(1) by (subst count_slabs_loop.simps) simp
next
  case (Suc n)
  then have "(2::nat) ^ k < 2 ^ m" by (intro power_strict_increasing) simp_all
  then show ?case
    using Suc.IH [of "Suc k" "Suc c"] Suc.prems assms(1,2,4)
    by (subst count_slabs_loop.simps) (simp add: align_pow scale_pow del: power_Suc)
qed

abbreviation dflt :: attr where "dflt \<equiv> SHMC_ATTR_INITIALIZER"

lemma dflt_ok: "attr_ok dflt"
  by (simp add: attr_ok_def factor_ok_def SHMC_ATTR_INITIALIZER_def)

lemma dflt_sizes:
  "count_of_slabs dflt = Some 13"
  "size_seq (item_size_factor dflt) 13 (sizeof_item + item_size_min dflt) = Some (pows 7 20)"
proof -
  have d: "item_size_max dflt = 2 ^ 20" "item_size_factor dflt = F32 2 0" "item_size_min dflt = 64"
    by (simp_all add: SHMC_ATTR_INITIALIZER_def)
  have "count_slabs_loop dflt (2 ^ 7) 0 = Some (0 + 13)"
    by (rule count_slabs_pow [OF d(1,2)]) simp_all
  then show "count_of_slabs dflt = Some 13" by (simp add: count_of_slabs_def d(3))
  show "size_seq (item_size_factor dflt) 13 (sizeof_item + item_size_min dflt) = Some (pows 7 20)"
    using size_seq_pow [of 7 13] by (simp add: d(2,3))
qed

lemma reach_sizes:
  assumes "attr_ok a" and "reach a s" and "count_of_slabs a = Some n"
    and "size_seq (item_size_factor a) n (sizeof_item + item_size_min a) = Some zs"
  shows "cf_sizes (conf_of s) = zs \<and> item_size_max (attrs s) = item_size_max a"
  using assms(2)
proof (induction rule: reach.induct)
  case (created n' p s)
  then have n': "n' = n" using assms(3) by simp
  have f: "factor_ok a" "mem_limit a + item_size_max a < 2 ^ 64" "mem_used a = 0" "mem_limit a \<noteq> 0"
    using assms(1) by (simp_all add: attr_ok_def)
  define s0 where "s0 = fresh_segment (format_mmap p (nbuckets a) n) a n"
  have s0: "attrs s0 = a\<lparr>slabs_count := n\<rparr>" by (simp add: s0_def fresh_segment_def)
  have "size_add sizeof_item (item_size_min a) = sizeof_item + item_size_min a"
    using f(1) by (simp add: factor_ok_def)
  then have "format_slabs_loop n 0 (sizeof_item + item_size_min a) s0 = Some s"
    using created(2) by (simp add: format_slabs_def s0 s0_def [symmetric] n')
  from format_loop_need [OF this, of zs] have "pool_need (item_size_max a) zs < mem_limit a"
    using assms(4) f by (simp add: s0)
  from format_slabs_fresh [OF assms(1,3,4) this, of p] show ?case
    using created(2) by (auto simp: n' conf_for_def)
next
  case (served s r rc s')
  obtain A where A: "implements s A" using reach_implements [OF assms(1) served.hyps(1)] by blast
  have "conf_of s' = conf_of s"
    using serve_legal [OF A served.hyps(2)] served.hyps(3) by (auto simp: serves_def)
  then show ?case using served.IH conf_ofD(8) [of s' s] by simp
next
  case (mapped s q)
  then show ?case by (simp add: conf_of_def)
qed

text \<open>
  C13: with the default attributes the largest size class is half of \<open>item_size_max\<close>. For every
  object between the two \<open>item_size_ok\<close> says yes, but no class fits, and \<open>shmc_set_nolock\<close> has no
  defined behaviour: \<open>item_clsid\<close> reads behind the array of slabs.
\<close>

theorem default_sizes_gap:
  assumes "reach SHMC_ATTR_INITIALIZER s" and "nkey \<le> length (buf_bytes key)" and "nval \<le> length val"
    and "2 ^ 19 < sizeof_item + nkey + nval" and "sizeof_item + nkey + nval < 2 ^ 20"
  shows "item_size_ok s nkey nval \<and> item_clsid s nkey nval = None
    \<and> shmc_set_nolock s key nkey val nval flags = None"
proof -
  obtain A where A: "implements s A" using reach_implements [OF dflt_ok assms(1)] by blast
  have sz: "cf_sizes (conf_of s) = pows 7 20" "item_size_max (attrs s) = 2 ^ 20"
    using reach_sizes [OF dflt_ok assms(1) dflt_sizes] by (simp_all add: SHMC_ATTR_INITIALIZER_def)
  have small: "sizeof_item + nkey + nval < 2 ^ 64" using assms(5) by simp
  have "z < sizeof_item + nkey + nval" if z: "z \<in> set (cf_sizes (conf_of s))" for z
  proof -
    have "z \<le> 2 ^ 19" using z [unfolded sz(1)] by auto
    then show ?thesis using assms(4) by simp
  qed
  then have none: "class_for (conf_of s) (size_for nkey nval) = None"
    by (simp add: class_for_def size_for_def takeWhile_eq_all_conv [THEN iffD2])
  have ok: "size_ok (conf_of s) (size_for nkey nval)" using sz(2) assms(5) by (simp add: size_for_def)
  have "a_set (conf_of s) A (buf_key key nkey) (take nval val) flags = None"
    using none ok assms(2,3) by (simp add: a_set_def buf_key_take)
  then show ?thesis
    using set_refines [OF A assms(2,3) small, of flags] ok none
    by (simp add: refines_def item_size_ok_size_ok [OF small] item_clsid_class_for [OF small])
qed

lemma dflt_reach: "\<exists>s. reach SHMC_ATTR_INITIALIZER s"
proof -
  have "pool_need (item_size_max dflt) (pows 7 20) \<le> length (pows 7 20) * item_size_max dflt"
    by (rule pool_need_bound)
  also have "\<dots> < mem_limit dflt" by (simp add: SHMC_ATTR_INITIALIZER_def)
  finally show ?thesis
    using format_slabs_fresh [OF dflt_ok dflt_sizes, of 4096] reach.created [OF dflt_sizes(1), of 4096] by blast
qed

theorem default_sizes_gap_witness:
  "\<exists>s. reach SHMC_ATTR_INITIALIZER s
    \<and> shmc_set_nolock s (Buf 0 [1]) 1 (replicate 600000 0) 600000 0 = None"
proof -
  obtain s where s: "reach SHMC_ATTR_INITIALIZER s" using dflt_reach by blast
  have "shmc_set_nolock s (Buf 0 [1]) 1 (replicate 600000 0) 600000 0 = None"
    using default_sizes_gap [OF s, of 1 "Buf 0 [1]" 600000 "replicate 600000 0" 0] by simp
  with s show ?thesis by blast
qed

section \<open>Flags of a moved item\<close>

text \<open>
  C15: when \<open>shmc_append_nolock\<close> moves an item to another size class the item gets the flags the new
  chunk last had, not the ones the caller gave (nor the old ones): \<open>item->flags = flags\<close> writes the
  chunk that is about to be freed.
\<close>

theorem append_moves_lose_flags:
  assumes "implements s A" and "nkey \<le> length (buf_bytes key)" and "nval \<le> length val"
    and "joins (conf_of s) A (buf_key key nkey) nval"
    and "a_find (conf_of s) A (buf_key key nkey) = Some (c, e)"
    and "class_for (conf_of s) (size_for nkey (nval + length (e_val e))) = Some c'" and "c' \<noteq> c"
    and "size_ok (conf_of s) (size_for nkey (nval + length (e_val e)))"
    and "a_take (conf_of s) c' A = Some (stale, B)"
  shows "\<exists>s'. shmc_append_nolock s key nkey val nval flags = Some (SHMC_OK, s')
    \<and> shmc_lookup s' (buf_key key nkey) = Some (e_val e @ take nval val, stale)"
proof -
  define k v where "k = buf_key key nkey" and "v = e_val e @ take nval val"
  have kl: "length k = nkey" using assms(2) by (simp add: k_def buf_key_take)
  have vl: "length v = nval + length (e_val e)" using assms(3) by (simp add: v_def)
  note wf = implements_wf [OF assms(1)]
  define A' where "A' = a_release (a_push (a_remove B c k) c' \<lparr>e_key = k, e_val = v, e_flags = stale\<rparr>) c flags"
  have "a_append (conf_of s) A k (take nval val) flags = Some (SHMC_OK, A')"
    using assms(5-9) assms(3)
    by (simp add: a_append_def a_grow_def Let_def k_def [symmetric] v_def kl A'_def min_absorb2 add.commute)
  then obtain s' where s': "shmc_append_nolock s key nkey val nval flags = Some (SHMC_OK, s')"
      "implements s' A'" "conf_of s' = conf_of s"
    using append_refines [OF assms(1-4), of flags] by (auto simp: k_def)
  have "\<lparr>e_key = k, e_val = v, e_flags = stale\<rparr> \<in> set (a_lru A' c')"
    by (simp add: A'_def a_release_def a_push_def)
  then have "dict (conf_of s') A' k = Some (v, stale)"
    unfolding dict_iff [OF implements_wf [OF s'(2)]] by fastforce
  then show ?thesis using s'(1) by (simp add: lookup_dict [OF s'(2)] k_def v_def)
qed

theorem append_moves_lose_flags_witness:
  "\<exists>s'. shmc_append_nolock (tiny_with [7]) (Buf 0 [1, 2]) 2 (replicate 9 8) 9 6 = Some (SHMC_OK, s')
    \<and> shmc_lookup s' [1, 2] = Some (7 # replicate 9 8, 0)"
proof -
  let ?A = "tst [tiny_entry [7] 5] [] [0] [0]"
  have "a_take tiny_conf (Suc 0) ?A = Some (0, tst [tiny_entry [7] 5] [] [0] [])" by (simp add: a_take_def)
  from append_moves_lose_flags [OF tiny_with_ok(1) _ _ _ _ _ _ _ this [folded tiny_with_ok(2) [of "[7]", simplified]],
      of 2 "Buf 0 [1, 2]" 9 "replicate 9 8" 0 "tiny_entry [7] 5" 6]
  show ?thesis by (simp add: tiny_with_ok(2) joins_def tiny_eval)
qed

section \<open>A counter evicted by its own replacement\<close>

text \<open>
  C14: an increment of an entry that is not in counter form allocates the new item before it removes
  the old one. If the class is full and the entry is its least recently used, the allocation evicts
  the entry itself: the call reports success and the new number, and the key is gone.
\<close>

theorem counter_lost:
  assumes "implements s A" and "nkey \<le> length (buf_bytes key)"
    and "sizeof_item + nkey + UINT64_SIZE < 2 ^ 64"
    and "a_find (conf_of s) A (buf_key key nkey) = Some (c, e)" and "length (e_val e) \<noteq> UINT64_SIZE"
    and "class_for (conf_of s) (size_for nkey UINT64_SIZE) = Some c"
    and "size_ok (conf_of s) (size_for nkey UINT64_SIZE)"
    and "evicts (conf_of s) c A" and "last (a_lru A c) = e"
  shows "\<exists>fo s'. shmc_incr_nolock s key nkey val flags = Some (SHMC_OK, Some (counter_val (e_val e) + val, fo), s')
    \<and> shmc_lookup s' (buf_key key nkey) = None"
proof -
  define k where "k = buf_key key nkey"
  have kl: "length k = nkey" using assms(2) by (simp add: k_def buf_key_take)
  note wf = implements_wf [OF assms(1)]
  have ek: "e_key e = k" using assms(4) by (simp add: a_find_iff [OF wf] k_def)
  define B where "B = set_lru A c (butlast (a_lru A c))"
  have t: "a_take (conf_of s) c A = Some (e_flags e, B)"
    using assms(8,9) by (simp add: a_take_def evicts_def B_def)
  define n where "n = counter_val (e_val e) + val"
  have "a_arith (conf_of s) A k val True flags
      = Some (SHMC_OK, Some (n, map_option (\<lambda>_. e_flags e) flags), a_release B c (e_flags e))"
    using assms(4-9) t ek by (simp add: a_arith_def Let_def k_def [symmetric] kl counter_op_def n_def)
  then obtain s' where s': "shmc_incr_nolock s key nkey val flags = Some (SHMC_OK, Some (n, map_option (\<lambda>_. e_flags e) flags), s')"
      "implements s' (a_release B c (e_flags e))" "conf_of s' = conf_of s"
    using arith_refines [OF assms(1-3), of val True flags] by (auto simp: k_def shmc_incr_nolock_def)
  have "dict (conf_of s) (a_release B c (e_flags e)) k = None"
    using take_facts(2) [OF wf t] assms(8,9) ek by (simp add: evicted_def)
  then show ?thesis using s'(1,3) by (auto simp: lookup_dict [OF s'(2)] k_def n_def)
qed

text \<open>A segment whose second class holds one entry and nothing else.\<close>

definition tiny_long :: shmc where
  "tiny_long = snd (the (shmc_set_nolock tiny_store (Buf 0 [1, 2]) 2 (replicate 30 48) 30 5))"

lemma tiny_long_ok:
  "implements tiny_long (tst [] [tiny_entry (replicate 30 48) 5] [0, 0] [])" "conf_of tiny_long = tiny_conf"
proof -
  have "a_set tiny_conf (tst [] [] [0, 0] [0]) [1, 2] (replicate 30 48) 5
      = Some (SHMC_OK, tst [] [tiny_entry (replicate 30 48) 5] [0, 0] [])"
    by (simp add: a_set_def a_del_def tiny_eval)
  then obtain s' where "shmc_set_nolock tiny_store (Buf 0 [1, 2]) 2 (replicate 30 48) 30 5 = Some (SHMC_OK, s')"
      "implements s' (tst [] [tiny_entry (replicate 30 48) 5] [0, 0] [])" "conf_of s' = tiny_conf"
    using set_refines [OF tiny_impl, of 2 "Buf 0 [1, 2]" 30 "replicate 30 48" 5] by (auto simp: tiny_eval)
  then show "implements tiny_long (tst [] [tiny_entry (replicate 30 48) 5] [0, 0] [])" "conf_of tiny_long = tiny_conf"
    by (simp_all add: tiny_long_def)
qed

theorem counter_lost_witness:
  "\<exists>n fo s'. shmc_incr_nolock tiny_long (Buf 0 [1, 2]) 2 7 None = Some (SHMC_OK, Some (n, fo), s')
    \<and> shmc_lookup s' [1, 2] = None"
  using counter_lost [OF tiny_long_ok(1), of 2 "Buf 0 [1, 2]" "Suc 0" "tiny_entry (replicate 30 48) 5" 7 None]
  by (auto simp: tiny_long_ok(2) tiny_eval UINT64_SIZE_def)

section \<open>Values lost by a failed store\<close>

text \<open>
  \<open>shmc_set_nolock\<close> deletes the old entry before it looks for memory: when it reports
  \<open>SHMC_NOMEMORY\<close> the key is gone, and when \<open>shmc_replace_nolock\<close> fails on a key that exists the key
  is gone as well.
\<close>

theorem failed_store_loses_value:
  assumes "implements s A" and "nkey \<le> length (buf_bytes key)" and "nval \<le> length val"
    and "sizeof_item + nkey + nval < 2 ^ 64"
  shows "(shmc_set_nolock s key nkey val nval flags = Some (SHMC_NOMEMORY, s')
      \<longrightarrow> shmc_lookup s' = (shmc_lookup s)(buf_key key nkey := None))
    \<and> (shmc_replace_nolock s key nkey val nval flags = Some (rc, s'') \<and> rc \<notin> {SHMC_OK, SHMC_NOTFOUND}
      \<longrightarrow> shmc_lookup s'' = (shmc_lookup s)(buf_key key nkey := None))"
proof -
  define k v where "k = buf_key key nkey" and "v = take nval val"
  note wf = implements_wf [OF assms(1)]
  have "shmc_lookup s' = (shmc_lookup s)(k := None)"
    if r: "shmc_set_nolock s key nkey val nval flags = Some (SHMC_NOMEMORY, s')"
  proof -
    obtain A' where A': "a_set (conf_of s) A k v flags = Some (SHMC_NOMEMORY, A')" "implements s' A'" "conf_of s' = conf_of s"
      using set_refines [OF assms, of flags] unfolding r k_def v_def by (elim refines_SomeE)
    show ?thesis using set_facts [OF wf A'(1)] by (simp add: lookup_dict [OF assms(1)] lookup_dict [OF A'(2)] A'(3))
  qed
  moreover have "shmc_lookup s'' = (shmc_lookup s)(k := None)"
    if r: "shmc_replace_nolock s key nkey val nval flags = Some (rc, s'')" and rc: "rc \<notin> {SHMC_OK, SHMC_NOTFOUND}"
  proof -
    obtain A' where A': "a_replace (conf_of s) A k v flags = Some (rc, A')" "implements s'' A'" "conf_of s'' = conf_of s"
      using replace_refines [OF assms, of flags] unfolding r k_def v_def by (elim refines_SomeE)
    then obtain c e where ce: "a_find (conf_of s) A k = Some (c, e)"
        and set: "a_set (conf_of s) (a_drop A c e) k v flags = Some (rc, A')"
      using rc by (auto simp: a_replace_def split: option.splits Option.bind_splits if_splits)
    note D = drop_facts [OF wf ce]
    show ?thesis
      using set_facts [OF D(1) set] rc D(2)
      by (auto simp: lookup_dict [OF assms(1)] lookup_dict [OF A'(2)] A'(3))
  qed
  ultimately show ?thesis by (simp add: k_def)
qed

text \<open>The small segment again, without eviction, and with its second class used up.\<close>

definition strict :: attr where "strict = tiny\<lparr>evict_to_free := False\<rparr>"

abbreviation strict_conf :: conf where "strict_conf \<equiv> conf_for 4096 strict [72, 144]"

lemma strict_ok: "\<exists>s. implements s (tst [] [] [0, 0] [0]) \<and> conf_of s = strict_conf"
proof -
  have ok: "attr_ok strict" using tiny_attr_ok by (simp add: attr_ok_def factor_ok_def strict_def)
  have same: "item_size_max strict = item_size_max tiny" "item_size_factor strict = item_size_factor tiny"
    "item_size_min strict = item_size_min tiny" by (simp_all add: strict_def)
  have n: "count_of_slabs strict = Some 2" using tiny_sizes(1) count_of_slabs_cong [OF same] by simp
  have zs: "size_seq (item_size_factor strict) 2 (sizeof_item + item_size_min strict) = Some [72, 144]"
    using tiny_sizes(2) unfolding same by (simp add: tiny_def)
  have need: "pool_need (item_size_max strict) [72, 144] < mem_limit strict"
    by (simp add: pool_need_def strict_def tiny_def)
  from format_slabs_fresh [OF ok n zs need, of 4096] show ?thesis
    by (auto simp: tiny_fresh [symmetric] same(1)) (auto simp: tiny_def)
qed

lemma strict_simps:
  "class_for strict_conf t = (if t \<le> 72 then Some 0 else if t \<le> 144 then Some (Suc 0) else None)"
  "item_size_max (cf_attr strict_conf) = 200" "\<not> evict_to_free (cf_attr strict_conf)"
  "\<not> can_cut strict_conf 0 (tst l0 l1 f0 f1)" "\<not> can_cut strict_conf (Suc 0) (tst l0 l1 f0 f1)"
  "a_find strict_conf (tst l0 l1 f0 f1) k = find (\<lambda>(c, e). e_key e = k) (map (Pair 0) l0 @ map (Pair (Suc 0)) l1)"
  by (simp_all add: class_for_def conf_for_def strict_def tiny_def can_cut_def tst_def a_find_def)

lemmas strict_eval = strict_simps size_for_def evicts_def a_take_def without_def a_push_def a_remove_def
  a_release_def a_drop_def a_touch_def Let_def buf_key_def

theorem failed_store_loses_value_witness:
  "\<exists>s s'. shmc_lookup s [1, 2] = Some ([7], 5)
    \<and> shmc_set_nolock s (Buf 0 [1, 2]) 2 (replicate 30 48) 30 6 = Some (SHMC_NOMEMORY, s')
    \<and> shmc_lookup s' [1, 2] = None"
proof -
  let ?l = "\<lparr>e_key = [3], e_val = replicate 30 49, e_flags = 1\<rparr>"
  obtain s0 where s0: "implements s0 (tst [] [] [0, 0] [0])" "conf_of s0 = strict_conf" using strict_ok by blast
  have "a_set strict_conf (tst [] [] [0, 0] [0]) [3] (replicate 30 49) 1 = Some (SHMC_OK, tst [] [?l] [0, 0] [])"
    by (simp add: a_set_def a_del_def strict_eval)
  then obtain s1 where s1: "implements s1 (tst [] [?l] [0, 0] [])" "conf_of s1 = strict_conf"
    using set_refines [OF s0(1), of 1 "Buf 0 [3]" 30 "replicate 30 49" 1] by (auto simp: s0(2) buf_key_def)
  have "a_set strict_conf (tst [] [?l] [0, 0] []) [1, 2] [7] 5 = Some (SHMC_OK, tst [tiny_entry [7] 5] [?l] [0] [])"
    by (simp add: a_set_def a_del_def strict_eval)
  then obtain s2 where s2: "implements s2 (tst [tiny_entry [7] 5] [?l] [0] [])" "conf_of s2 = strict_conf"
    using set_refines [OF s1(1), of 2 "Buf 0 [1, 2]" 1 "[7]" 5] by (auto simp: s1(2) buf_key_def)
  have "\<exists>B. a_set strict_conf (tst [tiny_entry [7] 5] [?l] [0] []) [1, 2] (replicate 30 48) 6 = Some (SHMC_NOMEMORY, B)"
    by (simp add: a_set_def a_del_def strict_eval)
  then obtain s' where s': "shmc_set_nolock s2 (Buf 0 [1, 2]) 2 (replicate 30 48) 30 6 = Some (SHMC_NOMEMORY, s')"
    using set_refines [OF s2(1), of 2 "Buf 0 [1, 2]" 30 "replicate 30 48" 6] by (auto simp: s2(2) buf_key_def)
  have "shmc_lookup s2 [1, 2] = Some ([7], 5)"
    by (simp add: lookup_dict [OF s2(1)] s2(2) dict_def strict_simps)
  moreover have "shmc_lookup s' [1, 2] = None"
    using failed_store_loses_value [OF s2(1), of 2 "Buf 0 [1, 2]" 30 "replicate 30 48" 6 s'] s'
    by (simp add: buf_key_def)
  ultimately show ?thesis using s' by blast
qed

end
