(* ===== verification/Dump_Properties.thy ===== *)
theory Dump_Properties
  imports Limits Dump_Load
begin

text \<open>
  What dumping and loading preserve: the properties of \<open>shmc_dump_nolock\<close> and \<open>shmc_load_nolock\<close>,
  and the places where a dump does not survive its own reader.
\<close>

section \<open>Loading records into a dictionary\<close>

lemma set_victim_strict: "\<not> evict_to_free (cf_attr cf) \<Longrightarrow> set_victim cf A k v = None"
  by (simp add: set_victim_def evicted_def evicts_def split: option.split)

lemma a_load_dict:
  assumes "implements s A" and "\<not> evict_to_free (attrs s)"
    and "\<And>k v. (k, v) \<in> set rs \<Longrightarrow> length k < 2 ^ 31 \<and> length v < 2 ^ 31"
    and "a_load (conf_of s) A rs = Some (SHMC_OK, A')"
  shows "dict (conf_of s) A' = (\<lambda>k. case map_of (rev rs) k of Some v \<Rightarrow> Some (v, 0) | None \<Rightarrow> dict (conf_of s) A k)"
  using assms
proof (induction rs arbitrary: s A)
  case Nil
  then show ?case by simp
next
  case (Cons r rs)
  obtain k v where r: "r = (k, v)" by (cases r)
  have len: "length k < 2 ^ 31" "length v < 2 ^ 31" using Cons.prems(3) [of k v] r by auto
  have rest: "\<And>k v. (k, v) \<in> set rs \<Longrightarrow> length k < 2 ^ 31 \<and> length v < 2 ^ 31"
    using Cons.prems(3) by (meson list.set_intros(2))
  have ref: "refines (shmc_set_nolock s (Buf 0 k) (length k) v (length v) 0) (conf_of s) (a_set (conf_of s) A k v 0)"
    using set_refines [OF Cons.prems(1), of "length k" "Buf 0 k" "length v" v 0] len by (simp add: buf_key_def)
  obtain B where B: "a_set (conf_of s) A k v 0 = Some (SHMC_OK, B)" "a_load (conf_of s) B rs = Some (SHMC_OK, A')"
    using Cons.prems(4) r by (auto split: Option.bind_splits if_splits)
  obtain s1 where s1: "implements s1 B" "conf_of s1 = conf_of s" using ref B(1) by auto
  have e: "\<not> evict_to_free (attrs s1)"
    using Cons.prems(2) arg_cong [OF s1(2), of "\<lambda>cf. evict_to_free (cf_attr cf)"] by simp
  have "dict (conf_of s) B = (dict (conf_of s) A)(k \<mapsto> (v, 0))"
    using set_facts [OF implements_wf [OF Cons.prems(1)] B(1)] Cons.prems(2) by (simp add: set_victim_strict)
  moreover have "dict (conf_of s) A' = (\<lambda>k. case map_of (rev rs) k of Some v \<Rightarrow> Some (v, 0) | None \<Rightarrow> dict (conf_of s) B k)"
    using Cons.IH [OF s1(1) e rest] B(2) unfolding s1(2) by simp
  ultimately show ?case by (auto simp: r fun_eq_iff map_add_def split: option.split)
qed

lemma map_of_dumped: "map_of (dumped cf A) k = map_option fst (dict cf A k)"
proof -
  have "map_of (concat (map (\<lambda>c. map (\<lambda>e. (e_key e, e_val e)) (f c)) cs)) k
      = map_option (\<lambda>(c, e). e_val e) (find (\<lambda>(c, e). e_key e = k) (concat (map (\<lambda>c. map (Pair c) (f c)) cs)))"
    for f and cs :: "nat list"
  proof (induction cs)
    case (Cons c cs)
    have "map_of (map (\<lambda>e. (e_key e, e_val e)) es @ xs) k = map_option (\<lambda>(c, e). e_val e)
        (find (\<lambda>(c, e). e_key e = k) (map (Pair c) es @ ys))"
      if "map_of xs k = map_option (\<lambda>(c, e). e_val e) (find (\<lambda>(c, e). e_key e = k) ys)" for es xs ys
      using that by (induction es) (auto simp: map_add_def)
    from this [OF Cons.IH] show ?case by simp
  qed simp
  then show ?thesis
    by (simp add: dumped_def dict_def a_find_def option.map_comp comp_def case_prod_unfold)
qed

lemma dumped_distinct: "a_wf cf A \<Longrightarrow> distinct (map fst (dumped cf A))"
proof -
  assume wf: "a_wf cf A"
  have m: "map fst (dumped cf A) = concat (map (\<lambda>c. map e_key (a_lru A c)) [0..<length (cf_sizes cf)])"
    by (simp add: dumped_def map_concat comp_def)
  have "distinct (concat (map (\<lambda>c. map e_key (a_lru A c)) cs))" if "distinct cs" for cs
    using that
  proof (induction cs)
    case (Cons c cs)
    then show ?case using a_wfD(1) [OF wf, of c] a_wfD(2) [OF wf, of c] by fastforce
  qed simp
  then show ?thesis unfolding m by simp
qed

lemma map_of_rev_same: "distinct (map fst xs) \<Longrightarrow> map_of (rev xs) = map_of xs"
proof (rule ext)
  fix k assume d: "distinct (map fst xs)"
  then have "map_of (rev xs) k = Some v \<longleftrightarrow> map_of xs k = Some v" for v
    by (simp add: rev_map [symmetric])
  then show "map_of (rev xs) k = map_of xs k" by (metis not_None_eq)
qed

lemma a_load_defined:
  "(\<And>k v. (k, v) \<in> set rs \<Longrightarrow> class_for cf (size_for (length k) (length v)) \<noteq> None) \<Longrightarrow> a_load cf A rs \<noteq> None"
proof (induction rs arbitrary: A)
  case (Cons r rs)
  obtain k v where r: "r = (k, v)" by (cases r)
  then obtain rc A' where "a_set cf A k v 0 = Some (rc, A')" using a_set_defined [of cf k v A 0] Cons.prems [of k v] by auto
  then show ?case using Cons r by simp
qed simp

section \<open>The properties\<close>

text \<open>
  \<open>shmc_load_nolock\<close> on a file of records that fits into its buffer stores the records one after
  the other with flags 0, ends with the first error of a store, and keeps the store well formed;
  whatever bytes keys and values hold, since the reader goes by the lengths.
\<close>

theorem load_implements:
  assumes "implements s A" and "length (concat (map rec_text rs)) \<le> BUFFER_SIZE"
  shows "refines (shmc_load_nolock s (Some (concat (map rec_text rs))) (Some p)) (conf_of s) (a_load (conf_of s) A rs)"
  using load_text [OF assms(1) refl, where rest = "[]"] assms(2) by simp

text \<open>
  C23: a dump is one line for every entry, class by class, in each the entries used last first: the
  lengths, then key and value up to their first zero byte.
\<close>

theorem dump_writes_lines:
  assumes "implements s A" and "slabs_count (attrs s) = length (slabs s)"
    and "\<forall>r \<in> set (dumped (conf_of s) A). moderate r"
  shows "shmc_dump_nolock s True = Some (SHMC_OK, Some (concat (map dump_line (dumped (conf_of s) A))))"
  using dump_text [OF assms(1,2)] assms(3) by simp

text \<open>
  C22: dump and load. When no key and no value of the dumped store contains a zero byte, which leaves out
  every store with a counter, when the dump is no larger than the buffer of the reader, and when the
  store it is loaded into does not evict: a load that reports success gives each key of the dumped
  store its value again, with flags 0, and leaves every other key as it was. The load returns, with
  success or the error of a store, when every record has a size class in the loading store.
\<close>

theorem dump_then_load:
  assumes "implements s A" and "slabs_count (attrs s) = length (slabs s)"
    and "\<forall>r \<in> set (dumped (conf_of s) A). printable r"
    and "shmc_dump_nolock s True = Some (SHMC_OK, Some out)" and "length out \<le> BUFFER_SIZE"
    and "implements s2 A2" and "\<not> evict_to_free (attrs s2)"
  shows "(\<forall>s3. shmc_load_nolock s2 (Some out) (Some p) = Some (SHMC_OK, s3) \<longrightarrow>
      shmc_lookup s3 = (\<lambda>k. case shmc_lookup s k of Some (v, f) \<Rightarrow> Some (v, 0) | None \<Rightarrow> shmc_lookup s2 k))
    \<and> ((\<forall>(k, v) \<in> set (dumped (conf_of s) A). item_clsid s2 (length k) (length v) \<noteq> None) \<longrightarrow>
      (\<exists>rc s3. shmc_load_nolock s2 (Some out) (Some p) = Some (rc, s3)))"
proof -
  let ?rs = "dumped (conf_of s) A"
  have l: "map dump_line ?rs = map rec_text ?rs" and m: "\<And>r. r \<in> set ?rs \<Longrightarrow> moderate r"
    using assms(3) printable_line by auto
  have out: "out = concat (map rec_text ?rs)" using dump_text [OF assms(1,2) m] assms(4) by (simp flip: l)
  have small: "\<And>k v. (k, v) \<in> set ?rs \<Longrightarrow> length k < 2 ^ 31 \<and> length v < 2 ^ 31"
    using assms(3) by (auto simp: printable_def)
  have load: "refines (shmc_load_nolock s2 (Some out) (Some p)) (conf_of s2) (a_load (conf_of s2) A2 ?rs)"
    using load_text [OF assms(6) out, where rest = "[]" and p = p] assms(5) by simp
  have same: "map_of (rev ?rs) = (\<lambda>k. map_option fst (dict (conf_of s) A k))"
    unfolding map_of_rev_same [OF dumped_distinct [OF implements_wf [OF assms(1)]]] by (rule ext, rule map_of_dumped)
  have "shmc_lookup s3 = (\<lambda>k. case shmc_lookup s k of Some (v, f) \<Rightarrow> Some (v, 0) | None \<Rightarrow> shmc_lookup s2 k)"
    if ok: "shmc_load_nolock s2 (Some out) (Some p) = Some (SHMC_OK, s3)" for s3
  proof -
    obtain A3 where A3: "a_load (conf_of s2) A2 ?rs = Some (SHMC_OK, A3)" "implements s3 A3" "conf_of s3 = conf_of s2"
      using load ok by (auto elim: refines_SomeE)
    show ?thesis
      using a_load_dict [OF assms(6,7) small A3(1)] lookup_dict [OF assms(1)] lookup_dict [OF assms(6)]
        lookup_dict [OF A3(2)] A3(3) same
      by (auto simp: fun_eq_iff split: option.split)
  qed
  moreover have "\<exists>rc s3. shmc_load_nolock s2 (Some out) (Some p) = Some (rc, s3)"
    if "\<forall>(k, v) \<in> set ?rs. item_clsid s2 (length k) (length v) \<noteq> None"
  proof -
    have "sizeof_item + length k + length v < 2 ^ 64" if "(k, v) \<in> set ?rs" for k v using small [OF that] by simp
    then have "class_for (conf_of s2) (size_for (length k) (length v)) \<noteq> None" if "(k, v) \<in> set ?rs" for k v
      using \<open>\<forall>(k, v) \<in> set ?rs. item_clsid s2 (length k) (length v) \<noteq> None\<close> item_clsid_class_for that by fastforce
    then have "a_load (conf_of s2) A2 ?rs \<noteq> None" by (rule a_load_defined)
    then show ?thesis using load by auto
  qed
  ultimately show ?thesis by blast
qed

text \<open>
  Records whose text ends exactly at the end of the buffer end the load: the code leaves
  \<open>offset\<close> at the end of the buffer, the next \<open>fread\<close> asks for no bytes, and whatever follows in the
  file is never read although the call reports success.
\<close>

theorem load_stops_at_boundary:
  assumes "implements s A" and "length (concat (map rec_text rs)) = BUFFER_SIZE"
  shows "refines (shmc_load_nolock s (Some (concat (map rec_text rs) @ rest)) (Some p)) (conf_of s) (a_load (conf_of s) A rs)"
  using load_text [OF assms(1) refl] assms(2) by blast

section \<open>Witnesses\<close>

lemma rec_text_short:
  "rec_text ([a], [b]) = [49, 32, 49, 32, a, 32, b, 10]" "rec_text ([a, c], [b]) = [50, 32, 49, 32, a, c, 32, b, 10]"
  by (simp_all add: rec_text_def dec.simps)

theorem load_implements_witness:
  "\<exists>s'. shmc_load_nolock tiny_store (Some [50, 32, 49, 32, 1, 2, 32, 0, 10]) (Some 4096) = Some (SHMC_OK, s')
    \<and> implements s' (tst [tiny_entry [0] 0] [] [0] [0])"
proof -
  have "a_load tiny_conf (tst [] [] [0, 0] [0]) [([1, 2], [0])] = Some (SHMC_OK, tst [tiny_entry [0] 0] [] [0] [0])"
    by (simp add: a_set_def a_del_def tiny_eval)
  then show ?thesis
    using load_implements [OF tiny_impl, of "[([1, 2], [0])]" 4096]
    by (auto simp: rec_text_short tiny_ok(2) BUFFER_SIZE_def)
qed

lemma tiny_with_slabs: "length v \<le> 6 \<Longrightarrow> slabs_count (attrs (tiny_with v)) = length (slabs (tiny_with v))"
  using conf_forD(3) [OF tiny_with_ok(2)] tiny_sizes(1) arg_cong [OF tiny_with_ok(2), of v "length \<circ> cf_sizes"]
  by (simp add: conf_for_def)

lemma tiny_dumped: "dumped tiny_conf (tst [tiny_entry v 5] [] [0] [0]) = [([1, 2], v)]"
  by (simp add: dumped_def conf_for_def)

text \<open>A value with a zero byte: the announced length is 3, one byte is written.\<close>

theorem dump_writes_lines_witness:
  "shmc_dump_nolock (tiny_with [7, 0, 9]) True = Some (SHMC_OK, Some [50, 32, 51, 32, 1, 2, 32, 7, 10])"
proof -
  let ?A = "tst [tiny_entry [7, 0, 9] 5] [] [0] [0]"
  note A = tiny_with_ok [of "[7, 0, 9]"]
  have "dump_line ([1, 2], [7, 0, 9]) = [50, 32, 51, 32, 1, 2, 32, 7, 10]"
    by (simp add: dump_line_def cut_def dec.simps)
  then show ?thesis
    using dump_writes_lines [of "tiny_with [7, 0, 9]" ?A] A tiny_with_slabs [of "[7, 0, 9]"]
    by (simp add: tiny_dumped moderate_def)
qed

text \<open>\<open>shmc_load_nolock\<close> refuses that dump.\<close>

lemma dump_loses_zero_bytes:
  "\<exists>out. shmc_dump_nolock (tiny_with [7, 0, 9]) True = Some (SHMC_OK, Some out)
    \<and> shmc_load_nolock s (Some out) (Some p) = Some (SHMC_ESIZE, s)"
proof -
  let ?A = "tst [tiny_entry [7, 0, 9] 5] [] [0] [0]"
  note A = tiny_with_ok [of "[7, 0, 9]"]
  have l: "dump_line ([1, 2], [7, 0, 9]) = [50, 32, 51, 32, 1, 2, 32, 7, 10]"
    by (simp add: dump_line_def cut_def dec.simps)
  have "next_record [50, 32, 51, 32, 1, 2, 32, 7, 10] 0 = Some None"
    by (simp add: next_record_def memchr_def atoi_def signed_digits_def is_space_def Let_def)
  then have "shmc_load_nolock s (Some [50, 32, 51, 32, 1, 2, 32, 7, 10]) (Some p) = Some (SHMC_ESIZE, s)"
    by (simp add: shmc_load_nolock_def load_loop.simps load_records.simps BUFFER_SIZE_def)
  then show ?thesis
    using dump_text [OF A(1) tiny_with_slabs [of "[7, 0, 9]"]] A(2) l by (simp add: tiny_dumped moderate_def)
qed

theorem dump_then_load_witness:
  "\<exists>out s2 s3. shmc_dump_nolock (tiny_with [7]) True = Some (SHMC_OK, Some out)
    \<and> shmc_load_nolock s2 (Some out) (Some 4096) = Some (SHMC_OK, s3)
    \<and> shmc_lookup s2 [1, 2] = None \<and> shmc_lookup s3 [1, 2] = Some ([7], 0)"
proof -
  let ?A = "tst [tiny_entry [7] 5] [] [0] [0]"
  note A = tiny_with_ok [of "[7]"]
  note rs = tiny_dumped [of "[7]"] and n = tiny_with_slabs [of "[7]", simplified]
  have pr: "\<forall>r \<in> set (dumped (conf_of (tiny_with [7])) ?A). printable r"
    using A(2) by (simp add: rs printable_def)
  have out: "shmc_dump_nolock (tiny_with [7]) True = Some (SHMC_OK, Some [50, 32, 49, 32, 1, 2, 32, 7, 10])"
    using dump_text [OF A(1) n] pr A(2) printable_line [of "([1, 2], [7])"] by (simp add: rs rec_text_short)
  obtain s2 where s2: "implements s2 (tst [] [] [0, 0] [0])" "conf_of s2 = strict_conf" using strict_ok by blast
  have "a_load strict_conf (tst [] [] [0, 0] [0]) [([1, 2], [7])] = Some (SHMC_OK, tst [tiny_entry [7] 0] [] [0] [0])"
    by (simp add: a_set_def a_del_def strict_eval)
  then obtain s3 where s3: "shmc_load_nolock s2 (Some [50, 32, 49, 32, 1, 2, 32, 7, 10]) (Some 4096) = Some (SHMC_OK, s3)"
    using load_text [OF s2(1) refl, where rs = "[([1, 2], [7])]" and rest = "[]" and p = 4096]
    by (auto simp: rec_text_short s2(2) BUFFER_SIZE_def)
  have e: "\<not> evict_to_free (attrs s2)"
    using arg_cong [OF s2(2), of "\<lambda>cf. evict_to_free (cf_attr cf)"] by (simp add: strict_simps)
  have l: "shmc_lookup (tiny_with [7]) [1, 2] = Some ([7], 5)" "shmc_lookup s2 [1, 2] = None"
    by (simp_all add: lookup_dict [OF A(1)] A(2) lookup_dict [OF s2(1)] s2(2) dict_def tiny_find strict_simps)
  then have "shmc_lookup s3 [1, 2] = Some ([7], 0)"
    using dump_then_load [OF A(1) n pr out _ s2(1) e, of 4096] s3 by (simp add: BUFFER_SIZE_def)
  with out s3 l(2) show ?thesis by blast
qed

theorem load_stops_at_boundary_witness:
  "refines (shmc_load_nolock tiny_store
      (Some (concat (map rec_text (replicate 131200 ([1], [2]))) @ rec_text ([3], [4]))) (Some 4096)) tiny_conf
    (a_load tiny_conf (tst [] [] [0, 0] [0]) (replicate 131200 ([1], [2])))"
proof -
  have "length (concat (map rec_text (replicate n ([1], [2])))) = n * 8" for n
    by (induction n) (simp_all add: rec_text_short)
  then have "length (concat (map rec_text (replicate 131200 ([1], [2])))) = BUFFER_SIZE"
    by (simp only: BUFFER_SIZE_def)
  then show ?thesis by (rule load_stops_at_boundary [OF tiny_impl, unfolded tiny_ok(2)])
qed

end
