(* ===== verification/Wrappers.thy ===== *)
theory Wrappers
  imports Locks Dump_Properties
begin

text \<open>
  The inline functions of \<open>shmc.h\<close>: each takes a lock, runs the \<open>_nolock\<close> function and gives the lock
  back. Agents call them concurrently on one segment. A call under the write lock runs in one
  step, which mutual exclusion justifies. A lookup runs under the read lock, so it is split where
  other readers can come between: at every item of the chain \<open>assoc_find\<close> walks, between comparing
  with \<open>max_depth\<close> and raising it, around the mutex, and between \<open>item_unlink\<close> and \<open>item_link\<close>, which
  run while the agent has the mutex.
\<close>

section \<open>Calls\<close>

datatype call = Op request | DumpTo string bool | LoadFrom string "nat option"

text \<open>The wrappers that call \<open>shmc_rdlock\<close>; the others call \<open>shmc_wrlock\<close>.\<close>

fun reading :: "call \<Rightarrow> bool" where
  "reading (Op (Get key nkey ok)) = True"
| "reading (Op (Getf key nkey room)) = True"
| "reading (Op r) = False"
| "reading (DumpTo name opens) = False"
| "reading (LoadFrom name p) = False"

definition enter :: "bool \<Rightarrow> call \<Rightarrow> locks \<Rightarrow> agent \<Rightarrow> locks option" where
  "enter flock c l x = (if reading c then shmc_rdlock flock l x else shmc_wrlock flock l x)"

type_synonym dumps = "string \<Rightarrow> byte list option"

text \<open>The \<open>_nolock\<close> function of a wrapper, on the segment and the files of dumps.\<close>

fun perform :: "call \<Rightarrow> shmc \<Rightarrow> dumps \<Rightarrow> (shmc_rc \<times> shmc \<times> dumps) option" where
  "perform (Op r) s fs = map_option (\<lambda>(rc, s). (rc, s, fs)) (serve r s)"
| "perform (DumpTo name opens) s fs =
     map_option (\<lambda>(rc, out). (rc, s, if out = None then fs else fs(name := out))) (shmc_dump_nolock s opens)"
| "perform (LoadFrom name p) s fs = map_option (\<lambda>(rc, s). (rc, s, fs)) (shmc_load_nolock s (fs name) p)"

text \<open>
  The key of a lookup, and what is left of it once the item has been relinked: the return code, with the
  value and flags stored through the caller's pointers.
\<close>

fun lookup_key :: "request \<Rightarrow> (buf \<times> nat) option" where
  "lookup_key (Get key nkey ok) = Some (key, nkey)"
| "lookup_key (Getf key nkey room) = Some (key, nkey)"
| "lookup_key r = None"

fun finish_lookup :: "request \<Rightarrow> shmc \<Rightarrow> addr \<Rightarrow> (shmc_rc \<times> (byte list \<times> u32) option) option" where
  "finish_lookup (Get key nkey ok) s a = do {
     it \<leftarrow> get_item s a;
     if ok then do { v \<leftarrow> load_val s a; Some (SHMC_OK, Some (v, it_flags it)) } else Some (SHMC_SYSTEM, None)
   }"
| "finish_lookup (Getf key nkey room) s a = do {
     it \<leftarrow> get_item s a;
     if room \<ge> it_nval it then do { v \<leftarrow> load_val s a; Some (SHMC_OK, Some (v, it_flags it)) } else Some (SHMC_ESPACE, None)
   }"
| "finish_lookup r s a = None"

text \<open>
  Calls the code gives a meaning to: legal requests, dumps of stores whose items are shorter than
  \<open>2 ^ 31\<close> bytes, and loads of files of storable records that fit into the buffer.
\<close>

fun legal_call :: "shmc \<Rightarrow> dumps \<Rightarrow> call \<Rightarrow> bool" where
  "legal_call s fs (Op r) = legal s r"
| "legal_call s fs (DumpTo name opens) = (\<forall>c < length (slabs s). slab_size (slabs s ! c) < 2 ^ 31)"
| "legal_call s fs (LoadFrom name p) =
     (fs name = None \<or> p = None \<or> (\<exists>rs. fs name = Some (concat (map rec_text rs))
       \<and> length (concat (map rec_text rs)) \<le> BUFFER_SIZE
       \<and> (\<forall>(k, v) \<in> set rs. storable s (length k) (length v))))"

section \<open>Agents\<close>

text \<open>
  Where an agent is in a call: waiting for the lock (\<open>Calling\<close>) or holding it. In a lookup: at the head of
  the loop of \<open>assoc_find\<close> with the next item and the depth (\<open>Walking\<close>), about to raise \<open>max_depth\<close>
  (\<open>Deeper\<close>), about to compare the keys (\<open>Matching\<close>), waiting for the mutex with the item found (\<open>Found\<close>),
  having the mutex before, between and after the two halves of \<open>item_relink\<close> (\<open>Relinking\<close>, \<open>Unlinked\<close>,
  \<open>Linked\<close>), and having given it back (\<open>Relinked\<close>). \<open>Served\<close>: done and about to unlock.
\<close>

datatype phase = Idle | Calling call | Holding call
  | Walking request addr nat | Deeper request addr nat | Matching request addr nat
  | Found request addr | Relinking request addr | Unlinked request addr | Linked request addr
  | Relinked request addr | Served call shmc_rc

record world =
  w_store :: shmc
  w_dumps :: dumps
  w_locks :: locks
  w_phase :: "agent \<Rightarrow> phase"

definition go :: "world \<Rightarrow> agent \<Rightarrow> phase \<Rightarrow> world" where
  "go w x p = w\<lparr>w_phase := (w_phase w)(x := p)\<rparr>"

definition set_depth :: "shmc \<Rightarrow> nat \<Rightarrow> shmc" where
  "set_depth s d = upd_attr s (max_depth_update (\<lambda>_. d))"

text \<open>
  \<open>begin_call\<close>, \<open>lock\<close>, \<open>run\<close> and \<open>unlock\<close> are the wrapper; \<open>hash\<close> to \<open>mismatch\<close> are \<open>assoc_find\<close>; \<open>take_mutex\<close> to
  \<open>finish\<close> are the rest of \<open>shmc_get_nolock\<close> and \<open>shmc_getf_nolock\<close>, with \<open>item_relink\<close> between the mutex calls.
\<close>

inductive step :: "bool \<Rightarrow> agent \<Rightarrow> world \<Rightarrow> world \<Rightarrow> bool" for flock x where
  begin_call: "w_phase w x = Idle \<Longrightarrow> step flock x w (go w x (Calling c))"
| lock: "w_phase w x = Calling c \<Longrightarrow> enter flock c (w_locks w) x = Some l \<Longrightarrow>
    step flock x w (go (w\<lparr>w_locks := l\<rparr>) x (Holding c))"
| run: "w_phase w x = Holding c \<Longrightarrow> \<not> reading c \<Longrightarrow> perform c (w_store w) (w_dumps w) = Some (rc, s, fs) \<Longrightarrow>
    step flock x w (go (w\<lparr>w_store := s, w_dumps := fs\<rparr>) x (Served c rc))"
| hash: "w_phase w x = Holding (Op r) \<Longrightarrow> lookup_key r = Some (key, nkey) \<Longrightarrow>
    key_slot (w_store w) key nkey = Some slot \<Longrightarrow> read_at (buckets (w_store w)) slot = Some a \<Longrightarrow>
    step flock x w (go w x (Walking r a 0))"
| missing: "w_phase w x = Walking r 0 d \<Longrightarrow> step flock x w (go w x (Served (Op r) SHMC_NOTFOUND))"
| deeper: "w_phase w x = Walking r a d \<Longrightarrow> a \<noteq> 0 \<Longrightarrow> Suc d > max_depth (attrs (w_store w)) \<Longrightarrow>
    step flock x w (go w x (Deeper r a (Suc d)))"
| level: "w_phase w x = Walking r a d \<Longrightarrow> a \<noteq> 0 \<Longrightarrow> \<not> Suc d > max_depth (attrs (w_store w)) \<Longrightarrow>
    step flock x w (go w x (Matching r a (Suc d)))"
| raise: "w_phase w x = Deeper r a d \<Longrightarrow>
    step flock x w (go (w\<lparr>w_store := set_depth (w_store w) d\<rparr>) x (Matching r a d))"
| match: "w_phase w x = Matching r a d \<Longrightarrow> lookup_key r = Some (key, nkey) \<Longrightarrow> get_item (w_store w) a = Some it \<Longrightarrow>
    key_matches key nkey it = Some True \<Longrightarrow> step flock x w (go w x (Found r a))"
| mismatch: "w_phase w x = Matching r a d \<Longrightarrow> lookup_key r = Some (key, nkey) \<Longrightarrow> get_item (w_store w) a = Some it \<Longrightarrow>
    key_matches key nkey it = Some False \<Longrightarrow> step flock x w (go w x (Walking r (it_hnext it) d))"
| take_mutex: "w_phase w x = Found r a \<Longrightarrow> pthread_mutex_lock (w_locks w) x = Some l \<Longrightarrow>
    step flock x w (go (w\<lparr>w_locks := l\<rparr>) x (Relinking r a))"
| unlink: "w_phase w x = Relinking r a \<Longrightarrow> item_unlink (w_store w) a = Some s \<Longrightarrow>
    step flock x w (go (w\<lparr>w_store := s\<rparr>) x (Unlinked r a))"
| link: "w_phase w x = Unlinked r a \<Longrightarrow> item_link (w_store w) a = Some s \<Longrightarrow>
    step flock x w (go (w\<lparr>w_store := s\<rparr>) x (Linked r a))"
| give_mutex: "w_phase w x = Linked r a \<Longrightarrow> pthread_mutex_unlock (w_locks w) x = Some l \<Longrightarrow>
    step flock x w (go (w\<lparr>w_locks := l\<rparr>) x (Relinked r a))"
| finish: "w_phase w x = Relinked r a \<Longrightarrow> finish_lookup r (w_store w) a = Some (rc, out) \<Longrightarrow>
    step flock x w (go w x (Served (Op r) rc))"
| unlock: "w_phase w x = Served c rc \<Longrightarrow> shmc_unlock flock (w_locks w) x = Some l \<Longrightarrow>
    step flock x w (go (w\<lparr>w_locks := l\<rparr>) x Idle)"

text \<open>
  The worlds that agents \<open>S\<close> can bring about in a segment created with the attributes \<open>a\<close>, when
  agent \<open>x\<close> makes only the calls of \<open>C x\<close>, each of them legal when it runs.
\<close>

inductive concurrent :: "attr \<Rightarrow> agent set \<Rightarrow> (agent \<Rightarrow> call set) \<Rightarrow> world \<Rightarrow> bool" for a S C where
  start: "reach a s \<Longrightarrow>
    concurrent a S C \<lparr>w_store = s, w_dumps = fs, w_locks = no_locks, w_phase = (\<lambda>_. Idle)\<rparr>"
| move: "concurrent a S C w \<Longrightarrow> x \<in> S \<Longrightarrow> step (use_flock a) x w w' \<Longrightarrow>
    (\<And>c. w_phase w' x = Calling c \<Longrightarrow> c \<in> C x) \<Longrightarrow>
    (\<And>c. w_phase w x = Holding c \<Longrightarrow> legal_call (w_store w) (w_dumps w) c) \<Longrightarrow> concurrent a S C w'"

text \<open>Threads share a file lock, so with \<open>use_flock\<close> only one thread of a process may make calls.\<close>

definition one_thread :: "bool \<Rightarrow> agent set \<Rightarrow> bool" where
  "one_thread flock S \<longleftrightarrow> (flock \<longrightarrow> inj_on fst S)"

section \<open>Mutual exclusion\<close>

text \<open>The lock an agent must have, by its phase.\<close>

fun due :: "phase \<Rightarrow> l_type" where
  "due Idle = F_UNLCK"
| "due (Calling c) = F_UNLCK"
| "due (Holding c) = (if reading c then F_RDLCK else F_WRLCK)"
| "due (Served c rc) = (if reading c then F_RDLCK else F_WRLCK)"
| "due p = F_RDLCK"

text \<open>The request of an agent in the middle of a lookup.\<close>

fun looking_up :: "phase \<Rightarrow> request option" where
  "looking_up (Walking r a d) = Some r"
| "looking_up (Deeper r a d) = Some r"
| "looking_up (Matching r a d) = Some r"
| "looking_up (Found r a) = Some r"
| "looking_up (Relinking r a) = Some r"
| "looking_up (Unlinked r a) = Some r"
| "looking_up (Linked r a) = Some r"
| "looking_up (Relinked r a) = Some r"
| "looking_up p = None"

definition reading_phase :: "phase \<Rightarrow> bool" where
  "reading_phase p \<longleftrightarrow> (\<forall>r. looking_up p = Some r \<longrightarrow> reading (Op r))"

lemma reading_phase_simps [simp]:
  "looking_up p = None \<Longrightarrow> reading_phase p" "looking_up p = Some r \<Longrightarrow> reading_phase p \<longleftrightarrow> reading (Op r)"
  by (simp_all add: reading_phase_def)

definition lock_inv :: "bool \<Rightarrow> agent set \<Rightarrow> world \<Rightarrow> bool" where
  "lock_inv flock S w \<longleftrightarrow> lock_sound flock (w_locks w) \<and> lib.exclusive flock S (w_locks w)
     \<and> lib.owners flock S (w_locks w)
     \<and> (\<forall>x \<in> S. lock_holds flock (w_locks w) x = due (w_phase w x) \<and> reading_phase (w_phase w x))"

lemma go_simps [simp]:
  "w_store (go w x p) = w_store w" "w_dumps (go w x p) = w_dumps w" "w_locks (go w x p) = w_locks w"
  "w_phase (go w x p) = (w_phase w)(x := p)"
  by (simp_all add: go_def)

lemma lookup_key_reading: "lookup_key r = Some kn \<Longrightarrow> reading (Op r)"
  by (cases r) simp_all

lemma apart_agents: "one_thread flock S \<Longrightarrow> x \<in> S \<Longrightarrow> y \<in> S \<Longrightarrow> y \<noteq> x \<Longrightarrow> lock_apart flock x y"
  by (auto simp: one_thread_def lock_apart_def inj_on_def)

lemma lock_invD:
  assumes "lock_inv flock S w"
  shows "lock_sound flock (w_locks w)" "lib.exclusive flock S (w_locks w)" "lib.owners flock S (w_locks w)"
    "y \<in> S \<Longrightarrow> lock_holds flock (w_locks w) y = due (w_phase w y)" "y \<in> S \<Longrightarrow> reading_phase (w_phase w y)"
  using assms by (auto simp: lock_inv_def)

text \<open>A step that neither takes nor gives back the lock, though perhaps the mutex.\<close>

lemma lock_inv_mutex:
  assumes "lock_inv flock S w" and "w_locks w' = (w_locks w)\<lparr>mutex_holder := m\<rparr>" and "w_phase w' = (w_phase w)(x := p)"
    and "due p = due (w_phase w x)" and "reading_phase p"
  shows "lock_inv flock S w'"
proof -
  have "lib.exclusive flock S (l\<lparr>mutex_holder := m\<rparr>) = lib.exclusive flock S l"
    "lib.owners flock S (l\<lparr>mutex_holder := m\<rparr>) = lib.owners flock S l" for l
    by (simp_all add: lib.exclusive_def lib.owners_def)
  then show ?thesis using assms by (auto simp: lock_inv_def)
qed

lemma lock_inv_same:
  assumes "lock_inv flock S w" and "w_locks w' = w_locks w" and "w_phase w' = (w_phase w)(x := p)"
    and "due p = due (w_phase w x)" and "reading_phase p"
  shows "lock_inv flock S w'"
  using assms by (auto simp: lock_inv_def)

lemma step_lock_inv:
  assumes i: "lock_inv flock S w" and S: "one_thread flock S" "x \<in> S" and st: "step flock x w w'"
  shows "lock_inv flock S w'"
proof -
  note far = apart_agents [OF S]
  note I = lock_invD [OF i]
  from st show ?thesis
  proof cases
    case (lock c l)
    have free: "lock_holds flock (w_locks w) x = F_UNLCK" using I(4) [OF S(2)] lock by simp
    show ?thesis
    proof (cases "reading c")
      case True
      then have r: "shmc_rdlock flock (w_locks w) x = Some l" using lock by (simp add: enter_def)
      have g: "lock_sound flock l" "lock_holds flock l x = F_RDLCK"
        "\<And>y. lock_apart flock x y \<Longrightarrow> lock_holds flock l y = lock_holds flock (w_locks w) y"
        using lib.rd_grant [OF I(1) free r] by blast+
      show ?thesis
        using g lib.exclusive_rd [OF I(2) S(2) far I(1) free r] lib.owners_step [OF I(3) S(2) g(3)] far I(4,5) lock(1) True
        by (auto simp: lock_inv_def)
    next
      case False
      then have r: "shmc_wrlock flock (w_locks w) x = Some l" using lock by (simp add: enter_def)
      have "due (w_phase w y) = F_UNLCK \<and> lock_holds flock l y = F_UNLCK" if "y \<in> S" "y \<noteq> x" for y
        using lib.wr_grant [OF I(1) free r] far [OF that] I(4) [OF that(1)] by metis
      then show ?thesis
        using lib.wr_grant [OF I(1) free r] lib.exclusive_wr [OF I(2) S(2) far I(1) free r]
          lib.owners_wr [OF I(1) free r S(2)] I(5) lock(1) False
        by (auto simp: lock_inv_def)
    qed
  next
    case (unlock c rc l)
    have held: "lock_holds flock (w_locks w) x \<noteq> F_UNLCK" using I(4) [OF S(2)] unlock by simp
    have u: "lock_sound flock l" "lock_holds flock l x = F_UNLCK"
      "\<And>y. lock_apart flock x y \<Longrightarrow> lock_holds flock l y = lock_holds flock (w_locks w) y"
      using lib.un_done [OF I(1) held] unlock(3) by auto
    show ?thesis
      using u lib.exclusive_un [OF I(2) S(2) far I(1) held unlock(3)] lib.owners_step [OF I(3) S(2) u(3)] far I(4,5) unlock(1)
      by (auto simp: lock_inv_def)
  next
    case (begin_call c)
    then show ?thesis by (intro lock_inv_same [OF i, of _ x "Calling c"]) simp_all
  next
    case (run c rc s fs)
    then show ?thesis by (intro lock_inv_same [OF i, of _ x "Served c rc"]) simp_all
  next
    case (hash r key nkey slot ad)
    then show ?thesis using lookup_key_reading by (intro lock_inv_same [OF i, of _ x "Walking r ad 0"]) simp_all
  next
    case (take_mutex r ad l)
    then show ?thesis
      using I(5) [OF S(2)] by (intro lock_inv_mutex [OF i, of _ "Some x" x "Relinking r ad"]) (simp_all add: mutex_lock_Some)
  next
    case (give_mutex r ad l)
    then show ?thesis
      using I(5) [OF S(2)] by (intro lock_inv_mutex [OF i, of _ None x "Relinked r ad"]) (simp_all add: mutex_lock_Some)
  qed (use i I(5) [OF S(2)] in \<open>auto simp: lock_inv_def\<close>)
qed

lemma start_lock_inv: "lock_inv flock S \<lparr>w_store = s, w_dumps = fs, w_locks = no_locks, w_phase = (\<lambda>_. Idle)\<rparr>"
  by (simp add: lock_inv_def lock_sound_def lock_holds_def no_locks_def lib.exclusive_def lib.owners_def)

lemma concurrent_lock_inv:
  assumes "concurrent a S C w" and "one_thread (use_flock a) S"
  shows "lock_inv (use_flock a) S w"
  using assms(1)
proof (induction rule: concurrent.induct)
  case (start s fs)
  show ?case by (rule start_lock_inv)
next
  case (move w x w')
  then show ?case using step_lock_inv assms(2) by blast
qed

section \<open>The mutex\<close>

text \<open>Who has the mutex, by the phase; it needs no assumption on the lock.\<close>

fun has_mutex :: "phase \<Rightarrow> bool" where
  "has_mutex (Relinking r a) = True"
| "has_mutex (Unlinked r a) = True"
| "has_mutex (Linked r a) = True"
| "has_mutex p = False"

definition mutex_inv :: "agent set \<Rightarrow> world \<Rightarrow> bool" where
  "mutex_inv S w \<longleftrightarrow> (\<forall>x \<in> S. has_mutex (w_phase w x) \<longleftrightarrow> mutex_holder (w_locks w) = Some x)
     \<and> (\<forall>x. mutex_holder (w_locks w) = Some x \<longrightarrow> x \<in> S)"

lemma mutex_inv_same:
  assumes "mutex_inv S w" and "mutex_holder (w_locks w') = mutex_holder (w_locks w)"
    and "w_phase w' = (w_phase w)(x := p)" and "has_mutex p = has_mutex (w_phase w x)"
  shows "mutex_inv S w'"
  using assms by (simp add: mutex_inv_def)

lemma mutex_inv_one: "mutex_inv S w \<Longrightarrow> x \<in> S \<Longrightarrow> y \<in> S \<Longrightarrow> has_mutex (w_phase w x) \<Longrightarrow> has_mutex (w_phase w y) \<Longrightarrow> x = y"
  by (simp add: mutex_inv_def)

lemma step_mutex_inv:
  assumes i: "mutex_inv S w" and x: "x \<in> S" and st: "step flock x w w'"
  shows "mutex_inv S w'"
  using st
proof cases
  case (lock c l)
  then have "mutex_holder l = mutex_holder (w_locks w)"
    using mutex_lock_apart by (auto simp: enter_def split: if_splits)
  then show ?thesis using lock by (intro mutex_inv_same [OF i, of _ x "Holding c"]) simp_all
next
  case (unlock c rc l)
  then show ?thesis using mutex_lock_apart(3) by (intro mutex_inv_same [OF i, of _ x Idle]) simp_all
next
  case (take_mutex r ad l)
  then show ?thesis using i x by (auto simp: mutex_inv_def mutex_lock_Some)
next
  case (give_mutex r ad l)
  then show ?thesis using i x by (auto simp: mutex_inv_def mutex_lock_Some)
qed (use i x in \<open>auto simp: mutex_inv_def\<close>)

lemma concurrent_mutex_inv: "concurrent a S C w \<Longrightarrow> mutex_inv S w"
proof (induction rule: concurrent.induct)
  case (start s fs)
  show ?case by (simp add: mutex_inv_def no_locks_def)
next
  case (move w x w')
  then show ?case using step_mutex_inv by blast
qed

end
