(* ===== verification/Concurrency.thy ===== *)
theory Concurrency
  imports Wrappers
begin

text \<open>
  What the wrappers guarantee: mutual exclusion, relinking by one agent at a time, a store that stays
  one sequential requests can bring about, and freedom from deadlock. Lookups may overlap; the
  mutex serialises what they do to the LRU lists. Only \<open>max_depth\<close>, which they raise without it, can
  have another value than after any sequence of calls.
\<close>

section \<open>The statistic \<open>max_depth\<close>\<close>

lemma set_depth_fields [simp]:
  "base (set_depth s d) = base s" "heads (set_depth s d) = heads s" "tails (set_depth s d) = tails s"
  "buckets (set_depth s d) = buckets s" "slabs (set_depth s d) = slabs s" "raw (set_depth s d) = raw s"
  "heap (set_depth s d) = heap s" "attrs (set_depth s d) = (attrs s)\<lparr>max_depth := d\<rparr>"
  "set_depth (set_depth s d) e = set_depth s e"
  by (simp_all add: set_depth_def)

lemma set_depth_same: "set_depth s (max_depth (attrs s)) = s"
  by (simp add: set_depth_def)

lemma set_depth_links [simp]:
  "nxt (set_depth s d) = nxt s" "prv (set_depth s d) = prv s" "hnx (set_depth s d) = hnx s"
  "dat (set_depth s d) = dat s" "csize (set_depth s d) = csize s" "clsid_at (set_depth s d) = clsid_at s"
  "key_at (set_depth s d) = key_at s" "conf_of (set_depth s d) = conf_of s"
  by (simp_all add: fun_eq_iff nxt_def prv_def hnx_def dat_def csize_def clsid_at_def key_at_def conf_of_def)

lemma set_depth_preds:
  "layout (set_depth s d) g D = layout s g D" "absg (set_depth s d) g = absg s g"
  "pooled (set_depth s d) = pooled s" "good_conf (set_depth s d) = good_conf s"
  "payload (set_depth s d) g = payload s g" "tabled (set_depth s d) g = tabled s g"
proof -
  show "layout (set_depth s d) g D = layout s g D"
    by (simp add: layout_def lru_list_def free_list_def bucket_list_def)
  show "absg (set_depth s d) g = absg s g"
    by (simp add: absg_def entry_at_def flags_at_def fun_eq_iff)
  show "pooled (set_depth s d) = pooled s" by (simp add: pooled_def)
  show "good_conf (set_depth s d) = good_conf s" by (simp add: good_conf_def)
  show "payload (set_depth s d) g = payload s g" by (simp add: payload_def)
  show "tabled (set_depth s d) g = tabled s g" by (simp add: tabled_def)
qed

lemma implements_depth: "implements (set_depth s d) A = implements s A"
  unfolding implements_def store_inv_def inv_held_def set_depth_preds ..

text \<open>The pointer operations of \<open>item_relink\<close> neither read nor write it.\<close>

lemma put_depth:
  "get_item (set_depth s d) a = get_item s a"
  "put_item (set_depth s d) a f = map_option (\<lambda>t. set_depth t d) (put_item s a f)"
  "put_head (set_depth s d) c a = map_option (\<lambda>t. set_depth t d) (put_head s c a)"
  "put_tail (set_depth s d) c a = map_option (\<lambda>t. set_depth t d) (put_tail s c a)"
  by (auto simp: get_item_def put_item_def upd_item_def put_head_def put_tail_def set_depth_def option.map_comp comp_def
      intro!: option.map_cong)

lemma map_through:
  "map_option f m \<bind> g = m \<bind> (\<lambda>t. g (f t))"
  "map_option f' (n \<bind> h) = n \<bind> (\<lambda>t. map_option f' (h t))"
  "(if b then map_option (\<lambda>t. set_depth t d) m' else Some (set_depth s d)) = map_option (\<lambda>t. set_depth t d) (if b then m' else Some s)"
  by (cases m; simp) (cases n; simp)+

lemma relink_depth:
  "item_unlink (set_depth s d) a = map_option (\<lambda>t. set_depth t d) (item_unlink s a)"
  "item_link (set_depth s d) a = map_option (\<lambda>t. set_depth t d) (item_link s a)"
  unfolding item_unlink_def item_link_def Let_def by (simp_all add: put_depth map_through cong: if_cong)

section \<open>The stores that requests bring about\<close>

text \<open>
  What sequential requests make of a reachable store, when \<open>max_depth\<close> may be set to anything between
  them.
\<close>

inductive sequential :: "attr \<Rightarrow> shmc \<Rightarrow> bool" for a where
  reached: "reach a s \<Longrightarrow> sequential a s"
| called: "sequential a s \<Longrightarrow> legal s r \<Longrightarrow> serve r s = Some (rc, s') \<Longrightarrow> sequential a s'"
| counted: "sequential a s \<Longrightarrow> sequential a (set_depth s d)"

lemma sequential_implements:
  assumes "attr_ok a" and "sequential a s"
  shows "\<exists>A q zs. implements s A \<and> conf_of s = conf_for q a zs \<and> count_of_slabs a = Some (length zs)"
  using assms(2)
proof (induction rule: sequential.induct)
  case (reached s)
  then show ?case using reach_implements [OF assms(1)] by blast
next
  case (called s r rc s')
  then obtain A q zs where A: "implements s A" "conf_of s = conf_for q a zs" "count_of_slabs a = Some (length zs)" by blast
  obtain A' where "implements s' A'" "conf_of s' = conf_of s"
    using serve_legal [OF A(1) called.hyps(2)] called.hyps(3) by (auto simp: serves_def)
  then show ?case using A(2,3) by auto
next
  case (counted s d)
  then show ?case by (simp add: implements_depth)
qed

lemma sequential_returns:
  assumes "attr_ok a" and "sequential a s" and "legal s r"
  shows "\<exists>rc s'. serve r s = Some (rc, s') \<and> sequential a s'"
proof -
  obtain A where "implements s A" using sequential_implements [OF assms(1,2)] by blast
  from serve_legal [OF this assms(3)] obtain rc s' where "serve r s = Some (rc, s')" by (auto simp: serves_def)
  with sequential.called [OF assms(2,3)] show ?thesis by blast
qed

section \<open>Calls on such stores\<close>

text \<open>A lookup with all it gives back, and its parts.\<close>

fun run_lookup :: "request \<Rightarrow> shmc \<Rightarrow> (shmc_rc \<times> (byte list \<times> u32) option \<times> shmc) option" where
  "run_lookup (Get key nkey ok) s = shmc_get_nolock s key nkey ok"
| "run_lookup (Getf key nkey room) s = shmc_getf_nolock s key nkey room"
| "run_lookup r s = None"

lemma run_lookup_parts:
  assumes "lookup_key r = Some (key, nkey)"
  shows "run_lookup r s = do {
    (a, s) \<leftarrow> assoc_find s key nkey;
    if a = 0 then Some (SHMC_NOTFOUND, None, s)
    else do {
      s \<leftarrow> item_unlink s a;
      s \<leftarrow> item_link s a;
      (rc, out) \<leftarrow> finish_lookup r s a;
      Some (rc, out, s)
    }
  }"
  using assms
  by (cases r)
     (auto simp: shmc_get_nolock_def shmc_getf_nolock_def item_relink_def split: Option.bind_split prod.split)

lemma serve_run_lookup: "lookup_key r = Some kn \<Longrightarrow> serve r s = map_option (\<lambda>(rc, out, s). (rc, s)) (run_lookup r s)"
  by (cases r; simp add: map_option_case split: option.split)

lemma sequential_slabs:
  assumes "attr_ok a" and "sequential a s"
  shows "\<exists>A. implements s A \<and> slabs_count (attrs s) = length (slabs s)"
proof -
  obtain A q zs where A: "implements s A" "conf_of s = conf_for q a zs" "count_of_slabs a = Some (length zs)"
    using sequential_implements [OF assms] by blast
  have "length (slabs s) = length zs" using arg_cong [OF A(2), of "length \<circ> cf_sizes"] by (simp add: conf_for_def)
  then show ?thesis using A(1) conf_forD(3) [OF A(2,3)] by auto
qed

lemma load_records_sequential:
  assumes "attr_ok a" and "sequential a s"
    and "\<And>k v. (k, v) \<in> set rs \<Longrightarrow> length k < 2 ^ 31 \<and> length v < 2 ^ 31 \<and> storable s (length k) (length v)"
  shows "\<exists>rc off s'. load_records p (pre @ concat (map rec_text rs)) (length pre) s = Some (rc, off, s') \<and> sequential a s'
    \<and> (rc = SHMC_OK \<longrightarrow> off = length (pre @ concat (map rec_text rs)))"
  using assms(2,3)
proof (induction rs arbitrary: pre s)
  case Nil
  then show ?case using next_record_end [of pre] by (subst load_records.simps) simp
next
  case (Cons r rs)
  obtain k v where r: "r = (k, v)" by (cases r)
  define post buf where "post = concat (map rec_text rs)" and "buf = pre @ rec_text (k, v) @ post"
  have kv: "length k < 2 ^ 31" "length v < 2 ^ 31" "storable s (length k) (length v)"
    using Cons.prems(2) [of k v] r by simp_all
  obtain q where run: "load_records p buf (length pre) s = do {
      (rc, s) \<leftarrow> shmc_set_nolock s (Buf q (k @ 32 # v @ [10] @ post)) (length k) (v @ [10] @ post) (length v) 0;
      if rc \<noteq> SHMC_OK then Some (rc, length pre, s)
      else load_records p buf (length (pre @ rec_text (k, v))) s }"
    unfolding buf_def using load_records_step [OF kv(1,2)] by blast
  let ?set = "Set (Buf q (k @ 32 # v @ [10] @ post)) (length k) (v @ [10] @ post) (length v) 0"
  have "legal s ?set" using kv(3) by simp
  then obtain rc s' where s': "serve ?set s = Some (rc, s')" "sequential a s'"
    using sequential_returns [OF assms(1) Cons.prems(1)] by blast
  have conf: "conf_of s' = conf_of s"
  proof -
    obtain A where A: "implements s A" using sequential_implements [OF assms(1) Cons.prems(1)] by blast
    show ?thesis using serve_legal [OF A \<open>legal s ?set\<close>] s'(1) by (auto simp: serves_def)
  qed
  have st: "storable s' m n = storable s m n" for m n
  proof (cases "sizeof_item + m + n < 2 ^ 64")
    case True
    then show ?thesis
      using item_clsid_class_for [of m n s] item_clsid_class_for [of m n s'] conf by (simp add: storable_def)
  qed (simp add: storable_def)
  show ?case
  proof (cases "rc = SHMC_OK")
    case False
    then show ?thesis using run s' by (simp add: r buf_def post_def)
  next
    case True
    have "\<exists>rc off s2. load_records p ((pre @ rec_text (k, v)) @ concat (map rec_text rs)) (length (pre @ rec_text (k, v))) s'
        = Some (rc, off, s2) \<and> sequential a s2
        \<and> (rc = SHMC_OK \<longrightarrow> off = length ((pre @ rec_text (k, v)) @ concat (map rec_text rs)))"
      by (rule Cons.IH [OF s'(2)]) (use Cons.prems(2) in \<open>auto simp: st\<close>)
    then show ?thesis using run s' True by (simp add: r buf_def post_def)
  qed
qed

lemma class_for_fits: "class_for cf t = Some c \<Longrightarrow> t \<le> cf_sizes cf ! c"
  using nth_length_takeWhile [of "\<lambda>z. z < t" "cf_sizes cf"] by (auto simp: class_for_def Let_def split: if_splits)

lemma perform_legal:
  assumes a: "attr_ok a" and s: "sequential a s" and l: "legal_call s fs c"
  shows "\<exists>rc s' fs'. perform c s fs = Some (rc, s', fs') \<and> sequential a s'"
proof (cases c)
  case (Op r)
  then show ?thesis using sequential_returns [OF a s, of r] l by auto
next
  case (DumpTo name opens)
  show ?thesis
  proof (cases opens)
    case True
    obtain A where A: "implements s A" "slabs_count (attrs s) = length (slabs s)" using sequential_slabs [OF a s] by blast
    have "moderate x" if "x \<in> set (dumped (conf_of s) A)" for x
    proof -
      have "\<exists>c < length (cf_sizes (conf_of s)). \<exists>e \<in> set (a_lru A c). x = (e_key e, e_val e)"
        using that unfolding dumped_def by (simp add: Bex_def image_iff) blast
      then obtain c e where e: "x = (e_key e, e_val e)" "e \<in> set (a_lru A c)" "c < length (cf_sizes (conf_of s))"
        by blast
      have "class_for (conf_of s) (size_for (length (e_key e)) (length (e_val e))) = Some c"
        by (rule a_wfD(4) [OF implements_wf [OF A(1)] e(2)])
      then have "size_for (length (e_key e)) (length (e_val e)) \<le> cf_sizes (conf_of s) ! c"
        by (rule class_for_fits)
      moreover have "cf_sizes (conf_of s) ! c < 2 ^ 31" using l DumpTo e(3) by simp
      ultimately show ?thesis by (simp add: moderate_def e(1) size_for_def)
    qed
    then show ?thesis using dump_text [OF A] DumpTo True s by simp
  qed (simp add: DumpTo shmc_dump_nolock_def s)
next
  case (LoadFrom name p)
  show ?thesis
  proof (cases "fs name = None \<or> p = None")
    case True
    then show ?thesis using LoadFrom s by (auto simp: shmc_load_nolock_def split: option.split)
  next
    case False
    then obtain rs q where rs: "fs name = Some (concat (map rec_text rs))" "p = Some q"
        "length (concat (map rec_text rs)) \<le> BUFFER_SIZE" "\<forall>(k, v) \<in> set rs. storable s (length k) (length v)"
      using l LoadFrom by auto
    define out where "out = concat (map rec_text rs)"
    have "length k < 2 ^ 31 \<and> length v < 2 ^ 31 \<and> storable s (length k) (length v)" if "(k, v) \<in> set rs" for k v
      using small_records [OF rs(3) that] rs(4) that by blast
    from load_records_sequential [OF a s this, of rs q "[]"] obtain rc off s'
      where r: "load_records q out 0 s = Some (rc, off, s')" "sequential a s'" "rc = SHMC_OK \<Longrightarrow> off = length out"
      by (auto simp: out_def)
    have "shmc_load_nolock s (Some out) (Some q) = Some (rc, s')" if "out \<noteq> []"
      using load_one_buffer [of out "[]" s q] that r(1,3) rs(3) [folded out_def]
      by (cases "rc = SHMC_OK") simp_all
    moreover have "shmc_load_nolock s (Some out) (Some q) = Some (SHMC_OK, s)" if "out = []"
      using that by (simp add: shmc_load_nolock_def load_loop.simps)
    ultimately show ?thesis using rs(1,2) r(2) s LoadFrom by (cases "out = []") (auto simp: out_def)
  qed
qed

section \<open>What a walk along a chain sees\<close>

text \<open>The item a search finds, from the bucket and from an item of the chain.\<close>

definition hit_from :: "buf \<Rightarrow> nat \<Rightarrow> shmc \<Rightarrow> addr \<Rightarrow> addr option" where
  "hit_from key nkey s a = map_option fst (assoc_find_loop key nkey s a 0)"

definition hit :: "buf \<Rightarrow> nat \<Rightarrow> shmc \<Rightarrow> addr option" where
  "hit key nkey s = map_option fst (assoc_find s key nkey)"

text \<open>It depends on the table and on the items' data, which lookups leave alone.\<close>

definition same_table :: "shmc \<Rightarrow> shmc \<Rightarrow> bool" where
  "same_table s t \<longleftrightarrow> buckets t = buckets s \<and> nbuckets (attrs t) = nbuckets (attrs s) \<and> hnx t = hnx s \<and> dat t = dat s"

lemma same_table_sym: "same_table s t \<Longrightarrow> same_table t s"
  and same_table_trans: "same_table s t \<Longrightarrow> same_table t u \<Longrightarrow> same_table s u"
  and same_table_depth: "same_table s (set_depth s d)"
  by (simp_all add: same_table_def)

lemma same_table_item:
  assumes "same_table s t" and "heap s a = Some it"
  shows "\<exists>it'. heap t a = Some it' \<and> it_hnext it' = it_hnext it \<and> key_matches key nkey it' = key_matches key nkey it
    \<and> it_nval it' = it_nval it \<and> it_val it' = it_val it \<and> it_end it' = it_end it \<and> it_flags it' = it_flags it"
proof -
  have "dat t a = dat s a" "hnx t a = hnx s a" using assms(1) by (simp_all add: same_table_def)
  then obtain it' where it': "heap t a = Some it'" "it_hnext it' = it_hnext it"
      "it'\<lparr>it_next := 0, it_prev := 0, it_hnext := 0\<rparr> = it\<lparr>it_next := 0, it_prev := 0, it_hnext := 0\<rparr>"
    using assms(2) by (auto simp: dat_def hnx_def)
  then show ?thesis by (cases it; cases it') (simp add: key_matches_def)
qed

lemma find_loop_step:
  "assoc_find_loop key nkey s a d = (if a \<noteq> 0 then do {
     it \<leftarrow> get_item s a;
     m \<leftarrow> key_matches key nkey it;
     let s' = set_depth s (max (max_depth (attrs s)) (Suc d));
     if m then Some (a, s') else assoc_find_loop key nkey s' (it_hnext it) (Suc d)
   } else Some (0, s))"
proof -
  have e: "(if Suc d > max_depth (attrs s) then upd_attr s (max_depth_update (\<lambda>_. Suc d)) else s)
      = set_depth s (max (max_depth (attrs s)) (Suc d))"
    by (simp add: set_depth_def max_def)
  show ?thesis by (subst assoc_find_loop.simps) (simp only: Let_def e put_depth(1))
qed

lemma find_loop_same:
  assumes "assoc_find_loop key nkey s a d = Some r"
  shows "same_table s t \<Longrightarrow> \<exists>t'. assoc_find_loop key nkey t a e = Some (fst r, t') \<and> (\<exists>m. t' = set_depth t m)"
proof -
  have "\<forall>t e. same_table s t \<longrightarrow> (\<exists>t'. assoc_find_loop key nkey t a e = Some (fst r, t') \<and> (\<exists>m. t' = set_depth t m))"
  proof (rule assoc_find_loop.raw_induct [where P = "\<lambda>key nkey s a d r. \<forall>t e. same_table s t \<longrightarrow>
      (\<exists>t'. assoc_find_loop key nkey t a e = Some (fst r, t') \<and> (\<exists>m. t' = set_depth t m))", OF _ assms], intro allI impI)
    fix find key nkey s a d r t e
    assume IH: "\<And>key nkey s a d r. find key nkey s a d = Some r \<Longrightarrow> \<forall>t e. same_table s t \<longrightarrow>
        (\<exists>t'. assoc_find_loop key nkey t a e = Some (fst r, t') \<and> (\<exists>m. t' = set_depth t m))"
      and run: "(if a \<noteq> 0 then do {
          let depth = Suc d;
          let s = (if depth > max_depth (attrs s) then upd_attr s (max_depth_update (\<lambda>_. depth)) else s);
          it \<leftarrow> get_item s a;
          m \<leftarrow> key_matches key nkey it;
          if m then Some (a, s) else find key nkey s (it_hnext it) depth
        } else Some (0, s)) = Some r"
      and t: "same_table s t"
    show "\<exists>t'. assoc_find_loop key nkey t a e = Some (fst r, t') \<and> (\<exists>m. t' = set_depth t m)"
    proof (cases "a = 0")
      case True
      then show ?thesis using run by (auto simp: find_loop_step set_depth_same intro!: exI [of _ "max_depth (attrs t)"])
    next
      case False
      define s2 where "s2 = (if Suc d > max_depth (attrs s) then upd_attr s (max_depth_update (\<lambda>_. Suc d)) else s)"
      define t2 where "t2 = set_depth t (max (max_depth (attrs t)) (Suc e))"
      have s2: "same_table s2 t2" "heap s2 = heap s" using t by (simp_all add: s2_def t2_def same_table_def)
      from run False have "do { it \<leftarrow> get_item s2 a; m \<leftarrow> key_matches key nkey it;
          if m then Some (a, s2) else find key nkey s2 (it_hnext it) (Suc d) } = Some r"
        by (simp only: Let_def s2_def [symmetric] if_True not_False_eq_True)
      then obtain it m where it: "heap s a = Some it" "key_matches key nkey it = Some m"
          "(if m then Some (a, s2) else find key nkey s2 (it_hnext it) (Suc d)) = Some r"
        unfolding get_item_def s2(2) by (auto simp only: bind_eq_Some_conv)
      obtain it' where it': "heap t a = Some it'" "it_hnext it' = it_hnext it" "key_matches key nkey it' = Some m"
        using same_table_item [OF t it(1), of key nkey] it(2) by auto
      show ?thesis
      proof (cases m)
        case True
        then show ?thesis using it(3) it' False by (subst find_loop_step) auto
      next
        case step: False
        obtain k where "assoc_find_loop key nkey t2 (it_hnext it) (Suc e) = Some (fst r, set_depth t2 k)"
          using IH [of key nkey s2 "it_hnext it" "Suc d" r] it(3) step s2(1) by auto
        then show ?thesis using it' False step by (subst find_loop_step) (auto simp: t2_def)
      qed
    qed
  qed
  then show "same_table s t \<Longrightarrow> \<exists>t'. assoc_find_loop key nkey t a e = Some (fst r, t') \<and> (\<exists>m. t' = set_depth t m)" by blast
qed

lemma find_loop_result: "same_table s t \<Longrightarrow> map_option fst (assoc_find_loop key nkey t a e) = map_option fst (assoc_find_loop key nkey s a d)"
  using find_loop_same [of key nkey s a d _ t e] find_loop_same [of key nkey t a e _ s d] same_table_sym [of s t]
  by (cases "assoc_find_loop key nkey s a d"; cases "assoc_find_loop key nkey t a e") fastforce+

lemma hit_from_same: "same_table s t \<Longrightarrow> hit_from key nkey t a = hit_from key nkey s a"
  unfolding hit_from_def by (rule find_loop_result)

lemma hit_same:
  assumes "same_table s t"
  shows "hit key nkey t = hit key nkey s"
proof -
  have "key_slot t key nkey = key_slot s key nkey" "buckets t = buckets s"
    using assms by (simp_all add: key_slot_def same_table_def)
  then show ?thesis
    using find_loop_result [OF assms] by (auto simp: hit_def assoc_find_def map_through intro!: Option.bind_cong)
qed

lemma hit_steps:
  "hit key nkey s = do { slot \<leftarrow> key_slot s key nkey; a \<leftarrow> read_at (buckets s) slot; hit_from key nkey s a }"
  "hit_from key nkey s 0 = Some 0"
  "a \<noteq> 0 \<Longrightarrow> hit_from key nkey s a = do {
     it \<leftarrow> get_item s a; m \<leftarrow> key_matches key nkey it; if m then Some a else hit_from key nkey s (it_hnext it) }"
proof -
  show "hit key nkey s = do { slot \<leftarrow> key_slot s key nkey; a \<leftarrow> read_at (buckets s) slot; hit_from key nkey s a }"
    by (simp add: hit_def hit_from_def assoc_find_def map_through)
  show "hit_from key nkey s 0 = Some 0" by (simp add: hit_from_def find_loop_step)
  assume "a \<noteq> 0"
  moreover have "map_option fst (assoc_find_loop key nkey (set_depth s m) b e) = hit_from key nkey s b" for m b e
    unfolding hit_from_def by (rule find_loop_result [OF same_table_depth])
  ultimately show "hit_from key nkey s a = do {
     it \<leftarrow> get_item s a; m \<leftarrow> key_matches key nkey it; if m then Some a else hit_from key nkey s (it_hnext it) }"
    unfolding hit_from_def [of key nkey s a] by (subst find_loop_step) (auto simp: map_through Let_def intro!: Option.bind_cong)
qed

lemma find_depth: "assoc_find s key nkey = Some (a, s') \<Longrightarrow> \<exists>m. s' = set_depth s m"
  using find_loop_same [of key nkey s _ 0 "(a, s')" s 0]
  by (fastforce simp: assoc_find_def same_table_def split: Option.bind_splits)

section \<open>Relinking leaves the table alone\<close>

definition table_of :: "shmc \<Rightarrow> addr list \<times> nat \<times> (addr \<Rightarrow> addr) \<times> (addr \<Rightarrow> item option)" where
  "table_of s = (buckets s, nbuckets (attrs s), hnx s, dat s)"

lemma same_table_of: "same_table s t \<longleftrightarrow> table_of t = table_of s"
  by (simp add: same_table_def table_of_def)

lemma put_table:
  "put_item s a (it_next_update f) = Some t \<Longrightarrow> table_of t = table_of s"
  "put_item s a (it_prev_update f) = Some t \<Longrightarrow> table_of t = table_of s"
  "put_head s c a = Some t \<Longrightarrow> table_of t = table_of s"
  "put_tail s c a = Some t \<Longrightarrow> table_of t = table_of s"
  by (auto simp: put_item_def put_head_def put_tail_def table_of_def state_simps split: if_splits)

lemma relink_table:
  "item_unlink s a = Some t \<Longrightarrow> same_table s t"
  "item_link s a = Some t \<Longrightarrow> same_table s t"
  unfolding same_table_of
  by (auto simp: item_unlink_def item_link_def Let_def split: Option.bind_splits if_splits dest!: put_table)

lemma finish_same:
  assumes "same_table s t"
  shows "finish_lookup r t a = finish_lookup r s a"
proof -
  have "dat t a = dat s a" using assms by (simp add: same_table_def)
  then have "heap t a = None \<longleftrightarrow> heap s a = None" by (auto simp: dat_def)
  then show ?thesis
    using same_table_item [OF assms, of a]
    by (cases "heap s a"; cases r) (auto simp: get_item_def load_val_def)
qed

section \<open>Lookups on their way\<close>

text \<open>
  What a lookup relies on: the rest of the chain leads to the item a search would find; that item has
  been found.
\<close>

definition seeks :: "shmc \<Rightarrow> request \<Rightarrow> addr \<Rightarrow> bool" where
  "seeks s r a \<longleftrightarrow> (\<exists>key nkey. lookup_key r = Some (key, nkey) \<and> nkey \<le> length (buf_bytes key)
     \<and> hit key nkey s \<noteq> None \<and> hit_from key nkey s a = hit key nkey s)"

definition located :: "shmc \<Rightarrow> request \<Rightarrow> addr \<Rightarrow> bool" where
  "located s r a \<longleftrightarrow> a \<noteq> 0 \<and> (\<exists>key nkey. lookup_key r = Some (key, nkey) \<and> nkey \<le> length (buf_bytes key)
     \<and> hit key nkey s = Some a)"

fun on_way :: "shmc \<Rightarrow> phase \<Rightarrow> bool" where
  "on_way s (Walking r a d) = seeks s r a"
| "on_way s (Deeper r a d) = (a \<noteq> 0 \<and> seeks s r a)"
| "on_way s (Matching r a d) = (a \<noteq> 0 \<and> seeks s r a)"
| "on_way s (Found r a) = located s r a"
| "on_way s (Relinking r a) = located s r a"
| "on_way s (Unlinked r a) = located s r a"
| "on_way s (Linked r a) = located s r a"
| "on_way s (Relinked r a) = located s r a"
| "on_way s p = True"

lemma seeks_same: "same_table s t \<Longrightarrow> seeks t r a = seeks s r a"
  and located_same: "same_table s t \<Longrightarrow> located t r a = located s r a"
  by (simp_all add: seeks_def located_def hit_same hit_from_same)

lemma on_way_same: "same_table s t \<Longrightarrow> on_way t p = on_way s p"
  by (cases p) (simp_all add: seeks_same located_same)

lemma seeks_matching:
  assumes "seeks s r a" and "a \<noteq> 0" and "lookup_key r = Some (key, nkey)"
  obtains it m where "get_item s a = Some it" "key_matches key nkey it = Some m"
    "m \<Longrightarrow> located s r a" "\<not> m \<Longrightarrow> seeks s r (it_hnext it)"
proof -
  have h: "nkey \<le> length (buf_bytes key)" "hit key nkey s \<noteq> None" "hit_from key nkey s a = hit key nkey s"
    using assms(1,3) by (auto simp: seeks_def)
  then obtain it m where it: "get_item s a = Some it" "key_matches key nkey it = Some m"
      "hit key nkey s = (if m then Some a else hit_from key nkey s (it_hnext it))"
    using hit_steps(3) [OF assms(2), of key nkey s] by (auto split: Option.bind_splits)
  have "located s r a" if m using it(3) that h assms(2,3) by (auto simp: located_def)
  moreover have "seeks s r (it_hnext it)" if "\<not> m" using it(3) that h assms(3) by (auto simp: seeks_def)
  ultimately show thesis using that it(1,2) by blast
qed

text \<open>
  The store is one that sequential requests bring about, or the one agent that has the mutex has
  just taken its item out of such a store.
\<close>

fun unlinked :: "phase \<Rightarrow> addr option" where
  "unlinked (Unlinked r a) = Some a"
| "unlinked p = None"

definition serial :: "attr \<Rightarrow> agent set \<Rightarrow> world \<Rightarrow> bool" where
  "serial a S w \<longleftrightarrow> (\<forall>x \<in> S. on_way (w_store w) (w_phase w x))
     \<and> (\<exists>s0. sequential a s0
          \<and> ((\<forall>x \<in> S. unlinked (w_phase w x) = None) \<and> w_store w = s0
             \<or> (\<exists>x \<in> S. \<exists>ad. unlinked (w_phase w x) = Some ad \<and> item_unlink s0 ad = Some (w_store w))))"

lemma serialI:
  assumes "\<And>y. y \<in> S \<Longrightarrow> on_way (w_store w) (w_phase w y)" and "sequential a s0"
    and "(\<forall>x \<in> S. unlinked (w_phase w x) = None) \<and> w_store w = s0
      \<or> (\<exists>x \<in> S. \<exists>ad. unlinked (w_phase w x) = Some ad \<and> item_unlink s0 ad = Some (w_store w))"
  shows "serial a S w"
  using assms unfolding serial_def by blast

lemma serial_on_way: "serial a S w \<Longrightarrow> x \<in> S \<Longrightarrow> on_way (w_store w) (w_phase w x)"
  by (simp add: serial_def)

lemma serial_store: "serial a S w \<Longrightarrow> (\<And>x. x \<in> S \<Longrightarrow> unlinked (w_phase w x) = None) \<Longrightarrow> sequential a (w_store w)"
  by (auto simp: serial_def)

text \<open>In both cases the table is that of a store sequential requests bring about.\<close>

lemma serial_table:
  assumes "serial a S w"
  shows "\<exists>s0. sequential a s0 \<and> same_table s0 (w_store w)"
  using assms relink_table(1) by (fastforce simp: serial_def same_table_def)

lemma unlinked_mutex: "unlinked p \<noteq> None \<Longrightarrow> has_mutex p"
  by (cases p) simp_all

text \<open>A step that leaves the store alone, up to \<open>max_depth\<close>, and takes nothing out of a list.\<close>

lemma serial_same:
  assumes ser: "serial a S w" and st: "w_store w' = set_depth (w_store w) d" and ph: "w_phase w' = (w_phase w)(x := p)"
    and p: "on_way (w_store w) p" "unlinked p = unlinked (w_phase w x)"
  shows "serial a S w'"
proof -
  obtain s0 where s0: "sequential a s0" "(\<forall>x \<in> S. unlinked (w_phase w x) = None) \<and> w_store w = s0
      \<or> (\<exists>x \<in> S. \<exists>ad. unlinked (w_phase w x) = Some ad \<and> item_unlink s0 ad = Some (w_store w))"
    using ser unfolding serial_def by blast
  have u: "unlinked (w_phase w' y) = unlinked (w_phase w y)" for y using ph p(2) by simp
  show ?thesis
  proof (rule serialI [OF _ sequential.counted [OF s0(1), of d]])
    fix y assume "y \<in> S"
    then show "on_way (w_store w') (w_phase w' y)"
      using serial_on_way [OF ser] p(1) by (simp add: st ph on_way_same [OF same_table_depth])
  qed (use s0(2) in \<open>auto simp: u st relink_depth\<close>)
qed

lemma lookup_legal: "lookup_key r = Some (key, nkey) \<Longrightarrow> legal s r \<longleftrightarrow> nkey \<le> length (buf_bytes key)"
  by (cases r) simp_all

text \<open>A lookup whose item is found is defined to its end, and its relinked store is a sequential one.\<close>

lemma located_relinks:
  assumes a: "attr_ok a" and s: "sequential a s" and l: "located s r ad"
  obtains s1 s2 res where "item_unlink s ad = Some s1" "item_link s1 ad = Some s2" "finish_lookup r s2 ad = Some res"
    "sequential a s2"
proof -
  obtain key nkey where r: "lookup_key r = Some (key, nkey)" "nkey \<le> length (buf_bytes key)" "hit key nkey s = Some ad" "ad \<noteq> 0"
    using l by (auto simp: located_def)
  then obtain d where f: "assoc_find s key nkey = Some (ad, set_depth s d)"
    using find_depth by (fastforce simp: hit_def)
  have "legal s r" using r(2) lookup_legal [OF r(1)] by simp
  from sequential_returns [OF a s this] obtain rc s' where run: "serve r s = Some (rc, s')" "sequential a s'" by blast
  then obtain s1 s2 res where q: "item_unlink s ad = Some s1" "item_link s1 ad = Some s2" "s' = set_depth s2 d"
      "finish_lookup r (set_depth s2 d) ad = Some res"
    using serve_run_lookup [OF r(1), of s] run_lookup_parts [OF r(1), of s] f r(4)
    by (auto simp: relink_depth split: Option.bind_splits)
  have "finish_lookup r s2 ad = Some res" using q(4) finish_same [OF same_table_depth, of r s2 d ad] by simp
  moreover have "sequential a s2"
    using sequential.counted [OF run(2), of "max_depth (attrs s2)"] by (simp add: q(3) set_depth_same)
  ultimately show thesis using q that by blast
qed

lemma located_runs:
  assumes "attr_ok a" and "sequential a s" and "located s r ad"
  shows "\<exists>rc out s'. finish_lookup r s ad = Some (rc, out) \<and> run_lookup r s = Some (rc, out, s')"
proof -
  obtain key nkey where r: "lookup_key r = Some (key, nkey)" "hit key nkey s = Some ad" "ad \<noteq> 0"
    using assms(3) by (auto simp: located_def)
  then obtain d where f: "assoc_find s key nkey = Some (ad, set_depth s d)"
    using find_depth by (fastforce simp: hit_def)
  obtain s1 s2 res where q: "item_unlink s ad = Some s1" "item_link s1 ad = Some s2" "finish_lookup r s2 ad = Some res"
    by (rule located_relinks [OF assms])
  have "same_table s (set_depth s2 d)"
    using same_table_trans relink_table(1) [OF q(1)] relink_table(2) [OF q(2)] same_table_depth by blast
  then have "finish_lookup r (set_depth s2 d) ad = finish_lookup r s ad" by (rule finish_same)
  moreover have "finish_lookup r s ad = Some res"
    using q finish_same same_table_trans relink_table by metis
  ultimately show ?thesis using run_lookup_parts [OF r(1), of s] f q r(3) by (cases res) (simp add: relink_depth)
qed

lemma hit_defined:
  assumes "attr_ok a" and "serial a S w" and "lookup_key r = Some (key, nkey)" and "nkey \<le> length (buf_bytes key)"
  shows "hit key nkey (w_store w) \<noteq> None"
proof -
  obtain s0 where s0: "sequential a s0" "same_table s0 (w_store w)" using serial_table [OF assms(2)] by blast
  have "serve r s0 \<noteq> None"
    using sequential_returns [OF assms(1) s0(1), of r] lookup_legal [OF assms(3)] assms(4) by auto
  then have "hit key nkey s0 \<noteq> None" by (auto simp: serve_run_lookup [OF assms(3)] run_lookup_parts [OF assms(3)] hit_def split: Option.bind_splits)
  then show ?thesis by (simp add: hit_same [OF s0(2)])
qed

section \<open>Every step keeps the store a sequential one\<close>

text \<open>While an agent writes nobody else is in a lookup.\<close>

lemma writer_alone:
  assumes l: "lock_inv flock S w" and x: "x \<in> S" "w_phase w x = Holding c" "\<not> reading c" and y: "y \<in> S"
  shows "looking_up (w_phase w y) = None"
proof (cases "y = x")
  case False
  have "lock_holds flock (w_locks w) x = F_WRLCK" using lock_invD(4) [OF l x(1)] x(2,3) by simp
  from lib.exclusiveD [OF lock_invD(2) [OF l] x(1) y _ this] False have "due (w_phase w y) = F_UNLCK"
    using lock_invD(4) [OF l y] by simp
  then show ?thesis by (cases "w_phase w y") simp_all
qed (use x in simp)

lemma quiet_phase: "looking_up p = None \<Longrightarrow> on_way s p \<and> unlinked p = None"
  by (cases p) simp_all

lemma step_serial:
  assumes a: "attr_ok a" and l: "lock_inv flock S w" and m: "mutex_inv S w"
    and ser: "serial a S w" and x: "x \<in> S" and st: "step flock x w w'"
    and leg: "\<And>c. w_phase w x = Holding c \<Longrightarrow> legal_call (w_store w) (w_dumps w) c"
  shows "serial a S w'"
proof -
  have way: "on_way (w_store w) (w_phase w x)" by (rule serial_on_way [OF ser x])
  have same: "serial a S w'" if "w_store w' = w_store w" "w_phase w' = (w_phase w)(x := w_phase w' x)"
      "on_way (w_store w) (w_phase w' x)" "unlinked (w_phase w' x) = unlinked (w_phase w x)"
    by (rule serial_same [OF ser _ that(2-4), of "max_depth (attrs (w_store w))"]) (simp add: that(1) set_depth_same)
  have others: "unlinked (w_phase w y) = None" if "has_mutex (w_phase w x)" "y \<in> S" "y \<noteq> x" for y
    using mutex_inv_one [OF m x that(2) that(1)] unlinked_mutex that(3) by blast
  from st show ?thesis
  proof cases
    case (run d rc s fs)
    have q: "looking_up (w_phase w y) = None" if "y \<in> S" for y by (rule writer_alone [OF l x run(2,3) that])
    have "sequential a (w_store w)" using serial_store [OF ser] q quiet_phase by blast
    from perform_legal [OF a this leg [OF run(2)]] have "sequential a s" using run(4) by auto
    then show ?thesis using q quiet_phase run(1) by (intro serialI [of _ _ _ s]) auto
  next
    case (hash r key nkey slot ad)
    have n: "nkey \<le> length (buf_bytes key)" using leg [OF hash(2)] lookup_legal [OF hash(3)] by simp
    have "hit_from key nkey (w_store w) ad = hit key nkey (w_store w)" using hash(4,5) by (simp add: hit_steps(1))
    then have "seeks (w_store w) r ad" using hit_defined [OF a ser hash(3) n] hash(3) n by (simp add: seeks_def)
    then show ?thesis using hash(1,2) by (intro same) simp_all
  next
    case (raise r ad d)
    then show ?thesis using way by (intro serial_same [OF ser, of _ d x "Matching r ad d"]) simp_all
  next
    case (match r ad d key nkey it)
    have "seeks (w_store w) r ad" "ad \<noteq> 0" using way match(2) by simp_all
    from seeks_matching [OF this match(3)] have "located (w_store w) r ad" using match(4,5) by fastforce
    then show ?thesis using match(1,2) by (intro same) simp_all
  next
    case (mismatch r ad d key nkey it)
    have "seeks (w_store w) r ad" "ad \<noteq> 0" using way mismatch(2) by simp_all
    from seeks_matching [OF this mismatch(3)] have "seeks (w_store w) r (it_hnext it)" using mismatch(4,5) by fastforce
    then show ?thesis using mismatch(1,2) by (intro same) simp_all
  next
    case (unlink r ad s)
    have u: "unlinked (w_phase w y) = None" if "y \<in> S" for y using others [OF _ that] unlink(2) by (cases "y = x") simp_all
    have "sequential a (w_store w)" by (rule serial_store [OF ser u])
    moreover have "on_way s (w_phase w' y)" if "y \<in> S" for y
      using serial_on_way [OF ser that] way on_way_same [OF relink_table(1) [OF unlink(3)]] unlink(1,2) by simp
    ultimately show ?thesis using unlink x by (intro serialI [of _ _ _ "w_store w"]) auto
  next
    case (link r ad s)
    obtain s0 y ad' where s0: "sequential a s0" "y \<in> S" "unlinked (w_phase w y) = Some ad'" "item_unlink s0 ad' = Some (w_store w)"
      using ser x link(2) unfolding serial_def by force
    have "y = x" using others [of y] s0(2,3) link(2) by (cases "y = x") simp_all
    then have u: "item_unlink s0 ad = Some (w_store w)" using s0(3,4) link(2) by simp
    have "located s0 r ad" using way link(2) located_same [OF relink_table(1) [OF u]] by simp
    from located_relinks [OF a s0(1) this] have "sequential a s" using u link(3) by fastforce
    moreover have "on_way s (w_phase w' z)" if "z \<in> S" for z
      using serial_on_way [OF ser that] way on_way_same [OF relink_table(2) [OF link(3)]] link(1,2) by simp
    ultimately show ?thesis using link others by (intro serialI [of _ _ _ s]) auto
  qed (rule same; use way in simp)+
qed

lemma concurrent_serial:
  assumes "attr_ok a" and "one_thread (use_flock a) S" and "concurrent a S C w"
  shows "serial a S w"
  using assms(3)
proof (induction rule: concurrent.induct)
  case (start s fs)
  then show ?case using sequential.reached by (auto simp: serial_def)
next
  case (move w x w')
  then show ?case
    using step_serial [OF assms(1) concurrent_lock_inv [OF move(1) assms(2)] concurrent_mutex_inv [OF move(1)]] by blast
qed

section \<open>Progress\<close>

text \<open>An agent that holds the lock can go on, unless it waits for the mutex.\<close>

lemma holder_steps:
  assumes a: "attr_ok a" and l: "lock_inv flock S w" and m: "mutex_inv S w" and ser: "serial a S w"
    and x: "x \<in> S" "due (w_phase w x) \<noteq> F_UNLCK"
    and leg: "\<And>c. w_phase w x = Holding c \<Longrightarrow> legal_call (w_store w) (w_dumps w) c"
    and mx: "\<And>r ad. w_phase w x = Found r ad \<Longrightarrow> mutex_holder (w_locks w) = None"
  shows "\<exists>w'. step flock x w w'"
proof -
  have way: "on_way (w_store w) (w_phase w x)" by (rule serial_on_way [OF ser x(1)])
  have fin: "\<exists>rc out. finish_lookup r (w_store w) ad = Some (rc, out)" if "located (w_store w) r ad" for r ad
  proof -
    obtain s0 where s0: "sequential a s0" "same_table s0 (w_store w)" using serial_table [OF ser] by blast
    have "located s0 r ad" using that located_same [OF s0(2)] by simp
    from located_relinks [OF a s0(1) this] obtain s1 s2 rc where q: "item_unlink s0 ad = Some s1" "item_link s1 ad = Some s2"
        "finish_lookup r s2 ad = Some rc" .
    have "same_table s0 s2" using same_table_trans relink_table q(1,2) by blast
    then have "finish_lookup r (w_store w) ad = finish_lookup r s2 ad" using finish_same s0(2) by metis
    then show ?thesis using q(3) by simp
  qed
  show ?thesis
  proof (cases "w_phase w x")
    case (Holding d)
    note d = leg [OF Holding]
    show ?thesis
    proof (cases "reading d")
      case False
      have q: "looking_up (w_phase w y) = None" if "y \<in> S" for y by (rule writer_alone [OF l x(1) Holding False that])
      have "sequential a (w_store w)" using serial_store [OF ser] q quiet_phase by blast
      from perform_legal [OF a this d] step.run [OF Holding False] show ?thesis by blast
    next
      case True
      then obtain r kn where r: "d = Op r" "lookup_key r = Some kn" by (cases d rule: reading.cases) auto
      obtain key nkey where kn: "kn = (key, nkey)" by (cases kn)
      have "nkey \<le> length (buf_bytes key)" using d lookup_legal r kn by simp
      from hit_defined [OF a ser _ this] have "hit key nkey (w_store w) \<noteq> None" using r(2) kn by simp
      then show ?thesis using step.hash [of w x r key nkey] Holding r kn by (auto simp: hit_steps(1) split: Option.bind_splits)
    qed
  next
    case (Walking r ad d)
    then show ?thesis using step.missing [of w x r d] step.deeper [of w x r ad d] step.level [of w x r ad d] by (cases "ad = 0") blast+
  next
    case (Deeper r ad d)
    then show ?thesis using step.raise by blast
  next
    case (Matching r ad d)
    then have sk: "seeks (w_store w) r ad" "ad \<noteq> 0" using way by simp_all
    then obtain key nkey where k: "lookup_key r = Some (key, nkey)" by (auto simp: seeks_def)
    from seeks_matching [OF sk k] obtain it b where "get_item (w_store w) ad = Some it" "key_matches key nkey it = Some b" .
    then show ?thesis using step.match [OF Matching k] step.mismatch [OF Matching k] by (cases b) fastforce+
  next
    case (Found r ad)
    then show ?thesis using step.take_mutex [OF Found] mx [OF Found] by (auto simp: mutex_lock_Some)
  next
    case (Relinking r ad)
    have "unlinked (w_phase w y) = None" if "y \<in> S" for y
      using mutex_inv_one [OF m x(1) that] unlinked_mutex Relinking by (cases "y = x") fastforce+
    then have "sequential a (w_store w)" by (rule serial_store [OF ser])
    moreover have "located (w_store w) r ad" using way Relinking by simp
    ultimately obtain s1 s2 rc where "item_unlink (w_store w) ad = Some s1" "item_link s1 ad = Some s2"
        "finish_lookup r s2 ad = Some rc"
      by (rule located_relinks [OF a])
    then show ?thesis using step.unlink [OF Relinking] by blast
  next
    case (Unlinked r ad)
    obtain s0 y ad' where s0: "sequential a s0" "y \<in> S" "unlinked (w_phase w y) = Some ad'" "item_unlink s0 ad' = Some (w_store w)"
      using ser x Unlinked unfolding serial_def by force
    have "y = x" using mutex_inv_one [OF m x(1) s0(2)] unlinked_mutex [of "w_phase w y"] s0(3) Unlinked by simp
    then have u: "item_unlink s0 ad = Some (w_store w)" using s0(3,4) Unlinked by simp
    have "located s0 r ad" using way Unlinked located_same [OF relink_table(1) [OF u]] by simp
    from located_relinks [OF a s0(1) this] obtain s1 s2 rc where
        q: "item_unlink s0 ad = Some s1" "item_link s1 ad = Some s2" "finish_lookup r s2 ad = Some rc" .
    have "s1 = w_store w" using q(1) u by simp
    then have "item_link (w_store w) ad = Some s2" using q(2) by simp
    then show ?thesis using step.link [OF Unlinked] by blast
  next
    case (Linked r ad)
    then have "mutex_holder (w_locks w) = Some x" using m x(1) has_mutex.simps(3) unfolding mutex_inv_def by metis
    then show ?thesis using step.give_mutex [OF Linked] by (auto simp: mutex_lock_Some)
  next
    case (Relinked r ad)
    then have "located (w_store w) r ad" using way by simp
    then show ?thesis using fin step.finish [OF Relinked] by blast
  next
    case (Served d rc)
    have "lock_holds flock (w_locks w) x \<noteq> F_UNLCK" using lock_invD(4) [OF l x(1)] x(2) by simp
    then show ?thesis using lib.un_done [OF lock_invD(1) [OF l]] step.unlock [OF Served] by blast
  qed (use x(2) in simp_all)
qed

section \<open>A lookup nobody comes between\<close>

lemma go_go [simp]: "go (go w x p) x q = go w x q" "(go w x p)\<lparr>w_store := s\<rparr> = go (w\<lparr>w_store := s\<rparr>) x p"
  "(go w x p)\<lparr>w_locks := l\<rparr> = go (w\<lparr>w_locks := l\<rparr>) x p"
  by (simp_all add: go_def)

text \<open>The steps of the search are the loop of \<open>assoc_find\<close>, its statistic included.\<close>

lemma concurrent_step:
  "concurrent a S C w \<Longrightarrow> x \<in> S \<Longrightarrow> step (use_flock a) x w w' \<Longrightarrow> looking_up (w_phase w' x) \<noteq> None \<Longrightarrow>
   (\<And>c. w_phase w x = Holding c \<Longrightarrow> legal_call (w_store w) (w_dumps w) c) \<Longrightarrow> concurrent a S C w'"
  by (rule concurrent.move) auto

lemma concurrent_level:
  assumes "concurrent a S C w" and "x \<in> S" and "w_phase w x = Walking r ad d" and "ad \<noteq> 0"
  shows "concurrent a S C (go (w\<lparr>w_store :=
    (if Suc d > max_depth (attrs (w_store w)) then upd_attr (w_store w) (max_depth_update (\<lambda>_. Suc d)) else w_store w)\<rparr>)
    x (Matching r ad (Suc d)))"
proof (cases "Suc d > max_depth (attrs (w_store w))")
  case True
  have "concurrent a S C (go w x (Deeper r ad (Suc d)))"
    using assms(3) by (intro concurrent_step [OF assms(1,2) step.deeper [OF assms(3,4) True]]) auto
  from concurrent_step [OF this assms(2) step.raise, of r ad "Suc d"] True show ?thesis by (simp add: set_depth_def)
next
  case False
  then show ?thesis using concurrent_step [OF assms(1,2) step.level [OF assms(3,4) False]] assms(3) by simp
qed

lemma solo_find:
  assumes "assoc_find_loop key nkey s ad d = Some res" and "lookup_key r = Some (key, nkey)" and "x \<in> S"
    and "concurrent a S C w" and "w_store w = s" and "w_phase w x = Walking r ad d" and "fst res \<noteq> 0"
  shows "concurrent a S C (go (w\<lparr>w_store := snd res\<rparr>) x (Found r (fst res)))"
proof -
  have "\<forall>r w. lookup_key r = Some (key, nkey) \<longrightarrow> concurrent a S C w \<longrightarrow> w_store w = s \<longrightarrow> w_phase w x = Walking r ad d \<longrightarrow>
      fst res \<noteq> 0 \<longrightarrow> concurrent a S C (go (w\<lparr>w_store := snd res\<rparr>) x (Found r (fst res)))"
  proof (rule assoc_find_loop.raw_induct [where P = "\<lambda>key nkey s ad d res. \<forall>r w. lookup_key r = Some (key, nkey) \<longrightarrow>
      concurrent a S C w \<longrightarrow> w_store w = s \<longrightarrow> w_phase w x = Walking r ad d \<longrightarrow> fst res \<noteq> 0 \<longrightarrow>
      concurrent a S C (go (w\<lparr>w_store := snd res\<rparr>) x (Found r (fst res)))", OF _ assms(1)], intro allI impI)
    fix find key nkey s ad d res r w
    assume IH: "\<And>key nkey s ad d res. find key nkey s ad d = Some res \<Longrightarrow> \<forall>r w. lookup_key r = Some (key, nkey) \<longrightarrow>
        concurrent a S C w \<longrightarrow> w_store w = s \<longrightarrow> w_phase w x = Walking r ad d \<longrightarrow> fst res \<noteq> 0 \<longrightarrow>
        concurrent a S C (go (w\<lparr>w_store := snd res\<rparr>) x (Found r (fst res)))"
      and run: "(if ad \<noteq> 0 then do {
          let depth = Suc d;
          let s = (if depth > max_depth (attrs s) then upd_attr s (max_depth_update (\<lambda>_. depth)) else s);
          it \<leftarrow> get_item s ad;
          m \<leftarrow> key_matches key nkey it;
          if m then Some (ad, s) else find key nkey s (it_hnext it) depth
        } else Some (0, s)) = Some res"
      and w: "lookup_key r = Some (key, nkey)" "concurrent a S C w" "w_store w = s" "w_phase w x = Walking r ad d" "fst res \<noteq> 0"
    define t where "t = (if Suc d > max_depth (attrs s) then upd_attr s (max_depth_update (\<lambda>_. Suc d)) else s)"
    define v where "v = go (w\<lparr>w_store := t\<rparr>) x (Matching r ad (Suc d))"
    have ad: "ad \<noteq> 0" using run w(5) by (cases "ad = 0") auto
    have v: "concurrent a S C v" "w_store v = t" "w_phase v x = Matching r ad (Suc d)"
      using concurrent_level [OF w(2) assms(3) w(4) ad, unfolded w(3)] by (simp_all add: v_def flip: t_def)
    from run ad have "do { it \<leftarrow> get_item t ad; m \<leftarrow> key_matches key nkey it;
        if m then Some (ad, t) else find key nkey t (it_hnext it) (Suc d) } = Some res"
      by (simp only: Let_def t_def [symmetric] if_True not_False_eq_True)
    then obtain it m where it: "get_item t ad = Some it" "key_matches key nkey it = Some m"
        "(if m then Some (ad, t) else find key nkey t (it_hnext it) (Suc d)) = Some res"
      by (auto simp only: bind_eq_Some_conv)
    show "concurrent a S C (go (w\<lparr>w_store := snd res\<rparr>) x (Found r (fst res)))"
    proof (cases m)
      case True
      then have "concurrent a S C (go v x (Found r ad))"
        using concurrent_step [OF v(1) assms(3) step.match [OF v(3) w(1)]] it(1,2) v(2,3) by simp
      then show ?thesis using True it(3) by (auto simp: v_def)
    next
      case False
      then have c: "concurrent a S C (go v x (Walking r (it_hnext it) (Suc d)))"
        using concurrent_step [OF v(1) assms(3) step.mismatch [OF v(3) w(1)]] it(1,2) v(2,3) by simp
      have "find key nkey t (it_hnext it) (Suc d) = Some res" using False it(3) by simp
      from IH [OF this, rule_format, OF w(1) c] show ?thesis using v(2) w(5) by (simp add: v_def)
    qed
  qed
  then show ?thesis using assms by simp
qed

text \<open>So they are the code of a lookup: alone, the steps find what it finds and leave the store it leaves.\<close>

lemma solo_lookup:
  assumes "concurrent a S C w" and "x \<in> S" and "w_phase w x = Holding (Op r)" and "lookup_key r = Some (key, nkey)"
    and "legal (w_store w) r" and "mutex_holder (w_locks w) = None"
    and "run_lookup r (w_store w) = Some (rc, out, s)" and "rc \<noteq> SHMC_NOTFOUND"
  shows "\<exists>ad. concurrent a S C (go (w\<lparr>w_store := s\<rparr>) x (Relinked r ad)) \<and> finish_lookup r s ad = Some (rc, out)"
proof -
  obtain slot hd ad s1 s2 where q: "key_slot (w_store w) key nkey = Some slot" "read_at (buckets (w_store w)) slot = Some hd"
      "assoc_find_loop key nkey (w_store w) hd 0 = Some (ad, s1)" "ad \<noteq> 0"
      "item_unlink s1 ad = Some s2" "item_link s2 ad = Some s" "finish_lookup r s ad = Some (rc, out)"
    using assms(7,8) run_lookup_parts [OF assms(4), of "w_store w"]
    by (auto simp: assoc_find_def split: Option.bind_splits if_splits)
  have "concurrent a S C (go w x (Walking r hd 0))"
    using concurrent_step [OF assms(1,2) step.hash [OF assms(3,4) q(1,2)]] assms(3,5) by simp
  from solo_find [OF q(3) assms(4,2) this] have "concurrent a S C (go (w\<lparr>w_store := s1\<rparr>) x (Found r ad))" using q(4) by simp
  from concurrent_step [OF this assms(2) step.take_mutex, of r ad]
  have "concurrent a S C (go (w\<lparr>w_store := s1, w_locks := (w_locks w)\<lparr>mutex_holder := Some x\<rparr>\<rparr>) x (Relinking r ad))"
    using assms(6) by (simp add: mutex_lock_Some)
  from concurrent_step [OF this assms(2) step.unlink, of r ad s2]
  have "concurrent a S C (go (w\<lparr>w_locks := (w_locks w)\<lparr>mutex_holder := Some x\<rparr>, w_store := s2\<rparr>) x (Unlinked r ad))"
    using q(5) by simp
  from concurrent_step [OF this assms(2) step.link, of r ad s]
  have "concurrent a S C (go (w\<lparr>w_locks := (w_locks w)\<lparr>mutex_holder := Some x\<rparr>, w_store := s\<rparr>) x (Linked r ad))"
    using q(6) by simp
  from concurrent_step [OF this assms(2) step.give_mutex, of r ad]
  have "concurrent a S C (go (w\<lparr>w_store := s, w_locks := (w_locks w)\<lparr>mutex_holder := None\<rparr>\<rparr>) x (Relinked r ad))"
    by (simp add: mutex_lock_Some)
  moreover have "(w_locks w)\<lparr>mutex_holder := None\<rparr> = w_locks w" using assms(6) by simp
  ultimately show ?thesis using q(7) by auto
qed

end
