(* ===== verification/Concurrency_Properties.thy ===== *)
theory Concurrency_Properties
  imports Concurrency
begin

text \<open>
  The properties of the wrappers under concurrency: mutual exclusion, relinking under the mutex,
  serialisation, progress.
\<close>

section \<open>The properties\<close>

text \<open>
  C18: mutual exclusion. Whoever the lock tells apart, with \<open>pthread\<close> locks all threads and with file
  locks one thread of each process: while one runs a wrapper that takes the write lock, no other
  is inside any wrapper.
\<close>

theorem mutual_exclusion:
  assumes "concurrent a S C w" and "one_thread (use_flock a) S" and "x \<in> S" and "y \<in> S" and "x \<noteq> y"
    and "w_phase w x = Holding c" and "\<not> reading c"
  shows "w_phase w y = Idle \<or> (\<exists>d. w_phase w y = Calling d)"
proof -
  note l = concurrent_lock_inv [OF assms(1,2)]
  have "lock_holds (use_flock a) (w_locks w) x = F_WRLCK" using lock_invD(4) [OF l assms(3)] assms(6,7) by simp
  from lib.exclusiveD [OF lock_invD(2) [OF l] assms(3-5) this] have "due (w_phase w y) = F_UNLCK"
    using lock_invD(4) [OF l assms(4)] by simp
  then show ?thesis by (cases "w_phase w y") (auto split: if_splits)
qed

text \<open>
  C19: calls are serialised, lookups included. Whatever the interleaving of any number of readers and
  writers, with \<open>pthread\<close> locks or one thread per process with file locks: whenever no agent is
  between the two halves of \<open>item_relink\<close>, the store is one that sequential calls bring about, up to
  the statistic \<open>max_depth\<close>, and so a well-formed store with the contents of an abstract one.
\<close>

theorem calls_serialise:
  assumes "attr_ok a" and "one_thread (use_flock a) S" and "concurrent a S C w"
    and "\<forall>x \<in> S. \<forall>r ad. w_phase w x \<noteq> Unlinked r ad"
  shows "sequential a (w_store w) \<and> (\<exists>A. implements (w_store w) A)"
proof -
  have "unlinked (w_phase w x) = None" if "x \<in> S" for x using assms(4) that by (cases "w_phase w x") auto
  then have "sequential a (w_store w)" by (rule serial_store [OF concurrent_serial [OF assms(1-3)]])
  then show ?thesis using sequential_implements [OF assms(1)] by blast
qed

text \<open>
  C20: no deadlock, with the lock and the mutex. When someone is in a call, then some agent that is in
  a call can take a step: no call gets stuck, in the lock, in the mutex or in the store.
\<close>

theorem no_deadlock:
  assumes "attr_ok a" and "one_thread (use_flock a) S" and "concurrent a S C w"
    and "\<forall>x \<in> S. \<forall>c. w_phase w x = Holding c \<longrightarrow> legal_call (w_store w) (w_dumps w) c"
    and "x \<in> S" and "w_phase w x \<noteq> Idle"
  shows "\<exists>y \<in> S. w_phase w y \<noteq> Idle \<and> (\<exists>w'. step (use_flock a) y w w')"
proof -
  note l = concurrent_lock_inv [OF assms(3,2)] and m = concurrent_mutex_inv [OF assms(3)]
    and ser = concurrent_serial [OF assms(1-3)]
  note go_on = holder_steps [OF assms(1) l m ser]
  show ?thesis
  proof (cases "mutex_holder (w_locks w)")
    case (Some z)
    then have z: "z \<in> S" "has_mutex (w_phase w z)" using m by (auto simp: mutex_inv_def)
    then have "due (w_phase w z) \<noteq> F_UNLCK" "\<And>r ad. w_phase w z \<noteq> Found r ad" "w_phase w z \<noteq> Idle"
      by (cases "w_phase w z"; simp)+
    then show ?thesis using go_on [OF z(1)] assms(4) z(1) by metis
  next
    case free: None
    show ?thesis
    proof (cases "\<exists>y \<in> S. due (w_phase w y) \<noteq> F_UNLCK")
      case True
      then obtain y where y: "y \<in> S" "due (w_phase w y) \<noteq> F_UNLCK" by blast
      then show ?thesis using go_on [OF y] assms(4) free by (metis due.simps(1))
    next
      case False
      then obtain c where c: "w_phase w x = Calling c" using assms(5,6) by (cases "w_phase w x") (auto split: if_splits)
      have "lock_holds (use_flock a) (w_locks w) y = F_UNLCK" if "y \<in> S" for y
        using False that lock_invD(4) [OF l that] by simp
      from lib.grant_possible [OF lock_invD(1,3) [OF l] this, of x]
      have "\<exists>l'. enter (use_flock a) c (w_locks w) x = Some l'" by (simp add: enter_def)
      then show ?thesis using step.lock [OF c] assms(5,6) by blast
    qed
  qed
qed

text \<open>
  C21: concurrent lookups answer what sequential ones do. Whatever other readers do between the steps of
  a lookup, relinking included: when it has given the mutex back, its return code, value and flags are
  those the \<open>_nolock\<close> function returns on a store that sequential calls bring about and whose hash
  table, chains and items' data are those of the segment, links of the lists of items apart. When it
  has reached the end of a chain, that function does not find the key either.
\<close>

theorem lookups_answer:
  assumes "attr_ok a" and "one_thread (use_flock a) S" and "concurrent a S C w" and "x \<in> S"
  shows "\<exists>t. sequential a t \<and> same_table t (w_store w)
    \<and> (\<forall>r ad. w_phase w x = Relinked r ad \<longrightarrow>
         (\<exists>rc out t'. finish_lookup r (w_store w) ad = Some (rc, out) \<and> run_lookup r t = Some (rc, out, t')))
    \<and> (\<forall>r d. w_phase w x = Walking r 0 d \<longrightarrow> (\<exists>t'. run_lookup r t = Some (SHMC_NOTFOUND, None, t')))"
proof -
  note ser = concurrent_serial [OF assms(1-3)]
  obtain t where t: "sequential a t" "same_table t (w_store w)" using serial_table [OF ser] by blast
  have way: "on_way t (w_phase w x)" using serial_on_way [OF ser assms(4)] on_way_same [OF t(2)] by simp
  have "\<exists>rc out t'. finish_lookup r (w_store w) ad = Some (rc, out) \<and> run_lookup r t = Some (rc, out, t')"
    if "w_phase w x = Relinked r ad" for r ad
    using located_runs [OF assms(1) t(1)] way that finish_same [OF t(2)] by auto
  moreover have "\<exists>t'. run_lookup r t = Some (SHMC_NOTFOUND, None, t')" if "w_phase w x = Walking r 0 d" for r d
    using way that by (auto simp: seeks_def hit_steps(2) hit_def run_lookup_parts)
  ultimately show ?thesis using t by blast
qed

section \<open>Worlds of two agents\<close>

definition pair_world :: "agent \<Rightarrow> agent \<Rightarrow> shmc \<Rightarrow> locks \<Rightarrow> phase \<Rightarrow> phase \<Rightarrow> world" where
  "pair_world x y s l px py = \<lparr>w_store = s, w_dumps = Map.empty, w_locks = l, w_phase = (\<lambda>_. Idle)(x := px, y := py)\<rparr>"

lemma pair_world_simps [simp]:
  "w_store (pair_world x y s l px py) = s" "w_locks (pair_world x y s l px py) = l"
  "w_dumps (pair_world x y s l px py) = Map.empty"
  "w_phase (pair_world x y s l px py) = (\<lambda>_. Idle)(x := px, y := py)"
  "x \<noteq> y \<Longrightarrow> go (pair_world x y s l px py) x p = pair_world x y s l p py"
  "x \<noteq> y \<Longrightarrow> go (pair_world x y s l px py) y p = pair_world x y s l px p"
  "(pair_world x y s l px py)\<lparr>w_store := s'\<rparr> = pair_world x y s' l px py"
  "(pair_world x y s l px py)\<lparr>w_locks := l'\<rparr> = pair_world x y s l' px py"
  "(pair_world x y s l px py)\<lparr>w_store := s', w_dumps := Map.empty\<rparr> = pair_world x y s' l px py"
  by (simp_all add: pair_world_def go_def fun_upd_twist)

lemma pair_swap: "x \<noteq> y \<Longrightarrow> pair_world x y s l px py = pair_world y x s l py px"
  by (simp add: pair_world_def fun_upd_twist)

text \<open>The first steps of the first agent; those of the second follow by swapping.\<close>

lemma pair_moves:
  assumes ne: "x \<noteq> y" and S: "x \<in> S"
  shows "concurrent a S C (pair_world x y s l Idle py) \<Longrightarrow> c \<in> C x \<Longrightarrow>
       concurrent a S C (pair_world x y s l (Calling c) py)"
    "concurrent a S C (pair_world x y s l (Calling c) py) \<Longrightarrow> enter (use_flock a) c l x = Some l' \<Longrightarrow>
       concurrent a S C (pair_world x y s l' (Holding c) py)"
proof -
  note m = concurrent.move [OF _ S, of a C "pair_world x y s l px py" for px]
  show "concurrent a S C (pair_world x y s l (Calling c) py)"
    if "concurrent a S C (pair_world x y s l Idle py)" "c \<in> C x"
    using m [OF that(1) step.begin_call, of c] that(2) ne by simp
  show "concurrent a S C (pair_world x y s l' (Holding c) py)"
    if "concurrent a S C (pair_world x y s l (Calling c) py)" "enter (use_flock a) c l x = Some l'"
    using m [OF that(1) step.lock, of c l'] that(2) ne by simp
qed

lemma pair_start: "reach a s \<Longrightarrow> concurrent a S C (pair_world x y s no_locks Idle Idle)"
  using concurrent.start [of a s S C Map.empty] by (simp add: pair_world_def fun_upd_idem)

section \<open>Witnesses\<close>

text \<open>Two agents of different processes on the small segment, one of them inside a set.\<close>

abbreviation ann :: agent where "ann \<equiv> (1, 0)"
abbreviation bob :: agent where "bob \<equiv> (2, 0)"

abbreviation one_set :: call where "one_set \<equiv> Op (Set (Buf 1 [1]) 1 [2, 3] 2 0)"

definition busy :: world where
  "busy = pair_world ann bob tiny_store (no_locks\<lparr>wr_holder := Some ann\<rparr>) (Holding one_set) Idle"

lemma busy_reachable: "concurrent tiny {ann, bob} (\<lambda>_. {one_set}) busy"
proof -
  have ne: "ann \<noteq> bob" by simp
  note m = pair_moves [OF ne, where S = "{ann, bob}" and a = tiny and C = "\<lambda>_. {one_set}" and s = tiny_store]
  have "enter (use_flock tiny) one_set no_locks ann = Some (no_locks\<lparr>wr_holder := Some ann\<rparr>)"
    by (simp add: enter_def shmc_wrlock_def pthread_wrlock_def no_locks_def tiny_def)
  then show ?thesis unfolding busy_def using m(2) [OF _ m(1) [OF _ pair_start [OF tiny_reach]]] by simp
qed

lemma busy_simps: "w_phase busy ann = Holding one_set" "w_phase busy bob = Idle" "w_store busy = tiny_store"
  "one_thread (use_flock tiny) {ann, bob}"
  by (simp_all add: busy_def one_thread_def)

text \<open>The same two agents, both inside a lookup.\<close>

abbreviation one_get :: call where "one_get \<equiv> Op (Get (Buf 1 [1]) 1 True)"

definition reading_both :: world where
  "reading_both = pair_world ann bob tiny_store (no_locks\<lparr>rd_holders := [bob, ann]\<rparr>) (Holding one_get) (Holding one_get)"

lemma reading_both_reachable: "concurrent tiny {ann, bob} (\<lambda>_. {one_get}) reading_both"
proof -
  have ne: "ann \<noteq> bob" "bob \<noteq> ann" and S: "ann \<in> {ann, bob}" "bob \<in> {ann, bob}" by simp_all
  note ma = pair_moves [OF ne(1) S(1), where a = tiny and C = "\<lambda>_. {one_get}" and s = tiny_store]
    and mb = pair_moves [OF ne(2) S(2), where a = tiny and C = "\<lambda>_. {one_get}" and s = tiny_store,
      unfolded pair_swap [OF ne(2)]]
  have e: "enter (use_flock tiny) one_get no_locks ann = Some (no_locks\<lparr>rd_holders := [ann]\<rparr>)"
    "enter (use_flock tiny) one_get (no_locks\<lparr>rd_holders := [ann]\<rparr>) bob = Some (no_locks\<lparr>rd_holders := [bob, ann]\<rparr>)"
    by (simp_all add: enter_def shmc_rdlock_def pthread_rdlock_def no_locks_def tiny_def)
  have "concurrent tiny {ann, bob} (\<lambda>_. {one_get}) (pair_world ann bob tiny_store no_locks (Calling one_get) Idle)"
    using ma(1) [OF pair_start [OF tiny_reach]] by simp
  from mb(1) [OF ma(2) [OF this e(1)]] mb(2) [OF _ e(2)] show ?thesis by (simp add: reading_both_def)
qed

theorem mutual_exclusion_witness: "w_phase busy bob = Idle \<or> (\<exists>d. w_phase busy bob = Calling d)"
  using mutual_exclusion [OF busy_reachable busy_simps(4), of ann bob] busy_simps(1) by simp

theorem calls_serialise_witness: "sequential tiny (w_store reading_both) \<and> (\<exists>A. implements (w_store reading_both) A)"
  by (rule calls_serialise [OF tiny_attr_ok busy_simps(4) reading_both_reachable]) (simp add: reading_both_def)

theorem no_deadlock_witness:
  "\<exists>y \<in> {ann, bob}. w_phase reading_both y \<noteq> Idle \<and> (\<exists>w'. step (use_flock tiny) y reading_both w')"
  by (intro no_deadlock [OF tiny_attr_ok busy_simps(4) reading_both_reachable, where x = ann]) (auto simp: reading_both_def)

text \<open>A lookup of a key that a set has stored, after its steps.\<close>

lemma found_reachable:
  "\<exists>w ad. concurrent tiny {ann, bob} (\<lambda>_. {one_get}) w \<and> w_phase w ann = Relinked (Get (Buf 1 [1]) 1 True) ad
     \<and> finish_lookup (Get (Buf 1 [1]) 1 True) (w_store w) ad = Some (SHMC_OK, Some ([2, 3], 0))"
proof -
  have leg: "legal tiny_store (Set (Buf 1 [1]) 1 [2, 3] 2 0)"
    using item_clsid_class_for [of 1 2 tiny_store] by (simp add: storable_def tiny_eval)
  have "a_set tiny_conf (tst [] [] [0, 0] [0]) [1] [2, 3] 0 = Some (SHMC_OK, tst [\<lparr>e_key = [1], e_val = [2, 3], e_flags = 0\<rparr>] [] [0] [0])"
    by (simp add: a_set_def a_del_def tiny_eval)
  then obtain s where s: "serve (Set (Buf 1 [1]) 1 [2, 3] 2 0) tiny_store = Some (SHMC_OK, s)"
      "implements s (tst [\<lparr>e_key = [1], e_val = [2, 3], e_flags = 0\<rparr>] [] [0] [0])" "conf_of s = tiny_conf"
    using set_refines [OF tiny_impl, of 1 "Buf 1 [1]" 2 "[2, 3]" 0] by (auto simp: tiny_eval)
  then obtain s' where s': "shmc_get_nolock s (Buf 1 [1]) 1 True = Some (SHMC_OK, Some ([2, 3], 0), s')"
    using get_refines [OF s(2), of 1 "Buf 1 [1]" True] by (auto simp: a_get_def tiny_find buf_key_def s(3))
  have ne: "ann \<noteq> bob" and S: "ann \<in> {ann, bob}" by simp_all
  note m = pair_moves [OF ne S, where a = tiny and C = "\<lambda>_. {one_get}" and s = s]
  let ?w = "pair_world ann bob s (no_locks\<lparr>rd_holders := [ann]\<rparr>) (Holding one_get) Idle"
  have "reach tiny s" using reach.served [OF tiny_reach leg] s(1) by simp
  from m(2) [OF m(1) [OF pair_start [OF this]], of one_get "no_locks\<lparr>rd_holders := [ann]\<rparr>"]
  have "concurrent tiny {ann, bob} (\<lambda>_. {one_get}) ?w"
    by (simp add: enter_def shmc_rdlock_def pthread_rdlock_def no_locks_def tiny_def)
  from solo_lookup [OF this S, of "Get (Buf 1 [1]) 1 True" "Buf 1 [1]" 1 SHMC_OK "Some ([2, 3], 0)" s']
  show ?thesis using s' by (fastforce simp: no_locks_def)
qed

theorem lookups_answer_witness:
  "\<exists>w ad t t'. concurrent tiny {ann, bob} (\<lambda>_. {one_get}) w \<and> w_phase w ann = Relinked (Get (Buf 1 [1]) 1 True) ad
     \<and> finish_lookup (Get (Buf 1 [1]) 1 True) (w_store w) ad = Some (SHMC_OK, Some ([2, 3], 0))
     \<and> same_table t (w_store w) \<and> run_lookup (Get (Buf 1 [1]) 1 True) t = Some (SHMC_OK, Some ([2, 3], 0), t')"
proof -
  obtain w ad where w: "concurrent tiny {ann, bob} (\<lambda>_. {one_get}) w" "w_phase w ann = Relinked (Get (Buf 1 [1]) 1 True) ad"
      "finish_lookup (Get (Buf 1 [1]) 1 True) (w_store w) ad = Some (SHMC_OK, Some ([2, 3], 0))"
    using found_reachable by blast
  then show ?thesis using lookups_answer [OF tiny_attr_ok busy_simps(4) w(1), of ann] by fastforce
qed

end
