(* ===== verification/Tokenizer.thy ===== *)
theory Tokenizer
  imports Prelude
begin

text \<open>
  \<open>netshell/token.c\<close>: splitting a command line at its spaces, in place. The line is the start of a
  buffer; a token is a position in it and a length. A backslash makes the next byte an ordinary
  one, whatever it is.
\<close>

section \<open>The code\<close>

record token =
  tok_value :: "nat option"
  tok_length :: nat

text \<open>
  The \<open>for\<close> loop, with \<open>lim\<close> for \<open>mtokens - 1\<close>; \<open>s\<close> and \<open>e\<close> are positions, the result is the tokens,
  \<open>e\<close> and the buffer. Reading past the buffer is undefined.
\<close>

function tok_loop :: "nat \<Rightarrow> byte list \<Rightarrow> nat \<Rightarrow> nat \<Rightarrow> bool \<Rightarrow> token list \<Rightarrow> (token list \<times> nat \<times> byte list) option" where
  "tok_loop lim mem s e esc toks =
     (if length toks < lim then
        if esc then tok_loop lim mem s (Suc e) False toks
        else if e < length mem then
          if mem ! e = 32 then
            if s \<noteq> e then
              tok_loop lim (mem[e := 0]) (Suc e) (Suc e) False (toks @ [\<lparr>tok_value = Some s, tok_length = e - s\<rparr>])
            else tok_loop lim mem (Suc e) (Suc e) False toks
          else if mem ! e = 0 then
            Some (if s \<noteq> e then toks @ [\<lparr>tok_value = Some s, tok_length = e - s\<rparr>] else toks, e, mem)
          else if mem ! e = 92 then tok_loop lim mem s (Suc e) True toks
          else tok_loop lim mem s (Suc e) False toks
        else None
      else Some (toks, e, mem))"
  by pat_completeness auto
termination
  by (relation "measure (\<lambda>(lim, mem, s, e, esc, toks). 2 * (length mem - e) + (if esc then 1 else 0))") auto

declare tok_loop.simps [simp del]

definition tokenize :: "byte list \<Rightarrow> nat \<Rightarrow> (token list \<times> byte list) option" where
  "tokenize mem mtokens = do {
     (toks, e, mem) \<leftarrow> tok_loop ((mtokens + 2 ^ 64 - 1) mod 2 ^ 64) mem 0 0 False [];
     ch \<leftarrow> read_at mem e;
     Some (toks @ [\<lparr>tok_value = (if ch = 0 then None else Some e), tok_length = 0\<rparr>], mem)
   }"

text \<open>The bytes of a token, and the text a C string function sees at its position.\<close>

definition token_text :: "byte list \<Rightarrow> token \<Rightarrow> byte list" where
  "token_text mem t = (case tok_value t of None \<Rightarrow> [] | Some p \<Rightarrow> take (tok_length t) (drop p mem))"

definition c_string :: "byte list \<Rightarrow> nat \<Rightarrow> byte list option" where
  "c_string mem p = (if 0 \<in> set (drop p mem) then Some (takeWhile (\<lambda>b. b \<noteq> 0) (drop p mem)) else None)"

section \<open>Words\<close>

text \<open>The reference: the maximal runs of other bytes between the spaces of a line.\<close>

function words :: "byte list \<Rightarrow> byte list list" where
  "words bs = (case dropWhile (\<lambda>b. b = 32) bs of
     [] \<Rightarrow> []
   | c # cs \<Rightarrow> takeWhile (\<lambda>b. b \<noteq> 32) (c # cs) # words (dropWhile (\<lambda>b. b \<noteq> 32) (c # cs)))"
  by pat_completeness auto
termination
proof (relation "measure length", goal_cases)
  case (2 bs c cs)
  have "length (dropWhile (\<lambda>b. b = 32) bs) \<le> length bs" by (rule length_dropWhile_le)
  then have "length (c # cs) \<le> length bs" using 2 by simp
  moreover have "c \<noteq> 32" using 2 by (metis (mono_tags, lifting) dropWhile_eq_Cons_conv)
  moreover have "length (dropWhile (\<lambda>b. b \<noteq> 32) cs) \<le> length cs" by (rule length_dropWhile_le)
  ultimately show ?case by simp
qed simp

declare words.simps [simp del]

lemma words_space: "words (32 # cs) = words cs"
  by (subst (1 2) words.simps) simp

lemma words_word:
  assumes "w \<noteq> []" and "32 \<notin> set w"
  shows "words (w @ 32 # cs) = w # words cs" "words w = [w]"
proof -
  have w: "takeWhile (\<lambda>b. b \<noteq> 32) (w @ 32 # cs) = w" "dropWhile (\<lambda>b. b \<noteq> 32) (w @ 32 # cs) = 32 # cs"
    "takeWhile (\<lambda>b. b \<noteq> 32) w = w" "dropWhile (\<lambda>b. b \<noteq> 32) w = []"
    using assms(2) by (induction w) auto
  have d: "dropWhile (\<lambda>b. b = 32) (w @ cs) = w @ cs" for cs using assms by (cases w) auto
  obtain c v where cv: "w = c # v" using assms(1) by (cases w) auto
  show "words (w @ 32 # cs) = w # words cs"
    by (subst words.simps, unfold d) (use w(1,2) words_space in \<open>simp add: cv\<close>)
  have "words [] = []" by (subst words.simps) simp
  then show "words w = [w]"
    by (subst words.simps, use d [of "[]"] in \<open>simp\<close>) (use w(3,4) in \<open>simp add: cv\<close>)
qed

section \<open>The loop finds the words\<close>

definition token_ends :: "byte list \<Rightarrow> token \<Rightarrow> bool" where
  "token_ends mem t \<longleftrightarrow> (\<exists>p. tok_value t = Some p \<and> 0 < tok_length t \<and> p + tok_length t < length mem
     \<and> mem ! (p + tok_length t) = 0)"

text \<open>
  Between two turns: \<open>pre\<close> is done with, \<open>w\<close> the part of a word read so far, \<open>cs\<close> the rest of the line.
\<close>

lemma tok_loop_words:
  assumes "0 \<notin> set cs" and "92 \<notin> set cs" and "32 \<notin> set w"
  shows "\<exists>new e' mem'. tok_loop lim (pre @ w @ cs @ 0 # rest) (length pre) (length pre + length w) False toks
      = Some (toks @ new, e', mem')
    \<and> map (token_text mem') new = take (lim - length toks) (words (w @ cs))
    \<and> take (length pre) mem' = pre \<and> length mem' = length (pre @ w @ cs @ 0 # rest)
    \<and> (\<forall>t \<in> set new. token_ends mem' t) \<and> e' < length mem'"
  using assms
proof (induction cs arbitrary: pre w toks)
  case Nil
  let ?mem = "pre @ w @ 0 # rest"
  let ?t = "\<lparr>tok_value = Some (length pre), tok_length = length w\<rparr>"
  have n: "?mem ! (length pre + length w) = 0" by (simp add: nth_append)
  have t: "token_text ?mem ?t = w" "w \<noteq> [] \<Longrightarrow> token_ends ?mem ?t"
    using n by (simp_all add: token_text_def token_ends_def)
  have w: "words w = (if w = [] then [] else [w])"
    using words_word(2) [of w] Nil.prems(3) by (simp add: words.simps [of "[]"])
  show ?case
  proof (cases "length toks < lim")
    case True
    then show ?thesis
      by (subst tok_loop.simps) (use n t w in \<open>auto simp: take_Cons'\<close>)
  qed (subst tok_loop.simps, simp)
next
  case (Cons c cs)
  let ?mem = "pre @ w @ (c # cs) @ 0 # rest" and ?e = "length pre + length w"
  have n: "?mem ! ?e = c" "?e < length ?mem" by (simp_all add: nth_append)
  have cs: "0 \<notin> set cs" "92 \<notin> set cs" "c \<noteq> 0" "c \<noteq> 92" using Cons.prems by auto
  show ?case
  proof (cases "length toks < lim")
    case False
    then show ?thesis by (subst tok_loop.simps) simp
  next
    case lim: True
    show ?thesis
    proof (cases "c = 32")
      case False
      have "tok_loop lim ?mem (length pre) ?e False toks = tok_loop lim ?mem (length pre) (Suc ?e) False toks"
        by (subst tok_loop.simps) (use lim n cs False in simp)
      then show ?thesis using Cons.IH [OF cs(1,2), of "w @ [c]" pre toks] Cons.prems(3) False by simp
    next
      case space: True
      show ?thesis
      proof (cases "w = []")
        case True
        have "tok_loop lim ?mem (length pre) ?e False toks = tok_loop lim ?mem (Suc ?e) (Suc ?e) False toks"
          by (subst tok_loop.simps) (use lim n space True in simp)
        moreover obtain new e' mem' where
          "tok_loop lim ((pre @ [32]) @ [] @ cs @ 0 # rest) (length (pre @ [32])) (length (pre @ [32]) + length ([] :: byte list))
             False toks = Some (toks @ new, e', mem')"
          "map (token_text mem') new = take (lim - length toks) (words ([] @ cs))"
          "take (length (pre @ [32])) mem' = pre @ [32]" "length mem' = length ((pre @ [32]) @ [] @ cs @ 0 # rest)"
          "\<forall>t \<in> set new. token_ends mem' t" "e' < length mem'"
          using Cons.IH [OF cs(1,2), of "[]" "pre @ [32]" toks] by auto
        moreover have "take (length pre) mem' = pre"
          using arg_cong [OF calculation(4), of "take (length pre)"] by (simp add: min_def)
        ultimately show ?thesis using space True by (auto simp: words_space)
      next
        case False
        let ?t = "\<lparr>tok_value = Some (length pre), tok_length = length w\<rparr>"
        have m: "?mem[?e := 0] = (pre @ w @ [0]) @ [] @ cs @ 0 # rest"
          by (simp add: list_update_append)
        have run: "tok_loop lim ?mem (length pre) ?e False toks
            = tok_loop lim ((pre @ w @ [0]) @ [] @ cs @ 0 # rest) (Suc ?e) (Suc ?e) False (toks @ [?t])"
          unfolding m [symmetric] by (subst tok_loop.simps) (use lim n(1,2) space False in simp)
        obtain new e' mem' where r:
          "tok_loop lim ((pre @ w @ [0]) @ [] @ cs @ 0 # rest) (length (pre @ w @ [0]))
             (length (pre @ w @ [0]) + length ([] :: byte list)) False (toks @ [?t]) = Some ((toks @ [?t]) @ new, e', mem')"
          "map (token_text mem') new = take (lim - length (toks @ [?t])) (words ([] @ cs))"
          "take (length (pre @ w @ [0])) mem' = pre @ w @ [0]"
          "length mem' = length ((pre @ w @ [0]) @ [] @ cs @ 0 # rest)"
          "\<forall>t \<in> set new. token_ends mem' t" "e' < length mem'"
          using Cons.IH [OF cs(1,2), of "[]" "pre @ w @ [0]" "toks @ [?t]"] by auto
        obtain post where post: "mem' = (pre @ w @ [0]) @ post"
          using r(3) by (metis append_take_drop_id)
        have t: "token_text mem' ?t = w" "token_ends mem' ?t"
          using False unfolding post by (simp_all add: token_text_def token_ends_def nth_append)
        have "lim - length toks = Suc (lim - length (toks @ [?t]))" using lim by simp
        then have "map (token_text mem') (?t # new) = take (lim - length toks) (words (w @ c # cs))"
          using r(2) t(1) words_word(1) [OF False Cons.prems(3)] space by simp
        moreover have "take (length pre) mem' = pre" unfolding post by simp
        ultimately show ?thesis using run r(1,4-6) t(2) by (intro exI [of _ "?t # new"] exI [of _ e'] exI [of _ mem']) simp
      qed
    qed
  qed
qed

lemma words_parts: "w \<in> set (words bs) \<Longrightarrow> set w \<subseteq> set bs - {32} \<and> w \<noteq> []"
proof (induction bs rule: words.induct)
  case (1 bs)
  show ?case
  proof (cases "dropWhile (\<lambda>b. b = 32) bs")
    case Nil
    then have "words bs = []" by (subst words.simps) (simp del: dropWhile_eq_Nil_conv)
    then show ?thesis using "1.prems" by simp
  next
    case (Cons c cs)
    have sub: "set (c # cs) \<subseteq> set bs" by (metis Cons set_dropWhileD subsetI)
    have c: "c \<noteq> 32" using Cons by (metis (mono_tags, lifting) dropWhile_eq_Cons_conv)
    have "w = takeWhile (\<lambda>b. b \<noteq> 32) (c # cs) \<or> w \<in> set (words (dropWhile (\<lambda>b. b \<noteq> 32) (c # cs)))"
      using "1.prems" Cons by (simp add: words.simps [of bs])
    then show ?thesis
    proof
      assume w: "w = takeWhile (\<lambda>b. b \<noteq> 32) (c # cs)"
      then show ?thesis using sub c by (auto dest: set_takeWhileD)
    next
      assume "w \<in> set (words (dropWhile (\<lambda>b. b \<noteq> 32) (c # cs)))"
      then have "set w \<subseteq> set (dropWhile (\<lambda>b. b \<noteq> 32) (c # cs)) - {32} \<and> w \<noteq> []" by (rule "1.IH" [OF Cons])
      then show ?thesis using sub set_dropWhileD [of _ "\<lambda>b. b \<noteq> 32" "c # cs"] by blast
    qed
  qed
qed

lemma token_c_string:
  assumes "token_ends mem t" and "0 \<notin> set (token_text mem t)" and "tok_value t = Some p"
  shows "c_string mem p = Some (token_text mem t)"
proof -
  have p: "p + tok_length t < length mem" "mem ! (p + tok_length t) = 0" using assms(1,3) by (auto simp: token_ends_def)
  define d where "d = drop p mem"
  have d: "tok_length t < length d" "d ! tok_length t = 0" using p by (simp_all add: d_def)
  have "d = take (tok_length t) d @ 0 # drop (Suc (tok_length t)) d"
    using id_take_nth_drop [OF d(1)] d(2) by simp
  moreover have "0 \<notin> set (take (tok_length t) d)" using assms(2,3) by (simp add: token_text_def d_def)
  moreover have "takeWhile (\<lambda>b. b \<noteq> 0) (x @ 0 # y) = x" if "0 \<notin> set x" for x y :: "byte list"
    using that by (induction x) auto
  ultimately have "takeWhile (\<lambda>b. b \<noteq> 0) d = take (tok_length t) d" by metis
  moreover have "0 \<in> set d" using d by (metis nth_mem)
  ultimately show ?thesis using assms(3) by (simp add: c_string_def token_text_def d_def)
qed

lemma tokenize_line:
  assumes "0 \<notin> set cmd" and "92 \<notin> set cmd" and "0 < m" and "m \<le> 2 ^ 64"
  shows "\<exists>toks last mem. tokenize (cmd @ 0 # rest) m = Some (toks @ [last], mem)
    \<and> map (token_text mem) toks = take (m - 1) (words cmd) \<and> tok_length last = 0
    \<and> (\<forall>t \<in> set toks. \<exists>p. tok_value t = Some p \<and> p + tok_length t \<le> length mem \<and> c_string mem p = Some (token_text mem t))
    \<and> length mem = length (cmd @ 0 # rest)"
proof -
  have "(m + 2 ^ 64 - 1) mod 2 ^ 64 = ((m - 1) + 2 ^ 64) mod 2 ^ 64"
    using assms(3) by (simp add: algebra_simps)
  also have "\<dots> = m - 1" using assms(3,4) by (simp only: mod_add_self2) simp
  finally have lim: "(m + 2 ^ 64 - 1) mod 2 ^ 64 = m - 1" .
  obtain new e mem where r: "tok_loop (m - 1) (cmd @ 0 # rest) 0 0 False [] = Some (new, e, mem)"
      "map (token_text mem) new = take (m - 1) (words cmd)" "length mem = length (cmd @ 0 # rest)"
      "\<forall>t \<in> set new. token_ends mem t" "e < length mem"
    using tok_loop_words [OF assms(1,2), of "[]" "m - 1" "[]" rest "[]"] by auto
  have "\<exists>p. tok_value t = Some p \<and> p + tok_length t \<le> length mem \<and> c_string mem p = Some (token_text mem t)" if t: "t \<in> set new" for t
  proof -
    have "token_text mem t \<in> set (words cmd)"
      using r(2) t by (metis in_set_takeD list.set_map imageI)
    then have "0 \<notin> set (token_text mem t)" using words_parts assms(1) by blast
    moreover obtain p where "tok_value t = Some p" "p + tok_length t \<le> length mem"
      using r(4) t by (auto simp: token_ends_def)
    ultimately show ?thesis using token_c_string r(4) t by blast
  qed
  moreover have "tokenize (cmd @ 0 # rest) m
      = Some (new @ [\<lparr>tok_value = (if mem ! e = 0 then None else Some e), tok_length = 0\<rparr>], mem)"
    unfolding tokenize_def lim using r(1,5) by simp
  ultimately show ?thesis using r(2,3) by auto
qed

text \<open>
  C36: on a line without zero bytes and backslashes \<open>tokenize\<close> returns the first \<open>mtokens - 1\<close> words of the
  line, followed by the closing token, and each of them is now a C string of its own in the
  buffer, whose length has not changed.
\<close>

theorem tokenize_words:
  assumes "0 \<notin> set cmd" and "92 \<notin> set cmd" and "0 < m" and "m \<le> 2 ^ 64"
  shows "\<exists>toks last mem. tokenize (cmd @ 0 # rest) m = Some (toks @ [last], mem)
    \<and> map (token_text mem) toks = take (m - 1) (words cmd) \<and> tok_length last = 0
    \<and> (\<forall>t \<in> set toks. \<exists>p. tok_value t = Some p \<and> c_string mem p = Some (token_text mem t))
    \<and> length mem = length (cmd @ 0 # rest)"
  using tokenize_line [OF assms] by blast

theorem tokenize_words_witness:
  "\<exists>toks last mem. tokenize ([103, 101, 116, 32, 32, 107, 32] @ 0 # []) 7 = Some (toks @ [last], mem)
    \<and> map (token_text mem) toks = [[103, 101, 116], [107]]"
proof -
  have "words [103, 101, 116, 32, 32, 107, 32] = [[103, 101, 116], [107]]"
    by (simp add: words.simps)
  then show ?thesis using tokenize_words [of "[103, 101, 116, 32, 32, 107, 32]" 7 "[]"] by force
qed

text \<open>A backslash at the end of the line hides its terminator, and the scan runs on.\<close>

lemma backslash_hides_end: "tokenize [92, 0] 7 = None"
  by (simp add: tokenize_def tok_loop.simps)

end
