(* ===== verification/Calls.thy ===== *)
theory Calls
  imports Locks
begin

text \<open>
  The inline functions of \<open>shmc.h\<close> as one caller sees them: take the lock, run the \<open>_nolock\<close> function, give
  the lock back. The state is the locks and the segment; \<open>None\<close> also stands for a caller that waits.
  The server calls them (theory \<open>Connection\<close>), and the programs that use the library do (theory
  \<open>Callers\<close>). Calls that overlap are in theory \<open>Wrappers\<close>.
\<close>

section \<open>Calls under a lock\<close>

text \<open>
  The read lock around a lookup. When the key is found, the \<open>_nolock\<close> function takes the mutex, relinks the
  item, and gives the mutex back; for a caller without rivals only that it takes and gives it back
  matters, and that is \<open>with_mutex\<close>.
\<close>

definition with_mutex :: "agent \<Rightarrow> (shmc \<Rightarrow> (shmc_rc \<times> 'o \<times> shmc) option) \<Rightarrow> locks \<times> shmc
    \<Rightarrow> ((shmc_rc \<times> 'o) \<times> locks \<times> shmc) option" where
  "with_mutex x lookup S = do {
     (rc, out, s) \<leftarrow> lookup (snd S);
     l \<leftarrow> (if rc = SHMC_NOTFOUND then Some (fst S)
          else do { l \<leftarrow> pthread_mutex_lock (fst S) x; pthread_mutex_unlock l x });
     Some ((rc, out), l, s)
   }"

fun under_rdlock :: "agent \<Rightarrow> (locks \<times> shmc \<Rightarrow> ('r \<times> locks \<times> shmc) option) \<Rightarrow> locks \<times> shmc \<Rightarrow> ('r \<times> locks \<times> shmc) option" where
  "under_rdlock x call (l, s) = do {
     l \<leftarrow> shmc_rdlock (use_flock (attrs s)) l x;
     (r, l, s) \<leftarrow> call (l, s);
     l \<leftarrow> shmc_unlock (use_flock (attrs s)) l x;
     Some (r, l, s)
   }"

fun under_wrlock :: "agent \<Rightarrow> (shmc \<Rightarrow> ('r \<times> shmc) option) \<Rightarrow> locks \<times> shmc \<Rightarrow> ('r \<times> locks \<times> shmc) option" where
  "under_wrlock x call (l, s) = do {
     l \<leftarrow> shmc_wrlock (use_flock (attrs s)) l x;
     (r, s) \<leftarrow> call s;
     l \<leftarrow> shmc_unlock (use_flock (attrs s)) l x;
     Some (r, l, s)
   }"

text \<open>The return code with what the call stores through its pointers.\<close>

definition paired :: "('a \<times> 'b \<times> shmc) option \<Rightarrow> (('a \<times> 'b) \<times> shmc) option" where
  "paired r = map_option (\<lambda>(a, b, s). ((a, b), s)) r"

definition shmc_get :: "agent \<Rightarrow> buf \<Rightarrow> nat \<Rightarrow> bool \<Rightarrow> locks \<times> shmc
    \<Rightarrow> ((shmc_rc \<times> (byte list \<times> u32) option) \<times> locks \<times> shmc) option" where
  "shmc_get x key nkey ok = under_rdlock x (with_mutex x (\<lambda>s. shmc_get_nolock s key nkey ok))"

definition shmc_getf :: "agent \<Rightarrow> buf \<Rightarrow> nat \<Rightarrow> nat \<Rightarrow> locks \<times> shmc
    \<Rightarrow> ((shmc_rc \<times> (byte list \<times> u32) option) \<times> locks \<times> shmc) option" where
  "shmc_getf x key nkey room = under_rdlock x (with_mutex x (\<lambda>s. shmc_getf_nolock s key nkey room))"

type_synonym storing = "agent \<Rightarrow> buf \<Rightarrow> nat \<Rightarrow> byte list \<Rightarrow> nat \<Rightarrow> u32 \<Rightarrow> locks \<times> shmc \<Rightarrow> (shmc_rc \<times> locks \<times> shmc) option"

definition shmc_set :: storing where
  "shmc_set x key nkey val nval f = under_wrlock x (\<lambda>s. shmc_set_nolock s key nkey val nval f)"

definition shmc_add :: storing where
  "shmc_add x key nkey val nval f = under_wrlock x (\<lambda>s. shmc_add_nolock s key nkey val nval f)"

definition shmc_replace :: storing where
  "shmc_replace x key nkey val nval f = under_wrlock x (\<lambda>s. shmc_replace_nolock s key nkey val nval f)"

definition shmc_prepend :: storing where
  "shmc_prepend x key nkey val nval f = under_wrlock x (\<lambda>s. shmc_prepend_nolock s key nkey val nval f)"

definition shmc_append :: storing where
  "shmc_append x key nkey val nval f = under_wrlock x (\<lambda>s. shmc_append_nolock s key nkey val nval f)"

definition shmc_incr :: "agent \<Rightarrow> buf \<Rightarrow> nat \<Rightarrow> u64 \<Rightarrow> u32 option \<Rightarrow> locks \<times> shmc
    \<Rightarrow> ((shmc_rc \<times> (u64 \<times> u32 option) option) \<times> locks \<times> shmc) option" where
  "shmc_incr x key nkey val flags = under_wrlock x (\<lambda>s. paired (shmc_incr_nolock s key nkey val flags))"

definition shmc_decr :: "agent \<Rightarrow> buf \<Rightarrow> nat \<Rightarrow> u64 \<Rightarrow> u32 option \<Rightarrow> locks \<times> shmc
    \<Rightarrow> ((shmc_rc \<times> (u64 \<times> u32 option) option) \<times> locks \<times> shmc) option" where
  "shmc_decr x key nkey val flags = under_wrlock x (\<lambda>s. paired (shmc_decr_nolock s key nkey val flags))"

definition shmc_del :: "agent \<Rightarrow> buf \<Rightarrow> nat \<Rightarrow> locks \<times> shmc \<Rightarrow> (shmc_rc \<times> locks \<times> shmc) option" where
  "shmc_del x key nkey = under_wrlock x (\<lambda>s. shmc_del_nolock s key nkey)"

text \<open>A dump yields the contents of its file, a load is given them; whether \<open>fopen\<close> works is passed in.\<close>

definition shmc_dump :: "agent \<Rightarrow> bool \<Rightarrow> locks \<times> shmc \<Rightarrow> ((shmc_rc \<times> byte list option) \<times> locks \<times> shmc) option" where
  "shmc_dump x opens = under_wrlock x (\<lambda>s. map_option (\<lambda>r. (r, s)) (shmc_dump_nolock s opens))"

definition shmc_load :: "agent \<Rightarrow> byte list option \<Rightarrow> nat option \<Rightarrow> locks \<times> shmc \<Rightarrow> (shmc_rc \<times> locks \<times> shmc) option" where
  "shmc_load x file p = under_wrlock x (\<lambda>s. shmc_load_nolock s file p)"

section \<open>A caller that finds the locks free\<close>

lemma free_lock:
  "\<exists>l. shmc_rdlock b no_locks x = Some l \<and> mutex_holder l = None \<and> shmc_unlock b l x = Some no_locks"
  "\<exists>l. shmc_wrlock b no_locks x = Some l \<and> shmc_unlock b l x = Some no_locks"
  by (cases x, simp add: shmc_rdlock_def shmc_wrlock_def shmc_unlock_def flock_as_def shmc_fcntl_def
      pthread_rdlock_def pthread_wrlock_def pthread_unlock_def no_locks_def)+

lemma unlock_any: "shmc_unlock b l x \<bind> (\<lambda>_. c) = c"
  by (simp add: shmc_unlock_def flock_as_def shmc_fcntl_def pthread_unlock_def)

lemma with_mutex_free:
  "mutex_holder l = None \<Longrightarrow> with_mutex x lookup (l, s) = map_option (\<lambda>(rc, out, s). ((rc, out), l, s)) (lookup s)"
  by (cases "lookup s") (auto simp: with_mutex_def pthread_mutex_lock_def pthread_mutex_unlock_def)

text \<open>A call that finds the locks free leaves them free.\<close>

lemma free_locks:
  "lookup s = Some (rc, out, s') \<Longrightarrow> use_flock (attrs s') = use_flock (attrs s) \<Longrightarrow>
     under_rdlock x (with_mutex x lookup) (no_locks, s) = Some ((rc, out), no_locks, s')"
  "call s = Some (r, s') \<Longrightarrow> use_flock (attrs s') = use_flock (attrs s) \<Longrightarrow>
     under_wrlock x call (no_locks, s) = Some (r, no_locks, s')"
  using free_lock [of "use_flock (attrs s)" x] by (auto simp: with_mutex_free)

text \<open>A process that has the token to itself: every call finds the locks free.\<close>

definition locked_call :: "(locks \<times> shmc \<Rightarrow> ('r \<times> locks \<times> shmc) option) \<Rightarrow> shmc \<Rightarrow> ('r \<times> shmc) option" where
  "locked_call call s = do { (r, l, s) \<leftarrow> call (no_locks, s); Some (r, s) }"

lemma locked_under:
  "locked_call (under_wrlock x call) s = call s"
  "locked_call (under_rdlock x (with_mutex x lookup)) s = paired (lookup s)"
proof -
  obtain l where "shmc_wrlock (use_flock (attrs s)) no_locks x = Some l" using free_lock(2) by blast
  then show "locked_call (under_wrlock x call) s = call s"
    by (cases "call s") (auto simp: locked_call_def unlock_any)
next
  obtain l where "shmc_rdlock (use_flock (attrs s)) no_locks x = Some l" "mutex_holder l = None" using free_lock(1) by blast
  then show "locked_call (under_rdlock x (with_mutex x lookup)) s = paired (lookup s)"
    by (cases "lookup s") (auto simp: locked_call_def with_mutex_free paired_def unlock_any)
qed

text \<open>For such a process the wrappers are the \<open>_nolock\<close> functions.\<close>

lemma locked_calls [simp]:
  "locked_call (shmc_get x key nkey ok) s = paired (shmc_get_nolock s key nkey ok)"
  "locked_call (shmc_set x key nkey val nval f) s = shmc_set_nolock s key nkey val nval f"
  "locked_call (shmc_add x key nkey val nval f) s = shmc_add_nolock s key nkey val nval f"
  "locked_call (shmc_replace x key nkey val nval f) s = shmc_replace_nolock s key nkey val nval f"
  "locked_call (shmc_prepend x key nkey val nval f) s = shmc_prepend_nolock s key nkey val nval f"
  "locked_call (shmc_append x key nkey val nval f) s = shmc_append_nolock s key nkey val nval f"
  "locked_call (shmc_incr x key nkey n flags) s = paired (shmc_incr_nolock s key nkey n flags)"
  "locked_call (shmc_decr x key nkey n flags) s = paired (shmc_decr_nolock s key nkey n flags)"
  "locked_call (shmc_del x key nkey) s = shmc_del_nolock s key nkey"
  "locked_call (shmc_dump x opens) s = map_option (\<lambda>r. (r, s)) (shmc_dump_nolock s opens)"
  "locked_call (shmc_load x file p) s = shmc_load_nolock s file p"
  by (simp_all add: locked_under shmc_get_def shmc_set_def shmc_add_def shmc_replace_def shmc_prepend_def shmc_append_def
      shmc_incr_def shmc_decr_def shmc_del_def shmc_dump_def shmc_load_def del: under_rdlock.simps under_wrlock.simps)

lemma paired_bind [simp]: "paired r \<bind> (\<lambda>((a, b), s). f a b s) = r \<bind> (\<lambda>(a, b, s). f a b s)"
  by (cases r) (auto simp: paired_def)

declare under_rdlock.simps [simp del] under_wrlock.simps [simp del]

end
