(* ===== verification/Connection.thy ===== *)
theory Connection
  imports Dump_Load Tokenizer Calls
begin

text \<open>
  \<open>netshell/mcshell.cc\<close>: one connection of the memcache server \<open>netshell\<close>, the class \<open>McConn\<close>. Its state
  machine reads a request line, for storing commands a body, runs the command on the store and
  writes the response. What the kernel answers (bytes received, bytes it takes, whether
  \<open>epoll_ctl\<close>, \<open>malloc\<close> and \<open>fopen\<close> succeed) comes from scripts in the record \<open>net\<close>.
\<close>

section \<open>Data\<close>

datatype conn_state = Listening | Read | NRead | Write | Close

datatype dm_state = DmStop | DmGoOn

datatype cmd_type = CmdSet | CmdAdd | CmdReplace | CmdPrepend | CmdAppend

fun stateTxt :: "conn_state \<Rightarrow> string" where
  "stateTxt Listening = ''listening''"
| "stateTxt Read = ''reading''"
| "stateTxt NRead = ''nreading''"
| "stateTxt Write = ''writing''"
| "stateTxt Close = ''close''"

definition MAX_TOKENS :: nat where "MAX_TOKENS = 7"
definition REQ_HEADER_SIZE :: nat where "REQ_HEADER_SIZE = 312"
definition RES_HEADER_SIZE :: nat where "RES_HEADER_SIZE = 312"

text \<open>\<open>stats_t\<close>, shared by the connections.\<close>

record stats =
  get_cnts :: u64
  set_cnts :: u64
  del_cnts :: u64
  incr_cnts :: u64
  decr_cnts :: u64
  get_misses :: u64
  del_misses :: u64
  incr_misses :: u64
  decr_misses :: u64
  err_cnts :: u64

text \<open>
  The members of \<open>McConn\<close>. Buffers are the bytes allocated for them, \<open>None\<close> for a null pointer;
  \<open>headerAddr\<close> is the address of \<open>reqHeader_\<close>. \<open>tokens\<close> is the part of the array in use.
\<close>

record conn =
  cstate :: conn_state
  headerAddr :: nat
  reqHeader :: "byte list"
  reqHeaderBytes :: nat
  reqBody :: "byte list option"
  reqBodySize :: nat
  reqBodyBytes :: nat
  reqBodyCapability :: nat
  resHeader :: "byte list"
  resHeaderSize :: nat
  resHeaderBytes :: nat
  resBody :: "byte list option"
  resBodySize :: nat
  resBodyBytes :: nat
  resTailBytes :: nat
  ctype :: cmd_type
  cflags :: u32
  tokens :: "token list"

text \<open>\<open>Bytes []\<close> is the end of the stream; when a script has run out there is nothing to read for now.\<close>

datatype recv = Bytes "byte list" | Again | Failed

text \<open>
  \<open>n_accept\<close>: where the header buffer of an accepted connection is put, \<open>None\<close> when \<open>accept\<close> or \<open>fcntl\<close>
  fails. \<open>n_writev\<close>: how many bytes each \<open>writev\<close> takes, or \<open>None\<close> for an error; it takes all when the script
  has run out. \<open>n_sent\<close> is what the peer has been sent. \<open>epoll_ctl\<close> succeeds when its script has
  run out.
\<close>

record net =
  n_accept :: "nat option"
  n_recv :: "recv list"
  n_writev :: "nat option list"
  n_epoll :: "bool list"
  n_malloc :: bool
  n_fopen :: bool
  n_errno :: string
  n_sent :: "byte list"

text \<open>\<open>peers\<close>: the connections that have been accepted and given to the event manager.\<close>

record server =
  conn :: conn
  peers :: "conn list"
  store :: shmc
  stats :: stats
  files :: "byte list \<Rightarrow> byte list option"
  net :: net

abbreviation upd_conn :: "(conn \<Rightarrow> conn) \<Rightarrow> server \<Rightarrow> server" where
  "upd_conn f s \<equiv> s\<lparr>conn := f (conn s)\<rparr>"

abbreviation upd_net :: "(net \<Rightarrow> net) \<Rightarrow> server \<Rightarrow> server" where
  "upd_net f s \<equiv> s\<lparr>net := f (net s)\<rparr>"

abbreviation count :: "((u64 \<Rightarrow> u64) \<Rightarrow> stats \<Rightarrow> stats) \<Rightarrow> server \<Rightarrow> server" where
  "count fld s \<equiv> s\<lparr>stats := fld (\<lambda>n. n + 1) (stats s)\<rparr>"

section \<open>Responses\<close>

abbreviation crlf :: "byte list" where "crlf \<equiv> [13, 10]"

text \<open>\<open>vsnprintf\<close> writes at most the buffer, its result is the length of the whole text.\<close>

definition outString :: "byte list \<Rightarrow> server \<Rightarrow> server" where
  "outString t = upd_conn (\<lambda>c. c\<lparr>resHeader := blit (resHeader c) 0 (take (RES_HEADER_SIZE - 1) t @ [0]),
     resHeaderSize := length t\<rparr>)"

definition serverError :: "shmc_rc \<Rightarrow> server \<Rightarrow> server" where
  "serverError rc s = outString (text_of ''SERVER_ERROR '' @ text_of (shmc_error (n_errno (net s)) rc) @ crlf)
     (count err_cnts_update s)"

text \<open>Arguments of a command: a token as key, and as C string.\<close>

definition key_arg :: "conn \<Rightarrow> (buf \<times> nat) option" where
  "key_arg c = do {
     t \<leftarrow> read_at (tokens c) 1;
     p \<leftarrow> tok_value t;
     Some (Buf (headerAddr c + p) (drop p (reqHeader c)), tok_length t)
   }"

definition str_arg :: "conn \<Rightarrow> nat \<Rightarrow> byte list option" where
  "str_arg c i = do {
     t \<leftarrow> read_at (tokens c) i;
     p \<leftarrow> tok_value t;
     c_string (reqHeader c) p
   }"

text \<open>\<open>strtoull\<close> and \<open>strtoul\<close> with base 10: white space, a sign, digits; too large a number gives the maximum.\<close>

definition strtoull10 :: "byte list \<Rightarrow> u64" where
  "strtoull10 txt =
     (let t = dropWhile is_space txt;
          neg = (t \<noteq> [] \<and> hd t = 45);
          v = digits (if t \<noteq> [] \<and> (hd t = 45 \<or> hd t = 43) then tl t else t) 0
      in if 2 ^ 64 \<le> v then - 1 else if neg then - of_nat v else of_nat v)"

section \<open>Commands without a body\<close>

text \<open>
  The commands call the locking wrappers of \<open>shmc.h\<close>. The server has one thread, and its calls find the
  locks free (theory \<open>Calls\<close>); what other processes do between them is in theory \<open>Wrappers\<close>.
\<close>

definition server_agent :: agent where
  "server_agent = (0, 0)"

definition doGet :: "server \<Rightarrow> server option" where
  "doGet s = do {
     let s = count get_cnts_update s;
     (key, nkey) \<leftarrow> key_arg (conn s);
     ((rc, out), st) \<leftarrow> locked_call (shmc_get server_agent key nkey (n_malloc (net s))) (store s);
     let s = s\<lparr>store := st\<rparr>;
     (case out of
        Some (v, f) \<Rightarrow> do {
          k \<leftarrow> str_arg (conn s) 1;
          let s = outString (text_of ''VALUE '' @ k @ [32] @ dec (unat f) @ [32] @ fmt_d (as_int (length v)) @ crlf) s;
          Some (upd_conn (\<lambda>c. c\<lparr>resBody := Some v, resBodySize := length v\<rparr>) s)
        }
      | None \<Rightarrow>
          if rc = SHMC_NOTFOUND then Some (outString (text_of ''END'' @ crlf) (count get_misses_update s))
          else Some (serverError rc s))
   }"

definition doIncr :: "server \<Rightarrow> server option" where
  "doIncr s = do {
     arg \<leftarrow> str_arg (conn s) 2;
     let s = count incr_cnts_update s;
     (key, nkey) \<leftarrow> key_arg (conn s);
     ((rc, out), st) \<leftarrow> locked_call (shmc_incr server_agent key nkey (strtoull10 arg) None) (store s);
     let s = s\<lparr>store := st\<rparr>;
     (case out of
        Some (n, _) \<Rightarrow> Some (outString (dec (unat n) @ crlf) s)
      | None \<Rightarrow>
          if rc = SHMC_NOTFOUND then Some (outString (text_of ''NOT_FOUND'' @ crlf) (count incr_misses_update s))
          else Some (serverError rc s))
   }"

definition doDecr :: "server \<Rightarrow> server option" where
  "doDecr s = do {
     arg \<leftarrow> str_arg (conn s) 2;
     let s = count decr_cnts_update s;
     (key, nkey) \<leftarrow> key_arg (conn s);
     ((rc, out), st) \<leftarrow> locked_call (shmc_decr server_agent key nkey (strtoull10 arg) None) (store s);
     let s = s\<lparr>store := st\<rparr>;
     (case out of
        Some (n, _) \<Rightarrow> Some (outString (dec (unat n) @ crlf) s)
      | None \<Rightarrow>
          if rc = SHMC_NOTFOUND then Some (outString (text_of ''NOT_FOUND'' @ crlf) (count decr_misses_update s))
          else Some (serverError rc s))
   }"

definition doDelete :: "server \<Rightarrow> server option" where
  "doDelete s = do {
     let s = count del_cnts_update s;
     (key, nkey) \<leftarrow> key_arg (conn s);
     (rc, st) \<leftarrow> locked_call (shmc_del server_agent key nkey) (store s);
     let s = s\<lparr>store := st\<rparr>;
     if rc = SHMC_OK then Some (outString (text_of ''DELETED'' @ crlf) s)
     else if rc = SHMC_NOTFOUND then Some (outString (text_of ''NOT_FOUND'' @ crlf) (count del_misses_update s))
     else Some (serverError rc s)
   }"

text \<open>\<open>%.2f\<close> of a float: the nearest number of hundredths, ties to even.\<close>

definition hundredths :: "f32 \<Rightarrow> nat" where
  "hundredths x =
     (let q = f32_num x * 100 div 2 ^ f32_scale x; r = f32_num x * 100 mod 2 ^ f32_scale x in
      if 2 * r > 2 ^ f32_scale x \<or> (2 * r = 2 ^ f32_scale x \<and> odd q) then q + 1 else q)"

definition fmt_2f :: "f32 \<Rightarrow> byte list" where
  "fmt_2f x = (let h = hundredths x in
     dec (h div 100) @ [46] @ [of_nat (48 + h div 10 mod 10), of_nat (48 + h mod 10)])"

definition flag_text :: "bool \<Rightarrow> byte list" where
  "flag_text b = (if b then [49] else [48])"

text \<open>\<open>STATS_SIZE\<close> is 1024; past it the code would write outside of its buffer.\<close>

definition stats_text :: "stats \<Rightarrow> attr \<Rightarrow> byte list" where
  "stats_text st a = concat (map (\<lambda>(name, v). text_of ''STAT '' @ text_of name @ [32] @ v @ crlf)
     [(''cmd_get'', dec (unat (get_cnts st))), (''cmd_set'', dec (unat (set_cnts st))),
      (''cmd_del'', dec (unat (del_cnts st))), (''cmd_incr'', dec (unat (incr_cnts st))),
      (''cmd_decr'', dec (unat (decr_cnts st))), (''get_misses'', dec (unat (get_misses st))),
      (''del_misses'', dec (unat (del_misses st))), (''incr_misses'', dec (unat (incr_misses st))),
      (''decr_misses'', dec (unat (decr_misses st))), (''err_cnts'', dec (unat (err_cnts st))),
      (''nbuckets'', fmt_d (as_int (nbuckets a))), (''item_min'', fmt_d (as_int (item_size_min a))),
      (''item_max'', fmt_d (as_int (item_size_max a))), (''item_factor'', fmt_2f (item_size_factor a)),
      (''evict_free'', flag_text (evict_to_free a)), (''default_counter'', flag_text (default_counter a)),
      (''use_flock'', flag_text (use_flock a)), (''bytes'', dec (mem_used a)),
      (''limit_maxbytes'', dec (mem_limit a)), (''total_items'', dec (nitems a))])
   @ text_of ''STAT max_depth '' @ fmt_d (as_int (max_depth a))"

definition doStats :: "server \<Rightarrow> server option" where
  "doStats s =
     (if \<not> n_malloc (net s) then
        Some (outString (text_of ''SERVER_ERROR out of memory'' @ crlf) (upd_conn (resBody_update (\<lambda>_. None)) s))
      else do {
        let t = stats_text (stats s) (attrs (store s));
        guard (length t < 1024);
        Some (upd_conn (\<lambda>c. c\<lparr>resBody := Some t, resBodySize := length t\<rparr>) s)
      })"

definition doDump :: "server \<Rightarrow> server option" where
  "doDump s = do {
     name \<leftarrow> str_arg (conn s) 1;
     ((rc, out), st) \<leftarrow> locked_call (shmc_dump server_agent (n_fopen (net s))) (store s);
     let s = s\<lparr>store := st\<rparr>;
     let s = (if out = None then s else s\<lparr>files := (files s)(name := out)\<rparr>);
     if rc = SHMC_OK then Some (outString (text_of ''DUMPED'' @ crlf) s) else Some (serverError rc s)
   }"

text \<open>\<open>p\<close>: where \<open>malloc\<close> puts the buffer of the reader.\<close>

definition doLoad :: "nat \<Rightarrow> server \<Rightarrow> server option" where
  "doLoad p s = do {
     name \<leftarrow> str_arg (conn s) 1;
     (rc, st) \<leftarrow> locked_call (shmc_load server_agent (if n_fopen (net s) then files s name else None)
       (if n_malloc (net s) then Some p else None)) (store s);
     let s = s\<lparr>store := st\<rparr>;
     if rc = SHMC_OK then Some (outString (text_of ''LOADED'' @ crlf) s) else Some (serverError rc s)
   }"

section \<open>Commands with a body\<close>

text \<open>\<open>reqBodySize_ - 2\<close> on a \<open>size_t\<close>; a null body holds no bytes.\<close>

definition body_size :: "conn \<Rightarrow> nat" where
  "body_size c = (reqBodySize c + 2 ^ 64 - 2) mod 2 ^ 64"

definition body_bytes :: "conn \<Rightarrow> byte list" where
  "body_bytes c = (case reqBody c of None \<Rightarrow> [] | Some b \<Rightarrow> b)"

definition doSet :: "server \<Rightarrow> server option" where
  "doSet s = do {
     let s = count set_cnts_update s;
     (key, nkey) \<leftarrow> key_arg (conn s);
     (rc, st) \<leftarrow> locked_call (shmc_set server_agent key nkey (body_bytes (conn s)) (body_size (conn s)) (cflags (conn s))) (store s);
     let s = s\<lparr>store := st\<rparr>;
     if rc = SHMC_OK then Some (outString (text_of ''STORED'' @ crlf) s)
     else Some (serverError rc s)
   }"

definition doAdd :: "server \<Rightarrow> server option" where
  "doAdd s = do {
     let s = count set_cnts_update s;
     (key, nkey) \<leftarrow> key_arg (conn s);
     (rc, st) \<leftarrow> locked_call (shmc_add server_agent key nkey (body_bytes (conn s)) (body_size (conn s)) (cflags (conn s))) (store s);
     let s = s\<lparr>store := st\<rparr>;
     if rc = SHMC_OK then Some (outString (text_of ''STORED'' @ crlf) s)
     else if rc = SHMC_EXIST then Some (outString (text_of ''EXISTS'' @ crlf) s)
     else Some (serverError rc s)
   }"

definition doReplace :: "server \<Rightarrow> server option" where
  "doReplace s = do {
     let s = count set_cnts_update s;
     (key, nkey) \<leftarrow> key_arg (conn s);
     (rc, st) \<leftarrow> locked_call (shmc_replace server_agent key nkey (body_bytes (conn s)) (body_size (conn s)) (cflags (conn s))) (store s);
     let s = s\<lparr>store := st\<rparr>;
     if rc = SHMC_OK then Some (outString (text_of ''STORED'' @ crlf) s)
     else if rc = SHMC_NOTFOUND then Some (outString (text_of ''NOT_FOUND'' @ crlf) s)
     else Some (serverError rc s)
   }"

definition doPrepend :: "server \<Rightarrow> server option" where
  "doPrepend s = do {
     let s = count set_cnts_update s;
     (key, nkey) \<leftarrow> key_arg (conn s);
     (rc, st) \<leftarrow> locked_call (shmc_prepend server_agent key nkey (body_bytes (conn s)) (body_size (conn s)) (cflags (conn s))) (store s);
     let s = s\<lparr>store := st\<rparr>;
     if rc = SHMC_OK then Some (outString (text_of ''STORED'' @ crlf) s)
     else if rc = SHMC_NOTFOUND then Some (outString (text_of ''NOT_FOUND'' @ crlf) s)
     else Some (serverError rc s)
   }"

definition doAppend :: "server \<Rightarrow> server option" where
  "doAppend s = do {
     let s = count set_cnts_update s;
     (key, nkey) \<leftarrow> key_arg (conn s);
     (rc, st) \<leftarrow> locked_call (shmc_append server_agent key nkey (body_bytes (conn s)) (body_size (conn s)) (cflags (conn s))) (store s);
     let s = s\<lparr>store := st\<rparr>;
     if rc = SHMC_OK then Some (outString (text_of ''STORED'' @ crlf) s)
     else if rc = SHMC_NOTFOUND then Some (outString (text_of ''NOT_FOUND'' @ crlf) s)
     else Some (serverError rc s)
   }"

section \<open>The commands without their locks\<close>

text \<open>With the locks free, the commands are these; the proofs start from here.\<close>

lemma doGet_eq:
  "doGet s = do {
     let s = count get_cnts_update s;
     (key, nkey) \<leftarrow> key_arg (conn s);
     (rc, out, st) \<leftarrow> shmc_get_nolock (store s) key nkey (n_malloc (net s));
     let s = s\<lparr>store := st\<rparr>;
     (case out of
        Some (v, f) \<Rightarrow> do {
          k \<leftarrow> str_arg (conn s) 1;
          let s = outString (text_of ''VALUE '' @ k @ [32] @ dec (unat f) @ [32] @ fmt_d (as_int (length v)) @ crlf) s;
          Some (upd_conn (\<lambda>c. c\<lparr>resBody := Some v, resBodySize := length v\<rparr>) s)
        }
      | None \<Rightarrow>
          if rc = SHMC_NOTFOUND then Some (outString (text_of ''END'' @ crlf) (count get_misses_update s))
          else Some (serverError rc s))
   }"
  by (simp add: doGet_def cong: if_cong option.case_cong)

lemma doIncr_eq:
  "doIncr s = do {
     arg \<leftarrow> str_arg (conn s) 2;
     let s = count incr_cnts_update s;
     (key, nkey) \<leftarrow> key_arg (conn s);
     (rc, out, st) \<leftarrow> shmc_incr_nolock (store s) key nkey (strtoull10 arg) None;
     let s = s\<lparr>store := st\<rparr>;
     (case out of
        Some (n, _) \<Rightarrow> Some (outString (dec (unat n) @ crlf) s)
      | None \<Rightarrow>
          if rc = SHMC_NOTFOUND then Some (outString (text_of ''NOT_FOUND'' @ crlf) (count incr_misses_update s))
          else Some (serverError rc s))
   }"
  by (simp add: doIncr_def cong: if_cong option.case_cong)

lemma doDecr_eq:
  "doDecr s = do {
     arg \<leftarrow> str_arg (conn s) 2;
     let s = count decr_cnts_update s;
     (key, nkey) \<leftarrow> key_arg (conn s);
     (rc, out, st) \<leftarrow> shmc_decr_nolock (store s) key nkey (strtoull10 arg) None;
     let s = s\<lparr>store := st\<rparr>;
     (case out of
        Some (n, _) \<Rightarrow> Some (outString (dec (unat n) @ crlf) s)
      | None \<Rightarrow>
          if rc = SHMC_NOTFOUND then Some (outString (text_of ''NOT_FOUND'' @ crlf) (count decr_misses_update s))
          else Some (serverError rc s))
   }"
  by (simp add: doDecr_def cong: if_cong option.case_cong)

lemma doDelete_eq:
  "doDelete s = do {
     let s = count del_cnts_update s;
     (key, nkey) \<leftarrow> key_arg (conn s);
     (rc, st) \<leftarrow> shmc_del_nolock (store s) key nkey;
     let s = s\<lparr>store := st\<rparr>;
     if rc = SHMC_OK then Some (outString (text_of ''DELETED'' @ crlf) s)
     else if rc = SHMC_NOTFOUND then Some (outString (text_of ''NOT_FOUND'' @ crlf) (count del_misses_update s))
     else Some (serverError rc s)
   }"
  by (simp add: doDelete_def cong: if_cong option.case_cong)

lemma doDump_eq:
  "doDump s = do {
     name \<leftarrow> str_arg (conn s) 1;
     (rc, out) \<leftarrow> shmc_dump_nolock (store s) (n_fopen (net s));
     let s = (if out = None then s else s\<lparr>files := (files s)(name := out)\<rparr>);
     if rc = SHMC_OK then Some (outString (text_of ''DUMPED'' @ crlf) s) else Some (serverError rc s)
   }"
  by (cases "shmc_dump_nolock (store s) (n_fopen (net s))") (auto simp: doDump_def intro!: Option.bind_cong)

lemma doLoad_eq:
  "doLoad p s = do {
     name \<leftarrow> str_arg (conn s) 1;
     (rc, st) \<leftarrow> shmc_load_nolock (store s) (if n_fopen (net s) then files s name else None)
       (if n_malloc (net s) then Some p else None);
     let s = s\<lparr>store := st\<rparr>;
     if rc = SHMC_OK then Some (outString (text_of ''LOADED'' @ crlf) s) else Some (serverError rc s)
   }"
  by (simp add: doLoad_def cong: if_cong option.case_cong)

lemma doSet_eq:
  "doSet s = do {
     let s = count set_cnts_update s;
     (key, nkey) \<leftarrow> key_arg (conn s);
     (rc, st) \<leftarrow> shmc_set_nolock (store s) key nkey (body_bytes (conn s)) (body_size (conn s)) (cflags (conn s));
     let s = s\<lparr>store := st\<rparr>;
     if rc = SHMC_OK then Some (outString (text_of ''STORED'' @ crlf) s)
     else Some (serverError rc s)
   }"
  by (simp add: doSet_def cong: if_cong option.case_cong)

lemma doAdd_eq:
  "doAdd s = do {
     let s = count set_cnts_update s;
     (key, nkey) \<leftarrow> key_arg (conn s);
     (rc, st) \<leftarrow> shmc_add_nolock (store s) key nkey (body_bytes (conn s)) (body_size (conn s)) (cflags (conn s));
     let s = s\<lparr>store := st\<rparr>;
     if rc = SHMC_OK then Some (outString (text_of ''STORED'' @ crlf) s)
     else if rc = SHMC_EXIST then Some (outString (text_of ''EXISTS'' @ crlf) s)
     else Some (serverError rc s)
   }"
  by (simp add: doAdd_def cong: if_cong option.case_cong)

lemma doReplace_eq:
  "doReplace s = do {
     let s = count set_cnts_update s;
     (key, nkey) \<leftarrow> key_arg (conn s);
     (rc, st) \<leftarrow> shmc_replace_nolock (store s) key nkey (body_bytes (conn s)) (body_size (conn s)) (cflags (conn s));
     let s = s\<lparr>store := st\<rparr>;
     if rc = SHMC_OK then Some (outString (text_of ''STORED'' @ crlf) s)
     else if rc = SHMC_NOTFOUND then Some (outString (text_of ''NOT_FOUND'' @ crlf) s)
     else Some (serverError rc s)
   }"
  by (simp add: doReplace_def cong: if_cong option.case_cong)

lemma doPrepend_eq:
  "doPrepend s = do {
     let s = count set_cnts_update s;
     (key, nkey) \<leftarrow> key_arg (conn s);
     (rc, st) \<leftarrow> shmc_prepend_nolock (store s) key nkey (body_bytes (conn s)) (body_size (conn s)) (cflags (conn s));
     let s = s\<lparr>store := st\<rparr>;
     if rc = SHMC_OK then Some (outString (text_of ''STORED'' @ crlf) s)
     else if rc = SHMC_NOTFOUND then Some (outString (text_of ''NOT_FOUND'' @ crlf) s)
     else Some (serverError rc s)
   }"
  by (simp add: doPrepend_def cong: if_cong option.case_cong)

lemma doAppend_eq:
  "doAppend s = do {
     let s = count set_cnts_update s;
     (key, nkey) \<leftarrow> key_arg (conn s);
     (rc, st) \<leftarrow> shmc_append_nolock (store s) key nkey (body_bytes (conn s)) (body_size (conn s)) (cflags (conn s));
     let s = s\<lparr>store := st\<rparr>;
     if rc = SHMC_OK then Some (outString (text_of ''STORED'' @ crlf) s)
     else if rc = SHMC_NOTFOUND then Some (outString (text_of ''NOT_FOUND'' @ crlf) s)
     else Some (serverError rc s)
   }"
  by (simp add: doAppend_def cong: if_cong option.case_cong)

section \<open>The states\<close>

text \<open>\<open>em_->updateEvent\<close>.\<close>

definition update_event :: "server \<Rightarrow> bool \<times> server" where
  "update_event s = (case n_epoll (net s) of
     [] \<Rightarrow> (True, s)
   | b # bs \<Rightarrow> (b, upd_net (n_epoll_update (\<lambda>_. bs)) s))"

text \<open>\<open>if (em_->updateEvent(this, ev)) state_ = st; else state_ = Close;\<close>\<close>

definition await :: "conn_state \<Rightarrow> server \<Rightarrow> server" where
  "await st s = (case update_event s of (ok, s) \<Rightarrow> upd_conn (cstate_update (\<lambda>_. if ok then st else Close)) s)"

text \<open>
  The loop \<open>while ((nn = recv(...)) > 0)\<close> that leaves when there is no room any more: what it received,
  how it ended, and the rest of the script.
\<close>

datatype recv_end = Full | Closed | WouldBlock | Broken

fun recv_loop :: "recv list \<Rightarrow> nat \<Rightarrow> byte list \<times> recv_end \<times> recv list" where
  "recv_loop [] room = ([], WouldBlock, [])"
| "recv_loop (Again # es) room = ([], WouldBlock, es)"
| "recv_loop (Failed # es) room = ([], Broken, es)"
| "recv_loop (Bytes bs # es) room =
     (if bs = [] then ([], Closed, es)
      else if length bs < room then (case recv_loop es (room - length bs) of (d, l, es) \<Rightarrow> (bs @ d, l, es))
      else (take room bs, Full, if length bs = room then es else Bytes (drop room bs) # es))"

text \<open>\<open>strcmp(name, tokens_[CMD_TOKEN].value) == 0\<close> for a command of \<open>n\<close> tokens.\<close>

definition is_cmd :: "conn \<Rightarrow> nat \<Rightarrow> string \<Rightarrow> bool option" where
  "is_cmd c n name =
     (if length (tokens c) = n then map_option (\<lambda>t. t = text_of name) (str_arg c 0) else Some False)"

text \<open>The command of the line: what it is to do, or a body to wait for.\<close>

datatype command = Immediate "server \<Rightarrow> server option" | Body cmd_type | Quit

definition unknown :: "server \<Rightarrow> server option" where
  "unknown s = Some (outString (text_of ''CLIENT_ERROR unknow command'' @ crlf) s)"

fun first_of :: "(bool option \<times> command) list \<Rightarrow> command option" where
  "first_of [] = Some (Immediate unknown)"
| "first_of ((b, cmd) # bs) = do { b \<leftarrow> b; if b then Some cmd else first_of bs }"

definition dispatch :: "nat \<Rightarrow> conn \<Rightarrow> command option" where
  "dispatch p c = first_of
     [(is_cmd c 3 ''get'', Immediate doGet),
      (is_cmd c 6 ''set'', Body CmdSet),
      (is_cmd c 6 ''add'', Body CmdAdd),
      (is_cmd c 6 ''replace'', Body CmdReplace),
      (is_cmd c 6 ''prepend'', Body CmdPrepend),
      (is_cmd c 6 ''append'', Body CmdAppend),
      (is_cmd c 4 ''incr'', Immediate doIncr),
      (is_cmd c 4 ''decr'', Immediate doDecr),
      (is_cmd c 3 ''delete'', Immediate doDelete),
      (is_cmd c 2 ''stats'', Immediate doStats),
      (is_cmd c 3 ''dump'', Immediate doDump),
      (is_cmd c 3 ''load'', Immediate (doLoad p)),
      (is_cmd c 2 ''quit'', Quit)]"

text \<open>
  The buffer for a body of \<open>n\<close> bytes, of no particular contents; a null pointer when \<open>malloc\<close>
  fails, which the code does not check. More than \<open>PTRDIFF_MAX\<close> bytes are never given.
\<close>

definition alloc_body :: "nat \<Rightarrow> server \<Rightarrow> server" where
  "alloc_body n s =
     (let s = (if reqBodyCapability (conn s) < n then
          upd_conn (\<lambda>c. c\<lparr>reqBodyCapability := n, reqBody := (if n_malloc (net s) \<and> n < 2 ^ 63 then Some (replicate n 0) else None)\<rparr>) s
        else s)
      in upd_conn (reqBodySize_update (\<lambda>_. n)) s)"

text \<open>The part of the body that came with the line; the line ends at \<open>start\<close>.\<close>

definition take_body :: "nat \<Rightarrow> conn \<Rightarrow> conn option" where
  "take_body start c =
     (if reqHeaderBytes c - start > 0 then do {
        let n = min (reqHeaderBytes c - start) (reqBodySize c);
        b \<leftarrow> reqBody c;
        b \<leftarrow> memcpy b 0 (drop start (reqHeader c)) n;
        Some (c\<lparr>reqBody := Some b, reqBodyBytes := n\<rparr>)
      } else Some c)"

text \<open>A storing command has been read, \<open>fin\<close> is how the last \<open>recv\<close> ended.\<close>

definition begin_body :: "cmd_type \<Rightarrow> nat \<Rightarrow> recv_end \<Rightarrow> server \<Rightarrow> (dm_state \<times> server) option" where
  "begin_body ty start fin s = do {
     let s = upd_conn (ctype_update (\<lambda>_. ty)) s;
     arg \<leftarrow> str_arg (conn s) 4;
     let s = alloc_body (size_add (unat (strtoull10 arg)) 2) s;
     c \<leftarrow> take_body start (conn s);
     let s = s\<lparr>conn := c\<lparr>cstate := NRead\<rparr>\<rparr>;
     Some (if reqBodyBytes c = reqBodySize c then DmGoOn
           else if fin = WouldBlock then DmStop else DmGoOn, s)
   }"

text \<open>The last part of \<open>onRead\<close>: the command is known.\<close>

definition run_command :: "nat \<Rightarrow> recv_end \<Rightarrow> command \<Rightarrow> server \<Rightarrow> (dm_state \<times> server) option" where
  "run_command start fin cmd s = (case cmd of
     Quit \<Rightarrow> Some (DmGoOn, upd_conn (cstate_update (\<lambda>_. Close)) s)
   | Body ty \<Rightarrow> begin_body ty start fin s
   | Immediate f \<Rightarrow> do {
       s \<leftarrow> f s;
       let s = upd_conn (reqHeaderBytes_update (\<lambda>_. 0)) s;
       Some (DmGoOn, await Write s)
     })"

definition onRead :: "nat \<Rightarrow> server \<Rightarrow> (dm_state \<times> server) option" where
  "onRead p s = do {
     let (data, fin, es) = recv_loop (n_recv (net s)) (REQ_HEADER_SIZE - reqHeaderBytes (conn s));
     let s = upd_net (n_recv_update (\<lambda>_. es)) s;
     let s = upd_conn (\<lambda>c. c\<lparr>reqHeader := blit (reqHeader c) (reqHeaderBytes c) data,
       reqHeaderBytes := reqHeaderBytes c + length data\<rparr>) s;
     if fin = Closed \<or> fin = Broken then Some (DmGoOn, upd_conn (cstate_update (\<lambda>_. Close)) s)
     else (case memchr (take (reqHeaderBytes (conn s)) (reqHeader (conn s))) 10 of
         None \<Rightarrow>
           if reqHeaderBytes (conn s) = REQ_HEADER_SIZE then
             Some (DmGoOn, upd_conn (reqHeaderBytes_update (\<lambda>_. 0))
               (await Write (outString (text_of ''ERROR request header too long'' @ crlf) s)))
           else Some (DmStop, s)
       | Some lf \<Rightarrow> do {
           let start = Suc lf;
           let lf = (if lf > 1 \<and> reqHeader (conn s) ! (lf - 1) = 13 then lf - 1 else lf);
           (toks, mem) \<leftarrow> tokenize ((reqHeader (conn s))[lf := 0]) MAX_TOKENS;
           let s = upd_conn (\<lambda>c. c\<lparr>reqHeader := mem, tokens := toks\<rparr>) s;
           cmd \<leftarrow> dispatch p (conn s);
           run_command start fin cmd s
         })
   }"

definition store_cmd :: "cmd_type \<Rightarrow> server \<Rightarrow> server option" where
  "store_cmd ty = (case ty of CmdSet \<Rightarrow> doSet | CmdAdd \<Rightarrow> doAdd | CmdReplace \<Rightarrow> doReplace
     | CmdPrepend \<Rightarrow> doPrepend | CmdAppend \<Rightarrow> doAppend)"

text \<open>The end of \<open>onNRead\<close>, with the whole body there.\<close>

definition run_body :: "server \<Rightarrow> (dm_state \<times> server) option" where
  "run_body s = do {
     arg \<leftarrow> str_arg (conn s) 2;
     let s = upd_conn (cflags_update (\<lambda>_. ucast (strtoull10 arg))) s;
     s \<leftarrow> store_cmd (ctype (conn s)) s;
     let s = upd_conn (\<lambda>c. c\<lparr>reqHeaderBytes := 0, reqBodyBytes := 0\<rparr>) s;
     Some (DmGoOn, await Write s)
   }"

definition onNRead :: "server \<Rightarrow> (dm_state \<times> server) option" where
  "onNRead s =
     (if reqBodyBytes (conn s) \<noteq> reqBodySize (conn s) then do {
        let c = conn s;
        let (data, fin, es) = recv_loop (n_recv (net s)) (reqBodySize c - reqBodyBytes c);
        let s = upd_net (n_recv_update (\<lambda>_. es)) s;
        b \<leftarrow> reqBody c;
        b \<leftarrow> memcpy b (reqBodyBytes c) data (length data);
        let s = upd_conn (\<lambda>c. c\<lparr>reqBody := Some b, reqBodyBytes := reqBodyBytes c + length data\<rparr>) s;
        (case fin of
           Closed \<Rightarrow> Some (DmGoOn, upd_conn (cstate_update (\<lambda>_. Close)) s)
         | WouldBlock \<Rightarrow> Some (DmStop, s)
         | Broken \<Rightarrow> Some (DmGoOn, upd_conn (cstate_update (\<lambda>_. Close)) s)
         | Full \<Rightarrow> run_body s)
      } else run_body s)"

text \<open>The constructor; the members it leaves alone are not read before they are set.\<close>

definition new_conn :: "nat \<Rightarrow> conn_state \<Rightarrow> conn" where
  "new_conn addr st =
     \<lparr>cstate = st, headerAddr = addr, reqHeader = replicate REQ_HEADER_SIZE 0, reqHeaderBytes = 0,
      reqBody = None, reqBodySize = 0, reqBodyBytes = 0, reqBodyCapability = 0,
      resHeader = replicate RES_HEADER_SIZE 0, resHeaderSize = 0, resHeaderBytes = 0,
      resBody = None, resBodySize = 0, resBodyBytes = 0, resTailBytes = 0,
      ctype = CmdSet, cflags = 0, tokens = []\<rparr>"

definition onListening :: "server \<Rightarrow> dm_state \<times> server" where
  "onListening s = (case n_accept (net s) of
     None \<Rightarrow> (DmStop, s)
   | Some addr \<Rightarrow> (case update_event s of
       (ok, s) \<Rightarrow> (DmStop, if ok then s\<lparr>peers := new_conn addr Read # peers s\<rparr> else s)))"

text \<open>
  The inner loop of \<open>onWrite\<close> over the vectors, after \<open>writev\<close> took \<open>nn\<close> bytes: how many of those it
  looked at are done, and what is left of each.
\<close>

fun take_iov :: "nat \<Rightarrow> byte list list \<Rightarrow> nat \<times> byte list list" where
  "take_iov nn [] = (0, [])"
| "take_iov nn (v # vs) =
     (if nn = 0 then (0, v # vs)
      else if length v \<ge> nn then (if length v = nn then 1 else 0, drop nn v # vs)
      else (case take_iov (nn - length v) vs of (k, vs) \<Rightarrow> (Suc k, [] # vs)))"

text \<open>
  The outer loop: whether everything is written, what is left of the vectors, what has been sent. With
  nothing to write the code would call \<open>writev\<close> for ever.
\<close>

fun writev_loop :: "nat option list \<Rightarrow> byte list list \<Rightarrow> byte list
    \<Rightarrow> (bool \<times> byte list list \<times> byte list \<times> nat option list) option" where
  "writev_loop [] vs sent = (case take_iov (length (concat vs)) vs of
     (k, vs') \<Rightarrow> if k = length vs then Some (True, vs', sent @ concat vs, []) else None)"
| "writev_loop (None # ws) vs sent = Some (False, vs, sent, ws)"
| "writev_loop (Some n # ws) vs sent =
     (let nn = min n (length (concat vs)) in
      case take_iov nn vs of
        (k, vs') \<Rightarrow> if k = length vs then Some (True, vs', sent @ take nn (concat vs), ws)
                    else writev_loop ws vs' (sent @ take nn (concat vs)))"

definition tail_text :: "byte list" where
  "tail_text = crlf @ text_of ''END'' @ crlf"

text \<open>What is to be written: the rest of the header, of the value, and of the closing line.\<close>

definition iovs :: "conn \<Rightarrow> byte list list option" where
  "iovs c = do {
     h \<leftarrow> mem_load (resHeader c) (resHeaderBytes c) (resHeaderSize c - resHeaderBytes c);
     (if resBodySize c \<noteq> 0 then do {
        b \<leftarrow> resBody c;
        v \<leftarrow> mem_load b (resBodyBytes c) (resBodySize c - resBodyBytes c);
        Some [h, v, drop (resTailBytes c) tail_text]
      } else Some [h])
   }"

text \<open>
  The end of \<open>onWrite\<close>: everything is written, or \<open>writev\<close> failed. \<open>errno == -1\<close> never holds: a
  \<open>writev\<close> that fails always ends in \<open>Close\<close>.
\<close>

definition written :: "bool \<Rightarrow> byte list list \<Rightarrow> server \<Rightarrow> dm_state \<times> server" where
  "written fin vs s =
     (if fin then
        (let s = (if resBodySize (conn s) \<noteq> 0 then
             upd_conn (\<lambda>c. c\<lparr>resBody := None, resBodySize := 0, resBodyBytes := 0, resTailBytes := 0\<rparr>) s else s);
             (ok, s) = update_event s
         in if ok then (DmStop, upd_conn (cstate_update (\<lambda>_. Read)) s)
            else (DmGoOn, upd_conn (cstate_update (\<lambda>_. Close)) s))
      else
        (let s = upd_conn (\<lambda>c. c\<lparr>resHeaderBytes := resHeaderSize c - length (vs ! 0)\<rparr>) s;
             s = (if resBodySize (conn s) \<noteq> 0 then
               upd_conn (\<lambda>c. c\<lparr>resBodyBytes := resBodySize c - length (vs ! 1),
                 resTailBytes := 7 - length (vs ! 2)\<rparr>) s else s)
         in (DmGoOn, upd_conn (cstate_update (\<lambda>_. Close)) s)))"

definition onWrite :: "server \<Rightarrow> (dm_state \<times> server) option" where
  "onWrite s = do {
     vs \<leftarrow> iovs (conn s);
     (fin, vs, sent, ws) \<leftarrow> writev_loop (n_writev (net s)) vs [];
     Some (written fin vs (upd_net (\<lambda>n. n\<lparr>n_writev := ws, n_sent := n_sent n @ sent\<rparr>) s))
   }"

text \<open>\<open>delete this\<close>: the connection is gone, the loop ends.\<close>

definition onClose :: "server \<Rightarrow> dm_state \<times> server" where
  "onClose s = (DmStop, s)"

partial_function (option) driverMachine :: "nat \<Rightarrow> server \<Rightarrow> server option" where
  "driverMachine p s = do {
     (d, s) \<leftarrow> (case cstate (conn s) of
         Listening \<Rightarrow> Some (onListening s)
       | Read \<Rightarrow> onRead p s
       | NRead \<Rightarrow> onNRead s
       | Write \<Rightarrow> onWrite s
       | Close \<Rightarrow> Some (onClose s));
     if d = DmGoOn then driverMachine p s else Some s
   }"

end
