(* ===== verification/Connection_Base.thy ===== *)
theory Connection_Base
  imports Connection
begin

text \<open>
  The steps of a connection on well-formed requests: receiving a line in any pieces, its tokens, and
  sending a response.
\<close>

section \<open>Receiving\<close>

text \<open>\<open>data\<close> arrives in some pieces.\<close>

definition chunked :: "recv list \<Rightarrow> byte list \<Rightarrow> bool" where
  "chunked es data \<longleftrightarrow> (\<exists>cs. es = map Bytes cs \<and> [] \<notin> set cs \<and> concat cs = data)"

lemma chunked_Nil [simp]: "chunked es [] \<longleftrightarrow> es = []"
proof
  assume "chunked es []"
  then obtain cs where "es = map Bytes cs" "[] \<notin> set cs" "concat cs = []" by (auto simp: chunked_def)
  then show "es = []" by (cases cs) auto
qed (simp add: chunked_def)

lemma chunked_Bytes: "b \<noteq> [] \<Longrightarrow> chunked es data \<Longrightarrow> chunked (Bytes b # es) (b @ data)"
  unfolding chunked_def by (metis concat.simps(2) list.simps(9) set_ConsD)

lemma chunked_cases:
  assumes "chunked es data" and "data \<noteq> []"
  obtains b es' data' where "es = Bytes b # es'" "b \<noteq> []" "data = b @ data'" "chunked es' data'"
proof -
  obtain cs where cs: "es = map Bytes cs" "[] \<notin> set cs" "concat cs = data" using assms(1) by (auto simp: chunked_def)
  then obtain b ds where "cs = b # ds" using assms(2) by (cases cs) auto
  then show thesis using that [of b "map Bytes ds" "concat ds"] cs by (auto simp: chunked_def)
qed

lemma chunked_Cons: "chunked (e # es) data \<longleftrightarrow> (\<exists>b d. e = Bytes b \<and> b \<noteq> [] \<and> data = b @ d \<and> chunked es d)"
proof
  assume *: "chunked (e # es) data"
  then have "data \<noteq> []" by auto
  with * obtain b es' d where "e # es = Bytes b # es'" "b \<noteq> []" "data = b @ d" "chunked es' d" by (rule chunked_cases)
  then show "\<exists>b d. e = Bytes b \<and> b \<noteq> [] \<and> data = b @ d \<and> chunked es d" by auto
qed (auto intro: chunked_Bytes)

lemma recv_short: "chunked es data \<Longrightarrow> length data < room \<Longrightarrow> recv_loop es room = (data, WouldBlock, [])"
proof (induction es arbitrary: data room)
  case Nil
  then have "data = []" by (cases "data = []") (auto elim: chunked_cases)
  then show ?case by simp
next
  case (Cons e es)
  then have "data \<noteq> []" by auto
  with Cons.prems(1) obtain b d where b: "e = Bytes b" "b \<noteq> []" "data = b @ d" "chunked es d"
    by (auto simp: chunked_Cons)
  then show ?case using Cons.IH [OF b(4), of "room - length b"] Cons.prems(2) by simp
qed

lemma recv_full:
  "chunked es data \<Longrightarrow> 0 < room \<Longrightarrow> room \<le> length data \<Longrightarrow>
     \<exists>es'. recv_loop es room = (take room data, Full, es') \<and> chunked es' (drop room data)"
proof (induction es arbitrary: data room)
  case Nil
  then show ?case by (cases "data = []") (auto elim: chunked_cases)
next
  case (Cons e es)
  then have "data \<noteq> []" by auto
  with Cons.prems(1) obtain b d where b: "e = Bytes b" "b \<noteq> []" "data = b @ d" "chunked es d"
    by (auto simp: chunked_Cons)
  show ?case
  proof (cases "length b < room")
    case True
    then show ?thesis using Cons.IH [OF b(4), of "room - length b"] Cons.prems(3) b(1-3) by fastforce
  next
    case False
    show ?thesis
    proof (cases "length b = room")
      case True
      then show ?thesis using b by simp
    next
      case ne: False
      then have "chunked (Bytes (drop room b) # es) (drop room b @ d)" using False by (intro chunked_Bytes b) simp
      then show ?thesis using b False ne by simp
    qed
  qed
qed

lemma recv_any: "chunked es data \<Longrightarrow> 0 < room \<Longrightarrow>
    \<exists>es'. recv_loop es room = (take room data, if length data < room then WouldBlock else Full, es') \<and> chunked es' (drop room data)"
  using recv_short recv_full by (cases "length data < room") auto

section \<open>Lines\<close>

text \<open>A word of a request.\<close>

definition plain :: "byte list \<Rightarrow> bool" where
  "plain w \<longleftrightarrow> w \<noteq> [] \<and> set w \<inter> {0, 10, 13, 32, 92} = {}"

fun join_words :: "byte list list \<Rightarrow> byte list" where
  "join_words [] = []"
| "join_words [w] = w"
| "join_words (w # ws) = w @ 32 # join_words ws"

lemma join_words_Cons: "ws \<noteq> [] \<Longrightarrow> join_words (w # ws) = w @ 32 # join_words ws"
  by (cases ws) simp_all

lemma words_join: "(\<And>w. w \<in> set ws \<Longrightarrow> plain w) \<Longrightarrow> words (join_words ws) = ws"
proof (induction ws)
  case Nil
  then show ?case by (simp add: words.simps [of "[]"])
next
  case (Cons w ws)
  have w: "w \<noteq> []" "32 \<notin> set w" using Cons.prems [of w] by (auto simp: plain_def)
  show ?case
  proof (cases "ws = []")
    case True
    then show ?thesis using words_word(2) [OF w] by simp
  next
    case False
    have "words (join_words ws) = ws" using Cons.IH Cons.prems by simp
    then show ?thesis using words_word(1) [OF w] False by (simp add: join_words_Cons)
  qed
qed

lemma join_words_set: "(\<And>w. w \<in> set ws \<Longrightarrow> plain w) \<Longrightarrow> set (join_words ws) \<inter> {0, 10, 13, 92} = {}"
proof (induction ws)
  case (Cons w ws)
  have "set w \<inter> {0, 10, 13, 92} = {}" using Cons.prems [of w] by (auto simp: plain_def)
  moreover have "set (join_words ws) \<inter> {0, 10, 13, 92} = {}" using Cons.IH Cons.prems by simp
  ultimately show ?case by (cases "ws = []") (auto simp: join_words_Cons)
qed simp

lemma join_words_length: "(\<And>w. w \<in> set ws \<Longrightarrow> plain w) \<Longrightarrow> ws \<noteq> [] \<Longrightarrow> 0 < length (join_words ws)"
  by (cases ws rule: join_words.cases) (auto simp: plain_def)

text \<open>The buffer behind the line stays as it was.\<close>

lemma tok_loop_behind:
  "tok_loop lim mem s e esc toks = Some (toks', e', mem') \<Longrightarrow> \<not> esc \<Longrightarrow> e \<le> z \<Longrightarrow> z < length mem \<Longrightarrow> mem ! z = 0 \<Longrightarrow>
    (\<forall>i. e \<le> i \<longrightarrow> i < z \<longrightarrow> mem ! i \<noteq> 92) \<Longrightarrow> drop z mem' = drop z mem"
proof (induction lim mem s e esc toks rule: tok_loop.induct)
  case (1 lim mem s e esc toks)
  show ?case
  proof (cases "e = z \<or> \<not> length toks < lim")
    case True
    then have "tok_loop lim mem s e esc toks = Some (if length toks < lim \<and> s \<noteq> e
        then toks @ [\<lparr>tok_value = Some s, tok_length = e - s\<rparr>] else toks, e, mem)"
      using "1.prems"(2-5) by (subst tok_loop.simps) auto
    then show ?thesis using "1.prems"(1) by simp
  next
    case False
    then have e: "length toks < lim" "\<not> esc" "e < length mem" "Suc e \<le> z" "e \<noteq> z" "mem ! e \<noteq> 92"
      using "1.prems" by auto
    note run = "1.prems"(1) [unfolded tok_loop.simps [of lim mem s e]]
    show ?thesis
    proof (cases "mem ! e = 32")
      case True
      then show ?thesis
        using "1.IH"(2) [OF e(1-3) True] "1.IH"(3) [OF e(1-3) True] run e "1.prems"(4-6)
        by (auto split: if_splits)
    next
      case ne: False
      show ?thesis
      proof (cases "mem ! e = 0")
        case True
        then show ?thesis using run e ne by (auto split: if_splits)
      next
        case False
        then show ?thesis using "1.IH"(5) [OF e(1-3) ne False e(6)] run e ne "1.prems"(4-6) by auto
      qed
    qed
  qed
qed

lemma tokenize_behind:
  assumes "tokenize (cmd @ 0 # rest) m = Some (toks, mem)" and "92 \<notin> set cmd"
  shows "drop (length cmd) mem = 0 # rest"
proof -
  obtain new e where "tok_loop ((m + 2 ^ 64 - 1) mod 2 ^ 64) (cmd @ 0 # rest) 0 0 False [] = Some (new, e, mem)"
    using assms(1) by (auto simp: tokenize_def split: Option.bind_splits)
  moreover have "cmd ! i \<noteq> 92" if "i < length cmd" for i using assms(2) nth_mem [OF that] by auto
  ultimately show ?thesis using tok_loop_behind [of _ "cmd @ 0 # rest" 0 0 False "[]" new e mem "length cmd"]
    by (simp add: nth_append)
qed

text \<open>The tokens of such a line in the header buffer.\<close>

definition token_of :: "byte list \<Rightarrow> token \<Rightarrow> byte list \<Rightarrow> bool" where
  "token_of mem t w \<longleftrightarrow> (\<exists>p. tok_value t = Some p \<and> tok_length t = length w \<and> p + length w \<le> length mem
     \<and> take (length w) (drop p mem) = w \<and> c_string mem p = Some w)"

lemma tokenize_join:
  assumes "\<And>w. w \<in> set ws \<Longrightarrow> plain w" and "length ws \<le> 6"
  shows "\<exists>toks fin mem. tokenize (join_words ws @ 0 # rest) MAX_TOKENS = Some (toks @ [fin], mem)
    \<and> list_all2 (token_of mem) toks ws \<and> length mem = length (join_words ws @ 0 # rest)
    \<and> drop (length (join_words ws)) mem = 0 # rest"
proof -
  have no: "0 \<notin> set (join_words ws)" "92 \<notin> set (join_words ws)" using join_words_set [OF assms(1)] by auto
  obtain toks fin mem where t: "tokenize (join_words ws @ 0 # rest) MAX_TOKENS = Some (toks @ [fin], mem)"
      "map (token_text mem) toks = ws" "length mem = length (join_words ws @ 0 # rest)"
      "\<forall>t \<in> set toks. \<exists>p. tok_value t = Some p \<and> p + tok_length t \<le> length mem \<and> c_string mem p = Some (token_text mem t)"
    using tokenize_line [OF no, of MAX_TOKENS rest] words_join [OF assms(1)] assms(2) by (auto simp: MAX_TOKENS_def)
  have "token_of mem t (token_text mem t)" if "t \<in> set toks" for t
    using t(4) that by (fastforce simp: token_of_def token_text_def)
  then have "list_all2 (token_of mem) toks (map (token_text mem) toks)"
    by (simp add: list_all2_map2 list.rel_refl_strong)
  then show ?thesis using t tokenize_behind [OF t(1) no(2)] by auto
qed

lemma str_arg_token:
  assumes "tokens c = toks @ [fin]" and "list_all2 (token_of (reqHeader c)) toks ws" and "i < length ws"
  shows "str_arg c i = Some (ws ! i)"
proof -
  have "token_of (reqHeader c) (toks ! i) (ws ! i)" "i < length toks"
    using assms(2,3) list_all2_lengthD [OF assms(2)] by (auto simp: list_all2_conv_all_nth)
  then show ?thesis using assms(1) by (auto simp: str_arg_def token_of_def nth_append)
qed

lemma key_arg_token:
  assumes "tokens c = toks @ [fin]" and "list_all2 (token_of (reqHeader c)) toks ws" and "1 < length ws"
  shows "\<exists>key. key_arg c = Some (key, length (ws ! 1)) \<and> length (ws ! 1) \<le> length (buf_bytes key)
    \<and> buf_key key (length (ws ! 1)) = ws ! 1"
proof -
  have "token_of (reqHeader c) (toks ! 1) (ws ! 1)" "1 < length toks"
    using assms(2,3) list_all2_lengthD [OF assms(2)] by (auto simp: list_all2_conv_all_nth)
  then obtain p where p: "1 < length toks" "tok_value (toks ! 1) = Some p" "tok_length (toks ! 1) = length (ws ! 1)"
      "p + length (ws ! 1) \<le> length (reqHeader c)" "take (length (ws ! 1)) (drop p (reqHeader c)) = ws ! 1"
    by (auto simp: token_of_def)
  have "toks \<noteq> []" using p(1) by auto
  then have "read_at (tokens c) 1 = Some (toks ! 1)" using assms(1) p(1) by (simp add: nth_append)
  then have "key_arg c = Some (Buf (headerAddr c + p) (drop p (reqHeader c)), length (ws ! 1))"
    using p(2,3) by (simp add: key_arg_def)
  then show ?thesis using p(4,5) by (intro exI [of _ "Buf (headerAddr c + p) (drop p (reqHeader c))"]) (simp add: buf_key_def)
qed

section \<open>Responses\<close>

text \<open>A connection that waits for a request, and one that has a response to send.\<close>

definition body_ok :: "conn \<Rightarrow> bool" where
  "body_ok c \<longleftrightarrow> reqBodyCapability c = length (body_bytes c)"

definition conn_ok :: "conn \<Rightarrow> bool" where
  "conn_ok c \<longleftrightarrow> length (reqHeader c) = REQ_HEADER_SIZE \<and> length (resHeader c) = RES_HEADER_SIZE
     \<and> reqHeaderBytes c = 0 \<and> reqBodyBytes c = 0 \<and> body_ok c
     \<and> resHeaderBytes c = 0 \<and> resBodyBytes c = 0 \<and> resTailBytes c = 0"

definition waiting :: "server \<Rightarrow> bool" where
  "waiting s \<longleftrightarrow> cstate (conn s) = Read \<and> conn_ok (conn s) \<and> resBodySize (conn s) = 0"

text \<open>A kernel that has memory and takes every registration.\<close>

definition quiet :: "server \<Rightarrow> bool" where
  "quiet s \<longleftrightarrow> n_epoll (net s) = [] \<and> n_malloc (net s)"

lemma quiet_update [simp]: "n_epoll (net s) = [] \<Longrightarrow> update_event s = (True, s)"
  by (simp add: update_event_def)

text \<open>The state after a line has been read and split.\<close>

abbreviation heard :: "server \<Rightarrow> byte list \<Rightarrow> nat \<Rightarrow> token list \<Rightarrow> recv list \<Rightarrow> server" where
  "heard s mem n toks es \<equiv> upd_net (n_recv_update (\<lambda>_. es)) s
     \<lparr>conn := (conn s)\<lparr>reqHeaderBytes := n, reqHeader := mem, tokens := toks\<rparr>\<rparr>"

lemma onRead_line:
  assumes w: "waiting s" and ch: "chunked (n_recv (net s)) (join_words ws @ crlf @ body)"
    and ws: "\<And>w. w \<in> set ws \<Longrightarrow> plain w" "ws \<noteq> []" "length ws \<le> 6"
    and room: "length (join_words ws) + 2 \<le> REQ_HEADER_SIZE"
  defines "n \<equiv> length (join_words ws) + 2"
  shows "\<exists>toks fin mem es. list_all2 (token_of mem) toks ws \<and> length mem = REQ_HEADER_SIZE
    \<and> drop n mem = take (REQ_HEADER_SIZE - n) body @ drop (n + length body) (reqHeader (conn s))
    \<and> chunked es (drop (REQ_HEADER_SIZE - n) body)
    \<and> onRead p s = (let s' = heard s mem (min REQ_HEADER_SIZE (n + length body)) (toks @ [fin]) es in
        dispatch p (conn s') \<bind> (\<lambda>cmd. run_command n (if n + length body < REQ_HEADER_SIZE then WouldBlock else Full) cmd s'))"
proof -
  let ?l = "join_words ws" and ?old = "reqHeader (conn s)" and ?bd = "take (REQ_HEADER_SIZE - n) body"
  let ?d = "take REQ_HEADER_SIZE (?l @ crlf @ body)"
  have old: "length ?old = REQ_HEADER_SIZE" "reqHeaderBytes (conn s) = 0" using w by (auto simp: waiting_def conn_ok_def)
  have l: "0 < length ?l" "10 \<notin> set (?l @ [13])" using join_words_length [OF ws(1,2)] join_words_set [OF ws(1)] by auto
  have d: "?d = ?l @ 13 # 10 # ?bd" using room by (simp add: n_def take_Cons')
  obtain es where es: "recv_loop (n_recv (net s)) REQ_HEADER_SIZE
      = (?d, if n + length body < REQ_HEADER_SIZE then WouldBlock else Full, es)" "chunked es (drop (REQ_HEADER_SIZE - n) body)"
    using recv_any [OF ch, of REQ_HEADER_SIZE] room by (auto simp: n_def REQ_HEADER_SIZE_def drop_Cons' split: if_splits)
  have len: "length ?d = min REQ_HEADER_SIZE (n + length body)" by (simp add: n_def)
  have h: "blit ?old 0 ?d = ?l @ 13 # 10 # ?bd @ drop (n + length body) ?old"
    using old(1) unfolding blit_def add_0_left len unfolding d by (simp add: min_def)
  have m: "memchr (take (length ?d) (blit ?old 0 ?d)) 10 = Some (length ?l + 1)"
  proof -
    have "take (length xs) (blit ys 0 xs) = xs" for xs ys :: "byte list" by (simp add: blit_def)
    from this [of ?d ?old] have "take (length ?d) (blit ?old 0 ?d) = ?d" .
    then show ?thesis using memchr_at [OF l(2), of ?bd] unfolding d by simp
  qed
  obtain toks fin mem where t: "tokenize (?l @ 0 # 10 # ?bd @ drop (n + length body) ?old) MAX_TOKENS = Some (toks @ [fin], mem)"
      "list_all2 (token_of mem) toks ws" "length mem = length (?l @ 0 # 10 # ?bd @ drop (n + length body) ?old)"
      "drop (length ?l) mem = 0 # 10 # ?bd @ drop (n + length body) ?old"
    using tokenize_join [OF ws(1,3)] by blast
  have "length mem = length (blit ?old 0 ?d)" unfolding t(3) h by simp
  moreover have "\<dots> = REQ_HEADER_SIZE" using old(1) by simp
  moreover have "drop n mem = ?bd @ drop (n + length body) ?old"
    using arg_cong [OF t(4), of "drop 2"] by (simp add: n_def add.commute)
  moreover have "(blit ?old 0 ?d)[length ?l := 0] = ?l @ 0 # 10 # ?bd @ drop (n + length body) ?old"
    unfolding h by (simp add: list_update_append)
  moreover have "blit ?old 0 ?d ! length ?l = 13" unfolding h by simp
  ultimately show ?thesis
    using es t(1,2) m l(1) old(2) len
    by (intro exI [of _ toks] exI [of _ fin] exI [of _ mem] exI [of _ es])
       (simp add: onRead_def Let_def n_def)
qed

lemma out_fields [simp]:
  "resHeaderSize (conn (outString t s)) = length t" "cstate (conn (outString t s)) = cstate (conn s)"
  "resBody (conn (outString t s)) = resBody (conn s)" "resBodySize (conn (outString t s)) = resBodySize (conn s)"
  "tokens (conn (outString t s)) = tokens (conn s)" "store (outString t s) = store s" "net (outString t s) = net s"
  "stats (outString t s) = stats s" "files (outString t s) = files s" "peers (outString t s) = peers s"
  "resHeaderBytes (conn (outString t s)) = resHeaderBytes (conn s)" "resBodyBytes (conn (outString t s)) = resBodyBytes (conn s)"
  "resTailBytes (conn (outString t s)) = resTailBytes (conn s)" "reqHeader (conn (outString t s)) = reqHeader (conn s)"
  "reqHeaderBytes (conn (outString t s)) = reqHeaderBytes (conn s)" "reqBody (conn (outString t s)) = reqBody (conn s)"
  "reqBodyBytes (conn (outString t s)) = reqBodyBytes (conn s)" "reqBodySize (conn (outString t s)) = reqBodySize (conn s)"
  "reqBodyCapability (conn (outString t s)) = reqBodyCapability (conn s)"
  "resHeader (conn (outString t s)) = blit (resHeader (conn s)) 0 (take (RES_HEADER_SIZE - 1) t @ [0])"
  by (simp_all add: outString_def)

lemma outString_length: "length (resHeader c) = RES_HEADER_SIZE \<Longrightarrow>
    length (blit (resHeader c) 0 (take (RES_HEADER_SIZE - 1) t @ [0])) = RES_HEADER_SIZE"
  by (subst length_blit) (simp_all add: RES_HEADER_SIZE_def)

text \<open>A text shorter than the buffer is there as a whole; a longer one is not in the buffer.\<close>

lemma load_header:
  assumes "length (resHeader c) = RES_HEADER_SIZE"
  shows "length t < RES_HEADER_SIZE \<Longrightarrow>
      mem_load (blit (resHeader c) 0 (take (RES_HEADER_SIZE - 1) t @ [0])) 0 (length t) = Some t"
    "RES_HEADER_SIZE < length t \<Longrightarrow>
      mem_load (blit (resHeader c) 0 (take (RES_HEADER_SIZE - 1) t @ [0])) 0 (length t) = None"
  using outString_length [OF assms, of t] assms by (auto simp: mem_load_def blit_def RES_HEADER_SIZE_def)

lemma take_iov_all:
  "vs \<noteq> [] \<Longrightarrow> [] \<notin> set vs \<Longrightarrow> take_iov (length (concat vs)) vs = (length vs, replicate (length vs) [])"
proof (induction vs)
  case (Cons v vs)
  show ?case
  proof (cases "vs = []")
    case True
    then show ?thesis using Cons.prems by simp
  next
    case False
    then have "concat vs \<noteq> []" using Cons.prems by (cases vs) auto
    then show ?thesis using Cons False by auto
  qed
qed simp

lemma writev_all: "vs \<noteq> [] \<Longrightarrow> [] \<notin> set vs \<Longrightarrow>
    writev_loop [] vs sent = Some (True, replicate (length vs) [], sent @ concat vs, [])"
  by (simp add: take_iov_all)

lemma take_iov_part:
  "nn < length (concat vs) \<Longrightarrow>
    \<exists>k vs'. take_iov nn vs = (k, vs') \<and> k < length vs \<and> length vs' = length vs \<and> concat vs' = drop nn (concat vs)"
proof (induction vs arbitrary: nn)
  case (Cons v vs)
  show ?case
  proof (cases "nn \<le> length v")
    case True
    have "vs \<noteq> []" if "nn = length v" using Cons.prems that by auto
    then show ?thesis using True by auto
  next
    case False
    then have "nn - length v < length (concat vs)" using Cons.prems by simp
    then obtain k vs' where "take_iov (nn - length v) vs = (k, vs')" "k < length vs" "length vs' = length vs"
        "concat vs' = drop (nn - length v) (concat vs)"
      using Cons.IH by blast
    then show ?thesis using False by simp
  qed
qed simp

text \<open>A peer that takes \<open>ms\<close> bytes and then no more.\<close>

lemma writev_part:
  "sum_list ms < length (concat vs) \<Longrightarrow>
    \<exists>vs'. writev_loop (map Some ms @ None # ws) vs sent = Some (False, vs', sent @ take (sum_list ms) (concat vs), ws)
      \<and> length vs' = length vs"
proof (induction ms arbitrary: vs sent)
  case (Cons m ms)
  then have m: "m < length (concat vs)" by simp
  obtain k vs' where k: "take_iov m vs = (k, vs')" "k < length vs" "length vs' = length vs" "concat vs' = drop m (concat vs)"
    using take_iov_part [OF m] by blast
  have "sum_list ms < length (concat vs')" using Cons.prems unfolding k(4) by simp
  from Cons.IH [OF this, of "sent @ take m (concat vs)"] obtain vs2 where
    "writev_loop (map Some ms @ None # ws) vs' (sent @ take m (concat vs))
      = Some (False, vs2, (sent @ take m (concat vs)) @ take (sum_list ms) (concat vs'), ws)" "length vs2 = length vs'"
    by blast
  then show ?case using k m by (simp add: take_add min_def)
qed simp

end
