(* ===== verification/Connection_Replies.thy ===== *)
theory Connection_Replies
  imports Connection_Base
begin

text \<open>
  The way from a request line to the response: recognising the command, running it, and the
  writing state that sends what the command has prepared.
\<close>

section \<open>Commands\<close>

lemma is_cmd_token:
  assumes "tokens c = toks @ [fin]" and "list_all2 (token_of (reqHeader c)) toks ws" and "ws \<noteq> []"
  shows "is_cmd c n name = Some (Suc (length ws) = n \<and> ws ! 0 = text_of name)"
  using str_arg_token [OF assms(1,2), of 0] assms(1,3) list_all2_lengthD [OF assms(2)] by (auto simp: is_cmd_def)

lemma text_of_inject [simp]: "text_of a = text_of b \<longleftrightarrow> a = b"
proof
  assume *: "text_of a = text_of b"
  have "inj (of_char :: char \<Rightarrow> byte)"
  proof (rule injI)
    fix x y :: char
    assume "of_char x = (of_char y :: byte)"
    then have "(of_nat (of_char x) :: byte) = of_nat (of_char y)" by (simp only: of_nat_of_char)
    from arg_cong [OF this, of unat] have "(of_char x :: nat) mod 2 ^ 8 = of_char y mod 2 ^ 8" by (simp add: unat_of_nat)
    then show "x = y" by simp
  qed
  then show "a = b" using * by (simp add: text_of_def inj_map_eq_map)
qed simp

lemma length_text_of [simp]: "length (text_of a) = length a"
  by (simp add: text_of_def)

section \<open>Sending\<close>

text \<open>A connection with the response header \<open>t\<close> and the value \<open>v\<close> to be sent.\<close>

definition ready :: "server \<Rightarrow> byte list \<Rightarrow> byte list \<Rightarrow> bool" where
  "ready s t v \<longleftrightarrow> (let c = conn s in
     t \<noteq> [] \<and> resHeaderSize c = length t \<and> mem_load (resHeader c) 0 (length t) = Some t
     \<and> resBodySize c = length v \<and> (v \<noteq> [] \<longrightarrow> resBody c = Some v)
     \<and> conn_ok (c\<lparr>reqHeaderBytes := 0\<rparr>))"

definition response :: "byte list \<Rightarrow> byte list \<Rightarrow> byte list" where
  "response t v = t @ (if v = [] then [] else v @ tail_text)"

lemma tail_text_length [simp]: "length tail_text = 7"
  by (simp add: tail_text_def)

lemma onWrite_ready:
  assumes r: "ready s t v" and quiet: "quiet s" and h: "reqHeaderBytes (conn s) = 0" and wv: "n_writev (net s) = []"
  shows "\<exists>s'. onWrite s = Some (DmStop, s') \<and> waiting s' \<and> quiet s'
    \<and> n_sent (net s') = n_sent (net s) @ response t v \<and> n_recv (net s') = n_recv (net s)
    \<and> store s' = store s \<and> stats s' = stats s \<and> files s' = files s"
proof -
  have tail: "tail_text \<noteq> []" by (simp add: tail_text_def)
  have w: "n_writev (net s) = []" "n_epoll (net s) = []" using quiet wv by (auto simp: quiet_def)
  note r = r [unfolded ready_def Let_def conn_ok_def]
  have no: "[] \<notin> set [t, v, tail_text]" if "v \<noteq> []" using r tail that by auto
  show ?thesis
  proof (cases "v = []")
    case True
    then show ?thesis
      using r w h quiet writev_all [of "[t]" "[]"]
      by (simp add: onWrite_def iovs_def written_def response_def waiting_def conn_ok_def quiet_def body_ok_def body_bytes_def update_event_def)
  next
    case False
    have "mem_load v 0 (length v) = Some v" by simp
    then show ?thesis
      using r w h quiet writev_all [OF _ no [OF False], of "[]"] False
      by (simp add: onWrite_def iovs_def written_def response_def waiting_def conn_ok_def quiet_def body_ok_def body_bytes_def update_event_def)
  qed
qed

text \<open>\<open>outString\<close> makes a response of a short text.\<close>

lemma ready_outString:
  assumes "conn_ok ((conn s)\<lparr>reqHeaderBytes := 0\<rparr>)" and "t \<noteq> []" and "length t < RES_HEADER_SIZE"
    and "resBodySize (conn s) = 0"
  shows "ready (outString t s) t []"
    "ready (upd_conn (\<lambda>c. c\<lparr>resBody := Some v, resBodySize := length v\<rparr>) (outString t s)) t v"
proof -
  have r: "length (resHeader (conn s)) = RES_HEADER_SIZE" using assms(1) by (simp add: conn_ok_def)
  note h = load_header(1) [OF r assms(3)] outString_length [OF r, of t]
  show "ready (outString t s) t []"
    using assms h unfolding ready_def Let_def by (simp add: conn_ok_def body_ok_def body_bytes_def)
  show "ready (upd_conn (\<lambda>c. c\<lparr>resBody := Some v, resBodySize := length v\<rparr>) (outString t s)) t v"
    using assms h unfolding ready_def Let_def by (simp add: conn_ok_def body_ok_def body_bytes_def)
qed

text \<open>The two states after a command has run: \<open>Write\<close>, then waiting again.\<close>

lemma driver_step:
  "driverMachine p s = (case cstate (conn s) of
       Listening \<Rightarrow> Some (onListening s) | Read \<Rightarrow> onRead p s | NRead \<Rightarrow> onNRead s
     | Write \<Rightarrow> onWrite s | Close \<Rightarrow> Some (onClose s)) \<bind> (\<lambda>(d, s). if d = DmGoOn then driverMachine p s else Some s)"
  by (subst driverMachine.simps) (simp add: case_prod_unfold)

lemma send_reset:
  assumes r: "ready s t v" and quiet: "quiet s" and wv: "n_writev (net s) = []" and h: "reqHeaderBytes (conn s) = 0"
  shows "\<exists>s'. driverMachine p (await Write s) = Some s' \<and> waiting s' \<and> quiet s'
    \<and> n_sent (net s') = n_sent (net s) @ response t v \<and> n_recv (net s') = n_recv (net s)
    \<and> store s' = store s \<and> stats s' = stats s \<and> files s' = files s"
proof -
  have s: "await Write s = upd_conn (cstate_update (\<lambda>_. Write)) s" using quiet by (simp add: await_def quiet_def)
  have "ready (await Write s) t v" "quiet (await Write s)" "reqHeaderBytes (conn (await Write s)) = 0"
      "n_writev (net (await Write s)) = []" "cstate (conn (await Write s)) = Write"
    using r quiet wv h unfolding s by (simp_all add: ready_def Let_def conn_ok_def body_ok_def body_bytes_def quiet_def)
  from onWrite_ready [OF this(1-4)] this(5) show ?thesis by (subst driver_step) (auto simp: s)
qed

lemma ready_reset: "ready s t v \<Longrightarrow> ready (upd_conn (reqHeaderBytes_update (\<lambda>_. 0)) s) t v"
  by (simp add: ready_def Let_def conn_ok_def body_ok_def body_bytes_def)

lemma send_ready:
  assumes "ready s t v" and "quiet s" and "n_writev (net s) = []"
  shows "\<exists>s'. driverMachine p (await Write (upd_conn (reqHeaderBytes_update (\<lambda>_. 0)) s)) = Some s' \<and> waiting s' \<and> quiet s'
    \<and> n_sent (net s') = n_sent (net s) @ response t v \<and> n_recv (net s') = n_recv (net s)
    \<and> store s' = store s \<and> stats s' = stats s \<and> files s' = files s"
  using send_reset [OF ready_reset [OF assms(1)], of p] assms(2,3) by (simp add: quiet_def)

text \<open>A peer that stops taking bytes before the end of the response loses its connection.\<close>

lemma onWrite_part:
  assumes r: "ready s t v" and wv: "n_writev (net s) = map Some ms @ None # ws" and "sum_list ms < length (response t v)"
  shows "\<exists>s'. onWrite s = Some (DmGoOn, s') \<and> cstate (conn s') = Close
    \<and> n_sent (net s') = n_sent (net s) @ take (sum_list ms) (response t v) \<and> store s' = store s"
proof -
  note r = r [unfolded ready_def Let_def conn_ok_def]
  show ?thesis
  proof (cases "v = []")
    case True
    then obtain vs where "writev_loop (map Some ms @ None # ws) [t] [] = Some (False, vs, take (sum_list ms) t, ws)"
      using writev_part [of ms "[t]" ws "[]"] assms(3) by (auto simp: response_def)
    then show ?thesis using r wv True by (simp add: onWrite_def iovs_def written_def response_def)
  next
    case False
    then obtain vs where "writev_loop (map Some ms @ None # ws) [t, v, tail_text] []
        = Some (False, vs, take (sum_list ms) (response t v), ws)"
      using writev_part [of ms "[t, v, tail_text]" ws "[]"] assms(3) by (auto simp: response_def)
    then show ?thesis using r wv False by (simp add: onWrite_def iovs_def written_def)
  qed
qed

lemma send_part:
  assumes r: "ready s t v" and quiet: "quiet s"
    and wv: "n_writev (net s) = map Some ms @ None # ws" and l: "sum_list ms < length (response t v)"
  shows "\<exists>s'. driverMachine p (await Write (upd_conn (reqHeaderBytes_update (\<lambda>_. 0)) s)) = Some s' \<and> cstate (conn s') = Close
    \<and> n_sent (net s') = n_sent (net s) @ take (sum_list ms) (response t v) \<and> store s' = store s"
proof -
  let ?s = "await Write (upd_conn (reqHeaderBytes_update (\<lambda>_. 0)) s)"
  have s: "?s = upd_conn (cstate_update (\<lambda>_. Write)) (upd_conn (reqHeaderBytes_update (\<lambda>_. 0)) s)"
    using quiet by (simp add: await_def quiet_def)
  have "ready ?s t v" using r unfolding s by (simp add: ready_def Let_def conn_ok_def body_ok_def body_bytes_def)
  moreover have "n_writev (net ?s) = map Some ms @ None # ws" "cstate (conn ?s) = Write" using wv by (simp_all add: s)
  ultimately obtain s' where "onWrite ?s = Some (DmGoOn, s')" "cstate (conn s') = Close"
      "n_sent (net s') = n_sent (net ?s) @ take (sum_list ms) (response t v)" "store s' = store ?s"
    using onWrite_part [of ?s, OF _ _ l] by blast
  moreover have "driverMachine p s' = Some s'" using calculation(2) by (subst driver_step) (simp add: onClose_def)
  ultimately show ?thesis using s by (subst driver_step) simp
qed

text \<open>A response header that is longer than its buffer.\<close>

lemma send_long:
  assumes "quiet s" and "length (resHeader (conn s)) = RES_HEADER_SIZE" and "resHeaderBytes (conn s) = 0"
    and "RES_HEADER_SIZE < resHeaderSize (conn s)"
  shows "driverMachine p (await Write (upd_conn (reqHeaderBytes_update (\<lambda>_. 0)) s)) = None"
proof -
  have "onWrite (upd_conn (cstate_update (\<lambda>_. Write)) (upd_conn (reqHeaderBytes_update (\<lambda>_. 0)) s)) = None"
    using assms by (simp add: onWrite_def iovs_def mem_load_def)
  then show ?thesis using assms(1) by (subst driver_step) (simp add: await_def quiet_def)
qed

text \<open>A command that needs no body.\<close>

lemma immediate_run:
  assumes w: "waiting s" and quiet: "quiet s" and ch: "chunked (n_recv (net s)) (join_words ws @ crlf)"
    and ws: "\<And>w. w \<in> set ws \<Longrightarrow> plain w" "ws \<noteq> []" "length ws \<le> 6"
    and room: "length (join_words ws) + 2 \<le> REQ_HEADER_SIZE"
    and run: "\<And>s' toks fin. tokens (conn s') = toks @ [fin] \<Longrightarrow> list_all2 (token_of (reqHeader (conn s'))) toks ws
      \<Longrightarrow> store s' = store s \<Longrightarrow> stats s' = stats s \<Longrightarrow> files s' = files s \<Longrightarrow> quiet s'
      \<Longrightarrow> conn_ok ((conn s')\<lparr>reqHeaderBytes := 0\<rparr>) \<Longrightarrow> resBodySize (conn s') = 0 \<Longrightarrow> n_errno (net s') = n_errno (net s)
      \<Longrightarrow> \<exists>f s1. dispatch p (conn s') = Some (Immediate f) \<and> f s' = Some s1 \<and> net s1 = net s' \<and> P s1"
  shows "\<exists>s1. driverMachine p s = driverMachine p (await Write (upd_conn (reqHeaderBytes_update (\<lambda>_. 0)) s1))
    \<and> P s1 \<and> quiet s1 \<and> n_recv (net s1) = [] \<and> n_sent (net s1) = n_sent (net s) \<and> n_writev (net s1) = n_writev (net s)"
proof -
  define n where "n = length (join_words ws) + 2"
  have ch': "chunked (n_recv (net s)) (join_words ws @ crlf @ [])" using ch by simp
  obtain toks fin mem es where l: "list_all2 (token_of mem) toks ws" "length mem = REQ_HEADER_SIZE"
      "chunked es (drop (REQ_HEADER_SIZE - n) [])"
      "onRead p s = (let s' = heard s mem (min REQ_HEADER_SIZE (n + length ([] :: byte list))) (toks @ [fin]) es in
        dispatch p (conn s') \<bind> (\<lambda>cmd. run_command n (if n + length ([] :: byte list) < REQ_HEADER_SIZE then WouldBlock else Full) cmd s'))"
    using onRead_line [OF w ch' ws room, of p] unfolding n_def by blast
  then obtain n k e where o: "onRead p s = (let s' = heard s mem n (toks @ [fin]) [] in
        dispatch p (conn s') \<bind> (\<lambda>cmd. run_command k e cmd s'))" by auto
  define s0 where "s0 = heard s mem n (toks @ [fin]) []"
  have s0: "tokens (conn s0) = toks @ [fin]" "list_all2 (token_of (reqHeader (conn s0))) toks ws"
    "store s0 = store s" "stats s0 = stats s" "files s0 = files s" "quiet s0" "conn_ok ((conn s0)\<lparr>reqHeaderBytes := 0\<rparr>)"
    "resBodySize (conn s0) = 0" "n_errno (net s0) = n_errno (net s)" "n_recv (net s0) = []" "n_sent (net s0) = n_sent (net s)"
    "n_writev (net s0) = n_writev (net s)"
    using w quiet l(1,2) by (simp_all add: s0_def waiting_def conn_ok_def body_ok_def body_bytes_def quiet_def)
  obtain f s1 where f: "dispatch p (conn s0) = Some (Immediate f)" "f s0 = Some s1" "net s1 = net s0" "P s1"
    using run [OF s0(1-9)] by blast
  have "driverMachine p s = driverMachine p (await Write (upd_conn (reqHeaderBytes_update (\<lambda>_. 0)) s1))"
    using w f(1,2) o by (subst driver_step) (simp add: waiting_def run_command_def Let_def s0_def)
  then show ?thesis using f(3,4) s0(6,10-12) by (auto simp: quiet_def)
qed

end
