(* ===== verification/Connection_Storing.thy ===== *)
theory Connection_Storing
  imports Connection_Replies
begin

text \<open>
  The storing commands of a connection: the body that follows the request line, in the header buffer
  and behind it, and the command that is run when the body is there.
\<close>

section \<open>Numbers in requests\<close>

lemma dec_plain: "plain (dec n)"
proof -
  have "b \<notin> {0, 10, 13, 32, 92}" if b: "b \<in> set (dec n)" for b
  proof -
    obtain d where "d < 10" "b = of_nat (48 + d)" using dec_digits [OF b] by blast
    then have "48 \<le> unat b" "unat b < 58" using unat_digit [of d] by simp_all
    then show ?thesis by auto
  qed
  then show ?thesis using dec_nonempty [of n] by (auto simp: plain_def)
qed

lemma strtoull10_dec: "n < 2 ^ 64 \<Longrightarrow> strtoull10 (dec n) = of_nat n"
proof -
  assume n: "n < 2 ^ 64"
  have "dropWhile is_space (dec n) = dec n"
    using dec_nonempty [of n] dec_no_space [of _ n] by (cases "dec n") auto
  moreover have "hd (dec n) \<noteq> 45 \<and> hd (dec n) \<noteq> 43"
    using dec_nonempty [of n] dec_no_space [of _ n] by (cases "dec n") auto
  ultimately show ?thesis using n digits_dec [of n "[]" 0] by (simp add: strtoull10_def Let_def)
qed

section \<open>The contract of the commands\<close>

fun cmd_name :: "cmd_type \<Rightarrow> string" where
  "cmd_name CmdSet = ''set''"
| "cmd_name CmdAdd = ''add''"
| "cmd_name CmdReplace = ''replace''"
| "cmd_name CmdPrepend = ''prepend''"
| "cmd_name CmdAppend = ''append''"

fun a_store :: "cmd_type \<Rightarrow> conf \<Rightarrow> astore \<Rightarrow> byte list \<Rightarrow> byte list \<Rightarrow> u32 \<Rightarrow> (shmc_rc \<times> astore) option" where
  "a_store CmdSet = a_set"
| "a_store CmdAdd = a_add"
| "a_store CmdReplace = a_replace"
| "a_store CmdPrepend = a_prepend"
| "a_store CmdAppend = a_append"

text \<open>Lengths the code can add up without wrapping around.\<close>

definition sizes_add :: "cmd_type \<Rightarrow> conf \<Rightarrow> astore \<Rightarrow> byte list \<Rightarrow> byte list \<Rightarrow> bool" where
  "sizes_add ty cf A k v \<longleftrightarrow>
     (if ty = CmdPrepend \<or> ty = CmdAppend then joins cf A k (length v) else sizeof_item + length k + length v < 2 ^ 64)"

fun reply :: "shmc_rc \<Rightarrow> byte list" where
  "reply SHMC_OK = text_of ''STORED'' @ crlf"
| "reply SHMC_EXIST = text_of ''EXISTS'' @ crlf"
| "reply SHMC_NOTFOUND = text_of ''NOT_FOUND'' @ crlf"
| "reply rc = text_of ''SERVER_ERROR '' @ text_of (shmc_error '''' rc) @ crlf"

lemma a_set_rc: "a_set cf A k v f = Some (rc, A') \<Longrightarrow> rc \<in> {SHMC_OK, SHMC_ESIZE, SHMC_NOMEMORY}"
  by (auto simp: a_set_def Let_def split: if_splits option.splits Option.bind_splits prod.splits)

lemma a_grow_rc: "a_grow cf A k join f = Some (rc, A') \<Longrightarrow> rc \<in> {SHMC_OK, SHMC_NOTFOUND, SHMC_ESIZE, SHMC_NOMEMORY}"
  by (auto simp: a_grow_def Let_def split: if_splits option.splits Option.bind_splits prod.splits)

lemma a_store_rc:
  assumes "a_store ty cf A k v f = Some (rc, A')"
  shows "rc \<in> {SHMC_OK, SHMC_ESIZE, SHMC_NOMEMORY} \<or> (rc = SHMC_EXIST \<and> ty = CmdAdd)
    \<or> (rc = SHMC_NOTFOUND \<and> ty \<notin> {CmdSet, CmdAdd})"
proof (cases ty)
  case CmdReplace
  then show ?thesis using assms a_set_rc [of cf _ k v f rc A']
    by (auto simp: a_replace_def split: if_splits option.splits Option.bind_splits)
qed (use assms a_set_rc [of cf A k v f rc A'] a_grow_rc [of cf A k _ f rc A']
  in \<open>auto simp: a_add_def a_prepend_def a_append_def split: option.splits\<close>)

section \<open>Running the command\<close>

text \<open>The command on the store, with the response in the header buffer.\<close>

lemma store_cmd_run:
  assumes A: "implements (store s) A"
    and key: "key_arg (conn s) = Some (key, length k)" "length k \<le> length (buf_bytes key)" "buf_key key (length k) = k"
    and body: "body_size (conn s) = length v" "take (length v) (body_bytes (conn s)) = v"
    and fl: "cflags (conn s) = f" and sz: "sizes_add ty (conf_of (store s)) A k v"
    and r: "a_store ty (conf_of (store s)) A k v f = Some (rc, A')"
  shows "\<exists>s0. store_cmd ty s = Some (outString (reply rc) s0) \<and> implements (store s0) A'
    \<and> conf_of (store s0) = conf_of (store s) \<and> conn s0 = conn s \<and> net s0 = net s"
proof -
  let ?b = "body_bytes (conn s)"
  have l: "length v \<le> length ?b" using arg_cong [OF body(2), of length] by simp
  have err: "serverError rc s1 = outString (reply rc) (count err_cnts_update s1)"
    if "rc \<in> {SHMC_ESIZE, SHMC_NOMEMORY}" for s1
    using that by (auto simp: serverError_def)
  show ?thesis
  proof (cases ty)
    case CmdSet
    then obtain st where "shmc_set_nolock (store s) key (length k) ?b (length v) f = Some (rc, st)"
        "implements st A'" "conf_of st = conf_of (store s)"
      using set_refines [OF A key(2) l, of f] r sz key(3) body(2) by (auto simp: sizes_add_def)
    then show ?thesis using CmdSet a_store_rc [OF r] key(1) body(1) fl err
      by (auto simp: store_cmd_def doSet_eq Let_def)
  next
    case CmdAdd
    then obtain st where "shmc_add_nolock (store s) key (length k) ?b (length v) f = Some (rc, st)"
        "implements st A'" "conf_of st = conf_of (store s)"
      using add_refines [OF A key(2) l, of f] r sz key(3) body(2) by (auto simp: sizes_add_def)
    then show ?thesis using CmdAdd a_store_rc [OF r] key(1) body(1) fl err
      by (auto simp: store_cmd_def doAdd_eq Let_def)
  next
    case CmdReplace
    then obtain st where "shmc_replace_nolock (store s) key (length k) ?b (length v) f = Some (rc, st)"
        "implements st A'" "conf_of st = conf_of (store s)"
      using replace_refines [OF A key(2) l, of f] r sz key(3) body(2) by (auto simp: sizes_add_def)
    then show ?thesis using CmdReplace a_store_rc [OF r] key(1) body(1) fl err
      by (auto simp: store_cmd_def doReplace_eq Let_def)
  next
    case CmdPrepend
    then obtain st where "shmc_prepend_nolock (store s) key (length k) ?b (length v) f = Some (rc, st)"
        "implements st A'" "conf_of st = conf_of (store s)"
      using prepend_refines [OF A key(2) l, of f] r sz key(3) body(2) by (auto simp: sizes_add_def)
    then show ?thesis using CmdPrepend a_store_rc [OF r] key(1) body(1) fl err
      by (auto simp: store_cmd_def doPrepend_eq Let_def)
  next
    case CmdAppend
    then obtain st where "shmc_append_nolock (store s) key (length k) ?b (length v) f = Some (rc, st)"
        "implements st A'" "conf_of st = conf_of (store s)"
      using append_refines [OF A key(2) l, of f] r sz key(3) body(2) by (auto simp: sizes_add_def)
    then show ?thesis using CmdAppend a_store_rc [OF r] key(1) body(1) fl err
      by (auto simp: store_cmd_def doAppend_eq Let_def)
  qed
qed

section \<open>Receiving the body\<close>

text \<open>\<open>b\<close> holds the first \<open>m\<close> bytes of the body of \<open>size\<close> bytes.\<close>

definition body_part :: "conn \<Rightarrow> byte list \<Rightarrow> nat \<Rightarrow> bool" where
  "body_part c body m \<longleftrightarrow> reqBodySize c = length body \<and> reqBodyBytes c = m \<and> m \<le> length body
     \<and> (\<exists>b. reqBody c = Some b \<and> length b = reqBodyCapability c \<and> length body \<le> length b \<and> take m b = take m body)"

lemma blit_front: "take m b = take m body \<Longrightarrow> m \<le> length b \<Longrightarrow> m \<le> length body \<Longrightarrow>
    take (m + length d) (blit b m d) = take m body @ d"
  by (simp add: blit_def min_def)

lemma body_read_on:
  assumes p: "body_part (conn s) body m" and ch: "chunked (n_recv (net s)) (drop m body)" and st: "cstate (conn s) = NRead"
  shows "\<exists>b. length b = reqBodyCapability (conn s) \<and> length body \<le> length b \<and> take (length body) b = body
    \<and> onNRead s = run_body (upd_net (n_recv_update (\<lambda>_. [])) s
        \<lparr>conn := (conn s)\<lparr>reqBody := Some b, reqBodyBytes := length body\<rparr>\<rparr>)"
proof -
  obtain b where b: "reqBody (conn s) = Some b" "length b = reqBodyCapability (conn s)" "length body \<le> length b"
      "take m b = take m body" "reqBodySize (conn s) = length body" "reqBodyBytes (conn s) = m" "m \<le> length body"
    using p by (auto simp: body_part_def)
  show ?thesis
  proof (cases "m = length body")
    case True
    then have "n_recv (net s) = []" using ch by simp
    then have "upd_net (n_recv_update (\<lambda>_. [])) s\<lparr>conn := (conn s)\<lparr>reqBody := Some b, reqBodyBytes := length body\<rparr>\<rparr> = s"
      using b True by simp
    moreover have "onNRead s = run_body s" using b True by (simp add: onNRead_def)
    ultimately show ?thesis using b True by (intro exI [of _ b]) simp
  next
    case False
    then have room: "0 < length body - m" "length body - m \<le> length (drop m body)" using b(7) by simp_all
    obtain es where es: "recv_loop (n_recv (net s)) (length body - m) = (drop m body, Full, es)" "chunked es []"
      using recv_full [OF ch room] by auto
    let ?b = "blit b m (drop m body)"
    have "take (m + length (drop m body)) ?b = take m body @ drop m body"
      by (rule blit_front [OF b(4)]) (use b(3,7) in simp_all)
    then have "take (length body) ?b = body" using b(7) by simp
    moreover have "length ?b = length b" using b(3,7) by simp
    ultimately show ?thesis
      using b es False by (intro exI [of _ ?b]) (simp add: onNRead_def Let_def)
  qed
qed

text \<open>The buffer for the body, with the part of it that came with the line.\<close>

lemma str_arg_ctype [simp]: "str_arg (c\<lparr>ctype := ty\<rparr>) i = str_arg c i"
  by (simp add: str_arg_def)

lemma begin_body_part:
  assumes arg: "str_arg (conn s) 4 = Some (dec n)" and n: "length body = n + 2" "length body < 2 ^ 63"
    and ok: "body_ok (conn s)" "quiet s" "reqBodyBytes (conn s) = 0"
    and hdr: "take m (drop start (reqHeader (conn s))) = take m body" "m \<le> length body"
      "reqHeaderBytes (conn s) = start + m" "start + m \<le> length (reqHeader (conn s))"
    and fin: "fin \<noteq> WouldBlock \<or> m = length body"
  shows "\<exists>b c. begin_body ty start fin s = Some (DmGoOn, s\<lparr>conn := c\<rparr>) \<and> body_part c body m
    \<and> c = (conn s)\<lparr>ctype := ty, cstate := NRead, reqBody := Some b, reqBodySize := length body, reqBodyBytes := m,
        reqBodyCapability := length b\<rparr>"
proof -
  have size: "size_add (unat (strtoull10 (dec n))) 2 = length body"
  proof -
    have "unat (of_nat n :: u64) = n" using n by (simp add: unat_of_nat)
    then show ?thesis using strtoull10_dec [of n] n by simp
  qed
  define b0 where "b0 = (if reqBodyCapability (conn s) < length body then replicate (length body) 0 else body_bytes (conn s))"
  have b0: "length body \<le> length b0" "reqBodyCapability (conn s) < length body \<or> reqBody (conn s) = Some b0"
      "\<not> reqBodyCapability (conn s) < length body \<Longrightarrow> reqBodyCapability (conn s) = length b0"
    using ok(1) n(1) by (auto simp: b0_def body_ok_def body_bytes_def split: option.splits)
  have m: "n_malloc (net s)" using ok(2) by (simp add: quiet_def)
  define b where "b = blit b0 0 (take m body)"
  define c where "c = (conn s)\<lparr>ctype := ty, cstate := NRead, reqBody := Some b, reqBodySize := length body,
    reqBodyBytes := m, reqBodyCapability := length b\<rparr>"
  have cp: "memcpy b0 0 (drop start (reqHeader (conn s))) (min m (length body)) = Some b"
    using hdr(1,2,4) b0(1) by (simp add: min_def b_def)
  have b: "length b = length b0" "take m b = take m body" using b0(1) hdr(2) by (simp_all add: blit_def min_def b_def)
  have zero: "b = b0" if "m = 0" using that by (simp add: b_def blit_def)
  have alloc: "replicate (length body) 0 = b0" if "reqBodyCapability (conn s) < length body" using that by (simp add: b0_def)
  have len: "length b0 = length body" if "reqBodyCapability (conn s) < length body" using that by (simp add: b0_def)
  have "begin_body ty start fin s = Some (DmGoOn, s\<lparr>conn := c\<rparr>)"
    unfolding begin_body_def alloc_body_def take_body_def c_def
    using arg size b0 b(1) m ok(3) hdr(2,3) fin cp zero alloc len n(2)
    by (cases "reqBodyCapability (conn s) < length body"; cases "m = 0") (simp_all add: Let_def)
  moreover have "body_part c body m" using b b0(1) hdr(2) by (simp add: body_part_def c_def)
  ultimately show ?thesis unfolding c_def by blast
qed

section \<open>From the request to the response\<close>

definition store_line :: "cmd_type \<Rightarrow> byte list \<Rightarrow> u32 \<Rightarrow> byte list \<Rightarrow> nat \<Rightarrow> byte list" where
  "store_line ty k f e n = join_words [text_of (cmd_name ty), k, dec (unat f), e, dec n]"

lemma store_line_plain: "plain k \<Longrightarrow> plain e \<Longrightarrow> w \<in> set [text_of (cmd_name ty), k, dec (unat (f :: u32)), e, dec n] \<Longrightarrow> plain w"
  using dec_plain by (cases ty) (auto simp: plain_def text_of_def)

lemma store_line_length:
  assumes "n < 2 ^ 64" and "length k + length e \<le> 260"
  shows "length (store_line ty k f e n) + 2 \<le> REQ_HEADER_SIZE"
proof -
  have "length (dec (unat f)) \<le> Suc 9" using unsigned_less [where 'a = nat, of f] by (intro dec_length) simp
  moreover have "length (dec n) \<le> Suc 19" using assms(1) by (intro dec_length) simp
  moreover have "length (cmd_name ty) \<le> 7" by (cases ty) simp_all
  ultimately show ?thesis using assms(2) by (simp add: store_line_def REQ_HEADER_SIZE_def)
qed

lemma reply_facts: "reply rc \<noteq> []" "length (reply rc) < RES_HEADER_SIZE"
  by (cases rc; simp add: RES_HEADER_SIZE_def)+

text \<open>The whole body is there.\<close>

lemma run_body_stored:
  assumes A: "implements (store s) A" and w: "quiet s" "conn_ok ((conn s)\<lparr>reqHeaderBytes := 0, reqBodyBytes := 0\<rparr>)"
      "resBodySize (conn s) = 0"
    and t: "tokens (conn s) = toks @ [fin]" "list_all2 (token_of (reqHeader (conn s))) toks [g, k, dec (unat f), e, d]"
    and b: "reqBody (conn s) = Some b" "take (length v) b = v" "reqBodySize (conn s) = length v + 2"
    and sz: "length v + 2 < 2 ^ 63" "sizes_add ty (conf_of (store s)) A k v"
    and r: "a_store ty (conf_of (store s)) A k v f = Some (rc, A')" and ty: "ctype (conn s) = ty"
  shows "\<exists>s1. run_body s = Some (DmGoOn, await Write s1) \<and> ready s1 (reply rc) [] \<and> quiet s1
    \<and> reqHeaderBytes (conn s1) = 0 \<and> net s1 = net s \<and> implements (store s1) A' \<and> conf_of (store s1) = conf_of (store s)"
proof -
  define s' where "s' = upd_conn (cflags_update (\<lambda>_. f)) s"
  have keep: "store s' = store s" "net s' = net s" "ctype (conn s') = ty" using ty by (simp_all add: s'_def)
  obtain key where key: "key_arg (conn s) = Some (key, length k)" "length k \<le> length (buf_bytes key)" "buf_key key (length k) = k"
    using key_arg_token [OF t] by auto
  have key': "key_arg (conn s') = Some (key, length k)" using key(1) by (simp add: s'_def key_arg_def)
  have body: "body_size (conn s') = length v" "take (length v) (body_bytes (conn s')) = v" "cflags (conn s') = f"
    using b sz(1) by (simp_all add: s'_def body_size_def body_bytes_def)
  have "(of_nat (unat f) :: u64) = ucast f" by simp
  moreover have "(ucast (ucast f :: u64) :: u32) = f" by transfer (simp add: take_bit_take_bit)
  ultimately have fl: "ucast (strtoull10 (dec (unat f))) = f"
    using strtoull10_dec [of "unat f"] unsigned_less [where 'a = nat, of f] by simp
  have arg: "str_arg (conn s) 2 = Some (dec (unat f))" using str_arg_token [OF t, of 2] by simp
  obtain s0 where s0: "store_cmd ty s' = Some (outString (reply rc) s0)" "implements (store s0) A'"
      "conf_of (store s0) = conf_of (store s)" "conn s0 = conn s'" "net s0 = net s"
    using store_cmd_run [OF _ key' key(2,3) body, of A ty rc A'] A sz(2) r keep(1,2) by metis
  define s1 where "s1 = upd_conn (\<lambda>c. c\<lparr>reqHeaderBytes := 0, reqBodyBytes := 0\<rparr>) (outString (reply rc) s0)"
  have "run_body s = Some (DmGoOn, await Write s1)"
    using arg fl s0(1) ty by (simp add: run_body_def s'_def [symmetric] s1_def Let_def)
  moreover have "ready s1 (reply rc) []"
  proof -
    have l: "length (resHeader (conn s0)) = RES_HEADER_SIZE" using w(2) s0(4) by (simp add: conn_ok_def s'_def)
    show ?thesis
      using w(2,3) reply_facts s0(4) load_header(1) [OF l reply_facts(2) [of rc]] outString_length [OF l, of "reply rc"]
      unfolding ready_def Let_def by (simp add: conn_ok_def body_ok_def body_bytes_def s1_def s'_def)
  qed
  ultimately show ?thesis using s0 w(1) by (auto simp: s1_def quiet_def)
qed

lemma take_front: "take (min r (length b)) (take r b @ x) = take (min r (length b)) b"
  by (simp add: min_def)

lemma drop_front: "drop r b = drop (min r (length b)) b"
  by (simp add: min_def)

text \<open>A storing request, line and body, up to the response.\<close>

lemma storing_run:
  assumes A: "implements (store s) A" and w: "waiting s" and quiet: "quiet s"
    and k: "plain k" "plain e" "length k + length e \<le> 260"
    and ch: "chunked (n_recv (net s)) (store_line ty k f e (length v) @ crlf @ v @ crlf)"
    and sz: "length v + 2 < 2 ^ 63" "sizes_add ty (conf_of (store s)) A k v"
    and r: "a_store ty (conf_of (store s)) A k v f = Some (rc, A')"
  shows "\<exists>s1. driverMachine p s = driverMachine p (await Write s1) \<and> ready s1 (reply rc) [] \<and> quiet s1
    \<and> reqHeaderBytes (conn s1) = 0 \<and> n_recv (net s1) = [] \<and> n_sent (net s1) = n_sent (net s) \<and> n_writev (net s1) = n_writev (net s)
    \<and> implements (store s1) A' \<and> conf_of (store s1) = conf_of (store s)"
proof -
  let ?ws = "[text_of (cmd_name ty), k, dec (unat f), e, dec (length v)]" and ?body = "v @ crlf"
  define n where "n = length (store_line ty k f e (length v)) + 2"
  define m where "m = min (REQ_HEADER_SIZE - n) (length ?body)"
  have n: "n \<le> REQ_HEADER_SIZE" using store_line_length [of "length v" k e ty f] sz(1) k(3) by (simp add: n_def)
  have n': "length (join_words ?ws) + 2 = n" by (simp only: n_def store_line_def)
  have ch': "chunked (n_recv (net s)) (join_words ?ws @ crlf @ ?body)" using ch unfolding store_line_def by simp
  have pl: "\<And>w. w \<in> set ?ws \<Longrightarrow> plain w" by (rule store_line_plain [OF k(1,2)])
  have ne: "?ws \<noteq> []" "length ?ws \<le> 6" by simp_all
  obtain toks fin mem es where l: "list_all2 (token_of mem) toks ?ws" "length mem = REQ_HEADER_SIZE"
      "drop n mem = take (REQ_HEADER_SIZE - n) ?body @ drop (n + length ?body) (reqHeader (conn s))"
      "chunked es (drop (REQ_HEADER_SIZE - n) ?body)"
      "onRead p s = (let s' = heard s mem (min REQ_HEADER_SIZE (n + length ?body)) (toks @ [fin]) es in
        dispatch p (conn s') \<bind> (\<lambda>cmd. run_command n (if n + length ?body < REQ_HEADER_SIZE then WouldBlock else Full) cmd s'))"
    using onRead_line [OF w ch' pl ne n [folded n'], where p = p] unfolding n' by blast
  have nm: "min REQ_HEADER_SIZE (n + length ?body) = n + m" using n by (simp add: m_def)
  have dm: "drop (REQ_HEADER_SIZE - n) ?body = drop m ?body" "take m (drop n mem) = take m ?body" "m \<le> length ?body"
    unfolding l(3) m_def using take_front drop_front by (blast, blast, simp)
  define s0 where "s0 = heard s mem (n + m) (toks @ [fin]) es"
  have t0: "tokens (conn s0) = toks @ [fin]" "list_all2 (token_of (reqHeader (conn s0))) toks ?ws" using l(1) by (simp_all add: s0_def)
  have "dispatch p (conn s0) = Some (Body ty)"
    using is_cmd_token [OF t0] by (cases ty) (simp_all add: dispatch_def)
  then have read: "onRead p s = begin_body ty n (if n + length ?body < REQ_HEADER_SIZE then WouldBlock else Full) s0"
    using l(5) by (simp only: nm Let_def s0_def [symmetric] run_command_def) simp
  have ok0: "body_ok (conn s0)" "quiet s0" "reqBodyBytes (conn s0) = 0"
    using w quiet by (simp_all add: s0_def waiting_def conn_ok_def body_ok_def body_bytes_def quiet_def)
  have arg: "str_arg (conn s0) 4 = Some (dec (length v))" using str_arg_token [OF t0, of 4] by simp
  have hdr: "take m (drop n (reqHeader (conn s0))) = take m ?body" "reqHeaderBytes (conn s0) = n + m"
      "n + m \<le> length (reqHeader (conn s0))"
    using dm(2) l(2) n by (simp_all add: s0_def m_def)
  have len: "length ?body = length v + 2" "length ?body < 2 ^ 63" using sz(1) by simp_all
  have end_of: "(if n + length ?body < REQ_HEADER_SIZE then WouldBlock else Full) \<noteq> WouldBlock \<or> m = length ?body"
    by (simp add: m_def)
  obtain b c where b: "begin_body ty n (if n + length ?body < REQ_HEADER_SIZE then WouldBlock else Full) s0
        = Some (DmGoOn, s0\<lparr>conn := c\<rparr>)" "body_part c ?body m"
      "c = (conn s0)\<lparr>ctype := ty, cstate := NRead, reqBody := Some b, reqBodySize := length ?body, reqBodyBytes := m,
        reqBodyCapability := length b\<rparr>"
    using begin_body_part [OF arg len ok0 hdr(1) dm(3) hdr(2,3) end_of, of ty] by blast
  define s1 where "s1 = s0\<lparr>conn := c\<rparr>"
  have ch1: "chunked (n_recv (net s1)) (drop m ?body)" using l(4) dm(1) by (simp add: s1_def s0_def)
  have "body_part (conn s1) ?body m" "cstate (conn s1) = NRead" using b(2,3) by (simp_all add: s1_def)
  from body_read_on [OF this(1) ch1 this(2)] obtain b2 where b2: "length b2 = length b" "length ?body \<le> length b2"
      "take (length ?body) b2 = ?body"
      "onNRead s1 = run_body (upd_net (n_recv_update (\<lambda>_. [])) s1\<lparr>conn := (conn s1)\<lparr>reqBody := Some b2, reqBodyBytes := length ?body\<rparr>\<rparr>)"
    by (auto simp: s1_def b(3))
  define s2 where "s2 = upd_net (n_recv_update (\<lambda>_. [])) s1\<lparr>conn := (conn s1)\<lparr>reqBody := Some b2, reqBodyBytes := length ?body\<rparr>\<rparr>"
  have v: "take (length v) b2 = v" using arg_cong [OF b2(3), of "take (length v)"] by (simp add: min_def)
  have s2: "store s2 = store s" "quiet s2" "conn_ok ((conn s2)\<lparr>reqHeaderBytes := 0, reqBodyBytes := 0\<rparr>)"
    "resBodySize (conn s2) = 0" "tokens (conn s2) = toks @ [fin]" "list_all2 (token_of (reqHeader (conn s2))) toks ?ws"
    "reqBody (conn s2) = Some b2" "reqBodySize (conn s2) = length v + 2" "ctype (conn s2) = ty"
    "n_recv (net s2) = []" "n_sent (net s2) = n_sent (net s)" "n_writev (net s2) = n_writev (net s)"
    using w quiet l(1,2) b2(1)
    by (simp_all add: s2_def s1_def b(3) s0_def waiting_def conn_ok_def body_ok_def body_bytes_def quiet_def)
  obtain s3 where s3: "run_body s2 = Some (DmGoOn, await Write s3)" "ready s3 (reply rc) []" "quiet s3"
      "reqHeaderBytes (conn s3) = 0" "net s3 = net s2" "implements (store s3) A'" "conf_of (store s3) = conf_of (store s2)"
    using run_body_stored [OF _ s2(2-7) v s2(8) sz(1) _ _ s2(9), of A rc A'] A sz(2) r s2(1) by auto
  have "driverMachine p s = driverMachine p s1"
    using w read b(1) by (subst driver_step) (simp add: waiting_def s1_def)
  also have "\<dots> = driverMachine p (await Write s3)"
    using b2(4) s3(1) by (subst driver_step) (simp add: s1_def b(3) s2_def)
  finally show ?thesis using s3(2-7) s2(1,10-12) by auto
qed

end
