(* ===== verification/Connection_Typing.thy ===== *)
theory Connection_Typing
  imports Connection_Storing
begin

text \<open>
  The sizes that the state machine of a connection relies on: its buffers, the counts of bytes in
  them, and which of them may be in use in which state. Every call of \<open>driverMachine\<close> keeps them,
  whatever the peer sends and however the system calls answer.
\<close>

section \<open>Well-typed connections\<close>

definition conn_typed :: "conn \<Rightarrow> bool" where
  "conn_typed c \<longleftrightarrow>
     length (reqHeader c) = REQ_HEADER_SIZE \<and> reqHeaderBytes c \<le> REQ_HEADER_SIZE
     \<and> (\<forall>b. reqBody c = Some b \<longrightarrow> length b = reqBodyCapability c)
     \<and> (reqBody c \<noteq> None \<longrightarrow> reqBodyCapability c < 2 ^ 63)
     \<and> reqBodyBytes c \<le> reqBodySize c \<and> reqBodySize c \<le> reqBodyCapability c
     \<and> length (resHeader c) = RES_HEADER_SIZE
     \<and> (resBodySize c \<noteq> 0 \<longrightarrow> (\<exists>b. resBody c = Some b \<and> length b = resBodySize c))
     \<and> (cstate c \<in> {Read, Write} \<longrightarrow> reqBodyBytes c = 0)
     \<and> (cstate c \<in> {Read, NRead} \<longrightarrow> resBodySize c = 0)
     \<and> (cstate c \<in> {Read, NRead, Write} \<longrightarrow> resHeaderBytes c = 0 \<and> resBodyBytes c = 0 \<and> resTailBytes c = 0)"

lemma typed_close: "conn_typed c \<Longrightarrow> conn_typed (c\<lparr>cstate := Close\<rparr>)"
  by (simp add: conn_typed_def)

lemma new_conn_typed: "conn_typed (new_conn addr st)"
  by (simp add: conn_typed_def new_conn_def)

text \<open>A connection that has just been accepted waits for its first request.\<close>

definition accepted :: "conn \<Rightarrow> bool" where
  "accepted c \<longleftrightarrow> conn_typed c \<and> cstate c = Read"

lemma new_conn_accepted: "accepted (new_conn addr Read)"
  using new_conn_typed by (simp add: accepted_def new_conn_def)

section \<open>Commands only prepare the response\<close>

definition answered :: "server \<Rightarrow> server \<Rightarrow> bool" where
  "answered s s' \<longleftrightarrow> (let c = conn s; c' = conn s' in peers s' = peers s
     \<and> cstate c' = cstate c \<and> reqHeader c' = reqHeader c \<and> reqHeaderBytes c' = reqHeaderBytes c
     \<and> reqBody c' = reqBody c \<and> reqBodySize c' = reqBodySize c \<and> reqBodyBytes c' = reqBodyBytes c
     \<and> reqBodyCapability c' = reqBodyCapability c \<and> length (resHeader c') = length (resHeader c)
     \<and> resHeaderBytes c' = resHeaderBytes c \<and> resBodyBytes c' = resBodyBytes c \<and> resTailBytes c' = resTailBytes c
     \<and> (resBodySize c' = resBodySize c \<or> (\<exists>b. resBody c' = Some b \<and> length b = resBodySize c')))"

lemma out_length: "length (resHeader (conn s)) = RES_HEADER_SIZE \<Longrightarrow>
    length (resHeader (conn (outString t s))) = RES_HEADER_SIZE"
  by (simp only: out_fields outString_length)

lemma answered_out:
  assumes "length (resHeader (conn s)) = RES_HEADER_SIZE" and "conn s0 = conn s" and "peers s0 = peers s"
  shows "answered s (outString t s0)" "answered s (serverError rc s0)"
    "answered s (upd_conn (\<lambda>c. c\<lparr>resBody := Some v, resBodySize := length v\<rparr>) (outString t s0))"
    "answered s (outString t (upd_conn (resBody_update (\<lambda>_. None)) s0))"
    "answered s (upd_conn (\<lambda>c. c\<lparr>resBody := Some v, resBodySize := length v\<rparr>) s0)"
  using assms outString_length [of "conn s", OF assms(1)]
  by (simp_all add: answered_def serverError_def Let_def del: length_blit take_append)

lemma storing_answered:
  assumes "length (resHeader (conn s)) = RES_HEADER_SIZE"
  shows "doSet s = Some s' \<Longrightarrow> answered s s'" "doAdd s = Some s' \<Longrightarrow> answered s s'"
    "doReplace s = Some s' \<Longrightarrow> answered s s'" "doPrepend s = Some s' \<Longrightarrow> answered s s'"
    "doAppend s = Some s' \<Longrightarrow> answered s s'"
  subgoal by (auto simp: doSet_eq Let_def split: Option.bind_splits if_splits intro!: answered_out [OF assms])
  subgoal by (auto simp: doAdd_eq Let_def split: Option.bind_splits if_splits intro!: answered_out [OF assms])
  subgoal by (auto simp: doReplace_eq Let_def split: Option.bind_splits if_splits intro!: answered_out [OF assms])
  subgoal by (auto simp: doPrepend_eq Let_def split: Option.bind_splits if_splits intro!: answered_out [OF assms])
  subgoal by (auto simp: doAppend_eq Let_def split: Option.bind_splits if_splits intro!: answered_out [OF assms])
  done

lemma commands_answered:
  assumes "length (resHeader (conn s)) = RES_HEADER_SIZE"
  shows "doGet s = Some s' \<Longrightarrow> answered s s'" "doIncr s = Some s' \<Longrightarrow> answered s s'"
    "doDecr s = Some s' \<Longrightarrow> answered s s'" "doDelete s = Some s' \<Longrightarrow> answered s s'"
    "doStats s = Some s' \<Longrightarrow> answered s s'" "doDump s = Some s' \<Longrightarrow> answered s s'"
    "doLoad p s = Some s' \<Longrightarrow> answered s s'" "unknown s = Some s' \<Longrightarrow> answered s s'"
    "store_cmd ty s = Some s' \<Longrightarrow> answered s s'"
  subgoal by (auto simp: doGet_eq Let_def split: Option.bind_splits option.splits if_splits intro!: answered_out(1-3) [OF assms])
  subgoal by (auto simp: doIncr_eq Let_def split: Option.bind_splits option.splits if_splits intro!: answered_out [OF assms])
  subgoal by (auto simp: doDecr_eq Let_def split: Option.bind_splits option.splits if_splits intro!: answered_out [OF assms])
  subgoal by (auto simp: doDelete_eq Let_def split: Option.bind_splits option.splits if_splits intro!: answered_out [OF assms])
  subgoal by (auto simp: doStats_def Let_def split: Option.bind_splits option.splits if_splits intro!: answered_out [OF assms])
  subgoal by (auto simp: doDump_eq Let_def split: Option.bind_splits option.splits if_splits intro!: answered_out [OF assms])
  subgoal by (auto simp: doLoad_eq Let_def split: Option.bind_splits option.splits if_splits intro!: answered_out [OF assms])
  subgoal by (auto simp: unknown_def intro!: answered_out [OF assms])
  subgoal using storing_answered [OF assms] by (cases ty) (auto simp: store_cmd_def)
  done

section \<open>Every handler keeps the types\<close>

definition server_typed :: "server \<Rightarrow> bool" where
  "server_typed s \<longleftrightarrow> conn_typed (conn s) \<and> (\<forall>c \<in> set (peers s). accepted c)"

lemma recv_loop_length:
  "recv_loop es room = (d, e, es') \<Longrightarrow> length d \<le> room \<and> (e = Full \<longrightarrow> length d = room)"
proof (induction es room arbitrary: d e es' rule: recv_loop.induct)
  case (4 bs es room)
  show ?case
  proof (cases "bs = [] \<or> \<not> length bs < room")
    case True
    then show ?thesis using "4.prems" by (auto split: if_splits)
  next
    case False
    obtain d0 e0 es0 where r: "recv_loop es (room - length bs) = (d0, e0, es0)" by (rule prod_cases3)
    have "length d0 \<le> room - length bs \<and> (e0 = Full \<longrightarrow> length d0 = room - length bs)"
      using False by (intro "4.IH" [OF _ _ r]) auto
    then show ?thesis using "4.prems" False r by auto
  qed
qed auto

lemma tok_loop_length: "tok_loop lim mem s e esc toks = Some (toks', e', mem') \<Longrightarrow> length mem' = length mem"
proof (induction lim mem s e esc toks rule: tok_loop.induct)
  case (1 lim mem s e esc toks)
  note run = "1.prems" [unfolded tok_loop.simps [of lim mem s e]]
  show ?case
  proof (cases "length toks < lim")
    case lim: True
    show ?thesis
    proof (cases esc)
      case True
      then show ?thesis using run "1.IH"(1) [OF lim True] lim by simp
    next
      case False
      then show ?thesis
        using run lim "1.IH"(2-5) [OF lim False] by (auto split: if_splits)
    qed
  qed (use run in simp)
qed

lemma tokenize_length: "tokenize mem m = Some (toks, mem') \<Longrightarrow> length mem' = length mem"
  by (auto simp: tokenize_def dest: tok_loop_length split: Option.bind_splits)

lemma update_event_keeps: "update_event s = (ok, s') \<Longrightarrow> conn s' = conn s \<and> peers s' = peers s \<and> store s' = store s"
  by (auto simp: update_event_def split: list.splits)

lemma await_conn:
  "\<exists>st' \<in> {st, Close}. conn (await st s) = (conn s)\<lparr>cstate := st'\<rparr> \<and> peers (await st s) = peers s"
  using update_event_keeps [of s] by (cases "update_event s") (auto simp: await_def)

lemma await_store [simp]: "store (await st s) = store s"
  using update_event_keeps [of s] by (cases "update_event s") (simp add: await_def)

text \<open>The states in which a response is about to be written.\<close>

lemma await_typed:
  assumes "conn_typed ((conn s)\<lparr>cstate := Write\<rparr>)" and "\<forall>c \<in> set (peers s). accepted c"
  shows "server_typed (await Write s)"
proof -
  have "conn_typed ((conn s)\<lparr>cstate := st\<rparr>)" if "st \<in> {Write, Close}" for st
    using assms(1) that by (auto simp: conn_typed_def)
  then show ?thesis using assms(2) await_conn [of Write s] unfolding server_typed_def by force
qed

lemma answered_typed:
  assumes "answered s s'" and "conn_typed (conn s)" and "cstate (conn s) = Read \<or> cstate (conn s) = NRead"
    and "hb \<le> REQ_HEADER_SIZE"
  shows "conn_typed ((conn s')\<lparr>reqHeaderBytes := hb, reqBodyBytes := 0, cstate := Write\<rparr>)"
    "cstate (conn s) = Read \<Longrightarrow> conn_typed ((conn s')\<lparr>reqHeaderBytes := hb, cstate := Write\<rparr>)"
  using assms by (auto simp: answered_def conn_typed_def Let_def)

lemma first_of_mem: "first_of xs = Some c \<Longrightarrow> c \<in> insert (Immediate unknown) (set (map snd xs))"
  by (induction xs) (auto split: Option.bind_splits if_splits)

lemma blit_length: "off + length d \<le> n \<Longrightarrow> length b = n \<Longrightarrow> length (blit b off d) = n"
  by simp

lemma alloc_body_typed:
  assumes "conn_typed (conn s)" and "cstate (conn s) = Read"
  shows "conn_typed ((conn (alloc_body n s))\<lparr>cstate := NRead\<rparr>)" "peers (alloc_body n s) = peers s"
proof -
  note T = assms(1) [unfolded conn_typed_def]
  show "conn_typed ((conn (alloc_body n s))\<lparr>cstate := NRead\<rparr>)"
  proof (cases "reqBodyCapability (conn s) < n")
    case True
    then show ?thesis using T assms(2) by (cases "n_malloc (net s)") (simp_all add: alloc_body_def conn_typed_def)
  next
    case False
    then show ?thesis using T assms(2) by (simp add: alloc_body_def conn_typed_def)
  qed
qed (simp add: alloc_body_def Let_def)

lemma take_body_typed:
  assumes "take_body start c = Some c'" and "conn_typed (c\<lparr>cstate := NRead\<rparr>)"
  shows "conn_typed (c'\<lparr>cstate := NRead\<rparr>)"
proof (cases "reqHeaderBytes c - start > 0")
  case True
  note T = assms(2) [unfolded conn_typed_def]
  let ?n = "min (reqHeaderBytes c - start) (reqBodySize c)"
  obtain b b' where b: "reqBody c = Some b" "memcpy b 0 (drop start (reqHeader c)) ?n = Some b'"
      "c' = c\<lparr>reqBody := Some b', reqBodyBytes := ?n\<rparr>"
    using assms(1) True by (auto simp: take_body_def Let_def split: Option.bind_splits)
  have "length b' = length b" using b(2) by (auto simp: memcpy_eq_Some)
  then show ?thesis using T b(1) unfolding b(3) by (simp add: conn_typed_def)
qed (use assms in \<open>simp add: take_body_def\<close>)

lemma begin_body_typed:
  assumes r: "begin_body ty start fin s = Some (d, s')" and t: "conn_typed (conn s)" and st: "cstate (conn s) = Read"
    and peers: "\<forall>c \<in> set (peers s). accepted c"
  shows "server_typed s'"
proof -
  define s0 where "s0 = upd_conn (ctype_update (\<lambda>_. ty)) s"
  have t0: "conn_typed (conn s0)" "cstate (conn s0) = Read" using t st by (simp_all add: s0_def conn_typed_def)
  obtain n c where "take_body start (conn (alloc_body n s0)) = Some c" "s' = (alloc_body n s0)\<lparr>conn := c\<lparr>cstate := NRead\<rparr>\<rparr>"
    using r by (auto simp: begin_body_def s0_def [symmetric] Let_def split: Option.bind_splits)
  then show ?thesis
    using take_body_typed alloc_body_typed [OF t0, of n] peers by (simp add: server_typed_def s0_def)
qed

lemma run_command_typed:
  assumes r: "run_command start fin cmd s = Some (d, s')" and t: "conn_typed (conn s)" and st: "cstate (conn s) = Read"
    and cmd: "dispatch p (conn s) = Some cmd" and peers: "\<forall>c \<in> set (peers s). accepted c"
  shows "server_typed s'"
proof (cases cmd)
  case Quit
  then show ?thesis using r peers typed_close [OF t] by (auto simp: run_command_def server_typed_def)
next
  case (Immediate f)
  obtain s1 where s1: "f s = Some s1" "s' = await Write (upd_conn (reqHeaderBytes_update (\<lambda>_. 0)) s1)"
    using r Immediate by (auto simp: run_command_def Let_def split: Option.bind_splits)
  have l: "length (resHeader (conn s)) = RES_HEADER_SIZE" using t by (simp add: conn_typed_def)
  have "f \<in> {doGet, doIncr, doDecr, doDelete, doStats, doDump, doLoad p, unknown}"
    using first_of_mem [OF cmd [unfolded dispatch_def]] Immediate by auto
  then have a: "answered s s1" using s1(1) commands_answered [OF l] by auto
  have "conn_typed ((conn s1)\<lparr>reqHeaderBytes := 0, cstate := Write\<rparr>)"
    by (rule answered_typed(2) [OF a t]) (use st in simp_all)
  moreover have "peers s1 = peers s" using a by (simp add: answered_def Let_def)
  ultimately show ?thesis unfolding s1(2) using peers by (intro await_typed) simp_all
next
  case (Body ty)
  then show ?thesis using r begin_body_typed [OF _ t st peers] by (simp add: run_command_def)
qed

lemma long_line_typed:
  assumes "conn_typed (conn s)" and "cstate (conn s) = Read" and "\<forall>c \<in> set (peers s). accepted c"
  shows "server_typed (upd_conn (reqHeaderBytes_update (\<lambda>_. 0)) (await Write (outString t s)))"
proof -
  have l: "length (resHeader (conn s)) = RES_HEADER_SIZE" using assms(1) by (simp add: conn_typed_def)
  have "conn_typed ((conn (outString t s))\<lparr>cstate := Write\<rparr>)"
    using assms(1,2) out_length [OF l, of t] unfolding conn_typed_def by (simp del: out_fields(20) length_blit)
  then have "server_typed (await Write (outString t s))" using assms(3) by (intro await_typed) simp_all
  then show ?thesis by (simp add: server_typed_def conn_typed_def)
qed

text \<open>A call that reads either waits, answers itself, or runs a command.\<close>

lemma onRead_cases:
  assumes r: "onRead p s = Some (d, s')" and t: "server_typed s" and st: "cstate (conn s) = Read"
  obtains (same) "server_typed s'" "store s' = store s"
  | (command) start fin cmd s1 where "run_command start fin cmd s1 = Some (d, s')" "server_typed s1"
      "cstate (conn s1) = Read" "dispatch p (conn s1) = Some cmd" "store s1 = store s"
proof -
  let ?c = "conn s"
  note T = t [unfolded server_typed_def, THEN conjunct1, unfolded conn_typed_def]
  note P = t [unfolded server_typed_def, THEN conjunct2]
  obtain dt fin es where rl: "recv_loop (n_recv (net s)) (REQ_HEADER_SIZE - reqHeaderBytes ?c) = (dt, fin, es)"
    by (rule prod_cases3)
  define s1 where "s1 = upd_net (n_recv_update (\<lambda>_. es)) s
    \<lparr>conn := ?c\<lparr>reqHeader := blit (reqHeader ?c) (reqHeaderBytes ?c) dt, reqHeaderBytes := reqHeaderBytes ?c + length dt\<rparr>\<rparr>"
  have "reqHeaderBytes ?c \<le> REQ_HEADER_SIZE" using T by blast
  then have room: "reqHeaderBytes ?c + length dt \<le> REQ_HEADER_SIZE" using recv_loop_length [OF rl, THEN conjunct1] by linarith
  have "length (blit (reqHeader ?c) (reqHeaderBytes ?c) dt) = REQ_HEADER_SIZE"
    by (rule blit_length [OF room]) (use T in blast)
  then have t1: "conn_typed (conn s1)" "cstate (conn s1) = Read" "\<forall>c \<in> set (peers s1). accepted c"
    using T P room st by (simp_all add: s1_def conn_typed_def)
  have st1: "store s1 = store s" by (simp add: s1_def)
  show thesis
  proof (cases "fin = Closed \<or> fin = Broken")
    case True
    then have "s' = upd_conn (cstate_update (\<lambda>_. Close)) s1" using r rl by (auto simp: onRead_def Let_def s1_def)
    then show thesis using typed_close [OF t1(1)] t1(3) st1 by (intro same) (simp_all add: server_typed_def)
  next
    case open_: False
    show thesis
    proof (cases "memchr (take (reqHeaderBytes (conn s1)) (reqHeader (conn s1))) 10")
      case None
      have "server_typed (upd_conn (reqHeaderBytes_update (\<lambda>_. 0)) (await Write (outString t s1)))" for t
        using long_line_typed [OF t1] .
      then have "server_typed s' \<and> store s' = store s"
        using r rl open_ None t1 st1 by (auto simp: onRead_def Let_def s1_def server_typed_def split: if_splits)
      then show thesis using same by blast
    next
      case (Some lf)
      define lf' where "lf' = (if lf > 1 \<and> reqHeader (conn s1) ! (lf - 1) = 13 then lf - 1 else lf)"
      obtain toks mem cmd where tk: "tokenize ((reqHeader (conn s1))[lf' := 0]) MAX_TOKENS = Some (toks, mem)"
          "dispatch p ((conn s1)\<lparr>reqHeader := mem, tokens := toks\<rparr>) = Some cmd"
          "run_command (Suc lf) fin cmd (upd_conn (\<lambda>c. c\<lparr>reqHeader := mem, tokens := toks\<rparr>) s1) = Some (d, s')"
        using r rl open_ Some by (auto simp: onRead_def Let_def s1_def lf'_def split: Option.bind_splits)
      have "length mem = REQ_HEADER_SIZE" using tokenize_length [OF tk(1)] t1(1) by (simp add: conn_typed_def)
      then have "conn_typed ((conn s1)\<lparr>reqHeader := mem, tokens := toks\<rparr>)" using t1(1) by (simp add: conn_typed_def)
      then show thesis using tk(2) t1(2,3) st1 by (intro command [OF tk(3)]) (simp_all add: server_typed_def)
    qed
  qed
qed

lemma onRead_typed:
  assumes r: "onRead p s = Some (d, s')" and t: "server_typed s" and st: "cstate (conn s) = Read"
  shows "server_typed s'"
  using assms
proof (cases rule: onRead_cases)
  case (command start fin cmd s1)
  then show ?thesis using run_command_typed [OF command(1)] by (simp add: server_typed_def)
qed

text \<open>The body is complete, or the command runs on what there is.\<close>

lemma run_body_typed:
  assumes r: "run_body s = Some (d, s')" and t: "server_typed s" and st: "cstate (conn s) = NRead"
  shows "server_typed s'"
proof -
  obtain arg where arg: "str_arg (conn s) 2 = Some arg"
    using r by (cases "str_arg (conn s) 2") (simp_all add: run_body_def)
  define s0 where "s0 = upd_conn (cflags_update (\<lambda>_. ucast (strtoull10 arg))) s"
  obtain s1 where s1: "store_cmd (ctype (conn s0)) s0 = Some s1"
      "s' = await Write (upd_conn (\<lambda>c. c\<lparr>reqHeaderBytes := 0, reqBodyBytes := 0\<rparr>) s1)"
    using r arg by (auto simp: run_body_def s0_def Let_def split: Option.bind_splits)
  have t0: "conn_typed (conn s0)" "cstate (conn s0) = NRead" "peers s0 = peers s"
    using t st by (simp_all add: s0_def server_typed_def conn_typed_def)
  then have l: "length (resHeader (conn s0)) = RES_HEADER_SIZE" by (simp add: conn_typed_def)
  have a: "answered s0 s1" using commands_answered(9) [OF l s1(1)] .
  have "conn_typed ((conn s1)\<lparr>reqHeaderBytes := 0, reqBodyBytes := 0, cstate := Write\<rparr>)"
    by (rule answered_typed(1) [OF a t0(1)]) (use t0(2) in simp_all)
  moreover have "peers s1 = peers s" using a t0(3) by (simp add: answered_def Let_def)
  ultimately show ?thesis unfolding s1(2) using t by (intro await_typed) (simp_all add: server_typed_def)
qed

lemma onNRead_cases:
  assumes r: "onNRead s = Some (d, s')" and t: "server_typed s" and st: "cstate (conn s) = NRead"
  obtains (same) "server_typed s'" "store s' = store s"
  | (body) s1 where "run_body s1 = Some (d, s')" "server_typed s1" "cstate (conn s1) = NRead" "store s1 = store s"
proof (cases "reqBodyBytes (conn s) = reqBodySize (conn s)")
  case True
  then show thesis using r t st by (intro body [of s]) (simp_all add: onNRead_def)
next
  case False
  let ?c = "conn s"
  note T = t [unfolded server_typed_def, THEN conjunct1, unfolded conn_typed_def]
  note P = t [unfolded server_typed_def, THEN conjunct2]
  obtain dt fin es where rl: "recv_loop (n_recv (net s)) (reqBodySize ?c - reqBodyBytes ?c) = (dt, fin, es)"
    by (rule prod_cases3)
  obtain b b' where b: "reqBody ?c = Some b" "memcpy b (reqBodyBytes ?c) dt (length dt) = Some b'"
    using r False rl by (auto simp: onNRead_def Let_def split: Option.bind_splits)
  define s1 where "s1 = upd_net (n_recv_update (\<lambda>_. es)) s
    \<lparr>conn := ?c\<lparr>reqBody := Some b', reqBodyBytes := reqBodyBytes ?c + length dt\<rparr>\<rparr>"
  have len: "length b' = length b" using b(2) by (auto simp: memcpy_eq_Some)
  have "reqBodyBytes ?c \<le> reqBodySize ?c" using T by blast
  then have room: "reqBodyBytes ?c + length dt \<le> reqBodySize ?c" using recv_loop_length [OF rl, THEN conjunct1] by linarith
  have t1: "server_typed s1" "cstate (conn s1) = NRead" "store s1 = store s"
    using T P room b(1) len recv_loop_length [OF rl] st by (simp_all add: s1_def server_typed_def conn_typed_def)
  have "server_typed (upd_conn (cstate_update (\<lambda>_. Close)) s1)"
    using t1(1) typed_close by (simp add: server_typed_def)
  then have "run_body s1 = Some (d, s') \<or> server_typed s' \<and> store s' = store s"
    using r False rl b t1 by (cases fin) (auto simp: onNRead_def Let_def s1_def)
  then show thesis using same body t1 by blast
qed

lemma onNRead_typed:
  assumes "onNRead s = Some (d, s')" and "server_typed s" and "cstate (conn s) = NRead"
  shows "server_typed s'"
  using assms
proof (cases rule: onNRead_cases)
  case (body s1)
  then show ?thesis using run_body_typed by blast
qed

lemma written_typed:
  assumes r: "written fin vs s = (d, s')" and t: "server_typed s" and st: "cstate (conn s) = Write"
  shows "server_typed s'"
proof -
  note T = t [unfolded server_typed_def, THEN conjunct1, unfolded conn_typed_def]
  note P = t [unfolded server_typed_def, THEN conjunct2]
  show ?thesis
  proof (cases fin)
    case True
    define c where "c = (if resBodySize (conn s) \<noteq> 0 then (conn s)
        \<lparr>resBody := None, resBodySize := 0, resBodyBytes := 0, resTailBytes := 0\<rparr> else conn s)"
    have "\<exists>st \<in> {Read, Close}. conn s' = c\<lparr>cstate := st\<rparr> \<and> peers s' = peers s"
    proof -
      define s1 where "s1 = s\<lparr>conn := c\<rparr>"
      obtain ok s2 where u: "update_event s1 = (ok, s2)" by (cases "update_event s1")
      have "s1 = (if resBodySize (conn s) \<noteq> 0 then
             upd_conn (\<lambda>c. c\<lparr>resBody := None, resBodySize := 0, resBodyBytes := 0, resTailBytes := 0\<rparr>) s else s)"
        by (simp add: s1_def c_def)
      then have "s' = upd_conn (cstate_update (\<lambda>_. if ok then Read else Close)) s2"
        using r True u by (auto simp: written_def Let_def split: if_splits)
      then show ?thesis using update_event_keeps [OF u] by (auto simp: s1_def)
    qed
    moreover have "conn_typed (c\<lparr>cstate := st\<rparr>)" if "st \<in> {Read, Close}" for st
      using T st that by (auto simp: c_def conn_typed_def)
    ultimately show ?thesis using P by (auto simp: server_typed_def)
  next
    case False
    let ?x = "resHeaderSize (conn s) - length (vs ! 0)" and ?y = "resBodySize (conn s) - length (vs ! 1)"
      and ?z = "7 - length (vs ! 2)"
    have "conn s' \<in> {(conn s)\<lparr>resHeaderBytes := ?x, cstate := Close\<rparr>,
        (conn s)\<lparr>resHeaderBytes := ?x, resBodyBytes := ?y, resTailBytes := ?z, cstate := Close\<rparr>}" "peers s' = peers s"
      using r False by (auto simp: written_def Let_def)
    moreover have "conn_typed ((conn s)\<lparr>resHeaderBytes := ?x, cstate := Close\<rparr>)"
        "conn_typed ((conn s)\<lparr>resHeaderBytes := ?x, resBodyBytes := ?y, resTailBytes := ?z, cstate := Close\<rparr>)"
      using T by (simp_all add: conn_typed_def)
    ultimately show ?thesis using P by (auto simp: server_typed_def)
  qed
qed

lemma onWrite_typed:
  assumes r: "onWrite s = Some (d, s')" and t: "server_typed s" and st: "cstate (conn s) = Write"
  shows "server_typed s'"
proof -
  obtain fin vs ws sent where "written fin vs (upd_net (\<lambda>n. n\<lparr>n_writev := ws, n_sent := n_sent n @ sent\<rparr>) s) = (d, s')"
    using r unfolding onWrite_def by (auto split: Option.bind_splits)
  then show ?thesis by (rule written_typed) (use t st in \<open>simp_all add: server_typed_def\<close>)
qed

lemma onListening_typed:
  assumes r: "onListening s = (d, s')" and t: "server_typed s"
  shows "server_typed s'"
  using assms update_event_keeps [of s] new_conn_accepted
  by (auto simp: onListening_def server_typed_def split: option.splits prod.splits if_splits)

section \<open>Every run keeps the types\<close>

lemma driver_typed:
  assumes "driverMachine p s = Some s'" and "server_typed s"
  shows "server_typed s'"
proof -
  have "server_typed s \<longrightarrow> server_typed s'"
  proof (rule driverMachine.raw_induct [where P = "\<lambda>p s s'. server_typed s \<longrightarrow> server_typed s'", OF _ assms(1)])
    fix f p s s'
    assume IH: "\<And>p s s'. f p s = Some s' \<Longrightarrow> server_typed s \<longrightarrow> server_typed s'"
      and run: "(case cstate (conn s) of
         Listening \<Rightarrow> Some (onListening s) | Read \<Rightarrow> onRead p s | NRead \<Rightarrow> onNRead s
       | Write \<Rightarrow> onWrite s | Close \<Rightarrow> Some (onClose s)) \<bind>
         (\<lambda>(d, s). if d = DmGoOn then f p s else Some s) = Some s'"
    show "server_typed s \<longrightarrow> server_typed s'"
    proof
      assume t: "server_typed s"
      obtain d s1 where h: "(case cstate (conn s) of
         Listening \<Rightarrow> Some (onListening s) | Read \<Rightarrow> onRead p s | NRead \<Rightarrow> onNRead s
       | Write \<Rightarrow> onWrite s | Close \<Rightarrow> Some (onClose s)) = Some (d, s1)"
        and rest: "(if d = DmGoOn then f p s1 else Some s1) = Some s'"
        using run by (auto split: Option.bind_splits)
      have "server_typed s1"
        using h t onRead_typed onNRead_typed onWrite_typed onListening_typed
        by (auto simp: onClose_def split: conn_state.splits)
      then show "server_typed s'" using rest IH by (auto split: if_splits)
    qed
  qed
  then show ?thesis using assms(2) by simp
qed

end
