(* ===== verification/Event_Loop.thy ===== *)
theory Event_Loop
  imports Connection_Typing "HOL-Library.Signed_Division"
begin

text \<open>
  \<open>netshell/eventmgr.hpp\<close>: the loop that waits for events with \<open>epoll_wait\<close> and runs the state machine of
  each connection that has one, over the connections of the server and the store they share. What
  the waits return, and the signals that arrive meanwhile, come from a script.
\<close>

section \<open>The code\<close>

text \<open>
  \<open>conns\<close>: the connections that exist, by the address of their header buffer. \<open>shared\<close>: the store, the
  statistics and the files; its connection and \<open>net\<close> are those of the event being handled.
\<close>

record shell =
  conns :: "nat \<Rightarrow> conn option"
  shared :: server
  stopped :: bool

text \<open>The events of one wait, each with the answers of the kernel while it is handled.\<close>

datatype waited = Events "(nat \<times> net) list" | Interrupted | WaitFailed

text \<open>\<open>p_stop\<close>: \<open>stop\<close> was called, by a signal, during this turn; \<open>p_time\<close>: seconds and microseconds.\<close>

record poll =
  p_waited :: waited
  p_stop :: bool
  p_time :: "int \<times> int"

definition ev_stop :: "shell \<Rightarrow> shell" where
  "ev_stop S = S\<lparr>stopped := True\<rparr>"

definition ev_start :: "shell \<Rightarrow> shell" where
  "ev_start S = S\<lparr>stopped := True\<rparr>"

text \<open>
  \<open>c->driverMachine (events)\<close>. The pointer of the event must be that of a connection that exists; a
  connection that ends is deleted, accepted ones are new (\<open>malloc\<close> gives them an address of their own).
\<close>

definition handle_event :: "nat \<Rightarrow> nat \<times> net \<Rightarrow> shell \<Rightarrow> shell option" where
  "handle_event p ev S = do {
     c \<leftarrow> conns S (fst ev);
     s \<leftarrow> driverMachine p ((shared S)\<lparr>conn := c, peers := [], net := snd ev\<rparr>);
     Some (S\<lparr>shared := s,
       conns := map_of (map (\<lambda>c. (headerAddr c, c)) (peers s))
         ++ (conns S)(fst ev := (if cstate (conn s) = Close then None else Some (conn s)))\<rparr>)
   }"

fun handle_all :: "nat \<Rightarrow> (nat \<times> net) list \<Rightarrow> shell \<Rightarrow> shell option" where
  "handle_all p [] S = Some S"
| "handle_all p (ev # evs) S = do { S \<leftarrow> handle_event p ev S; handle_all p evs S }"

text \<open>Milliseconds since the anchor; the division of C rounds towards zero.\<close>

definition elapsed :: "int \<times> int \<Rightarrow> int \<times> int \<Rightarrow> int" where
  "elapsed tv anchor = (fst tv - fst anchor) * 1000 + (snd tv - snd anchor) sdiv 1000"

text \<open>The part of the loop for the timer: \<open>n\<close> is the number of events.\<close>

definition run_timer :: "(shell \<Rightarrow> shell option) option \<Rightarrow> nat \<Rightarrow> int \<times> int \<Rightarrow> int \<times> int \<Rightarrow> shell
    \<Rightarrow> ((int \<times> int) \<times> shell) option" where
  "run_timer handler n tv anchor S = (case handler of
     None \<Rightarrow> Some (anchor, S)
   | Some h \<Rightarrow>
       if n = 0 then do { S \<leftarrow> h S; Some (anchor, S) }
       else if elapsed tv anchor > 500 then do { S \<leftarrow> h S; Some (tv, S) }
       else Some (anchor, S))"

text \<open>\<open>Running\<close>: the script has run out, and the loop is in \<open>epoll_wait\<close>.\<close>

datatype run_result = Running | Returned bool

fun run_loop :: "nat \<Rightarrow> (shell \<Rightarrow> shell option) option \<Rightarrow> poll list \<Rightarrow> int \<times> int \<Rightarrow> shell
    \<Rightarrow> (run_result \<times> shell) option" where
  "run_loop p h [] anchor S = Some (if stopped S then Returned True else Running, S)"
| "run_loop p h (e # es) anchor S =
     (if stopped S then Some (Returned True, S)
      else let S = (if p_stop e then ev_stop S else S) in
        (case p_waited e of
           Interrupted \<Rightarrow> run_loop p h es anchor S
         | WaitFailed \<Rightarrow> Some (Returned (stopped S), S)
         | Events evs \<Rightarrow> do {
             S \<leftarrow> handle_all p evs S;
             (anchor, S) \<leftarrow> run_timer h (length evs) (p_time e) anchor S;
             run_loop p h es anchor S
           }))"

text \<open>\<open>run\<close>: a \<open>stop\<close> from before is forgotten.\<close>

definition ev_run :: "nat \<Rightarrow> (shell \<Rightarrow> shell option) option \<Rightarrow> poll list \<Rightarrow> int \<times> int \<Rightarrow> shell
    \<Rightarrow> (run_result \<times> shell) option" where
  "ev_run p h es now S = run_loop p h es now (S\<lparr>stopped := False\<rparr>)"

section \<open>Where connections rest\<close>

text \<open>A call of the state machine never ends in the middle of a response.\<close>

lemma onRead_rests: "onRead p s = Some (DmStop, s') \<Longrightarrow> cstate (conn s) = Read \<Longrightarrow> cstate (conn s') \<in> {Read, NRead}"
  by (auto simp: onRead_def run_command_def begin_body_def Let_def
    split: Option.bind_splits option.splits if_splits prod.splits command.splits)

lemma onNRead_rests: "onNRead s = Some (DmStop, s') \<Longrightarrow> cstate (conn s) = NRead \<Longrightarrow> cstate (conn s') = NRead"
  by (auto simp: onNRead_def run_body_def Let_def split: Option.bind_splits if_splits prod.splits recv_end.splits)

lemma written_rests: "written fin vs s = (DmStop, s') \<Longrightarrow> cstate (conn s') = Read"
  by (auto simp: written_def Let_def split: if_splits prod.splits)

lemma onWrite_rests: "onWrite s = Some (DmStop, s') \<Longrightarrow> cstate (conn s') = Read"
  by (auto simp: onWrite_def dest: written_rests split: Option.bind_splits)

lemma onListening_rests: "onListening s = (d, s') \<Longrightarrow> conn s' = conn s"
  by (auto simp: onListening_def dest: update_event_keeps split: option.splits prod.splits if_splits)

lemma driver_rests:
  assumes "driverMachine p s = Some s'"
  shows "cstate (conn s') \<in> {Listening, Read, NRead, Close}"
  using assms
proof (rule driverMachine.raw_induct [where P = "\<lambda>p s s'. cstate (conn s') \<in> {Listening, Read, NRead, Close}", rotated])
  fix f p s s'
  assume IH: "\<And>p s s'. f p s = Some s' \<Longrightarrow> cstate (conn s') \<in> {Listening, Read, NRead, Close}"
    and run: "(case cstate (conn s) of
         Listening \<Rightarrow> Some (onListening s) | Read \<Rightarrow> onRead p s | NRead \<Rightarrow> onNRead s
       | Write \<Rightarrow> onWrite s | Close \<Rightarrow> Some (onClose s)) \<bind>
         (\<lambda>(d, s). if d = DmGoOn then f p s else Some s) = Some s'"
  obtain d s1 where h: "(case cstate (conn s) of
         Listening \<Rightarrow> Some (onListening s) | Read \<Rightarrow> onRead p s | NRead \<Rightarrow> onNRead s
       | Write \<Rightarrow> onWrite s | Close \<Rightarrow> Some (onClose s)) = Some (d, s1)"
    and rest: "(if d = DmGoOn then f p s1 else Some s1) = Some s'"
    using run by (auto split: Option.bind_splits)
  show "cstate (conn s') \<in> {Listening, Read, NRead, Close}"
  proof (cases d)
    case DmGoOn
    then show ?thesis using rest IH by simp
  next
    case DmStop
    then have "s' = s1" using rest by simp
    then show ?thesis
      using h DmStop onRead_rests [of p s s1] onNRead_rests [of s s1] onWrite_rests [of s s1] onListening_rests [of s d s1]
      by (cases "cstate (conn s)") (auto simp: onClose_def)
  qed
qed

section \<open>The invariant of the loop\<close>

definition at_rest :: "conn \<Rightarrow> bool" where
  "at_rest c \<longleftrightarrow> conn_typed c \<and> cstate c \<in> {Listening, Read, NRead}"

definition shell_ok :: "shell \<Rightarrow> bool" where
  "shell_ok S \<longleftrightarrow> (\<forall>a c. conns S a = Some c \<longrightarrow> at_rest c)"

lemma accepted_rests: "accepted c \<Longrightarrow> at_rest c"
  by (simp add: accepted_def at_rest_def)

lemma handle_event_ok:
  assumes "handle_event p ev S = Some S'" and S: "shell_ok S"
  shows "shell_ok S'"
proof -
  obtain c s where c: "conns S (fst ev) = Some c"
    and s: "driverMachine p ((shared S)\<lparr>conn := c, peers := [], net := snd ev\<rparr>) = Some s"
    and S': "S' = S\<lparr>shared := s, conns := map_of (map (\<lambda>c. (headerAddr c, c)) (peers s))
         ++ (conns S)(fst ev := (if cstate (conn s) = Close then None else Some (conn s)))\<rparr>"
    using assms(1) by (auto simp: handle_event_def split: Option.bind_splits)
  have "server_typed s"
    using driver_typed [OF s] S c by (simp add: server_typed_def shell_ok_def at_rest_def)
  then have t: "conn_typed (conn s)" "\<forall>c \<in> set (peers s). at_rest c"
    using accepted_rests by (simp_all add: server_typed_def)
  have r: "cstate (conn s) \<noteq> Close \<Longrightarrow> at_rest (conn s)"
    using t(1) driver_rests [OF s] by (simp add: at_rest_def)
  have "at_rest d" if "map_of (map (\<lambda>c. (headerAddr c, c)) (peers s)) a = Some d" for a d
    using t(2) map_of_SomeD [OF that] by auto
  then show ?thesis
    using S r unfolding S' shell_ok_def by (auto simp: map_add_Some_iff split: if_splits)
qed

lemma handle_all_ok: "handle_all p evs S = Some S' \<Longrightarrow> shell_ok S \<Longrightarrow> shell_ok S'"
  by (induction evs arbitrary: S) (auto dest: handle_event_ok split: Option.bind_splits)

lemma stop_ok [simp]: "shell_ok (ev_stop S) = shell_ok S" "shell_ok (stopped_update f S) = shell_ok S"
  by (simp_all add: shell_ok_def ev_stop_def)

definition timer_ok :: "(shell \<Rightarrow> shell option) option \<Rightarrow> bool" where
  "timer_ok h \<longleftrightarrow> (\<forall>g S S'. h = Some g \<longrightarrow> shell_ok S \<longrightarrow> g S = Some S' \<longrightarrow> shell_ok S')"

lemma run_timer_ok: "run_timer h n tv anchor S = Some (a, S') \<Longrightarrow> timer_ok h \<Longrightarrow> shell_ok S \<Longrightarrow> shell_ok S'"
  by (auto simp: run_timer_def timer_ok_def split: option.splits if_splits Option.bind_splits)

lemma run_loop_ok:
  assumes "run_loop p h es anchor S = Some (r, S')" and "timer_ok h" and "shell_ok S"
  shows "shell_ok S'"
  using assms(1,3)
proof (induction es arbitrary: anchor S)
  case (Cons e es)
  show ?case
  proof (cases "stopped S")
    case False
    define S1 where "S1 = (if p_stop e then ev_stop S else S)"
    have ok1: "shell_ok S1" using Cons.prems(2) by (simp add: S1_def)
    note run = Cons.prems(1) [unfolded run_loop.simps Let_def S1_def [symmetric]]
    show ?thesis
    proof (cases "p_waited e")
      case (Events evs)
      obtain S2 a S3 where "handle_all p evs S1 = Some S2" "run_timer h (length evs) (p_time e) anchor S2 = Some (a, S3)"
          "run_loop p h es a S3 = Some (r, S')"
        using run False Events by (auto split: Option.bind_splits)
      then show ?thesis using Cons.IH handle_all_ok run_timer_ok assms(2) ok1 by blast
    qed (use run False ok1 Cons.IH in auto)
  qed (use Cons.prems in auto)
qed auto

section \<open>When the loop ends\<close>

definition ends :: "poll \<Rightarrow> bool" where
  "ends e \<longleftrightarrow> p_stop e \<or> p_waited e = WaitFailed"

lemma driver_conns_only: "handle_all p evs S = Some S' \<Longrightarrow> stopped S' = stopped S"
  by (induction evs arbitrary: S) (auto simp: handle_event_def split: Option.bind_splits)

lemma timer_none: "run_timer None n tv anchor S = Some (anchor, S)"
  by (simp add: run_timer_def)

definition outcome :: "poll list \<Rightarrow> run_result" where
  "outcome es = (case find ends es of None \<Rightarrow> Running | Some e \<Rightarrow> Returned (p_stop e))"

lemma run_loop_outcome:
  assumes "run_loop p None es anchor S = Some (r, S')"
  shows "r = (if stopped S then Returned True else outcome es)"
  using assms
proof (induction es arbitrary: anchor S)
  case (Cons e es)
  show ?case
  proof (cases "stopped S")
    case False
    define S1 where "S1 = (if p_stop e then ev_stop S else S)"
    have stop: "stopped S1 = p_stop e" using False by (simp add: S1_def ev_stop_def)
    note run = Cons.prems [unfolded run_loop.simps Let_def S1_def [symmetric]]
    have next_turn: "r = (if p_stop e then Returned True else outcome es)"
      if "p_waited e \<noteq> WaitFailed"
    proof (cases "p_waited e")
      case (Events evs)
      obtain S2 where S2: "handle_all p evs S1 = Some S2" "run_loop p None es anchor S2 = Some (r, S')"
        using run False Events by (auto simp: timer_none split: Option.bind_splits)
      show ?thesis using Cons.IH [OF S2(2)] driver_conns_only [OF S2(1)] stop by simp
    next
      case Interrupted
      then have "run_loop p None es anchor S1 = Some (r, S')" using run False by simp
      from Cons.IH [OF this] show ?thesis using stop by simp
    qed (use that in simp)
    then show ?thesis
      using run False stop by (cases "p_waited e = WaitFailed") (auto simp: outcome_def ends_def)
  qed (use Cons.prems in auto)
qed (auto simp: outcome_def)

end
