(* ===== verification/Netshell_Main.thy ===== *)
theory Netshell_Main
  imports Event_Loop Token_Properties Limits
begin

text \<open>
  \<open>netshell/netshell.cc\<close>: the options, the attributes of the store they give, start, signals and
  shutdown of the server, with the constructor of \<open>McShell\<close> from \<open>netshell/mcshell.cc\<close>.
\<close>

section \<open>The options\<close>

text \<open>The option string is \<open>i:p:m:Mn:f:P:I:db:t:u:clah\<close>.\<close>

definition takes_arg :: "char \<Rightarrow> bool" where
  "takes_arg c \<longleftrightarrow> c \<in> set ''ipmnfPIbtu''"

definition is_flag :: "char \<Rightarrow> bool" where
  "is_flag c \<longleftrightarrow> c \<in> set ''Mdclah''"

text \<open>
  What \<open>getopt\<close> returns, call after call: the option and \<open>optarg\<close>. The first argument is what is left of
  the word it is in. Words that are no options are passed over, \<open>--\<close> ends the options, an unknown
  option and a missing argument give a question mark.
\<close>

fun getopt :: "string \<Rightarrow> string list \<Rightarrow> (char \<times> string) list" where
  "getopt (c # cs) ws =
     (if takes_arg c then
        (if cs \<noteq> [] then (c, cs) # getopt [] ws
         else (case ws of [] \<Rightarrow> [(CHR ''?'', [])] | w # ws \<Rightarrow> (c, w) # getopt [] ws))
      else if is_flag c then (c, []) # getopt cs ws
      else (CHR ''?'', []) # getopt cs ws)"
| "getopt [] [] = []"
| "getopt [] (w # ws) =
     (case w of
        CHR ''-'' # c # cs \<Rightarrow> if w = ''--'' then [] else getopt (c # cs) ws
      | _ \<Rightarrow> getopt [] ws)"

text \<open>
  \<open>atof\<close>, the result converted to \<open>float\<close>: white space, a sign, digits, a point, digits, an exponent. A
  number is rounded to the 53 bits of a \<open>double\<close>, then to 24; a negative one, which \<open>shmc_init\<close> replaces
  like a zero, is given as zero. Infinities, nans and hexadecimal numbers are not modelled.
\<close>

definition round_div :: "nat \<Rightarrow> nat \<Rightarrow> nat" where
  "round_div n d = (let q = n div d; r = n mod d in if 2 * r > d \<or> (2 * r = d \<and> odd q) then q + 1 else q)"

definition round_bits :: "nat \<Rightarrow> nat \<Rightarrow> nat \<Rightarrow> f32" where
  "round_bits b n d =
     (let k = bit_len (n div d) in
      if k \<le> b then F32 (round_div (n * 2 ^ (b - k)) d) (b - k)
      else F32 (round_div n (d * 2 ^ (k - b)) * 2 ^ (k - b)) 0)"

definition is_digit :: "byte \<Rightarrow> bool" where
  "is_digit b \<longleftrightarrow> 48 \<le> b \<and> b \<le> 57"

text \<open>The exponent, when at least one digit follows.\<close>

definition exponent :: "byte list \<Rightarrow> int" where
  "exponent t = (case t of
     e # r \<Rightarrow>
       (let r' = (if r \<noteq> [] \<and> (hd r = 43 \<or> hd r = 45) then tl r else r) in
        if (e = 101 \<or> e = 69) \<and> r' \<noteq> [] \<and> is_digit (hd r') then signed_digits r else 0)
   | [] \<Rightarrow> 0)"

definition atof :: "byte list \<Rightarrow> f32 option" where
  "atof txt =
     (let t = dropWhile is_space txt;
          neg = (t \<noteq> [] \<and> hd t = 45);
          t = (if t \<noteq> [] \<and> (hd t = 45 \<or> hd t = 43) then tl t else t);
          ip = takeWhile is_digit t;
          r = dropWhile is_digit t;
          fp = (if r \<noteq> [] \<and> hd r = 46 then takeWhile is_digit (tl r) else []);
          r' = (if r \<noteq> [] \<and> hd r = 46 then dropWhile is_digit (tl r) else r);
          ex = (if ip @ fp = [] then 0 else exponent r') - int (length fp);
          m = digits (ip @ fp) 0;
          n = m * 10 ^ nat ex;
          d = 10 ^ nat (- ex);
          x = round_bits 53 n d;
          f = round_bits 24 (f32_num x) (2 ^ f32_scale x)
      in if t \<noteq> [] \<and> hd t \<in> {73, 105, 78, 110} then None
         else if ip = [48] \<and> r \<noteq> [] \<and> hd r \<in> {88, 120} then None
         else if neg then Some (F32 0 0)
         else if f32_num f \<ge> 2 ^ 128 * 2 ^ f32_scale f then None
         else Some f)"

section \<open>The settings\<close>

record settings =
  s_token :: string
  s_inter :: "string option"
  s_port :: int
  s_pidfile :: "string option"
  s_daemonize :: bool
  s_memLimit :: nat
  s_nbuckets :: int
  s_mode :: int
  s_minItem :: nat
  s_maxItem :: nat
  s_factor :: f32
  s_evictToFree :: bool
  s_defaultCounter :: bool
  s_useFlock :: bool
  s_useNewMap :: bool

definition initial :: settings where
  "initial = \<lparr>s_token = ''/dev/shm/netshell.mmap'', s_inter = None, s_port = 11217, s_pidfile = None,
     s_daemonize = False, s_memLimit = 64 * 1024 * 1024, s_nbuckets = 65536, s_mode = 0x1A4,
     s_minItem = 64, s_maxItem = 1024 * 1024, s_factor = F32 2 0, s_evictToFree = True,
     s_defaultCounter = False, s_useFlock = False, s_useNewMap = False\<rparr>"

definition size_t_of :: "int \<Rightarrow> nat" where
  "size_t_of v = nat (v mod 2 ^ 64)"

text \<open>\<open>atoi (optarg) * 1024 * 1024\<close> is computed in \<open>int\<close>; an overflow is undefined.\<close>

definition megabytes :: "int \<Rightarrow> int option" where
  "megabytes v = (let m = v * 1024 * 1024 in if - (2 ^ 31) \<le> m \<and> m < 2 ^ 31 then Some m else None)"

definition apply_option :: "char \<Rightarrow> string \<Rightarrow> settings \<Rightarrow> settings option" where
  "apply_option c arg st =
     (let num = atoi (text_of arg) in
      if c = CHR ''i'' then Some (st\<lparr>s_inter := Some arg\<rparr>)
      else if c = CHR ''p'' then do { v \<leftarrow> num; Some (st\<lparr>s_port := v\<rparr>) }
      else if c = CHR ''m'' then do { v \<leftarrow> num; m \<leftarrow> megabytes v; Some (st\<lparr>s_memLimit := size_t_of m\<rparr>) }
      else if c = CHR ''M'' then Some (st\<lparr>s_evictToFree := False\<rparr>)
      else if c = CHR ''n'' then do { v \<leftarrow> num; Some (st\<lparr>s_minItem := size_t_of v\<rparr>) }
      else if c = CHR ''f'' then do { f \<leftarrow> atof (text_of arg); Some (st\<lparr>s_factor := f\<rparr>) }
      else if c = CHR ''P'' then Some (st\<lparr>s_pidfile := Some arg\<rparr>)
      else if c = CHR ''I'' then do { v \<leftarrow> num; Some (st\<lparr>s_maxItem := size_t_of v\<rparr>) }
      else if c = CHR ''d'' then Some (st\<lparr>s_daemonize := True\<rparr>)
      else if c = CHR ''b'' then do { v \<leftarrow> num; Some (st\<lparr>s_nbuckets := v\<rparr>) }
      else if c = CHR ''t'' then Some (st\<lparr>s_token := arg\<rparr>)
      else if c = CHR ''u'' then do { v \<leftarrow> num; Some (st\<lparr>s_mode := v\<rparr>) }
      else if c = CHR ''c'' then Some (st\<lparr>s_defaultCounter := True\<rparr>)
      else if c = CHR ''l'' then Some (st\<lparr>s_useFlock := True\<rparr>)
      else if c = CHR ''a'' then Some (st\<lparr>s_useNewMap := True\<rparr>)
      else Some st)"

text \<open>The loop over the options: \<open>Inl\<close> the status of \<open>exit (usage (0))\<close>.\<close>

fun set_options :: "(char \<times> string) list \<Rightarrow> settings \<Rightarrow> (nat + settings) option" where
  "set_options [] st = Some (Inr st)"
| "set_options ((c, arg) # os) st =
     (if c = CHR ''h'' then Some (Inl 0) else do { st \<leftarrow> apply_option c arg st; set_options os st })"

text \<open>The check of \<open>-I\<close>, with \<open>&&\<close> as in the code.\<close>

definition bad_item_max :: "settings \<Rightarrow> bool" where
  "bad_item_max st \<longleftrightarrow> s_maxItem st < 1024 \<and> s_maxItem st > 128 * 1024 * 1024"

text \<open>The attributes \<open>main\<close> sets. Not modelled: a negative number of buckets.\<close>

definition attr_of :: "settings \<Rightarrow> attr option" where
  "attr_of st = do {
     guard (0 \<le> s_nbuckets st);
     let a = SHMC_ATTR_INITIALIZER;
     let a = shmc_attr_set_mem_limit (s_memLimit st) a;
     let a = shmc_attr_set_nbuckets (nat (s_nbuckets st)) a;
     let a = shmc_attr_set_mode (nat (s_mode st mod 2 ^ 32)) a;
     let a = shmc_attr_set_item_size_min (s_minItem st) a;
     let a = shmc_attr_set_item_size_max (s_maxItem st) a;
     let a = shmc_attr_set_item_size_factor (s_factor st) a;
     let a = shmc_attr_set_evict_to_free (s_evictToFree st) a;
     let a = shmc_attr_set_default_counter (s_defaultCounter st) a;
     let a = shmc_attr_use_flock (s_useFlock st) a;
     Some a
   }"

section \<open>Starting and stopping\<close>

text \<open>
  The answers of the system: \<open>k_sys\<close> to \<open>shmc_init\<close>; \<open>k_pidfile\<close>: the pid file can be written; from
  \<open>k_socket\<close> to \<open>k_add\<close>: which calls of the constructor of \<open>McShell\<close> succeed, \<open>socket\<close>, twice \<open>fcntl\<close>,
  \<open>setsockopt\<close>, \<open>bind\<close>, \<open>listen\<close>, \<open>epoll_create\<close>, \<open>epoll_ctl\<close>; \<open>k_errno\<close>: the error of the first
  that fails; \<open>k_aton\<close>: \<open>inet_aton\<close>; \<open>k_conn\<close>: where the header
  buffer of the first connection is put; \<open>k_files\<close> and \<open>k_net\<close>: the dump files, and the first answers to
  the connections.
\<close>

record kernel =
  k_sys :: sys
  k_pidfile :: bool
  k_socket :: bool
  k_getfl :: bool
  k_setfl :: bool
  k_reuse :: bool
  k_bind :: bool
  k_listen :: bool
  k_epoll :: bool
  k_add :: bool
  k_errno :: nat
  k_aton :: "string \<Rightarrow> nat option"
  k_conn :: nat
  k_files :: "byte list \<Rightarrow> byte list option"
  k_net :: net
  k_now :: "int \<times> int"

text \<open>The address it listens on; one \<open>inet_aton\<close> does not understand leaves the zeros of \<open>memset\<close>.\<close>

definition listen_address :: "kernel \<Rightarrow> string option \<Rightarrow> int \<Rightarrow> nat \<times> nat" where
  "listen_address k inter_ip port =
     ((case inter_ip of None \<Rightarrow> 0 | Some i \<Rightarrow> (case k_aton k i of None \<Rightarrow> 0 | Some a \<Rightarrow> a)), nat (port mod 2 ^ 16))"

text \<open>\<open>Inl\<close> is \<open>throw errno\<close>; \<open>SO_KEEPALIVE\<close> and \<open>TCP_NODELAY\<close> are set without looking at the result.\<close>

definition McShell_new :: "kernel \<Rightarrow> shmc \<Rightarrow> nat + shell" where
  "McShell_new k st =
     (if \<not> k_socket k then Inl (k_errno k)
      else if \<not> k_getfl k \<or> \<not> k_setfl k then Inl (k_errno k)
      else if \<not> k_reuse k then Inl (k_errno k)
      else if \<not> k_bind k then Inl (k_errno k)
      else if \<not> k_listen k then Inl (k_errno k)
      else if \<not> k_epoll k then Inl (k_errno k)
      else if \<not> k_add k then Inl (k_errno k)
      else let c = new_conn (k_conn k) Listening in
        Inr \<lparr>conns = [k_conn k \<mapsto> c],
          shared = \<lparr>conn = c, peers = [], store = st,
            stats = \<lparr>get_cnts = 0, set_cnts = 0, del_cnts = 0, incr_cnts = 0, decr_cnts = 0,
              get_misses = 0, del_misses = 0, incr_misses = 0, decr_misses = 0, err_cnts = 0\<rparr>,
            files = k_files k, net = k_net k\<rparr>,
          stopped = False\<rparr>)"

text \<open>\<open>McShell::run\<close> and \<open>McShell::stop\<close>; its event manager has no timer.\<close>

definition McShell_run :: "nat \<Rightarrow> poll list \<Rightarrow> int \<times> int \<Rightarrow> shell \<Rightarrow> (run_result \<times> shell) option" where
  "McShell_run p es now S = ev_run p None es now S"

definition McShell_stop :: "shell \<Rightarrow> shell" where
  "McShell_stop S = ev_stop S"

definition SIGTERM :: int where "SIGTERM = 15"
definition SIGINT :: int where "SIGINT = 2"

text \<open>\<open>sigHandler\<close>: a signal that comes before \<open>mcShell\<close> is set is lost.\<close>

definition sigHandler :: "int \<Rightarrow> shell option \<Rightarrow> shell option" where
  "sigHandler signo mcShell = (if signo = SIGTERM \<or> signo = SIGINT then map_option McShell_stop mcShell else mcShell)"

text \<open>One turn of the loop: what \<open>epoll_wait\<close> returns, the signals that arrive, the time.\<close>

type_synonym turn = "waited \<times> int list \<times> (int \<times> int)"

definition poll_of :: "turn \<Rightarrow> poll" where
  "poll_of t = \<lparr>p_waited = fst t, p_stop = list_ex (\<lambda>n. n = SIGTERM \<or> n = SIGINT) (fst (snd t)), p_time = snd (snd t)\<rparr>"

lemma signals_stop:
  "fold sigHandler (fst (snd t)) (Some S) = Some (if p_stop (poll_of t) then ev_stop S else S)"
proof -
  have "fold sigHandler ns (Some S) = Some (if list_ex (\<lambda>n. n = SIGTERM \<or> n = SIGINT) ns then ev_stop S else S)" for ns S
    by (induction ns arbitrary: S) (auto simp: sigHandler_def McShell_stop_def ev_stop_def)
  then show ?thesis by (simp add: poll_of_def)
qed

lemma signal_lost: "sigHandler signo None = None"
  by (simp add: sigHandler_def)

text \<open>
  The disk: tokens, and the pid files that exist. \<open>Serving\<close>: the turns have run out, and the server waits
  for the next event at that address.
\<close>

record disk =
  d_tokens :: Segment.files
  d_pids :: "string set"

datatype life = Exited nat disk | Serving "nat \<times> nat" shell disk

definition remove_pid :: "string option \<Rightarrow> disk \<Rightarrow> disk" where
  "remove_pid pidfile D = (case pidfile of None \<Rightarrow> D | Some f \<Rightarrow> D\<lparr>d_pids := d_pids D - {f}\<rparr>)"

text \<open>After \<open>shmc_init\<close> succeeded.\<close>

definition serve_and_stop :: "kernel \<Rightarrow> nat \<Rightarrow> turn list \<Rightarrow> settings \<Rightarrow> shmc \<Rightarrow> disk \<Rightarrow> life option" where
  "serve_and_stop k p ts st s D =
     (case McShell_new k s of
        Inl eno \<Rightarrow>
          Some (Exited 0 (remove_pid (s_pidfile st) (D\<lparr>d_tokens := snd (shmc_destroy (d_tokens D) (s_token st) s)\<rparr>)))
      | Inr S \<Rightarrow> do {
          (r, S) \<leftarrow> McShell_run p (map poll_of ts) (k_now k) S;
          (case r of
             Running \<Rightarrow> Some (Serving (listen_address k (s_inter st) (s_port st)) S D)
           | Returned _ \<Rightarrow>
               Some (Exited 0 (remove_pid (s_pidfile st)
                 (D\<lparr>d_tokens := snd (shmc_destroy (d_tokens D) (s_token st) (store (shared S)))\<rparr>))))
        })"

text \<open>\<open>main\<close>, after the options. A pid file that is the token itself is not modelled.\<close>

definition run_netshell :: "kernel \<Rightarrow> nat \<Rightarrow> turn list \<Rightarrow> settings \<Rightarrow> disk \<Rightarrow> life option" where
  "run_netshell k p ts st D =
     (if bad_item_max st then Some (Exited 1 D)
      else do {
        a \<leftarrow> attr_of st;
        guard (s_pidfile st \<noteq> Some (s_token st));
        let D = (case s_pidfile st of
          None \<Rightarrow> D | Some f \<Rightarrow> if k_pidfile k then D\<lparr>d_pids := insert f (d_pids D)\<rparr> else D);
        let D = (if s_useNewMap st then D\<lparr>d_tokens := (d_tokens D)(s_token st := None)\<rparr> else D);
        (rc, out, fs) \<leftarrow> shmc_init (k_sys k) (d_tokens D) (s_token st) (Some a);
        let D = D\<lparr>d_tokens := fs\<rparr>;
        (case out of
           None \<Rightarrow> Some (Exited 1 D)
         | Some s \<Rightarrow> serve_and_stop k p ts st s D)
      })"

definition netshell :: "kernel \<Rightarrow> nat \<Rightarrow> turn list \<Rightarrow> string list \<Rightarrow> disk \<Rightarrow> life option" where
  "netshell k p ts argv D = do {
     guard (SHMC_VERSION = shmc_version);
     r \<leftarrow> set_options (getopt [] argv) initial;
     (case r of Inl status \<Rightarrow> Some (Exited status D) | Inr st \<Rightarrow> run_netshell k p ts st D)
   }"

end
