(* ===== verification/Connection_Properties.thy ===== *)
theory Connection_Properties
  imports Dump_Properties Connection_Storing
begin

text \<open>
  What a client of \<open>netshell\<close> sees: the responses of one connection to whole requests, in terms of the
  store behind it, and where the server misbehaves.
\<close>

section \<open>get\<close>

definition value_header :: "byte list \<Rightarrow> u32 \<Rightarrow> nat \<Rightarrow> byte list" where
  "value_header k f n = text_of ''VALUE '' @ k @ [32] @ dec (unat f) @ [32] @ fmt_d (as_int n) @ crlf"

lemma dec_u32_length: "length (dec (unat (f :: u32))) \<le> 10"
  using dec_length [of "unat f" 9] unsigned_less [where 'a = nat, of f] by simp

lemma dec_not_Nil [simp]: "dec n \<noteq> []"
  by (subst dec.simps) simp

lemma fmt_d_length: "length (fmt_d (as_int n)) \<le> 11"
proof -
  have r: "- (2 ^ 31) \<le> as_int n" "as_int n < 2 ^ 31"
    using sint_range_size [of "of_nat n :: u32"] by (simp_all add: as_int_def size_word_def)
  have "nat (as_int n) < 10 ^ Suc 9" "nat (- as_int n) < 10 ^ Suc 9" using r by auto
  from this [THEN dec_length] show ?thesis by (auto simp: fmt_d_def)
qed

lemma value_header_length: "length (value_header k f n) \<le> length k + 31"
  using dec_u32_length [of f] fmt_d_length [of n] by (simp add: value_header_def)

lemma get_dict:
  assumes "implements s A" and "nkey \<le> length (buf_bytes key)" and "buf_key key nkey = k"
  shows "\<exists>s' A'. shmc_get_nolock s key nkey True = Some (if shmc_lookup s k = None then SHMC_NOTFOUND else SHMC_OK, shmc_lookup s k, s')
    \<and> implements s' A' \<and> shmc_lookup s' = shmc_lookup s"
proof -
  obtain rc out A' where a: "a_get (conf_of s) A k True = (rc, out, A')"
    by (cases "a_get (conf_of s) A k True") auto
  obtain s' where s': "shmc_get_nolock s key nkey True = Some (rc, out, s')" "implements s' A'" "conf_of s' = conf_of s"
    using get_refines [OF assms(1,2), of True rc out A'] a assms(3) by auto
  note d = a_get_dict [OF implements_wf [OF assms(1)] a]
  have "rc = (if dict (conf_of s) A k = None then SHMC_NOTFOUND else SHMC_OK)"
    using a by (auto simp: a_get_def dict_def split: option.splits)
  then show ?thesis
    using s' d by (auto simp: lookup_dict [OF assms(1)] lookup_dict [OF s'(2)])
qed

lemma doGet_ready:
  assumes A: "implements (store s) A" and c: "conn_ok ((conn s)\<lparr>reqHeaderBytes := 0\<rparr>)" "resBodySize (conn s) = 0" "quiet s"
    and t: "tokens (conn s) = toks @ [fin]" "list_all2 (token_of (reqHeader (conn s))) toks [g, k]" and k: "length k \<le> 280"
  shows "\<exists>s1 A1. doGet s = Some s1 \<and> quiet s1 \<and> net s1 = net s \<and> implements (store s1) A1
    \<and> shmc_lookup (store s1) = shmc_lookup (store s)
    \<and> (case shmc_lookup (store s) k of
         None \<Rightarrow> ready s1 (text_of ''END'' @ crlf) []
       | Some (v, f) \<Rightarrow> ready s1 (value_header k f (length v)) v)"
proof -
  obtain key where key: "key_arg (conn s) = Some (key, length k)" "length k \<le> length (buf_bytes key)" "buf_key key (length k) = k"
    using key_arg_token [OF t] by auto
  have arg: "str_arg (conn s) 1 = Some k" using str_arg_token [OF t, of 1] by simp
  obtain st A1 where g: "shmc_get_nolock (store s) key (length k) True
        = Some (if shmc_lookup (store s) k = None then SHMC_NOTFOUND else SHMC_OK, shmc_lookup (store s) k, st)"
      "implements st A1" "shmc_lookup st = shmc_lookup (store s)"
    using get_dict [OF A key(2,3)] by blast
  have m: "n_malloc (net s)" using c(3) by (simp add: quiet_def)
  show ?thesis
  proof (cases "shmc_lookup (store s) k")
    case None
    let ?s1 = "outString (text_of ''END'' @ crlf) (count get_misses_update (count get_cnts_update s\<lparr>store := st\<rparr>))"
    have "doGet s = Some ?s1" using g(1) None key(1) m by (simp add: doGet_eq)
    moreover have "ready ?s1 (text_of ''END'' @ crlf) []"
      by (rule ready_outString(1)) (use c in \<open>simp_all add: RES_HEADER_SIZE_def\<close>)
    ultimately show ?thesis using g(2,3) c(3) None by (auto simp: quiet_def)
  next
    case (Some r)
    obtain v f where r: "r = (v, f)" by (cases r)
    let ?t = "value_header k f (length v)"
    let ?s1 = "upd_conn (\<lambda>c. c\<lparr>resBody := Some v, resBodySize := length v\<rparr>)
      (outString ?t (count get_cnts_update s\<lparr>store := st\<rparr>))"
    have "doGet s = Some ?s1" using g(1) Some r key(1) m arg by (simp add: doGet_eq value_header_def Let_def)
    moreover have "ready ?s1 ?t v"
      by (rule ready_outString(2))
         (use c k value_header_length [of k f "length v"] in \<open>simp_all add: RES_HEADER_SIZE_def value_header_def\<close>)
    ultimately show ?thesis using g(2,3) c(3) Some r by (auto simp: quiet_def)
  qed
qed

lemma get_line:
  assumes "plain k"
  shows "\<And>w. w \<in> set [text_of ''get'', k] \<Longrightarrow> plain w" "join_words [text_of ''get'', k] = text_of ''get '' @ k"
  using assms by (auto simp: plain_def text_of_def)

text \<open>A request line \<open>get k\<close>, up to the writing of its response.\<close>

lemma get_run:
  assumes w: "waiting s" and quiet: "quiet s" and k: "plain k" "length k + 6 \<le> REQ_HEADER_SIZE"
    and ch: "chunked (n_recv (net s)) (text_of ''get '' @ k @ crlf)"
    and run: "\<And>s' toks fin. tokens (conn s') = toks @ [fin]
      \<Longrightarrow> list_all2 (token_of (reqHeader (conn s'))) toks [text_of ''get'', k]
      \<Longrightarrow> store s' = store s \<Longrightarrow> quiet s' \<Longrightarrow> conn_ok ((conn s')\<lparr>reqHeaderBytes := 0\<rparr>) \<Longrightarrow> resBodySize (conn s') = 0
      \<Longrightarrow> \<exists>s1. doGet s' = Some s1 \<and> net s1 = net s' \<and> P s1"
  shows "\<exists>s1. driverMachine p s = driverMachine p (await Write (upd_conn (reqHeaderBytes_update (\<lambda>_. 0)) s1))
    \<and> P s1 \<and> quiet s1 \<and> n_recv (net s1) = [] \<and> n_sent (net s1) = n_sent (net s) \<and> n_writev (net s1) = n_writev (net s)"
proof -
  note line = get_line [OF k(1)]
  have ch': "chunked (n_recv (net s)) (join_words [text_of ''get'', k] @ crlf)"
    using ch unfolding line(2) by (simp only: append_assoc)
  have room: "length (join_words [text_of ''get'', k]) + 2 \<le> REQ_HEADER_SIZE" using k(2) unfolding line(2) by simp
  have "dispatch p (conn s') = Some (Immediate doGet)"
    if "tokens (conn s') = toks @ [fin]" "list_all2 (token_of (reqHeader (conn s'))) toks [text_of ''get'', k]" for s' toks fin
    using is_cmd_token [OF that] by (simp add: dispatch_def)
  then show ?thesis using run by (intro immediate_run [OF w quiet ch' line(1) _ _ room]) (assumption, simp, simp, blast)
qed

lemma get_ready:
  assumes A: "implements (store s) A" and w: "waiting s" and quiet: "quiet s" and k: "plain k" "length k \<le> 280"
    and ch: "chunked (n_recv (net s)) (text_of ''get '' @ k @ crlf)"
  shows "\<exists>s1. driverMachine p s = driverMachine p (await Write (upd_conn (reqHeaderBytes_update (\<lambda>_. 0)) s1))
    \<and> ((case shmc_lookup (store s) k of
         None \<Rightarrow> ready s1 (text_of ''END'' @ crlf) []
       | Some (v, f) \<Rightarrow> ready s1 (value_header k f (length v)) v)
      \<and> shmc_lookup (store s1) = shmc_lookup (store s))
    \<and> quiet s1 \<and> n_recv (net s1) = [] \<and> n_sent (net s1) = n_sent (net s) \<and> n_writev (net s1) = n_writev (net s)"
proof (rule get_run [OF w quiet k(1) _ ch])
  fix s' toks fin
  assume t: "tokens (conn s') = toks @ [fin]" "list_all2 (token_of (reqHeader (conn s'))) toks [text_of ''get'', k]"
    and same: "store s' = store s" and ok: "quiet s'" "conn_ok ((conn s')\<lparr>reqHeaderBytes := 0\<rparr>)" "resBodySize (conn s') = 0"
  show "\<exists>s1. doGet s' = Some s1 \<and> net s1 = net s' \<and> (case shmc_lookup (store s) k of
         None \<Rightarrow> ready s1 (text_of ''END'' @ crlf) []
       | Some (v, f) \<Rightarrow> ready s1 (value_header k f (length v)) v)
      \<and> shmc_lookup (store s1) = shmc_lookup (store s)"
    using doGet_ready [OF _ ok(2,3,1) t k(2), of A] A same by auto
qed (use k(2) in \<open>simp add: REQ_HEADER_SIZE_def\<close>)

text \<open>What the peer is sent.\<close>

definition get_text :: "byte list \<Rightarrow> (byte list \<times> u32) option \<Rightarrow> byte list" where
  "get_text k r = (case r of
     None \<Rightarrow> text_of ''END'' @ crlf
   | Some (v, f) \<Rightarrow> value_header k f (length v) @ (if v = [] then [] else v @ tail_text))"

lemma get_served:
  assumes "implements (store s) A" and "waiting s" and "quiet s" and "n_writev (net s) = []"
    and "plain k" and "length k \<le> 280" and "chunked (n_recv (net s)) (text_of ''get '' @ k @ crlf)"
  shows "\<exists>s'. driverMachine p s = Some s' \<and> waiting s' \<and> quiet s' \<and> n_recv (net s') = []
    \<and> n_sent (net s') = n_sent (net s) @ get_text k (shmc_lookup (store s) k)
    \<and> shmc_lookup (store s') = shmc_lookup (store s)"
proof -
  obtain s1 t v where s1: "driverMachine p s = driverMachine p (await Write (upd_conn (reqHeaderBytes_update (\<lambda>_. 0)) s1))"
      "ready s1 t v" "response t v = get_text k (shmc_lookup (store s) k)" "shmc_lookup (store s1) = shmc_lookup (store s)"
      "quiet s1" "n_recv (net s1) = []" "n_sent (net s1) = n_sent (net s)" "n_writev (net s1) = []"
    using get_ready [OF assms(1,2,3,5-7), of p] assms(4) by (force simp: response_def get_text_def split: option.splits)
  show ?thesis using send_ready [OF s1(2,5,8), of p] s1 by auto
qed

text \<open>
  C27: a \<open>get\<close> request that arrives in any pieces is answered by the flags, the length and the bytes of
  the value its key has in the store, or by \<open>END\<close>; the connection then waits for the next request,
  and no entry of the store has changed. An empty value is not followed by \<open>END\<close>.
\<close>

theorem get_response:
  assumes "implements (store s) A" and "waiting s" and "quiet s" and "n_writev (net s) = []"
    and "plain k" and "length k \<le> 280" and "chunked (n_recv (net s)) (text_of ''get '' @ k @ crlf)"
  shows "\<exists>s'. driverMachine p s = Some s' \<and> waiting s' \<and> quiet s' \<and> n_recv (net s') = []
    \<and> n_sent (net s') = n_sent (net s) @ get_text k (shmc_lookup (store s) k)
    \<and> shmc_lookup (store s') = shmc_lookup (store s)"
  by (rule get_served [OF assms])

text \<open>
  C35: a peer that takes only a part of the response, after which \<open>writev\<close> reports that it would block, loses
  its connection: the rest of the response is never sent. The code means to wait for the peer
  (\<open>EAGAIN\<close>), but compares \<open>errno\<close> with -1.
\<close>

theorem slow_peer_closed:
  assumes "implements (store s) A" and "waiting s" and "quiet s" and "n_writev (net s) = map Some ms @ None # ws"
    and "plain k" and "length k \<le> 280" and "chunked (n_recv (net s)) (text_of ''get '' @ k @ crlf)"
    and "sum_list ms < length (get_text k (shmc_lookup (store s) k))"
  shows "\<exists>s'. driverMachine p s = Some s' \<and> cstate (conn s') = Close
    \<and> n_sent (net s') = n_sent (net s) @ take (sum_list ms) (get_text k (shmc_lookup (store s) k))"
proof -
  obtain s1 t v where s1: "driverMachine p s = driverMachine p (await Write (upd_conn (reqHeaderBytes_update (\<lambda>_. 0)) s1))"
      "ready s1 t v" "response t v = get_text k (shmc_lookup (store s) k)" "shmc_lookup (store s1) = shmc_lookup (store s)"
      "quiet s1" "n_recv (net s1) = []" "n_sent (net s1) = n_sent (net s)" "n_writev (net s1) = n_writev (net s)"
    using get_ready [OF assms(1,2,3,5-7), of p] by (force simp: response_def get_text_def split: option.splits)
  show ?thesis
    using send_part [OF s1(2,5), of ms ws p] assms(4,8) s1(1,3,7,8) by auto
qed

text \<open>
  C34: when the line \<open>VALUE\<close> of a response does not fit into the response buffer, \<open>vsnprintf\<close> still reports its
  full length, and \<open>onWrite\<close> hands \<open>writev\<close> more bytes than the buffer has: an access outside of
  the object. A key of 304 bytes is enough; \<open>set\<close> accepts it.
\<close>

theorem long_header_overread:
  assumes "implements (store s) A" and "waiting s" and "quiet s"
    and "plain k" and "length k + 6 \<le> REQ_HEADER_SIZE" and "chunked (n_recv (net s)) (text_of ''get '' @ k @ crlf)"
    and "shmc_lookup (store s) k = Some (v, f)" and "RES_HEADER_SIZE < length (value_header k f (length v))"
  shows "driverMachine p s = None"
proof -
  obtain s1 where s1: "driverMachine p s = driverMachine p (await Write (upd_conn (reqHeaderBytes_update (\<lambda>_. 0)) s1))"
      "length (resHeader (conn s1)) = RES_HEADER_SIZE \<and> resHeaderBytes (conn s1) = 0 \<and> RES_HEADER_SIZE < resHeaderSize (conn s1)"
      "quiet s1"
  proof (atomize_elim, rule get_run [OF assms(2-6), where P = "\<lambda>s1. length (resHeader (conn s1)) = RES_HEADER_SIZE
      \<and> resHeaderBytes (conn s1) = 0 \<and> RES_HEADER_SIZE < resHeaderSize (conn s1)", THEN ex_forward])
    fix s' toks fin
    assume t: "tokens (conn s') = toks @ [fin]" "list_all2 (token_of (reqHeader (conn s'))) toks [text_of ''get'', k]"
      and same: "store s' = store s" and ok: "quiet s'" "conn_ok ((conn s')\<lparr>reqHeaderBytes := 0\<rparr>)"
    obtain key where key: "key_arg (conn s') = Some (key, length k)" "length k \<le> length (buf_bytes key)" "buf_key key (length k) = k"
      using key_arg_token [OF t] by auto
    have arg: "str_arg (conn s') 1 = Some k" using str_arg_token [OF t, of 1] by simp
    obtain st A1 where "shmc_get_nolock (store s') key (length k) True = Some (SHMC_OK, Some (v, f), st)"
      using get_dict [OF assms(1) key(2,3)] assms(7) same by auto
    then have "doGet s' = Some (upd_conn (\<lambda>c. c\<lparr>resBody := Some v, resBodySize := length v\<rparr>)
        (outString (value_header k f (length v)) (count get_cnts_update s'\<lparr>store := st\<rparr>)))"
      using key(1) arg ok(1) by (simp add: doGet_eq value_header_def Let_def quiet_def)
    then show "\<exists>s1. doGet s' = Some s1 \<and> net s1 = net s' \<and> (length (resHeader (conn s1)) = RES_HEADER_SIZE
      \<and> resHeaderBytes (conn s1) = 0 \<and> RES_HEADER_SIZE < resHeaderSize (conn s1))"
      using assms(8) ok(2) outString_length [of "conn s'" "value_header k f (length v)"] by (simp add: conn_ok_def)
  qed auto
  then show ?thesis using send_long [of s1 p] by simp
qed

section \<open>Storing\<close>

lemma storing_served:
  assumes "implements (store s) A" and "waiting s" and "quiet s" and "n_writev (net s) = []"
    and "plain k" and "plain e" and "length k + length e \<le> 260"
    and "chunked (n_recv (net s)) (store_line ty k f e (length v) @ crlf @ v @ crlf)"
    and "length v + 2 < 2 ^ 63" and "sizes_add ty (conf_of (store s)) A k v"
    and "a_store ty (conf_of (store s)) A k v f = Some (rc, A')"
  shows "\<exists>s'. driverMachine p s = Some s' \<and> waiting s' \<and> quiet s' \<and> n_recv (net s') = []
    \<and> n_sent (net s') = n_sent (net s) @ reply rc \<and> implements (store s') A' \<and> conf_of (store s') = conf_of (store s)"
proof -
  obtain s1 where s1: "driverMachine p s = driverMachine p (await Write s1)" "ready s1 (reply rc) []" "quiet s1"
      "reqHeaderBytes (conn s1) = 0" "n_recv (net s1) = []" "n_sent (net s1) = n_sent (net s)" "n_writev (net s1) = []"
      "implements (store s1) A'" "conf_of (store s1) = conf_of (store s)"
    using storing_run [OF assms(1-3,5-11), of p] assms(4) by auto
  show ?thesis using send_reset [OF s1(2,3,7,4), of p] s1 by (auto simp: response_def)
qed

text \<open>
  C26: a storing command (\<open>set\<close>, \<open>add\<close>, \<open>replace\<close>, \<open>prepend\<close>, \<open>append\<close>) whose line and body arrive in any
  pieces, with the body in the header buffer, behind it, or in both, runs the operation of the
  abstract store on the announced number of bytes and answers with its result; the connection
  then waits for the next request.
\<close>

theorem storing_response:
  assumes "implements (store s) A" and "waiting s" and "quiet s" and "n_writev (net s) = []"
    and "plain k" and "plain e" and "length k + length e \<le> 260"
    and "chunked (n_recv (net s)) (store_line ty k f e (length v) @ crlf @ v @ crlf)"
    and "length v + 2 < 2 ^ 63" and "sizes_add ty (conf_of (store s)) A k v"
    and "a_store ty (conf_of (store s)) A k v f = Some (rc, A')"
  shows "\<exists>s'. driverMachine p s = Some s' \<and> waiting s' \<and> quiet s' \<and> n_recv (net s') = []
    \<and> n_sent (net s') = n_sent (net s) @ reply rc \<and> implements (store s') A' \<and> conf_of (store s') = conf_of (store s)"
  by (rule storing_served [OF assms])

section \<open>Witnesses\<close>

definition demo_net :: "recv list \<Rightarrow> nat option list \<Rightarrow> net" where
  "demo_net es ws = \<lparr>n_accept = None, n_recv = es, n_writev = ws, n_epoll = [], n_malloc = True, n_fopen = True,
     n_errno = [], n_sent = []\<rparr>"

definition demo :: "shmc \<Rightarrow> recv list \<Rightarrow> nat option list \<Rightarrow> server" where
  "demo st es ws = \<lparr>conn = new_conn 64 Read, peers = [], store = st,
     stats = \<lparr>get_cnts = 0, set_cnts = 0, del_cnts = 0, incr_cnts = 0, decr_cnts = 0, get_misses = 0, del_misses = 0,
       incr_misses = 0, decr_misses = 0, err_cnts = 0\<rparr>,
     files = (\<lambda>_. None), net = demo_net es ws\<rparr>"

lemma demo_simps [simp]:
  "store (demo st es ws) = st" "waiting (demo st es ws)" "quiet (demo st es ws)" "n_recv (net (demo st es ws)) = es"
  "n_writev (net (demo st es ws)) = ws" "n_sent (net (demo st es ws)) = []"
  by (simp_all add: demo_def demo_net_def waiting_def conn_ok_def body_ok_def body_bytes_def quiet_def new_conn_def)

lemma plain_demo: "plain [1, 2]" "plain [48]"
  by (simp_all add: plain_def)

lemma chunked_one: "b \<noteq> [] \<Longrightarrow> chunked [Bytes b] b"
  using chunked_Bytes [of b "[]" "[]"] by simp

lemma demo_lookup: "shmc_lookup (tiny_with [7]) [1, 2] = Some ([7], 5)"
  by (simp add: lookup_dict [OF tiny_with_ok(1)] tiny_with_ok(2) dict_def tiny_find)

lemma demo_text: "get_text [1, 2] (Some ([7], 5)) = text_of ''VALUE '' @ [1, 2] @ text_of '' 5 1'' @ crlf @ [7] @ tail_text"
  by (simp add: get_text_def value_header_def text_of_def fmt_d_def as_int_small dec.simps)

lemma demo_pieces: "chunked [Bytes (text_of ''ge''), Bytes (text_of ''t '' @ [1, 2] @ crlf)] (text_of ''get '' @ [1, 2] @ crlf)"
proof -
  have "text_of ''get '' @ [1, 2] @ crlf = text_of ''ge'' @ text_of ''t '' @ [1, 2] @ crlf" by (simp add: text_of_def)
  moreover have "text_of ''ge'' \<noteq> []" by (simp add: text_of_def)
  ultimately show ?thesis using chunked_Bytes chunked_one by simp
qed

theorem get_response_witness:
  "\<exists>s'. driverMachine 0 (demo (tiny_with [7]) [Bytes (text_of ''ge''), Bytes (text_of ''t '' @ [1, 2] @ crlf)] []) = Some s'
    \<and> waiting s' \<and> n_sent (net s') = text_of ''VALUE '' @ [1, 2] @ text_of '' 5 1'' @ crlf @ [7] @ tail_text"
  using get_response [of "demo (tiny_with [7]) [Bytes (text_of ''ge''), Bytes (text_of ''t '' @ [1, 2] @ crlf)] []" _ "[1, 2]" 0]
    tiny_with_ok(1) [of "[7]"] plain_demo demo_pieces
  unfolding demo_simps demo_lookup demo_text by auto

text \<open>Three bytes are taken, then the peer is slow for a moment.\<close>

theorem slow_peer_closed_witness:
  "\<exists>s'. driverMachine 0 (demo (tiny_with [7]) [Bytes (text_of ''ge''), Bytes (text_of ''t '' @ [1, 2] @ crlf)] [Some 3, None]) = Some s'
    \<and> cstate (conn s') = Close \<and> n_sent (net s') = text_of ''VAL''"
proof -
  let ?s = "demo (tiny_with [7]) [Bytes (text_of ''ge''), Bytes (text_of ''t '' @ [1, 2] @ crlf)] [Some 3, None]"
  have "take 3 (get_text [1, 2] (Some ([7], 5))) = text_of ''VAL''" "3 < length (get_text [1, 2] (Some ([7], 5)))"
    unfolding demo_text by (simp_all add: text_of_def)
  moreover have "\<exists>s'. driverMachine 0 ?s = Some s' \<and> cstate (conn s') = Close
      \<and> n_sent (net s') = n_sent (net ?s) @ take (sum_list [3]) (get_text [1, 2] (shmc_lookup (store ?s) [1, 2]))"
  proof (rule slow_peer_closed)
    show "implements (store ?s) (tst [tiny_entry [7] 5] [] [0] [0])" using tiny_with_ok(1) [of "[7]"] by simp
    show "n_writev (net ?s) = map Some [3] @ None # []" by simp
    show "chunked (n_recv (net ?s)) (text_of ''get '' @ [1, 2] @ crlf)" unfolding demo_simps by (rule demo_pieces)
    show "sum_list [3] < length (get_text [1, 2] (shmc_lookup (store ?s) [1, 2]))"
      unfolding demo_simps demo_lookup using calculation(2) by simp
  qed (simp_all add: plain_demo)
  ultimately show ?thesis unfolding demo_simps demo_lookup by simp
qed

text \<open>A store with the default attributes that holds a key of 304 bytes.\<close>

lemma dflt_store: "\<exists>s. implements s (a_fresh (2 ^ 20) (pows 7 20)) \<and> conf_of s = conf_for 4096 dflt (pows 7 20)"
proof -
  have "pool_need (item_size_max dflt) (pows 7 20) \<le> length (pows 7 20) * item_size_max dflt"
    by (rule pool_need_bound)
  also have "\<dots> < mem_limit dflt" by (simp add: SHMC_ATTR_INITIALIZER_def)
  finally have need: "pool_need (item_size_max dflt) (pows 7 20) < mem_limit dflt" .
  have m: "item_size_max dflt = 2 ^ 20" by (simp add: SHMC_ATTR_INITIALIZER_def)
  from format_slabs_fresh [OF dflt_ok dflt_sizes need, of 4096, unfolded m]
  show ?thesis by (elim exE conjE) (intro exI conjI)
qed

lemma long_key_store: "\<exists>s A. implements s A \<and> shmc_lookup s (replicate 304 97) = Some ([7], 5)"
proof -
  define k :: "byte list" where "k = replicate 304 97"
  have k: "length k = 304" by (simp add: k_def)
  let ?cf = "conf_for 4096 dflt (pows 7 20)" and ?A = "a_fresh (2 ^ 20) (pows 7 20)"
  obtain s where s: "implements s ?A" "conf_of s = ?cf" using dflt_store by blast
  have "a_find ?cf ?A k = None" by (simp add: a_find_def a_fresh_def find_None_iff)
  moreover have "class_for ?cf (size_for 304 1) = Some 2"
    by (simp add: class_for_def size_for_def conf_for_def upt_rec Let_def)
  moreover have "a_free ?A 2 = 0 # replicate 2047 0"
  proof -
    have "a_free ?A 2 = replicate (Suc 2047) 0" by (simp add: a_fresh_def del: replicate_Suc)
    then show ?thesis unfolding replicate_Suc .
  qed
  moreover have "size_ok ?cf (size_for 304 1)" by (simp add: size_for_def conf_for_def SHMC_ATTR_INITIALIZER_def)
  ultimately obtain B where B: "a_set ?cf ?A k [7] 5 = Some (SHMC_OK, B)"
    by (simp add: a_set_def a_del_def a_take_def Let_def k)
  then obtain s' where s': "implements s' B" "conf_of s' = ?cf"
    using set_refines [OF s(1), of 304 "Buf 0 k" 1 "[7]" 5] s(2) k by (auto simp: buf_key_def)
  have "dict ?cf B k = Some ([7], 5)" using set_facts [OF implements_wf [OF s(1), unfolded s(2)] B] by simp
  then show ?thesis using lookup_dict [OF s'(1)] s' unfolding k_def by metis
qed

theorem long_header_overread_witness:
  "\<exists>st A. implements st A \<and> shmc_lookup st (replicate 304 97) = Some ([7], 5)
    \<and> driverMachine 0 (demo st [Bytes (text_of ''get '' @ replicate 304 97 @ crlf)] []) = None"
proof -
  obtain st A where st: "implements st A" "shmc_lookup st (replicate 304 97) = Some ([7], 5)" using long_key_store by blast
  have "RES_HEADER_SIZE < length (value_header (replicate 304 97) 5 (length [7 :: byte]))"
    by (simp add: value_header_def RES_HEADER_SIZE_def fmt_d_def as_int_small dec.simps)
  then have "driverMachine 0 (demo st [Bytes (text_of ''get '' @ replicate 304 97 @ crlf)] []) = None"
    using st by (intro long_header_overread [where A = A and k = "replicate 304 97" and v = "[7]" and f = 5])
      (simp_all add: chunked_one plain_def REQ_HEADER_SIZE_def text_of_def)
  with st show ?thesis by blast
qed

theorem storing_response_witness:
  "\<exists>s'. driverMachine 0 (demo tiny_store [Bytes (text_of ''set '' @ [1, 2] @ text_of '' 5 0 1'' @ crlf @ [7] @ crlf)] []) = Some s'
    \<and> n_sent (net s') = text_of ''STORED'' @ crlf \<and> shmc_lookup (store s') [1, 2] = Some ([7], 5)"
proof -
  have l: "text_of ''set '' @ [1, 2] @ text_of '' 5 0 1'' @ crlf @ [7] @ crlf
      = store_line CmdSet [1, 2] 5 [48] (length [7 :: byte]) @ crlf @ [7] @ crlf"
    by (simp add: store_line_def text_of_def dec.simps)
  have a: "a_store CmdSet (conf_of tiny_store) (tst [] [] [0, 0] [0]) [1, 2] [7] 5 = Some (SHMC_OK, tst [tiny_entry [7] 5] [] [0] [0])"
    by (simp add: a_set_def a_del_def tiny_eval)
  have ch: "chunked [Bytes (text_of ''set '' @ [1, 2] @ text_of '' 5 0 1'' @ crlf @ [7] @ crlf)]
      (store_line CmdSet [1, 2] 5 [48] (length [7 :: byte]) @ crlf @ [7] @ crlf)"
    unfolding l [symmetric] by (rule chunked_one) simp
  obtain s' where s': "driverMachine 0 (demo tiny_store [Bytes (text_of ''set '' @ [1, 2] @ text_of '' 5 0 1'' @ crlf @ [7] @ crlf)] []) = Some s'"
      "n_sent (net s') = reply SHMC_OK" "implements (store s') (tst [tiny_entry [7] 5] [] [0] [0])" "conf_of (store s') = conf_of tiny_store"
    using storing_response [of "demo tiny_store [Bytes (text_of ''set '' @ [1, 2] @ text_of '' 5 0 1'' @ crlf @ [7] @ crlf)] []"
      "tst [] [] [0, 0] [0]" "[1, 2]" "[48]" CmdSet 5 "[7]" SHMC_OK "tst [tiny_entry [7] 5] [] [0] [0]" 0]
      tiny_impl plain_demo a ch
    unfolding demo_simps by (auto simp: sizes_add_def)
  have "shmc_lookup (store s') [1, 2] = Some ([7], 5)"
    by (simp add: lookup_dict [OF s'(3)] s'(4) tiny_ok(2) dict_def tiny_find)
  with s' show ?thesis by auto
qed

end
