(* ===== verification/Session_Properties.thy ===== *)
theory Session_Properties
  imports Connection_Properties Connection_Typing
begin

text \<open>
  Sequences of requests on one connection: the value stored by one request is what the next one
  reads, and pauses inside a request change nothing.
\<close>

lemma demo_typed: "conn_typed (conn (demo st es ws))" "peers (demo st es ws) = []"
  by (simp_all add: demo_def new_conn_typed)

section \<open>Pauses\<close>

lemma recv_loop_append:
  "chunked es d \<Longrightarrow> length d < room \<Longrightarrow>
    recv_loop (es @ es') room = (case recv_loop es' (room - length d) of (d', e, es'') \<Rightarrow> (d @ d', e, es''))"
proof (induction es arbitrary: d room)
  case Nil
  then have "d = []" by (cases "d = []") (auto elim: chunked_cases)
  then show ?case by simp
next
  case (Cons e es)
  then obtain b d0 where b: "e = Bytes b" "b \<noteq> []" "d = b @ d0" "chunked es d0" by (auto simp: chunked_Cons)
  then show ?case using Cons.IH [OF b(4), of "room - length b"] Cons.prems(2) by (simp split: prod.split)
qed

lemma blit_blit: "off + length d \<le> length b \<Longrightarrow> blit (blit b off d) (off + length d) d' = blit b off (d @ d')"
  by (simp add: blit_def ac_simps)

text \<open>\<open>d\<close> ends neither the request line nor the body the connection waits for.\<close>

definition mid_request :: "conn \<Rightarrow> byte list \<Rightarrow> bool" where
  "mid_request c d \<longleftrightarrow>
     (cstate c = Read \<and> reqHeaderBytes c + length d < REQ_HEADER_SIZE
        \<and> 10 \<notin> set (take (reqHeaderBytes c) (reqHeader c)) \<union> set d)
     \<or> (cstate c = NRead \<and> reqBody c \<noteq> None \<and> reqBodyBytes c + length d < reqBodySize c)"

abbreviation fed :: "recv list \<Rightarrow> server \<Rightarrow> server" where
  "fed es s \<equiv> upd_net (n_recv_update (\<lambda>_. es)) s"

lemma onRead_pause:
  assumes t: "conn_typed (conn s)" and ch: "chunked (n_recv (net s)) d" and st: "cstate (conn s) = Read"
    and d: "reqHeaderBytes (conn s) + length d < REQ_HEADER_SIZE" "10 \<notin> set (take (reqHeaderBytes (conn s)) (reqHeader (conn s))) \<union> set d"
  defines "s1 \<equiv> fed [] s\<lparr>conn := (conn s)\<lparr>reqHeader := blit (reqHeader (conn s)) (reqHeaderBytes (conn s)) d,
      reqHeaderBytes := reqHeaderBytes (conn s) + length d\<rparr>\<rparr>"
  shows "onRead p s = Some (DmStop, s1)" "onRead p (fed es s1) = onRead p (fed (n_recv (net s) @ es) s)"
proof -
  let ?c = "conn s" and ?n = "reqHeaderBytes (conn s)"
  have h: "length (reqHeader ?c) = REQ_HEADER_SIZE" using t by (simp add: conn_typed_def)
  have "take (?n + length d) (blit (reqHeader ?c) ?n d) = take ?n (reqHeader ?c) @ d"
    using d(1) h by (simp add: blit_def min_def)
  then have none: "memchr (take (?n + length d) (blit (reqHeader ?c) ?n d)) 10 = None"
    using d(2) by (simp add: memchr_def)
  show "onRead p s = Some (DmStop, s1)"
    using recv_short [OF ch, of "REQ_HEADER_SIZE - ?n"] d(1) none by (simp add: onRead_def Let_def s1_def)
  obtain d' e es'' where r: "recv_loop es (REQ_HEADER_SIZE - ?n - length d) = (d', e, es'')" by (rule prod_cases3)
  have r': "recv_loop (n_recv (net s) @ es) (REQ_HEADER_SIZE - ?n) = (d @ d', e, es'')"
    using recv_loop_append [OF ch, of "REQ_HEADER_SIZE - ?n" es] d(1) r by simp
  have b: "blit (blit (reqHeader ?c) ?n d) (?n + length d) d' = blit (reqHeader ?c) ?n (d @ d')"
    using d(1) h by (intro blit_blit) simp
  show "onRead p (fed es s1) = onRead p (fed (n_recv (net s) @ es) s)"
    using r r' b by (simp add: onRead_def s1_def diff_diff_eq add.assoc)
qed

lemma onNRead_pause:
  assumes t: "conn_typed (conn s)" and ch: "chunked (n_recv (net s)) d" and st: "cstate (conn s) = NRead"
    and b: "reqBody (conn s) = Some b" and d: "reqBodyBytes (conn s) + length d < reqBodySize (conn s)"
  defines "s1 \<equiv> fed [] s\<lparr>conn := (conn s)\<lparr>reqBody := Some (blit b (reqBodyBytes (conn s)) d),
      reqBodyBytes := reqBodyBytes (conn s) + length d\<rparr>\<rparr>"
  shows "onNRead s = Some (DmStop, s1)" "onNRead (fed es s1) = onNRead (fed (n_recv (net s) @ es) s)"
proof -
  let ?c = "conn s" and ?n = "reqBodyBytes (conn s)" and ?m = "reqBodySize (conn s)"
  have h: "?m \<le> length b" using t b by (simp add: conn_typed_def)
  show "onNRead s = Some (DmStop, s1)"
    using recv_short [OF ch, of "?m - ?n"] d b h by (simp add: onNRead_def Let_def s1_def)
  obtain d' e es'' where r: "recv_loop es (?m - ?n - length d) = (d', e, es'')" by (rule prod_cases3)
  have r': "recv_loop (n_recv (net s) @ es) (?m - ?n) = (d @ d', e, es'')"
    using recv_loop_append [OF ch, of "?m - ?n" es] d r by simp
  have l: "length d' \<le> ?m - ?n - length d" using recv_loop_length [OF r] by simp
  have bb: "blit (blit b ?n d) (?n + length d) d' = blit b ?n (d @ d')" using d h by (intro blit_blit) simp
  show "onNRead (fed es s1) = onNRead (fed (n_recv (net s) @ es) s)"
    using r r' bb l d b h by (cases e) (simp_all add: onNRead_def s1_def diff_diff_eq add.assoc Let_def)
qed

text \<open>
  C29: a pause inside a request, in its line or in its body, is invisible: when the connection has used up what
  has arrived and is called again with the rest, it does exactly what one call with everything would
  have done; until then it has sent nothing and has not touched the store.
\<close>

theorem pauses_are_invisible:
  assumes "conn_typed (conn s)" and "chunked (n_recv (net s)) d" and "mid_request (conn s) d"
  shows "\<exists>s1. driverMachine p s = Some s1 \<and> store s1 = store s \<and> n_sent (net s1) = n_sent (net s)
    \<and> (\<forall>es. driverMachine p (fed es s1) = driverMachine p (fed (n_recv (net s) @ es) s))"
  using assms(3) unfolding mid_request_def
proof (elim disjE conjE)
  assume st: "cstate (conn s) = Read" "reqHeaderBytes (conn s) + length d < REQ_HEADER_SIZE"
    "10 \<notin> set (take (reqHeaderBytes (conn s)) (reqHeader (conn s))) \<union> set d"
  show ?thesis
    using onRead_pause [OF assms(1,2) st, of p] st(1)
    by (subst (1 2 3) driver_step) auto
next
  assume st: "cstate (conn s) = NRead" "reqBody (conn s) \<noteq> None" "reqBodyBytes (conn s) + length d < reqBodySize (conn s)"
  then obtain b where b: "reqBody (conn s) = Some b" by auto
  show ?thesis
    using onNRead_pause [OF assms(1,2) st(1) b st(3)] st(1)
    by (subst (1 2 3) driver_step) auto
qed

theorem pauses_are_invisible_witness:
  "\<exists>s1. driverMachine 0 (demo tiny_store [Bytes (text_of ''ge'')] []) = Some s1 \<and> n_sent (net s1) = []
    \<and> driverMachine 0 (fed [Bytes (text_of ''t '' @ [1, 2] @ crlf)] s1)
      = driverMachine 0 (fed [Bytes (text_of ''ge''), Bytes (text_of ''t '' @ [1, 2] @ crlf)] (demo tiny_store [Bytes (text_of ''ge'')] []))"
proof -
  have "mid_request (conn (demo tiny_store [Bytes (text_of ''ge'')] [])) (text_of ''ge'')"
    by (simp add: mid_request_def demo_def new_conn_def REQ_HEADER_SIZE_def text_of_def)
  moreover have "chunked (n_recv (net (demo tiny_store [Bytes (text_of ''ge'')] []))) (text_of ''ge'')"
    unfolding demo_simps by (rule chunked_one) (simp add: text_of_def)
  ultimately show ?thesis
    using pauses_are_invisible [OF demo_typed(1), of tiny_store "[Bytes (text_of ''ge'')]" "[]" "text_of ''ge''" 0] by fastforce
qed

section \<open>Requests in sequence\<close>

lemma reply_ok: "reply rc = reply SHMC_OK \<Longrightarrow> rc = SHMC_OK"
  by (cases rc) (simp_all add: text_of_def)

text \<open>The second request may come on another connection.\<close>

lemma set_then_get:
  assumes "implements (store s) A" and "waiting s" and "quiet s" and "n_writev (net s) = []"
    and "plain k" and "plain e" and "length k + length e \<le> 260"
    and "chunked (n_recv (net s)) (store_line CmdSet k f e (length v) @ crlf @ v @ crlf)"
    and "length v + 2 < 2 ^ 63" and "sizeof_item + length k + length v < 2 ^ 64"
    and "class_for (conf_of (store s)) (size_for (length k) (length v)) \<noteq> None"
    and "driverMachine p s = Some s1" and "n_sent (net s1) = n_sent (net s) @ text_of ''STORED'' @ crlf"
    and "store t = store s1" and "waiting t" and "quiet t" and "n_writev (net t) = []"
    and "chunked (n_recv (net t)) (text_of ''get '' @ k @ crlf)"
  shows "\<exists>s2. driverMachine q t = Some s2 \<and> waiting s2
    \<and> n_sent (net s2) = n_sent (net t) @ get_text k (Some (v, f))"
proof -
  obtain rc A' where a: "a_set (conf_of (store s)) A k v f = Some (rc, A')"
    using a_set_defined [of "conf_of (store s)" k v A f] assms(11) by (cases "a_set (conf_of (store s)) A k v f") auto
  obtain s1' where s1': "driverMachine p s = Some s1'" "waiting s1'" "quiet s1'"
      "n_sent (net s1') = n_sent (net s) @ reply rc" "implements (store s1') A'" "conf_of (store s1') = conf_of (store s)"
    using storing_served [of s A k e CmdSet f v rc A' p] assms(1-10) a by (auto simp: sizes_add_def)
  then have same: "s1' = s1" using assms(12) by simp
  then have "reply rc = reply SHMC_OK" using assms(13) s1'(4) by simp
  then have rc: "rc = SHMC_OK" by (rule reply_ok)
  have "dict (conf_of (store s)) A' k = Some (v, f)"
    using set_facts [OF implements_wf [OF assms(1)] a] rc by simp
  then have look: "shmc_lookup (store s1) k = Some (v, f)"
    using lookup_dict [OF s1'(5)] s1'(6) unfolding same by simp
  have "implements (store t) A'" using s1'(5) assms(14) unfolding same by simp
  from get_served [OF this assms(15-17,5) _ assms(18), of q] show ?thesis using assms(7,14) look by auto
qed

end
