(* ===== verification/Event_Properties.thy ===== *)
theory Event_Properties
  imports Event_Loop Session_Properties
begin

text \<open>
  The properties of the event loop: which connections it keeps, and what one client sees of what
  another has stored.
\<close>

section \<open>The connections\<close>

text \<open>
  C30: whatever the clients send and the system calls answer, when \<open>run\<close> waits or has returned every
  connection it keeps is well typed and waits for something: for connections, for a request or for the
  rest of a body; none is left in the middle of a response or closed.
\<close>

theorem run_keeps_connections:
  assumes "ev_run p h es now S = Some (r, S')" and "timer_ok h" and "shell_ok S"
  shows "shell_ok S'"
  using run_loop_ok [OF assms(1) [unfolded ev_run_def] assms(2)] assms(3) by simp

definition two_clients :: shell where
  "two_clients = \<lparr>conns = [64 \<mapsto> new_conn 64 Read, 512 \<mapsto> new_conn 512 Read], shared = demo tiny_store [] [], stopped = False\<rparr>"

lemma two_clients_ok: "shell_ok two_clients"
  using new_conn_typed by (auto simp: shell_ok_def two_clients_def at_rest_def new_conn_def split: if_splits)

definition one_poll :: "waited \<Rightarrow> bool \<Rightarrow> poll" where
  "one_poll w b = \<lparr>p_waited = w, p_stop = b, p_time = (0, 0)\<rparr>"

theorem run_keeps_connections_witness:
  "\<exists>S'. ev_run 0 None [one_poll Interrupted False, one_poll (Events [(64, demo_net [Again] [])]) True] (0, 0) two_clients
      = Some (Returned True, S') \<and> shell_ok S'"
proof -
  have "\<exists>S'. ev_run 0 None [one_poll Interrupted False, one_poll (Events [(64, demo_net [Again] [])]) True] (0, 0) two_clients
      = Some (Returned True, S')"
    by (simp add: ev_run_def two_clients_def one_poll_def handle_event_def driver_step onRead_def ev_stop_def
      new_conn_def demo_net_def memchr_def run_timer_def REQ_HEADER_SIZE_def)
  then show ?thesis using run_keeps_connections [OF _ _ two_clients_ok, of 0 None] by (auto simp: timer_ok_def)
qed

section \<open>Two clients\<close>

definition waits :: "shell \<Rightarrow> nat \<Rightarrow> bool" where
  "waits S a \<longleftrightarrow> (\<exists>c. conns S a = Some c \<and> waiting ((shared S)\<lparr>conn := c\<rparr>))"

text \<open>A kernel that has memory and takes every registration, and a peer that takes the whole response.\<close>

definition polite :: "net \<Rightarrow> bool" where
  "polite n \<longleftrightarrow> n_epoll n = [] \<and> n_malloc n \<and> n_writev n = [] \<and> n_sent n = []"

abbreviation entered :: "shell \<Rightarrow> conn \<Rightarrow> net \<Rightarrow> server" where
  "entered S c n \<equiv> (shared S)\<lparr>conn := c, peers := [], net := n\<rparr>"

lemma waits_entered:
  assumes "waits S a" and "polite n"
  obtains c where "conns S a = Some c" "waiting (entered S c n)" "quiet (entered S c n)" "n_writev (net (entered S c n)) = []"
  using assms by (auto simp: waits_def waiting_def polite_def quiet_def)

lemma handle_event_entered:
  "conns S a = Some c \<Longrightarrow> driverMachine p (entered S c n) = Some s \<Longrightarrow> \<exists>S'. handle_event p (a, n) S = Some S' \<and> shared S' = s"
  by (simp add: handle_event_def)

lemma handle_event_shared:
  "conns S a = Some c \<Longrightarrow> handle_event p (a, n) S = Some S' \<Longrightarrow> driverMachine p (entered S c n) = Some (shared S')"
  by (auto simp: handle_event_def split: Option.bind_splits)

text \<open>
  C25: what one client has stored is what another one reads: when the \<open>set\<close> of the client \<open>a\<close> has been
  answered by \<open>STORED\<close>, the next \<open>get\<close> of the key, on its own connection or on that of another client \<open>b\<close>,
  is answered by exactly the flags and the bytes \<open>a\<close> sent, whatever bytes the value holds and however
  both requests are cut into pieces.
\<close>

theorem clients_share_the_store:
  assumes "implements (store (shared S)) A" and "waits S a" and "polite n"
    and "plain k" and "plain e" and "length k + length e \<le> 260"
    and "chunked (n_recv n) (store_line CmdSet k f e (length v) @ crlf @ v @ crlf)"
    and "length v + 2 < 2 ^ 63" and "sizeof_item + length k + length v < 2 ^ 64"
    and "class_for (conf_of (store (shared S))) (size_for (length k) (length v)) \<noteq> None"
    and "handle_event p (a, n) S = Some S1" and "n_sent (net (shared S1)) = text_of ''STORED'' @ crlf"
    and "waits S1 b" and "polite n'" and "chunked (n_recv n') (text_of ''get '' @ k @ crlf)"
  shows "\<exists>S2. handle_event q (b, n') S1 = Some S2 \<and> n_sent (net (shared S2)) = get_text k (Some (v, f))"
proof -
  obtain c where c: "conns S a = Some c" "waiting (entered S c n)" "quiet (entered S c n)" "n_writev (net (entered S c n)) = []"
    using waits_entered [OF assms(2,3)] .
  obtain d where d: "conns S1 b = Some d" "waiting (entered S1 d n')" "quiet (entered S1 d n')"
      "n_writev (net (entered S1 d n')) = []"
    using waits_entered [OF assms(13,14)] .
  have "\<exists>s2. driverMachine q (entered S1 d n') = Some s2 \<and> waiting s2
      \<and> n_sent (net s2) = n_sent (net (entered S1 d n')) @ get_text k (Some (v, f))"
    by (rule set_then_get [OF _ c(2-4) assms(4-6) _ assms(8,9) _ handle_event_shared [OF c(1) assms(11)] _ _ d(2-4)])
      (use assms in \<open>simp_all add: polite_def\<close>)
  then show ?thesis using handle_event_entered [OF d(1)] assms(14) by (fastforce simp: polite_def)
qed

text \<open>A value that contains the line end and a zero byte.\<close>

abbreviation set_pieces :: net where
  "set_pieces \<equiv> demo_net [Bytes (store_line CmdSet [1, 2] 5 [48] 3 @ crlf @ [13, 10, 0] @ crlf)] []"

lemma set_pieces_chunked: "chunked (n_recv set_pieces) (store_line CmdSet [1, 2] 5 [48] (length [13, 10, 0 :: byte]) @ crlf @ [13, 10, 0] @ crlf)"
  by (simp add: demo_net_def numeral_3_eq_3 [symmetric] chunked_one)

lemma polite_demo: "polite (demo_net r [])"
  by (simp add: polite_def demo_net_def)

lemma two_clients_store: "store (shared two_clients) = tiny_store"
  by (simp add: two_clients_def)

lemma two_clients_wait: "a = 64 \<or> a = 512 \<Longrightarrow> waits two_clients a"
  by (auto simp: waits_def two_clients_def waiting_def conn_ok_def body_ok_def body_bytes_def new_conn_def)

lemma two_clients_set:
  obtains S1 where "handle_event 0 (64, set_pieces) two_clients = Some S1" "n_sent (net (shared S1)) = text_of ''STORED'' @ crlf"
proof -
  have a: "a_store CmdSet (conf_of (store (entered two_clients c set_pieces))) (tst [] [] [0, 0] [0]) [1, 2] [13, 10, 0] 5
      = Some (SHMC_OK, tst [tiny_entry [13, 10, 0] 5] [] [0] [0])" for c
    using two_clients_store by (simp add: a_set_def a_del_def tiny_eval)
  obtain c where c: "conns two_clients 64 = Some c" "waiting (entered two_clients c set_pieces)" "quiet (entered two_clients c set_pieces)"
      "n_writev (net (entered two_clients c set_pieces)) = []" using waits_entered [OF two_clients_wait polite_demo] by blast
  obtain s1 where s1: "driverMachine 0 (entered two_clients c set_pieces) = Some s1" "n_sent (net s1) = text_of ''STORED'' @ crlf"
    using storing_served [OF _ c(2-4) plain_demo _ _ _ _ a, of 0] tiny_impl set_pieces_chunked polite_demo two_clients_store
    by (auto simp: sizes_add_def polite_def)
  then show ?thesis using handle_event_entered [OF c(1) s1(1)] that by blast
qed

theorem clients_share_the_store_witness:
  "\<exists>S1 S2. handle_event 0 (64, set_pieces) two_clients = Some S1
    \<and> handle_event 0 (512, demo_net [Bytes (text_of ''get ''), Bytes ([1, 2] @ crlf)] []) S1 = Some S2
    \<and> n_sent (net (shared S2)) = get_text [1, 2] (Some ([13, 10, 0], 5))"
proof -
  let ?n' = "demo_net [Bytes (text_of ''get ''), Bytes ([1, 2] @ crlf)] []"
  have cl: "class_for (conf_of (store (shared two_clients))) (size_for (length [1, 2 :: byte]) (length [13, 10, 0 :: byte])) \<noteq> None"
    unfolding two_clients_store by (simp add: tiny_eval)
  have ch: "chunked (n_recv ?n') (text_of ''get '' @ [1, 2] @ crlf)"
    using chunked_Bytes [OF _ chunked_one, of "text_of ''get ''" "[1, 2] @ crlf"] by (simp add: demo_net_def text_of_def)
  obtain S1 where S1: "handle_event 0 (64, set_pieces) two_clients = Some S1" "n_sent (net (shared S1)) = text_of ''STORED'' @ crlf"
    by (rule two_clients_set)
  have w: "waits S1 512"
    using two_clients_wait [of 512] S1(1)
    by (auto simp: handle_event_def waits_def waiting_def two_clients_def split: Option.bind_splits)
  from clients_share_the_store [OF _ two_clients_wait polite_demo plain_demo _ set_pieces_chunked _ _ cl S1 w polite_demo ch, of _ 0]
  show ?thesis using S1 tiny_impl two_clients_store by auto
qed

end
