(* ===== verification/Netshell_Properties.thy ===== *)
theory Netshell_Properties
  imports Netshell_Main Event_Properties
begin

text \<open>
  The properties of the \<open>netshell\<close> program as a whole: how it starts, when it stops, what it leaves on
  the disk.
\<close>

section \<open>Starting\<close>

lemma item_max_unchecked: "\<not> bad_item_max st"
  by (simp add: bad_item_max_def)

lemma version_ok: "SHMC_VERSION = shmc_version"
  by (simp add: shmc_version_def)

abbreviation with_pid :: "kernel \<Rightarrow> settings \<Rightarrow> disk \<Rightarrow> disk" where
  "with_pid k st D \<equiv> (case s_pidfile st of
     None \<Rightarrow> D | Some f \<Rightarrow> if k_pidfile k then D\<lparr>d_pids := insert f (d_pids D)\<rparr> else D)"

abbreviation with_map :: "settings \<Rightarrow> disk \<Rightarrow> disk" where
  "with_map st D \<equiv> (if s_useNewMap st then D\<lparr>d_tokens := (d_tokens D)(s_token st := None)\<rparr> else D)"

lemma netshell_runs:
  assumes "set_options (getopt [] argv) initial = Some (Inr st)" and "attr_of st = Some a"
    and "s_pidfile st \<noteq> Some (s_token st)"
    and "shmc_init (k_sys k) (d_tokens (with_map st (with_pid k st D))) (s_token st) (Some a) = Some (rc, out, fs)"
  shows "netshell k p ts argv D = (case out of
      None \<Rightarrow> Some (Exited 1 ((with_map st (with_pid k st D))\<lparr>d_tokens := fs\<rparr>))
    | Some s \<Rightarrow> serve_and_stop k p ts st s ((with_map st (with_pid k st D))\<lparr>d_tokens := fs\<rparr>))"
  using assms by (simp add: netshell_def version_ok run_netshell_def item_max_unchecked Let_def)

text \<open>
  C33: \<open>netshell\<close> never uses an old map. When the token exists and \<open>-a\<close> is not given, every start ends with
  failure, the token as it was and the pid file, if one is written, left behind; the text of \<open>usage\<close>
  promises that the old map is used.
\<close>

theorem old_map_never_used:
  assumes "set_options (getopt [] argv) initial = Some (Inr st)" and "\<not> s_useNewMap st"
    and "attr_of st = Some a" and "s_pidfile st \<noteq> Some (s_token st)"
    and "d_tokens D (s_token st) \<noteq> None"
  shows "\<exists>D'. netshell k p ts argv D = Some (Exited 1 D') \<and> d_tokens D' = d_tokens D
    \<and> d_pids D' = d_pids D \<union> (if k_pidfile k then set_option (s_pidfile st) else {})"
proof -
  let ?D = "with_pid k st D"
  have D: "d_tokens ?D = d_tokens D" "d_pids ?D = d_pids D \<union> (if k_pidfile k then set_option (s_pidfile st) else {})"
    by (cases "s_pidfile st"; simp)+
  obtain rc where "shmc_init (k_sys k) (d_tokens D) (s_token st) (Some a) = Some (rc, None, d_tokens D)"
    using assms(5) by (cases "malloc_works (k_sys k)") (auto simp: shmc_init_def mmap_create_def)
  then have "netshell k p ts argv D = Some (Exited 1 (?D\<lparr>d_tokens := d_tokens D\<rparr>))"
    using netshell_runs [OF assms(1,3,4), of k D rc None "d_tokens D" p ts] assms(2) D(1) by simp
  then show ?thesis using D(2) by simp
qed

section \<open>Serving and stopping\<close>

lemma poll_ends: "ends (poll_of t) \<longleftrightarrow> fst t = WaitFailed \<or> SIGTERM \<in> set (fst (snd t)) \<or> SIGINT \<in> set (fst (snd t))"
  by (auto simp: ends_def poll_of_def list_ex_iff)

lemma outcome_running: "outcome es = Running \<longleftrightarrow> (\<forall>e \<in> set es. \<not> ends e)"
  by (auto simp: outcome_def find_None_iff find_Some_iff split: option.split)

text \<open>The turn in which the server stops: a signal arrives, or the wait fails.\<close>

definition stops :: "turn \<Rightarrow> bool" where
  "stops t \<longleftrightarrow> fst t = WaitFailed \<or> SIGTERM \<in> set (fst (snd t)) \<or> SIGINT \<in> set (fst (snd t))"

lemma McShell_run_outcome: "McShell_run p es now S = Some (r, S') \<Longrightarrow> r = outcome es"
  using run_loop_outcome [of p es now "S\<lparr>stopped := False\<rparr>" r S'] by (simp add: McShell_run_def ev_run_def)

definition starts :: "kernel \<Rightarrow> bool" where
  "starts k \<longleftrightarrow> k_socket k \<and> k_getfl k \<and> k_setfl k \<and> k_reuse k \<and> k_bind k \<and> k_listen k \<and> k_epoll k \<and> k_add k"

lemma new_shell:
  assumes "starts k"
  obtains S where "McShell_new k s = Inr S" "store (shared S) = s" "shell_ok S"
proof
  show "McShell_new k s = Inr (projr (McShell_new k s))" "store (shared (projr (McShell_new k s))) = s"
    using assms by (simp_all add: McShell_new_def Let_def starts_def)
  show "shell_ok (projr (McShell_new k s))"
    using assms new_conn_typed by (auto simp: McShell_new_def Let_def starts_def shell_ok_def at_rest_def new_conn_def)
qed

lemma serve_and_stop_run:
  assumes "McShell_new k s = Inr S"
  shows "serve_and_stop k p ts st s D = (case McShell_run p (map poll_of ts) (k_now k) S of
      None \<Rightarrow> None
    | Some (r, S') \<Rightarrow> Some (if \<exists>t \<in> set ts. stops t then
        Exited 0 (remove_pid (s_pidfile st) (D\<lparr>d_tokens := (d_tokens D)(s_token st \<mapsto> Image SHMC_VERSION (store (shared S')))\<rparr>))
      else Serving (listen_address k (s_inter st) (s_port st)) S' D))"
proof (cases "McShell_run p (map poll_of ts) (k_now k) S")
  case (Some x)
  obtain r S' where x: "x = (r, S')" by (cases x)
  have r: "r = outcome (map poll_of ts)" using McShell_run_outcome Some x by blast
  have "r = Running \<longleftrightarrow> \<not> (\<exists>t \<in> set ts. stops t)"
    unfolding r outcome_running by (simp add: poll_ends stops_def)
  then show ?thesis using assms Some x
    by (cases r) (simp_all add: serve_and_stop_def shmc_destroy_def)
qed (use assms in \<open>simp add: serve_and_stop_def\<close>)

text \<open>
  C24: the life of a server. With options whose sizes fit, and a token that does not exist or is made anew
  with \<open>-a\<close>, \<open>netshell\<close> starts with the empty store and serves, every connection at rest, until the
  first turn in which SIGTERM or SIGINT arrives or the wait fails. Then it ends with success, the
  token file holds the store as it was after the last request served, and the pid file is gone.
\<close>

theorem netshell_life:
  assumes "set_options (getopt [] argv) initial = Some (Inr st)" and "attr_of st = Some a"
    and "s_pidfile st \<noteq> Some (s_token st)" and "s_useNewMap st \<or> d_tokens D (s_token st) = None"
    and "caller_ok a" and "works (k_sys k) q" and "starts k"
    and "count_of_slabs (fix_attr a) = Some (length zs)"
    and "size_seq (item_size_factor (fix_attr a)) (length zs) (sizeof_item + item_size_min a) = Some zs"
    and "pool_need (item_size_max a) zs < mem_limit a"
  shows "\<exists>S D1. implements (store (shared S)) (a_fresh (item_size_max a) zs) \<and> shell_ok S
    \<and> (\<forall>ts. netshell k p ts argv D = (case McShell_run p (map poll_of ts) (k_now k) S of
          None \<Rightarrow> None
        | Some (r, S') \<Rightarrow> Some (if \<exists>t \<in> set ts. stops t
            then Exited 0 \<lparr>d_tokens = (d_tokens D)(s_token st \<mapsto> Image SHMC_VERSION (store (shared S'))),
              d_pids = d_pids D - set_option (s_pidfile st)\<rparr>
            else Serving (listen_address k (s_inter st) (s_port st)) S' D1)))"
proof -
  let ?D = "with_map st (with_pid k st D)"
  have D: "d_tokens ?D (s_token st) = None"
      "remove_pid (s_pidfile st) (?D\<lparr>d_tokens := (d_tokens ?D)(s_token st \<mapsto> x)\<rparr>)
        = \<lparr>d_tokens = (d_tokens D)(s_token st \<mapsto> x), d_pids = d_pids D - set_option (s_pidfile st)\<rparr>" for x
    using assms(4) by (auto simp: remove_pid_def split: option.split)
  obtain s where s: "shmc_init (k_sys k) (d_tokens ?D) (s_token st) (Some a)
        = Some (SHMC_OK, Some s, (d_tokens ?D)(s_token st \<mapsto> Image SHMC_VERSION s))"
      "implements s (a_fresh (item_size_max a) zs)"
    using init_fresh [OF assms(5,6), of "d_tokens ?D" "s_token st", OF D(1) assms(8-10)] by blast
  obtain S where S: "McShell_new k s = Inr S" "store (shared S) = s" "shell_ok S" using new_shell [OF assms(7)] .
  have "netshell k p ts argv D = (case McShell_run p (map poll_of ts) (k_now k) S of
          None \<Rightarrow> None
        | Some (r, S') \<Rightarrow> Some (if \<exists>t \<in> set ts. stops t
            then Exited 0 \<lparr>d_tokens = (d_tokens D)(s_token st \<mapsto> Image SHMC_VERSION (store (shared S'))),
              d_pids = d_pids D - set_option (s_pidfile st)\<rparr>
            else Serving (listen_address k (s_inter st) (s_port st)) S' 
              (?D\<lparr>d_tokens := (d_tokens ?D)(s_token st \<mapsto> Image SHMC_VERSION s)\<rparr>)))" for ts
    using netshell_runs [OF assms(1-3) s(1), of p ts] serve_and_stop_run [OF S(1)] D(2) by (simp cong: option.case_cong if_cong)
  then show ?thesis using s(2) S(2,3) by (intro exI [of _ S]) blast
qed

section \<open>Witnesses\<close>

definition good_kernel :: kernel where
  "good_kernel = \<lparr>k_sys = good_sys 4096, k_pidfile = True, k_socket = True, k_getfl = True, k_setfl = True,
     k_reuse = True, k_bind = True, k_listen = True, k_epoll = True, k_add = True, k_errno = 0, k_aton = (\<lambda>_. None),
     k_conn = 64, k_files = (\<lambda>_. None), k_net = demo_net [] [], k_now = (0, 0)\<rparr>"

abbreviation with_pidfile :: settings where
  "with_pidfile \<equiv> initial\<lparr>s_pidfile := Some ''/run/n''\<rparr>"

lemma pidfile_options: "set_options (getopt [] [''-P'', ''/run/n'']) initial = Some (Inr with_pidfile)"
  by (simp add: takes_arg_def apply_option_def)

lemma initial_attr: "attr_of with_pidfile = Some (dflt\<lparr>default_counter := False\<rparr>)"
  by (simp add: attr_of_def attr_setters initial_def SHMC_ATTR_INITIALIZER_def)

theorem old_map_never_used_witness:
  "\<exists>D'. netshell good_kernel 0 [] [''-P'', ''/run/n''] \<lparr>d_tokens = [''/dev/shm/netshell.mmap'' \<mapsto> Image SHMC_VERSION tiny_store], d_pids = {}\<rparr>
      = Some (Exited 1 D') \<and> d_pids D' = {''/run/n''}"
  using old_map_never_used [OF pidfile_options _ initial_attr,
      of "\<lparr>d_tokens = [''/dev/shm/netshell.mmap'' \<mapsto> Image SHMC_VERSION tiny_store], d_pids = {}\<rparr>" good_kernel 0 "[]"]
  by (auto simp: initial_def good_kernel_def)

lemma counted_sizes:
  defines "a \<equiv> dflt\<lparr>default_counter := False\<rparr>"
  shows "caller_ok a" "count_of_slabs (fix_attr a) = Some (length (pows 7 20))"
    "size_seq (item_size_factor (fix_attr a)) (length (pows 7 20)) (sizeof_item + item_size_min a) = Some (pows 7 20)"
    "pool_need (item_size_max a) (pows 7 20) < mem_limit a"
proof -
  have f: "item_size_max (fix_attr a) = 2 ^ 20" "item_size_factor (fix_attr a) = F32 2 0" "item_size_min (fix_attr a) = 64"
      "item_size_min a = 64" "item_size_max a = 2 ^ 20" "mem_limit a = 2 ^ 26"
    by (simp_all add: fix_attr_def a_def SHMC_ATTR_INITIALIZER_def at_most_1_5_def)
  have "count_slabs_loop (fix_attr a) (2 ^ 7) 0 = Some (0 + 13)"
    by (rule count_slabs_pow [OF f(1,2)]) simp_all
  then show "count_of_slabs (fix_attr a) = Some (length (pows 7 20))" by (simp add: count_of_slabs_def f(3))
  show "size_seq (item_size_factor (fix_attr a)) (length (pows 7 20)) (sizeof_item + item_size_min a) = Some (pows 7 20)"
  proof -
    have l: "length (pows 7 20) = 13" "sizeof_item + 64 = (2::nat) ^ 7" by simp_all
    show ?thesis unfolding f(2,4) l using size_seq_pow [of 7 13] by (simp del: power_Suc)
  qed
  show "caller_ok a"
    using f by (simp add: caller_ok_def a_def SHMC_ATTR_INITIALIZER_def)
  have "pool_need (item_size_max a) (pows 7 20) \<le> length (pows 7 20) * item_size_max a"
    by (rule pool_need_bound)
  also have "\<dots> < mem_limit a" by (simp add: f)
  finally show "pool_need (item_size_max a) (pows 7 20) < mem_limit a" .
qed

theorem netshell_life_witness:
  "\<exists>s. netshell good_kernel 0 [(Interrupted, [], (0, 0)), (Interrupted, [SIGTERM], (0, 0))] [''-P'', ''/run/n''] \<lparr>d_tokens = Map.empty, d_pids = {}\<rparr>
      = Some (Exited 0 \<lparr>d_tokens = [''/dev/shm/netshell.mmap'' \<mapsto> Image SHMC_VERSION s], d_pids = {}\<rparr>)
    \<and> implements s (a_fresh (2 ^ 20) (pows 7 20))"
proof -
  let ?D = "\<lparr>d_tokens = Map.empty, d_pids = {}\<rparr> :: disk" and ?ts = "[(Interrupted, [], (0, 0)), (Interrupted, [SIGTERM], (0, 0))] :: turn list"
  have works: "works (k_sys good_kernel) 4096" using good_sys_works by (simp add: good_kernel_def)
  have calls: "starts good_kernel" by (simp add: starts_def good_kernel_def)
  have tok: "s_pidfile with_pidfile \<noteq> Some (s_token with_pidfile)" "s_token with_pidfile = ''/dev/shm/netshell.mmap''"
    by (simp_all add: initial_def)
  obtain S D1 where S: "implements (store (shared S)) (a_fresh (item_size_max (dflt\<lparr>default_counter := False\<rparr>)) (pows 7 20))"
      "\<And>ts. netshell good_kernel 0 ts [''-P'', ''/run/n''] ?D = (case McShell_run 0 (map poll_of ts) (k_now good_kernel) S of
          None \<Rightarrow> None
        | Some (r, S') \<Rightarrow> Some (if \<exists>t \<in> set ts. stops t
            then Exited 0 \<lparr>d_tokens = (d_tokens ?D)(s_token with_pidfile \<mapsto> Image SHMC_VERSION (store (shared S'))),
              d_pids = d_pids ?D - set_option (s_pidfile with_pidfile)\<rparr>
            else Serving (listen_address good_kernel (s_inter with_pidfile) (s_port with_pidfile)) S' D1))"
    using netshell_life [OF pidfile_options initial_attr tok(1) _ counted_sizes(1) works calls counted_sizes(2-4), of ?D 0] by auto
  have run: "McShell_run 0 (map poll_of ?ts) now S = Some (Returned True, S\<lparr>stopped := True\<rparr>)" for now
    by (simp add: McShell_run_def ev_run_def poll_of_def ev_stop_def)
  have "item_size_max (dflt\<lparr>default_counter := False\<rparr>) = 2 ^ 20" by (simp add: SHMC_ATTR_INITIALIZER_def)
  then show ?thesis
    using S(1) unfolding S(2) run by (intro exI [of _ "store (shared S)"]) (simp add: stops_def tok(2))
qed

end
