(* ===== verification/Process_Lock.thy ===== *)
theory Process_Lock
  imports Prelude
begin

text \<open>
  \<open>tplock.cc\<close>: the program that tries out locks between processes. Parent and child count up one shared
  \<open>int\<close>, each increment under the lock; what it prints as expected is what it prints as actual.
\<close>

section \<open>The locks\<close>

datatype proc = Parent | Child

text \<open>The class \<open>ProcLock\<close>. \<open>None\<close>: the call blocks, or is undefined.\<close>

record 'l ProcLock =
  lock_op :: "'l \<Rightarrow> proc \<Rightarrow> 'l option"
  unlock_op :: "'l \<Rightarrow> proc \<Rightarrow> 'l option"

text \<open>
  \<open>lockf\<close> on the first byte of a file each process has opened itself: who has it locked. A process may
  lock again what it has locked, and unlock what it has not.
\<close>

definition ProcFileLock :: "proc option ProcLock" where
  "ProcFileLock =
     \<lparr>lock_op = (\<lambda>l p. if l = None \<or> l = Some p then Some (Some p) else None),
      unlock_op = (\<lambda>l p. Some (if l = Some p then None else l))\<rparr>"

text \<open>A process-shared mutex with its owner; the owner itself would wait for ever, and only it may unlock.\<close>

definition ProcMutexLock :: "proc option ProcLock" where
  "ProcMutexLock =
     \<lparr>lock_op = (\<lambda>l p. if l = None then Some (Some p) else None),
      unlock_op = (\<lambda>l p. if l = Some p then Some None else None)\<rparr>"

section \<open>The processes\<close>

definition LOOP :: nat where "LOOP = 500 * 10000"

text \<open>\<open>(*intval)++\<close> is a load and a store: \<open>Loaded v\<close> is between them.\<close>

datatype pc = Test | Inside | Loaded int | Stored | Returned

record worker =
  w_pc :: pc
  w_i :: nat

record 'l world =
  intval :: int
  lk :: 'l
  workers :: "proc \<Rightarrow> worker"

abbreviation goto :: "proc \<Rightarrow> pc \<Rightarrow> 'l world \<Rightarrow> 'l world" where
  "goto p q W \<equiv> W\<lparr>workers := (workers W)(p := (workers W p)\<lparr>w_pc := q\<rparr>)\<rparr>"

text \<open>One step of a process in \<open>worker\<close>; \<open>None\<close> when it blocks, has returned, or the \<open>int\<close> would overflow.\<close>

definition worker_step :: "'l ProcLock \<Rightarrow> nat \<Rightarrow> proc \<Rightarrow> 'l world \<Rightarrow> 'l world option" where
  "worker_step L n p W = (case w_pc (workers W p) of
     Test \<Rightarrow>
       if w_i (workers W p) < n then do { l \<leftarrow> lock_op L (lk W) p; Some (goto p Inside (W\<lparr>lk := l\<rparr>)) }
       else Some (goto p Returned W)
   | Inside \<Rightarrow> Some (goto p (Loaded (intval W)) W)
   | Loaded v \<Rightarrow> do { guard (v + 1 < 2 ^ 31); Some (goto p Stored (W\<lparr>intval := v + 1\<rparr>)) }
   | Stored \<Rightarrow> do {
       l \<leftarrow> unlock_op L (lk W) p;
       Some (W\<lparr>lk := l, workers := (workers W)(p := \<lparr>w_pc = Test, w_i = w_i (workers W p) + 1\<rparr>)\<rparr>)
     }
   | Returned \<Rightarrow> None)"

text \<open>\<open>main\<close>: the counter is zero and the child is forked; any order of the steps of the two.\<close>

definition forked :: "'l \<Rightarrow> 'l world" where
  "forked l = \<lparr>intval = 0, lk = l, workers = (\<lambda>_. \<lparr>w_pc = Test, w_i = 0\<rparr>)\<rparr>"

inductive runs :: "'l ProcLock \<Rightarrow> nat \<Rightarrow> 'l \<Rightarrow> nat \<Rightarrow> 'l world \<Rightarrow> bool" for L n l where
  forked: "runs L n l 0 (forked l)"
| step: "runs L n l k W \<Longrightarrow> worker_step L n p W = Some W' \<Longrightarrow> runs L n l (Suc k) W'"

inductive_cases runs_cases: "runs L n l k W"

text \<open>The parent prints after it has returned from \<open>worker\<close> and \<open>wait\<close> has seen the child end.\<close>

definition printed :: "nat \<Rightarrow> 'l world \<Rightarrow> (int \<times> int) option" where
  "printed n W =
     (if w_pc (workers W Parent) = Returned \<and> w_pc (workers W Child) = Returned then Some (2 * int n, intval W) else None)"

section \<open>What a lock promises\<close>

text \<open>Steps a process still has to do, and increments it has done.\<close>

definition todo :: "nat \<Rightarrow> worker \<Rightarrow> nat" where
  "todo n w = (case w_pc w of
     Test \<Rightarrow> 4 * (n - w_i w) + 1 | Inside \<Rightarrow> 4 * (n - w_i w) | Loaded v \<Rightarrow> 4 * (n - w_i w) - 1
   | Stored \<Rightarrow> 4 * (n - w_i w) - 2 | Returned \<Rightarrow> 0)"

definition counted :: "worker \<Rightarrow> nat" where
  "counted w = w_i w + (if w_pc w = Stored then 1 else 0)"

definition critical :: "worker \<Rightarrow> bool" where
  "critical w \<longleftrightarrow> w_pc w \<noteq> Test \<and> w_pc w \<noteq> Returned"

lemma proc_all: "(\<forall>p. P p) \<longleftrightarrow> P Parent \<and> P Child" and proc_ex: "(\<exists>p. P p) \<longleftrightarrow> P Parent \<or> P Child"
  by (metis proc.exhaust)+

lemmas worker_simps = worker_step_def critical_def counted_def todo_def guard_def

lemma step_other: "worker_step L n p W = Some W' \<Longrightarrow> q \<noteq> p \<Longrightarrow> workers W' q = workers W q"
  by (auto simp: worker_step_def split: pc.splits if_splits Option.bind_splits)

text \<open>A step is one step less to do, and what it adds to the counter is what it has counted.\<close>

lemma step_todo:
  "worker_step L n p W = Some W' \<Longrightarrow> critical (workers W p) \<longrightarrow> w_i (workers W p) < n \<Longrightarrow>
     todo n (workers W p) = Suc (todo n (workers W' p))"
  by (cases "w_pc (workers W p)") (auto simp: worker_simps split: if_splits Option.bind_splits)

lemma step_counted:
  "worker_step L n p W = Some W' \<Longrightarrow> \<forall>v. w_pc (workers W p) = Loaded v \<longrightarrow> v = intval W \<Longrightarrow>
     intval W' + int (counted (workers W p)) = intval W + int (counted (workers W' p))"
  by (cases "w_pc (workers W p)") (auto simp: worker_simps split: if_splits Option.bind_splits)

definition sane :: "nat \<Rightarrow> worker \<Rightarrow> bool" where
  "sane n w \<longleftrightarrow> w_i w \<le> n \<and> (critical w \<longrightarrow> w_i w < n) \<and> (w_pc w = Returned \<longrightarrow> w_i w = n)"

lemma step_sane: "worker_step L n p W = Some W' \<Longrightarrow> sane n (workers W p) \<Longrightarrow> sane n (workers W' p)"
  by (cases "w_pc (workers W p)") (auto simp: worker_simps sane_def split: if_splits Option.bind_splits)

lemma step_loaded:
  "worker_step L n p W = Some W' \<Longrightarrow> w_pc (workers W' p) = Loaded v \<Longrightarrow> v = intval W'"
  by (cases "w_pc (workers W p)") (auto simp: worker_simps split: if_splits Option.bind_splits)

lemma step_intval: "worker_step L n p W = Some W' \<Longrightarrow> \<not> critical (workers W p) \<Longrightarrow> intval W' = intval W"
  by (cases "w_pc (workers W p)") (auto simp: worker_simps split: if_splits Option.bind_splits)

text \<open>Only the first and the last step of an increment touch the lock.\<close>

lemma step_lock:
  assumes "worker_step L n p W = Some W'"
  shows "lk W' = lk W \<and> critical (workers W' p) = critical (workers W p)
    \<or> \<not> critical (workers W p) \<and> critical (workers W' p) \<and> lock_op L (lk W) p = Some (lk W')
    \<or> critical (workers W p) \<and> \<not> critical (workers W' p) \<and> unlock_op L (lk W) p = Some (lk W')"
  using assms by (cases "w_pc (workers W p)") (auto simp: worker_simps split: if_splits Option.bind_splits)

locale process_lock =
  fixes L :: "'l ProcLock" and holder :: "'l \<Rightarrow> proc option" and free :: 'l
  assumes free: "holder free = None"
    and lock_free: "holder l = None \<Longrightarrow> \<exists>l'. lock_op L l p = Some l' \<and> holder l' = Some p"
    and lock_held: "lock_op L l p = Some l' \<Longrightarrow> holder l = Some q \<Longrightarrow> q = p"
    and unlock_held: "holder l = Some p \<Longrightarrow> \<exists>l'. unlock_op L l p = Some l' \<and> holder l' = None"
begin

definition good :: "nat \<Rightarrow> nat \<Rightarrow> 'l world \<Rightarrow> bool" where
  "good n k W \<longleftrightarrow>
     (\<forall>p. critical (workers W p) \<longleftrightarrow> holder (lk W) = Some p)
     \<and> (\<forall>p v. w_pc (workers W p) = Loaded v \<longrightarrow> v = intval W)
     \<and> (\<forall>p. sane n (workers W p))
     \<and> intval W = int (counted (workers W Parent) + counted (workers W Child))
     \<and> k + todo n (workers W Parent) + todo n (workers W Child) = 8 * n + 2"

lemma good_forked: "good n 0 (forked free)"
  by (simp add: good_def forked_def free critical_def counted_def todo_def sane_def)

lemma good_holder:
  assumes g: "\<forall>q. critical (workers W q) \<longleftrightarrow> holder (lk W) = Some q" and s: "worker_step L n p W = Some W'"
  shows "\<forall>q. critical (workers W' q) \<longleftrightarrow> holder (lk W') = Some q"
proof
  fix q
  have o: "q \<noteq> p \<Longrightarrow> critical (workers W' q) \<longleftrightarrow> holder (lk W) = Some q" using g step_other [OF s] by simp
  consider "lk W' = lk W" "critical (workers W' p) = critical (workers W p)"
    | "\<not> critical (workers W p)" "critical (workers W' p)" "lock_op L (lk W) p = Some (lk W')"
    | "critical (workers W p)" "\<not> critical (workers W' p)" "unlock_op L (lk W) p = Some (lk W')"
    using step_lock [OF s] by blast
  then show "critical (workers W' q) \<longleftrightarrow> holder (lk W') = Some q"
  proof cases
    case 1
    then show ?thesis using g o by (cases "q = p") simp_all
  next
    case 2
    have none: "holder (lk W) = None" using lock_held [OF 2(3)] g 2(1) by (cases "holder (lk W)") auto
    have "holder (lk W') = Some p" using lock_free [OF none, of p] 2(3) by simp
    with none show ?thesis using 2(2) o by (cases "q = p") auto
  next
    case 3
    have held: "holder (lk W) = Some p" using g 3(1) by simp
    have "holder (lk W') = None" using unlock_held [OF held] 3(3) by simp
    with held show ?thesis using 3(2) o by (cases "q = p") auto
  qed
qed

lemma good_step:
  assumes "good n k W" and s: "worker_step L n p W = Some W'"
  shows "good n (Suc k) W'"
proof -
  have g: "\<forall>p. critical (workers W p) \<longleftrightarrow> holder (lk W) = Some p" "\<forall>p v. w_pc (workers W p) = Loaded v \<longrightarrow> v = intval W"
    "\<forall>p. sane n (workers W p)" "intval W = int (counted (workers W Parent) + counted (workers W Child))"
    "k + todo n (workers W Parent) + todo n (workers W Child) = 8 * n + 2"
    using assms(1) by (auto simp: good_def)
  have "v = intval W'" if l: "w_pc (workers W' q) = Loaded v" for q v
  proof (cases "q = p")
    case False
    then have "critical (workers W q)" "w_pc (workers W q) = Loaded v" using step_other [OF s False] l by (simp_all add: critical_def)
    moreover have "\<not> critical (workers W p)" using g(1) calculation(1) False by simp
    ultimately show ?thesis using step_intval [OF s] g(2) by simp
  qed (use step_loaded [OF s] l in simp)
  moreover have "sane n (workers W' q)" for q
    using step_sane [OF s] step_other [OF s] g(3) by (cases "q = p") simp_all
  moreover have "intval W' = int (counted (workers W' Parent) + counted (workers W' Child))"
    using step_counted [OF s] step_other [OF s] g(2,4) by (cases p) simp_all
  moreover have "Suc k + todo n (workers W' Parent) + todo n (workers W' Child) = 8 * n + 2"
  proof -
    have "todo n (workers W p) = Suc (todo n (workers W' p))" using step_todo [OF s] g(3) by (simp add: sane_def)
    then show ?thesis using step_other [OF s] g(5) by (cases p) simp_all
  qed
  ultimately show ?thesis using good_holder [OF g(1) s] by (simp add: good_def)
qed

lemma runs_good: "runs L n free k W \<Longrightarrow> good n k W"
  by (induction rule: runs.induct) (auto intro: good_forked good_step)

lemma good_progress:
  assumes "good n k W" and small: "2 * n < 2 ^ 31" and "printed n W = None"
  shows "\<exists>p W'. worker_step L n p W = Some W'"
proof -
  have g: "\<forall>p. critical (workers W p) \<longleftrightarrow> holder (lk W) = Some p" "\<forall>p v. w_pc (workers W p) = Loaded v \<longrightarrow> v = intval W"
    "\<forall>p. sane n (workers W p)" "intval W = int (counted (workers W Parent) + counted (workers W Child))"
    using assms(1) by (auto simp: good_def)
  show ?thesis
  proof (cases "holder (lk W)")
    case None
    have "w_pc (workers W p) = Test \<or> w_pc (workers W p) = Returned" for p
      using g(1) None by (simp add: critical_def)
    then obtain p where p: "w_pc (workers W p) = Test" using assms(3) unfolding printed_def by (metis option.distinct(1))
    obtain l where "lock_op L (lk W) p = Some l" using lock_free [OF None, of p] by blast
    then have "worker_step L n p W \<noteq> None" using p by (simp add: worker_step_def)
    then show ?thesis by blast
  next
    case (Some p)
    have c: "critical (workers W p)" using g(1) Some by simp
    have "counted (workers W q) \<le> n" for q using g(3) [rule_format, of q] by (auto simp: counted_def sane_def critical_def)
    moreover have "w_pc (workers W p) = Loaded v \<Longrightarrow> counted (workers W p) < n" for v
      using g(3) [rule_format, of p] c by (simp add: counted_def sane_def)
    ultimately have sum: "counted (workers W Parent) + counted (workers W Child) + 1 \<le> 2 * n"
      if "w_pc (workers W p) = Loaded v" for v
      using that by (cases p) (metis Suc_eq_plus1 add_Suc add_Suc_right add_mono less_eq_Suc_le mult_2)+
    have "intval W + 1 < 2 ^ 31" if "w_pc (workers W p) = Loaded v" for v
      using sum [OF that] small unfolding g(4) by simp
    then have "worker_step L n p W \<noteq> None"
      using c g(2) unlock_held [OF Some]
      by (cases "w_pc (workers W p)") (auto simp: worker_step_def critical_def guard_def)
    then show ?thesis by blast
  qed
qed

lemma runs_all:
  assumes "2 * n < 2 ^ 31" and "k \<le> 8 * n + 2"
  shows "\<exists>W. runs L n free k W"
  using assms(2)
proof (induction k)
  case (Suc k)
  then obtain W where W: "runs L n free k W" by auto
  note g = runs_good [OF W]
  have "printed n W = None"
  proof (rule ccontr)
    assume "printed n W \<noteq> None"
    then have "todo n (workers W p) = 0" for p by (cases p) (auto simp: printed_def todo_def split: if_splits)
    then show False using g Suc.prems by (simp add: good_def)
  qed
  from good_progress [OF g assms(1) this] W show ?case by (blast intro: runs.step)
qed (blast intro: runs.forked)

lemma good_printed:
  assumes "good n k W"
  shows "printed n W = (if k = 8 * n + 2 then Some (2 * int n, 2 * int n) else None)" "k \<le> 8 * n + 2"
proof -
  have g: "\<forall>p. sane n (workers W p)" "intval W = int (counted (workers W Parent) + counted (workers W Child))"
    "k + todo n (workers W Parent) + todo n (workers W Child) = 8 * n + 2"
    using assms by (auto simp: good_def)
  have z: "todo n (workers W p) = 0 \<longleftrightarrow> w_pc (workers W p) = Returned" for p
    using g(1) [rule_format, of p]
    by (cases "w_pc (workers W p)") (auto simp: todo_def sane_def critical_def)
  show "k \<le> 8 * n + 2" using g(3) by simp
  have "k = 8 * n + 2 \<longleftrightarrow> (\<forall>p. w_pc (workers W p) = Returned)"
  proof -
    have "k = 8 * n + 2 \<longleftrightarrow> todo n (workers W Parent) = 0 \<and> todo n (workers W Child) = 0" using g(3) by linarith
    then show ?thesis unfolding z proc_all .
  qed
  moreover have "counted (workers W p) = n" if "w_pc (workers W p) = Returned" for p
    using g(1) [rule_format, of p] that by (simp add: counted_def sane_def)
  ultimately show "printed n W = (if k = 8 * n + 2 then Some (2 * int n, 2 * int n) else None)"
    using g(2) by (auto simp: printed_def proc_all)
qed

end

interpretation fl: process_lock ProcFileLock "\<lambda>l. l" None
  by unfold_locales (auto simp: ProcFileLock_def split: if_splits)

interpretation ml: process_lock ProcMutexLock "\<lambda>l. l" None
  by unfold_locales (auto simp: ProcMutexLock_def split: if_splits)

text \<open>
  C32: no increment is lost, and the program ends. However the steps of the two processes interleave, with
  the file lock as with the mutex, after 8 * LOOP + 2 steps, and not earlier, both have returned and
  the actual count is the expected one; until then one of them can always take a step.
\<close>

theorem no_increment_lost:
  assumes "runs L LOOP None k W" and "L = ProcFileLock \<or> L = ProcMutexLock"
  shows "k \<le> 8 * LOOP + 2 \<and> printed LOOP W = (if k = 8 * LOOP + 2 then Some (2 * int LOOP, 2 * int LOOP) else None)
    \<and> (k < 8 * LOOP + 2 \<longrightarrow> (\<exists>p W'. worker_step L LOOP p W = Some W'))"
proof -
  have small: "2 * LOOP < 2 ^ 31" by (simp add: LOOP_def)
  from assms(2) show ?thesis
  proof
    assume L: "L = ProcFileLock"
    show ?thesis
      using fl.good_printed [OF fl.runs_good] fl.good_progress [OF fl.runs_good small] assms(1) unfolding L by auto
  next
    assume L: "L = ProcMutexLock"
    show ?thesis
      using ml.good_printed [OF ml.runs_good] ml.good_progress [OF ml.runs_good small] assms(1) unfolding L by auto
  qed
qed

theorem no_increment_lost_witness:
  "\<exists>W. runs ProcFileLock LOOP None (8 * LOOP + 2) W \<and> printed LOOP W = Some (10000000, 10000000)"
proof -
  obtain W where W: "runs ProcFileLock LOOP None (8 * LOOP + 2) W"
    using fl.runs_all [of LOOP "8 * LOOP + 2"] by (auto simp: LOOP_def)
  then show ?thesis using no_increment_lost [OF W] by (auto simp: LOOP_def)
qed

end
