(* ===== verification/Connection_Counting.thy ===== *)
theory Connection_Counting
  imports Connection_Properties
begin

text \<open>
  The commands \<open>incr\<close>, \<open>decr\<close> and \<open>delete\<close> of a connection: one line, one word as response.
\<close>

section \<open>The contract\<close>

datatype short_cmd = Incr_by "byte list" | Decr_by "byte list" | Delete

fun short_words :: "short_cmd \<Rightarrow> byte list \<Rightarrow> byte list list" where
  "short_words (Incr_by d) k = [text_of ''incr'', k, d]"
| "short_words (Decr_by d) k = [text_of ''decr'', k, d]"
| "short_words Delete k = [text_of ''delete'', k]"

fun short_arg :: "short_cmd \<Rightarrow> byte list" where
  "short_arg (Incr_by d) = d"
| "short_arg (Decr_by d) = d"
| "short_arg Delete = text_of ''-''"

text \<open>The new number, or the error.\<close>

fun counter_reply :: "shmc_rc \<Rightarrow> (u64 \<times> u32 option) option \<Rightarrow> byte list" where
  "counter_reply rc (Some (n, f)) = dec (unat n) @ crlf"
| "counter_reply rc None = reply rc"

definition deleted_reply :: "shmc_rc \<Rightarrow> byte list" where
  "deleted_reply rc = (if rc = SHMC_OK then text_of ''DELETED'' @ crlf else reply rc)"

text \<open>Response and store, from the operation on the abstract store.\<close>

fun a_short :: "short_cmd \<Rightarrow> conf \<Rightarrow> astore \<Rightarrow> byte list \<Rightarrow> (byte list \<times> astore) option" where
  "a_short (Incr_by d) cf A k = map_option (\<lambda>(rc, out, A'). (counter_reply rc out, A')) (a_arith cf A k (strtoull10 d) True None)"
| "a_short (Decr_by d) cf A k = map_option (\<lambda>(rc, out, A'). (counter_reply rc out, A')) (a_arith cf A k (strtoull10 d) False None)"
| "a_short Delete cf A k = (case a_del cf A k of (rc, A') \<Rightarrow> Some (deleted_reply rc, A'))"

lemma a_arith_rc:
  "a_arith cf A k val incr flags = Some (rc, out, A') \<Longrightarrow> out = None \<longrightarrow> rc \<in> {SHMC_NOTFOUND, SHMC_NOMEMORY}"
  by (auto simp: a_arith_def Let_def split: if_splits option.splits Option.bind_splits prod.splits)

lemma dec_u64_length: "length (dec (unat (n :: u64))) \<le> 20"
  using dec_length [of "unat n" 19] unsigned_less [where 'a = nat, of n] by simp

lemma reply_short: "length (reply rc) < RES_HEADER_SIZE" "reply rc \<noteq> []"
  by (cases rc; simp add: RES_HEADER_SIZE_def)+

lemma short_reply:
  assumes "a_short cmd cf A k = Some (t, A')"
  shows "length t < RES_HEADER_SIZE" "t \<noteq> []"
proof -
  have "length (counter_reply rc out) < RES_HEADER_SIZE \<and> counter_reply rc out \<noteq> []" for rc out
    using reply_short dec_u64_length [of "fst (the out)"] by (cases "(rc, out)" rule: counter_reply.cases) (auto simp: RES_HEADER_SIZE_def)
  moreover have "length (deleted_reply rc) < RES_HEADER_SIZE \<and> deleted_reply rc \<noteq> []" for rc
    using reply_short by (simp add: deleted_reply_def RES_HEADER_SIZE_def)
  ultimately show "length t < RES_HEADER_SIZE" "t \<noteq> []" using assms by (cases cmd; auto split: prod.splits)+
qed

section \<open>The commands\<close>

fun short_run :: "short_cmd \<Rightarrow> server \<Rightarrow> server option" where
  "short_run (Incr_by d) = doIncr"
| "short_run (Decr_by d) = doDecr"
| "short_run Delete = doDelete"

lemma err_reply: "rc = SHMC_NOMEMORY \<Longrightarrow> serverError rc s1 = outString (reply rc) (count err_cnts_update s1)"
  by (simp add: serverError_def)

lemma short_cmd_run:
  assumes A: "implements (store s) A"
    and key: "key_arg (conn s) = Some (key, length k)" "length k \<le> length (buf_bytes key)" "buf_key key (length k) = k"
    and arg: "cmd \<noteq> Delete \<Longrightarrow> str_arg (conn s) 2 = Some (short_arg cmd)"
    and sz: "sizeof_item + length k + UINT64_SIZE < 2 ^ 64"
    and r: "a_short cmd (conf_of (store s)) A k = Some (t, A')"
  shows "\<exists>s0. short_run cmd s = Some (outString t s0) \<and> implements (store s0) A'
    \<and> conf_of (store s0) = conf_of (store s) \<and> conn s0 = conn s \<and> net s0 = net s"
proof (cases cmd)
  case (Incr_by d)
  obtain rc out where a: "a_arith (conf_of (store s)) A k (strtoull10 d) True None = Some (rc, out, A')" "t = counter_reply rc out"
    using r Incr_by by auto
  obtain st where "shmc_incr_nolock (store s) key (length k) (strtoull10 d) None = Some (rc, out, st)"
      "implements st A'" "conf_of st = conf_of (store s)"
    using arith_refines [OF A key(2) sz, of "strtoull10 d" True None] a(1) key(3) by (auto simp: shmc_incr_nolock_def)
  then show ?thesis using Incr_by a_arith_rc [OF a(1)] key(1) arg a(2) err_reply
    by (cases out) (auto simp: doIncr_eq Let_def)
next
  case (Decr_by d)
  obtain rc out where a: "a_arith (conf_of (store s)) A k (strtoull10 d) False None = Some (rc, out, A')" "t = counter_reply rc out"
    using r Decr_by by auto
  obtain st where "shmc_decr_nolock (store s) key (length k) (strtoull10 d) None = Some (rc, out, st)"
      "implements st A'" "conf_of st = conf_of (store s)"
    using arith_refines [OF A key(2) sz, of "strtoull10 d" False None] a(1) key(3) by (auto simp: shmc_decr_nolock_def)
  then show ?thesis using Decr_by a_arith_rc [OF a(1)] key(1) arg a(2) err_reply
    by (cases out) (auto simp: doDecr_eq Let_def)
next
  case Delete
  obtain rc where a: "a_del (conf_of (store s)) A k = (rc, A')" "t = deleted_reply rc" "rc = SHMC_OK \<or> rc = SHMC_NOTFOUND"
    using r Delete by (auto simp: a_del_def split: option.splits prod.splits)
  obtain st where "shmc_del_nolock (store s) key (length k) = Some (rc, st)" "implements st A'" "conf_of st = conf_of (store s)"
    using del_refines [OF A key(2)] a(1) key(3) by auto
  then show ?thesis using Delete a(2,3) key(1) by (auto simp: doDelete_eq Let_def deleted_reply_def)
qed

lemma short_served:
  assumes A: "implements (store s) A" and w: "waiting s" and quiet: "quiet s" and wv: "n_writev (net s) = []"
    and k: "plain k" "plain (short_arg cmd)" "length k + length (short_arg cmd) \<le> 280"
    and ch: "chunked (n_recv (net s)) (join_words (short_words cmd k) @ crlf)"
    and r: "a_short cmd (conf_of (store s)) A k = Some (t, A')"
  shows "\<exists>s'. driverMachine p s = Some s' \<and> waiting s' \<and> quiet s' \<and> n_recv (net s') = []
    \<and> n_sent (net s') = n_sent (net s) @ t \<and> implements (store s') A' \<and> conf_of (store s') = conf_of (store s)"
proof -
  have ws: "\<And>w. w \<in> set (short_words cmd k) \<Longrightarrow> plain w" "short_words cmd k \<noteq> []" "length (short_words cmd k) \<le> 6"
      "length (join_words (short_words cmd k)) + 2 \<le> REQ_HEADER_SIZE" "short_words cmd k ! 1 = k"
    using k by (cases cmd; auto simp: plain_def text_of_def REQ_HEADER_SIZE_def)+
  have sz: "sizeof_item + length k + UINT64_SIZE < 2 ^ 64" using k(3) by (simp add: UINT64_SIZE_def)
  define P where "P = (\<lambda>s1. ready s1 t [] \<and> implements (store s1) A' \<and> conf_of (store s1) = conf_of (store s))"
  have "\<exists>s1. driverMachine p s = driverMachine p (await Write (upd_conn (reqHeaderBytes_update (\<lambda>_. 0)) s1))
    \<and> P s1 \<and> quiet s1 \<and> n_recv (net s1) = [] \<and> n_sent (net s1) = n_sent (net s) \<and> n_writev (net s1) = n_writev (net s)"
  proof (rule immediate_run [OF w quiet ch ws(1-4)])
    fix s' :: server and toks fin
    assume t: "tokens (conn s') = toks @ [fin]" "list_all2 (token_of (reqHeader (conn s'))) toks (short_words cmd k)"
      and same: "store s' = store s" and ok: "conn_ok ((conn s')\<lparr>reqHeaderBytes := 0\<rparr>)" "resBodySize (conn s') = 0"
    have l: "1 < length (short_words cmd k)" by (cases cmd) simp_all
    obtain key where key: "key_arg (conn s') = Some (key, length k)" "length k \<le> length (buf_bytes key)" "buf_key key (length k) = k"
      using key_arg_token [OF t l] ws(5) by auto
    have arg: "cmd \<noteq> Delete \<Longrightarrow> str_arg (conn s') 2 = Some (short_arg cmd)"
      using str_arg_token [OF t, of 2] by (cases cmd) simp_all
    have d: "dispatch p (conn s') = Some (Immediate (short_run cmd))"
      using is_cmd_token [OF t ws(2)] by (cases cmd) (simp_all add: dispatch_def)
    obtain s0 where s0: "short_run cmd s' = Some (outString t s0)" "implements (store s0) A'"
        "conf_of (store s0) = conf_of (store s')" "conn s0 = conn s'" "net s0 = net s'"
      using short_cmd_run [OF _ key arg sz, of A t A'] A r same by auto
    have "ready (outString t s0) t []"
      by (rule ready_outString(1)) (use ok s0(4) short_reply [OF r] in simp_all)
    then show "\<exists>f s1. dispatch p (conn s') = Some (Immediate f) \<and> f s' = Some s1 \<and> net s1 = net s' \<and> P s1"
      using d s0 same by (auto simp: P_def)
  qed (simp_all)
  then obtain s1 where s1: "driverMachine p s = driverMachine p (await Write (upd_conn (reqHeaderBytes_update (\<lambda>_. 0)) s1))"
      "ready s1 t []" "implements (store s1) A'" "conf_of (store s1) = conf_of (store s)" "quiet s1" "n_recv (net s1) = []"
      "n_sent (net s1) = n_sent (net s)" "n_writev (net s1) = []"
    using wv by (auto simp: P_def)
  then show ?thesis using send_ready [OF s1(2,5,8), of p] by (auto simp: response_def)
qed

text \<open>
  C28: an \<open>incr\<close>, \<open>decr\<close> or \<open>delete\<close> request that arrives in any pieces runs the operation of the abstract
  store, with its argument read as \<open>strtoull\<close> reads it, and is answered by the new number, by \<open>DELETED\<close>,
  or by its error; the connection then waits for the next request.
\<close>

theorem counting_response:
  assumes "implements (store s) A" and "waiting s" and "quiet s" and "n_writev (net s) = []"
    and "plain k" and "plain (short_arg cmd)" and "length k + length (short_arg cmd) \<le> 280"
    and "chunked (n_recv (net s)) (join_words (short_words cmd k) @ crlf)"
    and "a_short cmd (conf_of (store s)) A k = Some (t, A')"
  shows "\<exists>s'. driverMachine p s = Some s' \<and> waiting s' \<and> quiet s' \<and> n_recv (net s') = []
    \<and> n_sent (net s') = n_sent (net s) @ t \<and> implements (store s') A' \<and> conf_of (store s') = conf_of (store s)"
  by (rule short_served [OF assms])

text \<open>The counter 41 is incremented by a request that arrives in two pieces.\<close>

theorem counting_response_witness:
  "\<exists>s'. driverMachine 0 (demo (tiny_with [52, 49]) [Bytes (text_of ''in''), Bytes (text_of ''cr '' @ [1, 2, 32, 49] @ crlf)] []) = Some s'
    \<and> n_sent (net s') = text_of ''42'' @ crlf"
proof -
  let ?s = "demo (tiny_with [52, 49]) [Bytes (text_of ''in''), Bytes (text_of ''cr '' @ [1, 2, 32, 49] @ crlf)] []"
  have n: "counter_val [52, 49] = 41" by (simp add: counter_val_loop UINT64_SIZE_def)
  have d: "strtoull10 [49] = 1" by (simp add: strtoull10_def is_space_def)
  obtain B where "a_arith tiny_conf (tst [tiny_entry [52, 49] 5] [] [0] [0]) [1, 2] 1 True None = Some (SHMC_OK, Some (42, None), B)"
    by (simp add: a_arith_def tiny_eval UINT64_SIZE_def n counter_op_def)
  then have a: "a_short (Incr_by [49]) (conf_of (store ?s)) (tst [tiny_entry [52, 49] 5] [] [0] [0]) [1, 2] = Some (dec 42 @ crlf, B)"
    by (simp add: d tiny_with_ok(2))
  have t: "dec 42 = text_of ''42''" by (simp add: text_of_def dec.simps)
  have ch: "chunked (n_recv (net ?s)) (join_words (short_words (Incr_by [49]) [1, 2]) @ crlf)"
    using chunked_Bytes [OF _ chunked_one, of "text_of ''in''" "text_of ''cr '' @ [1, 2, 32, 49] @ crlf"]
    by (simp add: text_of_def)
  have "plain [1, 2]" "plain (short_arg (Incr_by [49]))" by (simp_all add: plain_def)
  from counting_response [of ?s, OF _ _ _ _ this _ ch a, of 0] show ?thesis
    using tiny_with_ok(1) [of "[52, 49]"] by (auto simp: t)
qed

end
