(* ===== verification/Store_Safety.thy ===== *)
theory Store_Safety
  imports Dump_Properties Reachable
begin

text \<open>
  Whatever the arguments, an operation that has a defined result leaves an intact store: also when the
  buffers are shorter than announced, sizes wrap around, or no class fits, and also after loading any
  file. The refinement lemmas cover the sensible arguments; for the others the code either reads
  outside of a buffer, which is undefined, or gives up before it touches the store.
\<close>

definition intact :: "conf \<Rightarrow> shmc \<Rightarrow> bool" where
  "intact cf s \<longleftrightarrow> (\<exists>A. implements s A) \<and> conf_of s = cf"

lemma intactI: "implements s A \<Longrightarrow> conf_of s = cf \<Longrightarrow> intact cf s"
  by (auto simp: intact_def)

lemma refines_intact: "refines r cf ar \<Longrightarrow> r = Some (rc, s') \<Longrightarrow> intact cf s'"
  by (auto simp: refines_def intact_def split: option.splits)

lemma refines3_intact: "refines3 r cf ar \<Longrightarrow> r = Some (rc, out, s') \<Longrightarrow> intact cf s'"
  by (auto simp: refines3_def intact_def split: option.splits)

section \<open>Lookups, deletion, counters\<close>

lemma find_read: "assoc_find s key nkey = Some r \<Longrightarrow> nkey \<le> length (buf_bytes key)"
  by (auto simp: assoc_find_def key_slot_def key_hash_def guard_def split: Option.bind_splits if_splits)

lemma find_intact:
  assumes "intact cf s" and f: "assoc_find s key nkey = Some (a, s')"
  shows "intact cf s'"
proof -
  obtain A where A: "implements s A" "conf_of s = cf" using assms(1) by (auto simp: intact_def)
  obtain g where g: "inv_held s g {}" "A = absg s g" using implementsE [OF A(1)] .
  from g(1) find_read [OF f] refl show ?thesis
  proof (cases rule: find_cases)
    case (absent s1)
    then show ?thesis using f A(2) implementsI [OF absent(2,3)] by (auto simp: intact_def)
  next
    case (present s1 b c)
    then show ?thesis using f A(2) implementsI [OF present(3,4)] by (auto simp: intact_def)
  qed
qed

lemma get_intact:
  assumes "intact cf s" and "shmc_get_nolock s key nkey ok = Some (rc, out, s')"
  shows "intact cf s'"
proof -
  obtain A where A: "implements s A" "conf_of s = cf" using assms(1) by (auto simp: intact_def)
  have n: "nkey \<le> length (buf_bytes key)"
    using assms(2) find_read [of s key nkey] by (auto simp: shmc_get_nolock_def split: Option.bind_splits)
  show ?thesis using get_refines [OF A(1) n, of ok] assms(2) A(2)
    by (cases "a_get (conf_of s) A (buf_key key nkey) ok") (auto simp: intact_def)
qed

lemma del_intact:
  assumes "intact cf s" and "shmc_del_nolock s key nkey = Some (rc, s')"
  shows "intact cf s'"
proof -
  obtain A where A: "implements s A" "conf_of s = cf" using assms(1) by (auto simp: intact_def)
  have n: "nkey \<le> length (buf_bytes key)"
    using assms(2) find_read [of s key nkey] by (auto simp: shmc_del_nolock_def split: Option.bind_splits)
  show ?thesis using refines_intact [OF del_refines [OF A(1) n] assms(2)] A(2) by simp
qed

lemma arith_intact:
  assumes "intact cf s" and "shmc_arithmetic s key nkey val incr flags = Some (rc, out, s')"
    and "length (buf_bytes key) < 2 ^ 62"
  shows "intact cf s'"
proof -
  obtain A where A: "implements s A" "conf_of s = cf" using assms(1) by (auto simp: intact_def)
  have n: "nkey \<le> length (buf_bytes key)"
    using assms(2) find_read [of s key nkey] by (auto simp: shmc_arithmetic_def split: Option.bind_splits)
  then have "sizeof_item + nkey + UINT64_SIZE < 2 ^ 64" using assms(3) by (simp add: UINT64_SIZE_def)
  from refines3_intact [OF arith_refines [OF A(1) n this] assms(2)] show ?thesis using A(2) by simp
qed

section \<open>Storing\<close>

text \<open>An allocation that finds no chunk leaves the store as it was, whatever size was asked for.\<close>

lemma clsid_loop_bound: "clsid_loop sls sz i = Some c \<Longrightarrow> c < length sls"
  by (induction sls sz i rule: clsid_loop.induct) (subst (asm) (2) clsid_loop.simps, auto split: if_splits)

lemma alloc_none_intact:
  assumes "intact cf s" and r: "item_alloc s nkey nval = Some (0, s')"
  shows "intact cf s'"
proof -
  obtain A where A: "implements s A" "conf_of s = cf" using assms(1) by (auto simp: intact_def)
  obtain g where g: "inv_held s g {}" "A = absg s g" using implementsE [OF A(1)] .
  note I = inv_heldD [OF g(1)]
  obtain c where c: "item_clsid s nkey nval = Some c" using r by (auto simp: item_alloc_def split: Option.bind_splits)
  then have cb: "c < length (slabs s)" using clsid_loop_bound by (auto simp: item_clsid_def)
  show ?thesis
  proof (cases "g_free g c")
    case (Cons a fs)
    obtain s1 where "pop_free s c = Some (a, s1)" "taken s g c a s1 (free_upd g c fs)" using take_free [OF g(1) cb Cons] by blast
    then show ?thesis using r c by (auto simp: item_alloc_def taken_def split: Option.bind_splits)
  next
    case Nil
    obtain s1 where s1: "refill s c = Some s1" and alt:
      "case a_take (conf_of s) c (absg s g) of
         None \<Rightarrow> pop_free s1 c = Some (0, s1) \<and> inv_held s1 g {} \<and> conf_of s1 = conf_of s
           \<and> absg s1 g = absg s g \<and> (\<forall>b \<in> in_lru g. dat s1 b = dat s b)
       | Some (fl, A) \<Rightarrow> \<exists>a s' g'. pop_free s1 c = Some (a, s') \<and> taken s g c a s' g'
           \<and> fl = flags_at s' a \<and> A = absg s' g'"
      using take_cut [OF g(1) cb Nil] take_evict [OF g(1) cb Nil] by blast
    have p0: "pop_free s c = Some (0, s)" using pop_step [OF I(1) cb] Nil by simp
    show ?thesis
    proof (cases "a_take (conf_of s) c (absg s g)")
      case None
      then have "s' = s1" "inv_held s1 g {}" "conf_of s1 = conf_of s"
        using alt r c p0 s1 by (auto simp: item_alloc_def guard_def split: Option.bind_splits if_splits)
      then show ?thesis using A(2) implementsI by (auto simp: intact_def)
    next
      case (Some q)
      then obtain a s2 g2 where "pop_free s1 c = Some (a, s2)" "taken s g c a s2 g2"
        using alt by (cases q) auto
      then show ?thesis using r c p0 s1 by (auto simp: item_alloc_def taken_def split: Option.bind_splits)
    qed
  qed
qed

lemma copy_val_short: "length src < n \<Longrightarrow> copy_val s a off src n = None"
  by (auto simp: copy_val_def memcpy_def split: Option.bind_splits)

lemma set_intact:
  assumes i: "intact cf s" and r: "shmc_set_nolock s key nkey val nval flags = Some (rc, s')"
    and small: "length (buf_bytes key) < 2 ^ 62" "length val < 2 ^ 63"
  shows "intact cf s'"
proof (cases "nval \<le> length val \<and> item_size_ok s nkey nval")
  case True
  obtain A where A: "implements s A" "conf_of s = cf" using i by (auto simp: intact_def)
  have n: "nkey \<le> length (buf_bytes key)"
    using True r find_read [of s key nkey]
    by (auto simp: shmc_set_nolock_def shmc_del_nolock_def split: Option.bind_splits if_splits)
  then have "sizeof_item + nkey + nval < 2 ^ 64" using small True by simp
  from refines_intact [OF set_refines [OF A(1) n _ this] r] show ?thesis using True A(2) by simp
next
  case False
  show ?thesis
  proof (cases "item_size_ok s nkey nval")
    case ok: True
    then have short: "length val < nval" using False by simp
    obtain rc1 s1 a s2 where s1: "shmc_del_nolock s key nkey = Some (rc1, s1)" "item_alloc s1 nkey nval = Some (a, s2)"
      using r ok by (auto simp: shmc_set_nolock_def split: Option.bind_splits)
    have "a = 0"
      using r ok s1 by (rule_tac ccontr) (auto simp: shmc_set_nolock_def copy_val_short [OF short] split: Option.bind_splits)
    then have "s' = s2" using r ok s1 by (simp add: shmc_set_nolock_def)
    then show ?thesis using alloc_none_intact [OF del_intact [OF i s1(1)]] s1(2) \<open>a = 0\<close> by simp
  qed (use i r in \<open>simp add: shmc_set_nolock_def\<close>)
qed

lemma add_intact:
  assumes i: "intact cf s" and r: "shmc_add_nolock s key nkey val nval flags = Some (rc, s')"
    and small: "length (buf_bytes key) < 2 ^ 62" "length val < 2 ^ 63"
  shows "intact cf s'"
proof -
  obtain a s1 where f: "assoc_find s key nkey = Some (a, s1)"
    using r by (auto simp: shmc_add_nolock_def split: Option.bind_splits)
  show ?thesis
    using r f find_intact [OF i f] set_intact [OF find_intact [OF i f] _ small]
    by (auto simp: shmc_add_nolock_def split: if_splits)
qed

lemma replace_intact:
  assumes i: "intact cf s" and r: "shmc_replace_nolock s key nkey val nval flags = Some (rc, s')"
    and small: "length (buf_bytes key) < 2 ^ 62" "length val < 2 ^ 63"
  shows "intact cf s'"
proof (cases "nval \<le> length val")
  case True
  obtain A where A: "implements s A" "conf_of s = cf" using i by (auto simp: intact_def)
  have n: "nkey \<le> length (buf_bytes key)"
    using r find_read [of s key nkey] by (auto simp: shmc_replace_nolock_def split: Option.bind_splits)
  then have "sizeof_item + nkey + nval < 2 ^ 64" using small True by simp
  from refines_intact [OF replace_refines [OF A(1) n True this] r] show ?thesis using A(2) by simp
next
  case False
  then have short: "length val < nval" by simp
  obtain a s1 where f: "assoc_find s key nkey = Some (a, s1)"
    using r by (auto simp: shmc_replace_nolock_def split: Option.bind_splits)
  show ?thesis
  proof (cases "a = 0")
    case True
    then show ?thesis using r f find_intact [OF i f] by (simp add: shmc_replace_nolock_def)
  next
    case found: False
    then obtain s2 where s2: "shmc_del_nolock s key nkey = Some (SHMC_OK, s2)"
        "shmc_set_nolock s2 key nkey val nval flags = Some (rc, s')"
      using r f
      by (auto simp: shmc_replace_nolock_def shmc_del_nolock_def copy_val_short [OF short] split: Option.bind_splits if_splits)
    show ?thesis by (rule set_intact [OF del_intact [OF i s2(1)] s2(2) small])
  qed
qed

section \<open>Extending\<close>

definition small_classes :: "conf \<Rightarrow> bool" where
  "small_classes cf \<longleftrightarrow> (\<forall>z \<in> set (cf_sizes cf). z < 2 ^ 61)"

lemma entry_small:
  assumes "implements s A" and "small_classes (conf_of s)" and "a_find (conf_of s) A k = Some (c, e)"
  shows "length (e_val e) < 2 ^ 61"
proof -
  have e: "e \<in> set (a_lru A c)"
    using assms(3) by (auto simp: a_find_def find_Some_iff in_set_conv_nth dest!: nth_mem)
  have "class_for (conf_of s) (size_for (length (e_key e)) (length (e_val e))) = Some c"
    using implements_wf [OF assms(1)] e by (simp add: a_wf_def)
  then have c: "c < length (cf_sizes (conf_of s))" "size_for (length (e_key e)) (length (e_val e)) \<le> cf_sizes (conf_of s) ! c"
    using nth_length_takeWhile [of "\<lambda>z. z < size_for (length (e_key e)) (length (e_val e))" "cf_sizes (conf_of s)"]
    by (auto simp: class_for_def Let_def not_less simp del: conf_fields split: if_splits)
  have "cf_sizes (conf_of s) ! c < 2 ^ 61" using assms(2) nth_mem [OF c(1)] by (simp only: small_classes_def)
  with c(2) show ?thesis by (simp add: size_for_def)
qed

lemma grow_wild:
  assumes i: "intact cf s" and r: "grow_with place move s key nkey val nval flags = Some (rc, s')"
    and none: "\<And>s a n. place val nval s a n = None" "\<And>s n a m. move val nval s n a m = None"
  shows "intact cf s'"
proof -
  obtain a s1 where f: "assoc_find s key nkey = Some (a, s1)"
    using r by (auto simp: grow_with_def split: Option.bind_splits)
  note i1 = find_intact [OF i f]
  show ?thesis
  proof (cases "a = 0")
    case True
    then show ?thesis using r f i1 by (simp add: grow_with_def)
  next
    case False
    obtain it cid where it: "get_item s1 a = Some it" "item_clsid s1 nkey (size_add nval (it_nval it)) = Some cid"
      using r f False by (auto simp: grow_with_def split: Option.bind_splits)
    have "it_clsid it \<noteq> cid" using r f False it by (auto simp: grow_with_def none split: Option.bind_splits)
    then have run: "(if \<not> item_size_ok s1 nkey (size_add nval (it_nval it)) then s' = s1
        else item_alloc s1 nkey (size_add nval (it_nval it)) = Some (0, s'))"
      using r f False it by (auto simp: grow_with_def none split: Option.bind_splits if_splits)
    then show ?thesis using i1 alloc_none_intact [OF i1] by (auto split: if_splits)
  qed
qed

lemma append_intact:
  assumes i: "intact cf s" and r: "shmc_append_nolock s key nkey val nval flags = Some (rc, s')
      \<or> shmc_prepend_nolock s key nkey val nval flags = Some (rc, s')"
    and small: "length (buf_bytes key) < 2 ^ 62" "length val < 2 ^ 63" "small_classes cf"
  shows "intact cf s'"
proof (cases "nval \<le> length val")
  case True
  obtain A where A: "implements s A" "conf_of s = cf" using i by (auto simp: intact_def)
  have n: "nkey \<le> length (buf_bytes key)"
    using r find_read [of s key nkey]
    by (auto simp: shmc_append_nolock_def shmc_prepend_nolock_def split: Option.bind_splits)
  have "joins (conf_of s) A (buf_key key nkey) nval"
  proof (cases "a_find (conf_of s) A (buf_key key nkey)")
    case (Some ce)
    then obtain c e where ce: "a_find (conf_of s) A (buf_key key nkey) = Some (c, e)" by (cases ce) auto
    have "length (e_val e) < 2 ^ 61" using entry_small [OF A(1) _ ce] small(3) A(2) by simp
    then show ?thesis using ce small(1,2) True n buf_key_take [OF n] by (simp add: joins_def)
  qed (simp add: joins_def)
  then show ?thesis
    using r append_refines [OF A(1) n True, of flags] prepend_refines [OF A(1) n True, of flags] A(2) refines_intact by blast
next
  case False
  then have short: "length val < nval" by simp
  from r show ?thesis
  proof
    assume r: "shmc_append_nolock s key nkey val nval flags = Some (rc, s')"
    show ?thesis
      by (rule grow_wild [OF i r [unfolded append_grow_with]])
         (auto simp: place_append_def move_append_def copy_val_short [OF short] split: Option.bind_splits)
  next
    assume r: "shmc_prepend_nolock s key nkey val nval flags = Some (rc, s')"
    show ?thesis
      by (rule grow_wild [OF i r [unfolded prepend_grow_with]])
         (auto simp: place_prepend_def move_prepend_def copy_val_short [OF short] split: Option.bind_splits)
  qed
qed

section \<open>Loading\<close>

lemma next_record_bounds:
  assumes "next_record buf offset = Some (Some (key, nkey, val, nval))"
  shows "nkey \<le> length (drop key buf)" "nval \<le> length (drop val buf)"
  using assms by (auto simp: next_record_def Let_def split: option.splits if_splits Option.bind_splits)

lemma load_records_intact:
  assumes "load_records p buf offset s = Some (rc, off, s')" and "intact cf s" and "length buf < 2 ^ 62"
  shows "intact cf s'"
proof -
  have "intact cf s \<and> length buf < 2 ^ 62 \<longrightarrow> (case (rc, off, s') of (rc, off, s') \<Rightarrow> intact cf s')"
  proof (rule load_records.raw_induct [where P = "\<lambda>p buf offset s r.
      intact cf s \<and> length buf < 2 ^ 62 \<longrightarrow> (case r of (rc, off, s') \<Rightarrow> intact cf s')", OF _ assms(1)], goal_cases)
    case (1 f p buf offset s r)
    show ?case
    proof
      assume i: "intact cf s \<and> length buf < 2 ^ 62"
      show "case r of (rc, off, s') \<Rightarrow> intact cf s'"
        using "1"(2) i "1"(1) set_intact [of cf s]
        by (fastforce split: Option.bind_splits option.splits prod.splits if_splits)
    qed
  qed
  then show ?thesis using assms(2,3) by simp
qed

lemma load_loop_intact:
  assumes "load_loop p left rest s = Some (rc, s')" and "intact cf s" and "length left \<le> BUFFER_SIZE"
  shows "intact cf s'"
proof -
  have "intact cf s \<and> length left \<le> BUFFER_SIZE \<longrightarrow> (case (rc, s') of (rc, s') \<Rightarrow> intact cf s')"
  proof (rule load_loop.raw_induct [where P = "\<lambda>p left rest s r.
      intact cf s \<and> length left \<le> BUFFER_SIZE \<longrightarrow> (case r of (rc, s') \<Rightarrow> intact cf s')", OF _ assms(1)], goal_cases)
    case (1 f p left rest s r)
    show ?case
    proof
      assume i: "intact cf s \<and> length left \<le> BUFFER_SIZE"
      define buf where "buf = left @ take (BUFFER_SIZE - length left) rest"
      note run = "1"(2) [unfolded Let_def, folded buf_def]
      have len: "length buf \<le> BUFFER_SIZE" using i by (auto simp: buf_def)
      then have small: "length buf < 2 ^ 62" by (simp add: BUFFER_SIZE_def)
      show "case r of (rc, s') \<Rightarrow> intact cf s'"
      proof (cases "take (BUFFER_SIZE - length left) rest = []")
        case True
        then show ?thesis using "1"(2) i by auto
      next
        case False
        obtain rc1 off s1 where l: "load_records p buf 0 s = Some (rc1, off, s1)"
          and r: "(if rc1 = SHMC_OK then if off = 0 then Some (SHMC_ESIZE, s1)
             else f p (if length buf \<noteq> off then drop off buf else buf) (drop (BUFFER_SIZE - length left) rest) s1
             else Some (rc1, s1)) = Some r"
          using run False by (auto split: Option.bind_splits)
        have i1: "intact cf s1" using load_records_intact [OF l _ small] i by simp
        show ?thesis using r i1 "1"(1) len by (auto split: if_splits)
      qed
    qed
  qed
  then show ?thesis using assms(2,3) by simp
qed

lemma load_intact:
  "shmc_load_nolock s file p = Some (rc, s') \<Longrightarrow> intact cf s \<Longrightarrow> intact cf s'"
  using load_loop_intact by (auto simp: shmc_load_nolock_def split: option.splits)

end
