(* ===== verification/Server_Safety.thy ===== *)
theory Server_Safety
  imports Store_Safety Event_Loop
begin

text \<open>
  No client can damage the store: every command, every call of the state machine and every run of the
  event loop that has a defined result leaves the store intact, whatever arrives and however the
  system calls answer.
\<close>

section \<open>Commands\<close>

lemma key_small:
  assumes "key_arg c = Some (key, nkey)" and t: "conn_typed c"
  shows "length (buf_bytes key) < 2 ^ 62"
proof -
  have "length (reqHeader c) = REQ_HEADER_SIZE" using t by (simp add: conn_typed_def)
  moreover obtain p where "key = Buf (headerAddr c + p) (drop p (reqHeader c))"
    using assms(1) by (auto simp: key_arg_def split: Option.bind_splits)
  ultimately show ?thesis by (simp add: REQ_HEADER_SIZE_def)
qed

lemma body_small: "conn_typed c \<Longrightarrow> length (body_bytes c) < 2 ^ 63"
  by (auto simp: body_bytes_def conn_typed_def split: option.split)

lemma serverError_store [simp]: "store (serverError rc s) = store s"
  by (simp add: serverError_def)

lemma immediate_intact:
  assumes i: "intact cf (store s)" and t: "conn_typed (conn s)"
  shows "doGet s = Some s' \<Longrightarrow> intact cf (store s')" "doIncr s = Some s' \<Longrightarrow> intact cf (store s')"
    "doDecr s = Some s' \<Longrightarrow> intact cf (store s')" "doDelete s = Some s' \<Longrightarrow> intact cf (store s')"
    "doStats s = Some s' \<Longrightarrow> intact cf (store s')" "doDump s = Some s' \<Longrightarrow> intact cf (store s')"
    "doLoad p s = Some s' \<Longrightarrow> intact cf (store s')" "unknown s = Some s' \<Longrightarrow> intact cf (store s')"
  subgoal using get_intact [OF i]
    by (fastforce simp: doGet_eq Let_def split: Option.bind_splits option.splits if_splits)
  subgoal using arith_intact [OF i] key_small [OF _ t]
    by (fastforce simp: doIncr_eq shmc_incr_nolock_def Let_def split: Option.bind_splits option.splits if_splits)
  subgoal using arith_intact [OF i] key_small [OF _ t]
    by (fastforce simp: doDecr_eq shmc_decr_nolock_def Let_def split: Option.bind_splits option.splits if_splits)
  subgoal using del_intact [OF i]
    by (fastforce simp: doDelete_eq Let_def split: Option.bind_splits option.splits if_splits)
  subgoal using i by (auto simp: doStats_def guard_def Let_def split: Option.bind_splits if_splits)
  subgoal using i by (auto simp: doDump_eq Let_def split: Option.bind_splits if_splits)
  subgoal using load_intact [OF _ i] by (fastforce simp: doLoad_eq Let_def split: Option.bind_splits if_splits)
  subgoal using i by (auto simp: unknown_def)
  done

lemma storing_intact:
  assumes i: "intact cf (store s)" and t: "conn_typed (conn s)" and z: "small_classes cf"
    and r: "store_cmd ty s = Some s'"
  shows "intact cf (store s')"
proof -
  note k = key_small [OF _ t] and b = body_small [OF t]
  show ?thesis
  proof (cases ty)
    case CmdSet
    then show ?thesis using r set_intact [OF i _ k b]
      by (fastforce simp: store_cmd_def doSet_eq Let_def split: Option.bind_splits if_splits)
  next
    case CmdAdd
    then show ?thesis using r add_intact [OF i _ k b]
      by (fastforce simp: store_cmd_def doAdd_eq Let_def split: Option.bind_splits if_splits)
  next
    case CmdReplace
    then show ?thesis using r replace_intact [OF i _ k b]
      by (fastforce simp: store_cmd_def doReplace_eq Let_def split: Option.bind_splits if_splits)
  next
    case CmdPrepend
    then show ?thesis using r append_intact [OF i _ k b z]
      by (fastforce simp: store_cmd_def doPrepend_eq Let_def split: Option.bind_splits if_splits)
  next
    case CmdAppend
    then show ?thesis using r append_intact [OF i _ k b z]
      by (fastforce simp: store_cmd_def doAppend_eq Let_def split: Option.bind_splits if_splits)
  qed
qed

section \<open>The state machine\<close>

lemma run_command_intact:
  assumes r: "run_command start fin cmd s = Some (d, s')" and t: "conn_typed (conn s)"
    and cmd: "dispatch p (conn s) = Some cmd" and i: "intact cf (store s)"
  shows "intact cf (store s')"
proof (cases cmd)
  case (Immediate f)
  have "f \<in> {doGet, doIncr, doDecr, doDelete, doStats, doDump, doLoad p, unknown}"
    using first_of_mem [OF cmd [unfolded dispatch_def]] Immediate by auto
  moreover obtain s1 where "f s = Some s1" "store s' = store s1"
    using r Immediate by (auto simp: run_command_def Let_def split: Option.bind_splits)
  ultimately show ?thesis using immediate_intact [OF i t] by auto
next
  case (Body ty)
  then show ?thesis using r i
    by (auto simp: run_command_def begin_body_def alloc_body_def Let_def split: Option.bind_splits)
qed (use r i in \<open>auto simp: run_command_def\<close>)

lemma run_body_intact:
  assumes r: "run_body s = Some (d, s')" and t: "conn_typed (conn s)" and i: "intact cf (store s)"
    and z: "small_classes cf"
  shows "intact cf (store s')"
proof -
  obtain arg s1 where "store_cmd (ctype (conn s)) (upd_conn (cflags_update (\<lambda>_. ucast (strtoull10 arg))) s) = Some s1"
      "store s' = store s1"
    using r by (auto simp: run_body_def Let_def split: Option.bind_splits)
  moreover have "conn_typed (conn (upd_conn (cflags_update (\<lambda>_. ucast (strtoull10 arg))) s))"
    using t by (simp add: conn_typed_def)
  ultimately show ?thesis
    using storing_intact [of cf "upd_conn (cflags_update (\<lambda>_. ucast (strtoull10 arg))) s" "ctype (conn s)" s1] i z by simp
qed

lemma onWrite_store: "onWrite s = Some (d, s') \<Longrightarrow> store s' = store s"
  by (auto simp: onWrite_def written_def Let_def dest: update_event_keeps split: Option.bind_splits prod.splits if_splits)

lemma onListening_store: "onListening s = (d, s') \<Longrightarrow> store s' = store s"
  by (auto simp: onListening_def dest: update_event_keeps split: option.splits prod.splits if_splits)

definition secure :: "conf \<Rightarrow> server \<Rightarrow> bool" where
  "secure cf s \<longleftrightarrow> server_typed s \<and> intact cf (store s)"

lemma handlers_secure:
  assumes h: "(case cstate (conn s) of
       Listening \<Rightarrow> Some (onListening s) | Read \<Rightarrow> onRead p s | NRead \<Rightarrow> onNRead s
     | Write \<Rightarrow> onWrite s | Close \<Rightarrow> Some (onClose s)) = Some (d, s')"
    and s: "secure cf s" and z: "small_classes cf"
  shows "secure cf s'"
proof -
  have t: "server_typed s" and i: "intact cf (store s)" using s by (simp_all add: secure_def)
  show ?thesis
  proof (cases "cstate (conn s)")
    case Listening
    then show ?thesis using h t i onListening_typed onListening_store by (auto simp: secure_def)
  next
    case Read
    then have r: "onRead p s = Some (d, s')" using h by simp
    from r t Read show ?thesis
    proof (cases rule: onRead_cases)
      case (command start fin cmd s1)
      then show ?thesis using run_command_intact [OF command(1)] onRead_typed [OF r t Read] i
        by (simp add: secure_def server_typed_def)
    qed (use i in \<open>simp add: secure_def\<close>)
  next
    case NRead
    then have r: "onNRead s = Some (d, s')" using h by simp
    from r t NRead show ?thesis
    proof (cases rule: onNRead_cases)
      case (body s1)
      then show ?thesis using run_body_intact [OF body(1) _ _ z] onNRead_typed [OF r t NRead] i
        by (simp add: secure_def server_typed_def)
    qed (use i in \<open>simp add: secure_def\<close>)
  next
    case Write
    then show ?thesis using h t i onWrite_typed onWrite_store by (auto simp: secure_def)
  next
    case Close
    then show ?thesis using h s by (simp add: onClose_def)
  qed
qed

lemma driver_secure:
  assumes "driverMachine p s = Some s'" and "secure cf s" and z: "small_classes cf"
  shows "secure cf s'"
proof -
  have "secure cf s \<longrightarrow> secure cf s'"
  proof (rule driverMachine.raw_induct [where P = "\<lambda>p s s'. secure cf s \<longrightarrow> secure cf s'", OF _ assms(1)], goal_cases)
    case (1 f p s s')
    show ?case
    proof
      assume s: "secure cf s"
      obtain d s1 where h: "(case cstate (conn s) of
         Listening \<Rightarrow> Some (onListening s) | Read \<Rightarrow> onRead p s | NRead \<Rightarrow> onNRead s
       | Write \<Rightarrow> onWrite s | Close \<Rightarrow> Some (onClose s)) = Some (d, s1)"
        and rest: "(if d = DmGoOn then f p s1 else Some s1) = Some s'"
        using "1"(2) by (auto split: Option.bind_splits)
      show "secure cf s'" using handlers_secure [OF h s z] rest "1"(1) by (auto split: if_splits)
    qed
  qed
  then show ?thesis using assms(2) by simp
qed

section \<open>The event loop\<close>

lemma handle_all_intact:
  "handle_all p evs S = Some S' \<Longrightarrow> shell_ok S \<Longrightarrow> intact cf (store (shared S)) \<Longrightarrow> small_classes cf \<Longrightarrow>
    intact cf (store (shared S'))"
proof (induction evs arbitrary: S)
  case (Cons ev evs)
  obtain S1 where S1: "handle_event p ev S = Some S1" "handle_all p evs S1 = Some S'"
    using Cons.prems(1) by (auto split: Option.bind_splits)
  obtain c where c: "conns S (fst ev) = Some c"
      "driverMachine p ((shared S)\<lparr>conn := c, peers := [], net := snd ev\<rparr>) = Some (shared S1)"
    using S1(1) by (auto simp: handle_event_def split: Option.bind_splits)
  have "secure cf ((shared S)\<lparr>conn := c, peers := [], net := snd ev\<rparr>)"
    using Cons.prems(2,3) c(1) by (simp add: secure_def server_typed_def shell_ok_def at_rest_def)
  from driver_secure [OF c(2) this Cons.prems(4)] have "intact cf (store (shared S1))" by (simp add: secure_def)
  then show ?case using Cons.IH [OF S1(2)] handle_event_ok [OF S1(1)] Cons.prems(2,4) by blast
qed simp

lemma run_loop_intact:
  "run_loop p None es anchor S = Some (r, S') \<Longrightarrow> shell_ok S \<Longrightarrow> intact cf (store (shared S)) \<Longrightarrow> small_classes cf \<Longrightarrow>
    intact cf (store (shared S'))"
proof (induction es arbitrary: anchor S)
  case (Cons e es)
  show ?case
  proof (cases "stopped S")
    case False
    define S1 where "S1 = (if p_stop e then ev_stop S else S)"
    have S1: "shell_ok S1" "intact cf (store (shared S1))" using Cons.prems(2,3) by (simp_all add: S1_def ev_stop_def)
    note run = Cons.prems(1) [unfolded run_loop.simps Let_def S1_def [symmetric]]
    show ?thesis
    proof (cases "p_waited e")
      case (Events evs)
      obtain S2 where S2: "handle_all p evs S1 = Some S2" "run_loop p None es anchor S2 = Some (r, S')"
        using run False Events by (auto simp: timer_none split: Option.bind_splits)
      show ?thesis
        by (rule Cons.IH [OF S2(2) handle_all_ok [OF S2(1) S1(1)] handle_all_intact [OF S2(1) S1 Cons.prems(4)] Cons.prems(4)])
    qed (use run False S1 Cons.IH Cons.prems(4) in auto)
  qed (use Cons.prems in auto)
qed auto

end
