(* ===== verification/Server_Properties.thy ===== *)
theory Server_Properties
  imports Server_Safety Event_Properties
begin

text \<open>The server as a whole: what its clients together can do to the store.\<close>

text \<open>
  C31: nothing the clients send can damage the store: whatever bytes arrive on the connections, cut into
  whatever pieces, in whatever order the connections become ready, with clients that vanish, failing
  \<open>malloc\<close>, refused registrations, any file that is loaded, and any system calls that fail, a run of the
  loop that starts on an intact store leaves an intact store of the same configuration, unless it has
  left the bounds of a buffer (then the run has no result).
\<close>

theorem no_client_damages_the_store:
  assumes "ev_run p None es now S = Some (r, S')" and "shell_ok S"
    and "implements (store (shared S)) A" and "small_classes (conf_of (store (shared S)))"
  shows "\<exists>A'. implements (store (shared S')) A' \<and> conf_of (store (shared S')) = conf_of (store (shared S))"
  using run_loop_intact [OF assms(1) [unfolded ev_run_def]] assms(2) intactI [OF assms(3) refl] assms(4)
  by (auto simp: intact_def shell_ok_def)

theorem no_client_damages_the_store_witness:
  "\<exists>S' A'. ev_run 0 None [one_poll (Events [(64, set_pieces)]) False, one_poll Interrupted False] (0, 0) two_clients = Some (Running, S')
    \<and> implements (store (shared S')) A' \<and> conf_of (store (shared S')) = tiny_conf"
proof -
  obtain S1 where S1: "handle_event 0 (64, set_pieces) two_clients = Some S1" by (rule two_clients_set)
  have st: "two_clients\<lparr>stopped := False\<rparr> = two_clients" by (simp add: two_clients_def)
  have "\<not> stopped S1" using S1 by (auto simp: handle_event_def two_clients_def split: Option.bind_splits)
  then have r: "ev_run 0 None [one_poll (Events [(64, set_pieces)]) False, one_poll Interrupted False] (0, 0) two_clients
      = Some (Running, S1)"
    using S1 unfolding ev_run_def st by (simp add: one_poll_def run_timer_def two_clients_def)
  have "small_classes (conf_of (store (shared two_clients)))"
    by (simp add: two_clients_store tiny_ok(2) small_classes_def conf_for_def)
  then show ?thesis
    using no_client_damages_the_store [OF r two_clients_ok] tiny_impl r by (auto simp: two_clients_store tiny_ok(2))
qed

end
