(* ===== verification/Callers.thy ===== *)
theory Callers
  imports Calls Wrappers Token_Properties
begin

text \<open>
  What the wrappers of theory \<open>Calls\<close> do for a caller without rivals, from the specifications of the
  \<open>_nolock\<close> functions: they find the locks free, and leave them free for the next call. The programs of
  the repository that use the library (theories \<open>Shmcface\<close>, \<open>Unit_Test\<close>, \<open>Load_Test\<close>, \<open>Benchmark\<close>) rest
  on these lemmas.
\<close>

section \<open>C strings\<close>

text \<open>\<open>strlen\<close>, and a pointer \<open>p\<close> to the bytes of a string with their zero byte.\<close>

definition strlen :: "byte list \<Rightarrow> nat" where
  "strlen bs = length (takeWhile (\<lambda>b. b \<noteq> 0) bs)"

definition cstr :: "string \<Rightarrow> byte list" where
  "cstr t = text_of t @ [0]"

lemma strlen_cstr: "0 \<notin> set (text_of t) \<Longrightarrow> strlen (cstr t) = length t"
  using takeWhile_append2 [of "text_of t" "\<lambda>b. b \<noteq> 0" "[0]"] by (metis (mono_tags, lifting) append.right_neutral
    cstr_def length_map strlen_def takeWhile.simps(2) text_of_def)

lemma take_cstr: "take (length t) (cstr t) = text_of t" "length (cstr t) = Suc (length t)"
  by (simp_all add: cstr_def text_of_def)

section \<open>A caller that finds the lock free\<close>

lemma conf_flock: "conf_of s' = conf_of s \<Longrightarrow> use_flock (attrs s') = use_flock (attrs s)"
  by (drule arg_cong [where f = "use_flock \<circ> cf_attr"]) (simp add: conf_of_def comp_def)

lemma under_free:
  assumes "call s = Some (r, s')" and "conf_of s' = conf_of s"
  shows "under_wrlock x call (no_locks, s) = Some (r, no_locks, s')"
  using assms(1) conf_flock [OF assms(2)] by (rule free_locks)

lemma lookup_free:
  assumes "lookup s = Some (rc, out, s')" and "conf_of s' = conf_of s"
  shows "under_rdlock x (with_mutex x lookup) (no_locks, s) = Some ((rc, out), no_locks, s')"
  using assms(1) conf_flock [OF assms(2)] by (rule free_locks)

lemma under_None: "call s = None \<Longrightarrow> under_wrlock x call (l, s) = None"
  by (auto simp: under_wrlock.simps split: Option.bind_splits)

text \<open>A wrapper does what the specification of its \<open>_nolock\<close> function says.\<close>

lemma under_refines:
  assumes "refines (call s) (conf_of s) (Some (rc, A'))"
  shows "\<exists>s'. under_wrlock x call (no_locks, s) = Some (rc, no_locks, s') \<and> implements s' A' \<and> conf_of s' = conf_of s"
  using assms under_free [of call s _ _ x] by fastforce

lemma under_refines3:
  assumes "refines3 (call s) (conf_of s) (Some (rc, out, A'))"
  shows "\<exists>s'. under_wrlock x (\<lambda>s. paired (call s)) (no_locks, s) = Some ((rc, out), no_locks, s')
    \<and> implements s' A' \<and> conf_of s' = conf_of s"
  using assms under_free [of "\<lambda>s. paired (call s)" s _ _ x] by (fastforce simp: paired_def)

lemma get_alone:
  assumes "implements s A" and "nkey \<le> length (buf_bytes key)" and "a_get (conf_of s) A (buf_key key nkey) ok = (rc, out, A')"
  shows "\<exists>s'. shmc_get x key nkey ok (no_locks, s) = Some ((rc, out), no_locks, s') \<and> implements s' A' \<and> conf_of s' = conf_of s"
  using get_refines [OF assms] lookup_free [of "\<lambda>s. shmc_get_nolock s key nkey ok" s _ _ _ x]
  by (fastforce simp: shmc_get_def)

lemma getf_alone:
  assumes "implements s A" and "nkey \<le> length (buf_bytes key)" and "a_getf (conf_of s) A (buf_key key nkey) room = (rc, out, A')"
  shows "\<exists>s'. shmc_getf x key nkey room (no_locks, s) = Some ((rc, out), no_locks, s') \<and> implements s' A' \<and> conf_of s' = conf_of s"
  using getf_refines [OF assms] lookup_free [of "\<lambda>s. shmc_getf_nolock s key nkey room" s _ _ _ x]
  by (fastforce simp: shmc_getf_def)

text \<open>What a caller without rivals sees, in terms of lookups.\<close>

lemma get_lookup_alone:
  assumes "implements s A" and "nkey \<le> length (buf_bytes key)"
  shows "\<exists>s' A'. shmc_get x key nkey True (no_locks, s)
      = Some ((if shmc_lookup s (buf_key key nkey) = None then SHMC_NOTFOUND else SHMC_OK, shmc_lookup s (buf_key key nkey)), no_locks, s')
    \<and> implements s' A' \<and> conf_of s' = conf_of s \<and> shmc_lookup s' = shmc_lookup s"
proof -
  obtain rc out A' where a: "a_get (conf_of s) A (buf_key key nkey) True = (rc, out, A')"
    by (cases "a_get (conf_of s) A (buf_key key nkey) True") auto
  obtain s' where s': "shmc_get x key nkey True (no_locks, s) = Some ((rc, out), no_locks, s')" "implements s' A'" "conf_of s' = conf_of s"
    using get_alone [OF assms a] by blast
  note d = a_get_dict [OF implements_wf [OF assms(1)] a]
  have "rc = (if dict (conf_of s) A (buf_key key nkey) = None then SHMC_NOTFOUND else SHMC_OK)"
    using a by (auto simp: a_get_def dict_def split: option.splits)
  then show ?thesis
    using s' d by (intro exI [of _ s'] exI [of _ A']) (simp add: lookup_dict [OF assms(1)] lookup_dict [OF s'(2)])
qed

lemma del_lookup_alone:
  assumes "implements s A" and "nkey \<le> length (buf_bytes key)"
  shows "\<exists>s' A'. shmc_del x key nkey (no_locks, s)
      = Some (if shmc_lookup s (buf_key key nkey) = None then SHMC_NOTFOUND else SHMC_OK, no_locks, s')
    \<and> implements s' A' \<and> conf_of s' = conf_of s \<and> shmc_lookup s' = (shmc_lookup s)(buf_key key nkey := None)"
proof -
  define k where "k = buf_key key nkey"
  obtain rc A' where a: "a_del (conf_of s) A k = (rc, A')" by (cases "a_del (conf_of s) A k") auto
  obtain s' where s': "shmc_del x key nkey (no_locks, s) = Some (rc, no_locks, s')" "implements s' A'" "conf_of s' = conf_of s"
    using under_refines [of "\<lambda>s. shmc_del_nolock s key nkey" s rc A' x] del_refines [OF assms] a
    by (auto simp: shmc_del_def k_def)
  have "rc = (if dict (conf_of s) A k = None then SHMC_NOTFOUND else SHMC_OK)"
    using a by (auto simp: a_del_def dict_def split: option.splits)
  then show ?thesis
    using s' del_facts(2) [OF implements_wf [OF assms(1)], of k] a
    by (intro exI [of _ s'] exI [of _ A']) (simp add: lookup_dict [OF assms(1)] lookup_dict [OF s'(2)] flip: k_def)
qed

lemma set_alone:
  assumes "implements s A" and "nkey \<le> length (buf_bytes key)" and "nval \<le> length val" and "sizeof_item + nkey + nval < 2 ^ 64"
    and "a_set (conf_of s) A (buf_key key nkey) (take nval val) f = Some (rc, A')"
  shows "\<exists>s'. shmc_set x key nkey val nval f (no_locks, s) = Some (rc, no_locks, s') \<and> implements s' A' \<and> conf_of s' = conf_of s"
  using under_refines [of "\<lambda>s. shmc_set_nolock s key nkey val nval f" s rc A' x] set_refines [OF assms(1-4), of f] assms(5)
  by (auto simp: shmc_set_def)

end
