(* ===== verification/Shmcface.thy ===== *)
theory Shmcface
  imports Callers
begin

text \<open>
  \<open>t/shmcface.c\<close>: a command line program that attaches to a token, runs one \<open>set\<close>, \<open>get\<close> or \<open>del\<close>, and
  detaches. Every run is a process of its own; what runs have in common is the token.
\<close>

section \<open>The program\<close>

text \<open>
  What a process is given: the answers of the system calls, itself as a holder of locks, whether
  \<open>malloc\<close> works, the text of \<open>errno\<close>, and where its arguments lie in memory.
\<close>

record process =
  p_sys :: sys
  p_agent :: agent
  p_malloc :: bool
  p_errno :: string
  p_argv :: "nat \<Rightarrow> nat"

text \<open>What a run leaves: the value of \<open>main\<close>, the bytes printed, the lock and the files.\<close>

type_synonym outcome = "int \<times> byte list \<times> locks \<times> files"

definition line :: "string \<Rightarrow> byte list" where
  "line t = text_of t @ [10]"

definition face_usage :: "byte list" where
  "face_usage = line ''usage: shmcface token set|get|del key[ value]''"

definition face_error :: "process \<Rightarrow> shmc_rc \<Rightarrow> byte list" where
  "face_error e rc = line (''error, '' @ shmc_error (p_errno e) rc)"

definition arg_buf :: "process \<Rightarrow> string list \<Rightarrow> nat \<Rightarrow> buf" where
  "arg_buf e argv i = Buf (p_argv e i) (cstr (argv ! i))"

definition face_set :: "process \<Rightarrow> string list \<Rightarrow> locks \<times> shmc \<Rightarrow> (int \<times> byte list \<times> locks \<times> shmc) option" where
  "face_set e argv S = do {
     let val = cstr (argv ! 4);
     (rc, S) \<leftarrow> shmc_set (p_agent e) (arg_buf e argv 3) (strlen (cstr (argv ! 3))) val (strlen val) 0 S;
     if rc = SHMC_OK then Some (0, line ''STORED'', S) else Some (- 1, face_error e rc, S)
   }"

definition face_get :: "process \<Rightarrow> string list \<Rightarrow> locks \<times> shmc \<Rightarrow> (int \<times> byte list \<times> locks \<times> shmc) option" where
  "face_get e argv S = do {
     ((rc, out), S) \<leftarrow> shmc_get (p_agent e) (arg_buf e argv 3) (strlen (cstr (argv ! 3))) (p_malloc e) S;
     if rc = SHMC_OK then do {
       (val, flags) \<leftarrow> out;
       shown \<leftarrow> fmt_s (as_int (length val)) val;
       Some (0, dec (unat flags) @ [32] @ shown @ [10], S)
     } else Some (- 1, face_error e rc, S)
   }"

definition face_del :: "process \<Rightarrow> string list \<Rightarrow> locks \<times> shmc \<Rightarrow> (int \<times> byte list \<times> locks \<times> shmc) option" where
  "face_del e argv S = do {
     (rc, S) \<leftarrow> shmc_del (p_agent e) (arg_buf e argv 3) (strlen (cstr (argv ! 3))) S;
     if rc = SHMC_OK \<or> rc = SHMC_NOTFOUND then Some (0, line ''DELETED'', S) else Some (- 1, face_error e rc, S)
   }"

definition face_command :: "process \<Rightarrow> string list \<Rightarrow> locks \<times> shmc \<Rightarrow> (int \<times> byte list \<times> locks \<times> shmc) option" where
  "face_command e argv S =
     (if argv ! 2 = ''set'' then face_set e argv S
      else if argv ! 2 = ''get'' then face_get e argv S
      else if argv ! 2 = ''del'' then face_del e argv S
      else Some (- 1, face_usage, S))"

definition shmcface :: "process \<Rightarrow> string list \<Rightarrow> locks \<times> files \<Rightarrow> outcome option" where
  "shmcface e argv D =
     (if (length argv \<noteq> 4 \<and> length argv \<noteq> 5) \<or> (argv ! 2 = ''set'' \<and> length argv \<noteq> 5)
      then Some (- 1, face_usage, D)
      else do {
        let token = argv ! 1;
        (rc, handle, fs) \<leftarrow> shmc_init (p_sys e) (snd D) token None;
        if rc \<noteq> SHMC_OK
        then Some (- 1, line (''shmc_init failed, '' @ shmc_error (p_errno e) rc), fst D, fs)
        else do {
          s \<leftarrow> handle;
          (code, out, l, s) \<leftarrow> face_command e argv (fst D, s);
          Some (code, out, l, snd (shmc_destroy fs token s))
        }
      })"

section \<open>One run on an intact token\<close>

text \<open>A token of a store that implements \<open>A\<close>, wherever it was mapped last.\<close>

definition token_holds :: "files \<Rightarrow> string \<Rightarrow> attr \<Rightarrow> nat list \<Rightarrow> astore \<Rightarrow> bool" where
  "token_holds fs token a zs A \<longleftrightarrow>
     (\<exists>s p. fs token = Some (Image SHMC_VERSION s) \<and> implements s A \<and> conf_of s = conf_for p a zs)"

definition attaches :: "process \<Rightarrow> bool" where
  "attaches e \<longleftrightarrow> malloc_works (p_sys e) \<and> open_works (p_sys e) \<and> first_map (p_sys e) \<noteq> None
     \<and> second_map (p_sys e) \<noteq> None \<and> p_malloc e"

lemma dict_base: "dict (conf_for q a zs) A = dict (conf_for p a zs) A"
  by (simp add: fun_eq_iff dict_def a_find_def conf_for_def)

lemma conf_for_sel:
  "cf_sizes (conf_for q a zs) = zs" "cf_counts (conf_for q a zs) = map (\<lambda>z. item_size_max a div z) zs"
  "cf_attr (conf_for q a zs) = a\<lparr>slabs_count := length zs\<rparr>"
  by (simp_all add: conf_for_def)

lemma a_set_base: "a_set (conf_for q a zs) A k v f = a_set (conf_for p a zs) A k v f"
  unfolding a_set_def a_del_def a_find_def class_for_def a_take_def can_cut_def conf_for_sel ..

abbreviation tdict :: "attr \<Rightarrow> nat list \<Rightarrow> astore \<Rightarrow> byte list \<Rightarrow> (byte list \<times> u32) option" where
  "tdict a zs \<equiv> dict (conf_for 0 a zs)"

lemma lookup_tdict: "implements s A \<Longrightarrow> conf_of s = conf_for p a zs \<Longrightarrow> shmc_lookup s = tdict a zs A"
  by (simp add: lookup_dict dict_base [of p])

lemma token_attach:
  assumes "token_holds fs token a zs A" and "count_of_slabs a = Some (length zs)" and "attaches e"
  obtains s q where "shmc_init (p_sys e) fs token None = Some (SHMC_OK, Some s, fs)" "implements s A" "conf_of s = conf_for q a zs"
proof -
  obtain s p where s: "fs token = Some (Image SHMC_VERSION s)" "implements s A" "conf_of s = conf_for p a zs"
    using assms(1) by (auto simp: token_holds_def)
  obtain q where q: "second_map (p_sys e) = Some q" using assms(3) by (auto simp: attaches_def)
  have os: "malloc_works (p_sys e)" "open_works (p_sys e)" "first_map (p_sys e) \<noteq> None"
    using assms(3) by (simp_all add: attaches_def)
  from attach_spec [of fs token, OF s assms(2) os(2,3) q] os(1) that show ?thesis by (simp add: shmc_init_def)
qed

lemma token_detach: "implements s A \<Longrightarrow> conf_of s = conf_for q a zs \<Longrightarrow> token_holds (snd (shmc_destroy fs token s)) token a zs A"
  by (auto simp: shmc_destroy_def token_holds_def)

lemma shmcface_run:
  assumes "token_holds fs (argv ! 1) a zs A" and "count_of_slabs a = Some (length zs)" and "attaches e"
    and "length argv = 4 \<or> length argv = 5" and "argv ! 2 = ''set'' \<longrightarrow> length argv = 5"
    and cmd: "\<And>s q. implements s A \<Longrightarrow> conf_of s = conf_for q a zs \<Longrightarrow>
      \<exists>s' A'. face_command e argv (no_locks, s) = Some (code, out, no_locks, s') \<and> implements s' A' \<and> conf_of s' = conf_of s
        \<and> shmc_lookup s' = m"
  shows "\<exists>fs' A'. shmcface e argv (no_locks, fs) = Some (code, out, no_locks, fs')
    \<and> token_holds fs' (argv ! 1) a zs A' \<and> tdict a zs A' = m"
proof -
  obtain s q where s: "shmc_init (p_sys e) fs (argv ! 1) None = Some (SHMC_OK, Some s, fs)" "implements s A"
      "conf_of s = conf_for q a zs" using token_attach [OF assms(1-3)] .
  obtain s' A' where s': "face_command e argv (no_locks, s) = Some (code, out, no_locks, s')" "implements s' A'"
      "conf_of s' = conf_of s" "shmc_lookup s' = m" using cmd [OF s(2,3)] by blast
  note c = s'(3) [unfolded s(3)]
  show ?thesis
    using s(1) s'(1,4) assms(4,5) token_detach [OF s'(2) c] lookup_tdict [OF s'(2) c]
    by (auto simp: shmcface_def)
qed

lemma arg_key:
  assumes "0 \<notin> set (text_of (argv ! i))"
  shows "strlen (cstr (argv ! i)) = length (argv ! i)" "length (argv ! i) \<le> length (buf_bytes (arg_buf e argv i))"
    "buf_key (arg_buf e argv i) (length (argv ! i)) = text_of (argv ! i)"
  using assms by (simp_all add: strlen_cstr arg_buf_def take_cstr buf_key_def)

lemma fmt_s_whole: "0 \<notin> set v \<Longrightarrow> length v < 2 ^ 31 \<Longrightarrow> fmt_s (as_int (length v)) v = Some v"
  by (auto simp: fmt_s_def as_int_small takeWhile_eq_all_conv)

lemma face_get_run:
  assumes "token_holds fs token a zs A" and "count_of_slabs a = Some (length zs)" and "attaches e" and "0 \<notin> set (text_of k)"
    and "\<And>v f. tdict a zs A (text_of k) = Some (v, f) \<Longrightarrow> 0 \<notin> set v \<and> length v < 2 ^ 31"
  shows "\<exists>fs' A'. shmcface e [name, token, ''get'', k] (no_locks, fs)
      = Some (case tdict a zs A (text_of k) of None \<Rightarrow> (- 1, line ''error, key not found'', no_locks, fs')
          | Some (v, f) \<Rightarrow> (0, dec (unat f) @ [32] @ v @ [10], no_locks, fs'))
    \<and> token_holds fs' token a zs A' \<and> tdict a zs A' = tdict a zs A"
proof -
  let ?argv = "[name, token, ''get'', k]"
  let ?r = "case tdict a zs A (text_of k) of None \<Rightarrow> (- 1 :: int, line ''error, key not found'')
          | Some (v, f) \<Rightarrow> (0, dec (unat f) @ [32] @ v @ [10])"
  have k: "strlen (cstr (?argv ! 3)) = length k" "length k \<le> length (buf_bytes (arg_buf e ?argv 3))"
    "buf_key (arg_buf e ?argv 3) (length k) = text_of k"
    using arg_key [of ?argv 3] assms(4) by simp_all
  have "\<exists>s' A'. face_command e ?argv (no_locks, s) = Some (fst ?r, snd ?r, no_locks, s') \<and> implements s' A'
      \<and> conf_of s' = conf_of s \<and> shmc_lookup s' = tdict a zs A"
    if s: "implements s A" "conf_of s = conf_for q a zs" for s q
  proof -
    have m: "p_malloc e" using assms(3) by (simp add: attaches_def)
    show ?thesis
      using get_lookup_alone [OF s(1) k(2), of "p_agent e"] assms(5) k(1,3) m
      by (auto simp: face_command_def face_get_def lookup_tdict [OF s] face_error_def fmt_s_whole split: option.splits)
  qed
  then show ?thesis
    using shmcface_run [where fs = fs and argv = ?argv and a = a and zs = zs and A = A and e = e and code = "fst ?r" and out = "snd ?r"
        and m = "tdict a zs A"] assms(1-3) by (simp split: option.splits prod.splits)
qed

lemma face_del_run:
  assumes "token_holds fs token a zs A" and "count_of_slabs a = Some (length zs)" and "attaches e" and "0 \<notin> set (text_of k)"
  shows "\<exists>fs' A'. shmcface e [name, token, ''del'', k] (no_locks, fs) = Some (0, line ''DELETED'', no_locks, fs')
    \<and> token_holds fs' token a zs A' \<and> tdict a zs A' = (tdict a zs A)(text_of k := None)"
proof -
  let ?argv = "[name, token, ''del'', k]"
  have k: "strlen (cstr (?argv ! 3)) = length k" "length k \<le> length (buf_bytes (arg_buf e ?argv 3))"
    "buf_key (arg_buf e ?argv 3) (length k) = text_of k"
    using arg_key [of ?argv 3] assms(4) by simp_all
  have "\<exists>s' A'. face_command e ?argv (no_locks, s) = Some (0, line ''DELETED'', no_locks, s') \<and> implements s' A'
      \<and> conf_of s' = conf_of s \<and> shmc_lookup s' = (tdict a zs A)(text_of k := None)"
    if s: "implements s A" "conf_of s = conf_for q a zs" for s q
    using del_lookup_alone [OF s(1) k(2), of "p_agent e"] k(1,3)
    by (auto simp: face_command_def face_del_def lookup_tdict [OF s])
  then show ?thesis using shmcface_run [where fs = fs and argv = ?argv and a = a and zs = zs and A = A and e = e] assms(1-3) by simp
qed

lemma face_set_run:
  assumes "token_holds fs token a zs A" and "count_of_slabs a = Some (length zs)" and "attaches e"
    and "0 \<notin> set (text_of k)" and "0 \<notin> set (text_of v)" and "sizeof_item + length k + length v < 2 ^ 64"
    and run: "shmcface e [name, token, ''set'', k, v] (no_locks, fs) = Some (0, out, l, fs')"
  shows "out = line ''STORED'' \<and> l = no_locks \<and> (\<exists>A'. token_holds fs' token a zs A' \<and> tdict a zs A' (text_of k) = Some (text_of v, 0))"
proof -
  let ?argv = "[name, token, ''set'', k, v]"
  have k: "strlen (cstr k) = length k" "length k \<le> length (buf_bytes (arg_buf e ?argv 3))"
    "buf_key (arg_buf e ?argv 3) (length k) = text_of k"
    using arg_key [of ?argv 3] assms(4) by simp_all
  have v: "strlen (cstr v) = length v" "length v \<le> length (cstr v)" "take (length v) (cstr v) = text_of v"
    using assms(5) by (simp_all add: strlen_cstr take_cstr)
  obtain s q where s: "shmc_init (p_sys e) fs token None = Some (SHMC_OK, Some s, fs)" "implements s A"
      "conf_of s = conf_for q a zs" using token_attach [OF assms(1-3)] .
  let ?a = "a_set (conf_of s) A (text_of k) (text_of v) 0"
  note ref = set_refines [OF s(2) k(2) v(2) assms(6), of 0, unfolded k(3) v(3)]
  obtain rc s1 where s1: "shmc_set (p_agent e) (arg_buf e ?argv 3) (length k) (cstr v) (length v) 0 (no_locks, s) = Some (rc, l, s1)"
      "rc = SHMC_OK" "out = line ''STORED''" "fs' = snd (shmc_destroy fs token s1)"
    using run s(1) k(1) v(1)
    by (auto simp: shmcface_def face_command_def face_set_def Let_def split: Option.bind_splits if_splits)
  obtain A' where A': "?a = Some (rc, A')" "implements s1 A'" "conf_of s1 = conf_of s" "l = no_locks"
  proof (cases ?a)
    case None
    then show ?thesis using ref s1(1) under_None [of "\<lambda>s. shmc_set_nolock s (arg_buf e ?argv 3) (length k) (cstr v) (length v) 0" s]
      by (simp add: shmc_set_def)
  next
    case (Some r)
    then show ?thesis
      using set_alone [OF s(2) k(2) v(2) assms(6), unfolded k(3) v(3), of 0 "fst r" "snd r" "p_agent e"] s1(1) that [of "snd r"] by auto
  qed
  have "tdict a zs A' (text_of k) = Some (text_of v, 0)"
    using set_facts [OF implements_wf [OF s(2)] A'(1)] s1(2) dict_base [of q a zs A'] by (simp add: s(3))
  then show ?thesis using s1(3,4) A' token_detach [OF A'(2), of q a zs fs token] s(3) by auto
qed

section \<open>What one run stores the next one reads\<close>

text \<open>
  C37: the command line program keeps a dictionary across processes: when \<open>set\<close> has exited with 0, a
  later \<open>get\<close>, whose process has the token mapped at another address, prints exactly the value; \<open>del\<close>
  removes it, and the \<open>get\<close> after that fails with the message for a missing key.
\<close>

theorem shmcface_keeps_values:
  assumes "token_holds fs token a zs A" and "count_of_slabs a = Some (length zs)"
    and "attaches e1" and "attaches e2" and "attaches e3" and "attaches e4"
    and "0 \<notin> set (text_of k)" and "0 \<notin> set (text_of v)" and "length v < 2 ^ 31" and "sizeof_item + length k + length v < 2 ^ 64"
    and "shmcface e1 [name, token, ''set'', k, v] (no_locks, fs) = Some (0, out, l, fs1)"
  shows "out = line ''STORED'' \<and> (\<exists>fs2 fs3 fs4.
      shmcface e2 [name, token, ''get'', k] (l, fs1) = Some (0, text_of ''0 '' @ text_of v @ [10], l, fs2)
    \<and> shmcface e3 [name, token, ''del'', k] (l, fs2) = Some (0, line ''DELETED'', l, fs3)
    \<and> shmcface e4 [name, token, ''get'', k] (l, fs3) = Some (- 1, line ''error, key not found'', l, fs4))"
proof -
  obtain A1 where A1: "out = line ''STORED''" "l = no_locks" "token_holds fs1 token a zs A1"
      "tdict a zs A1 (text_of k) = Some (text_of v, 0)"
    using face_set_run [OF assms(1-3,7,8,10,11)] by blast
  obtain fs2 A2 where A2: "shmcface e2 [name, token, ''get'', k] (no_locks, fs1) = Some (0, text_of ''0 '' @ text_of v @ [10], no_locks, fs2)"
      "token_holds fs2 token a zs A2" "tdict a zs A2 = tdict a zs A1"
    using face_get_run [OF A1(3) assms(2,4,7), of name] A1(4) assms(8,9) by (auto simp: text_of_def dec.simps)
  obtain fs3 A3 where A3: "shmcface e3 [name, token, ''del'', k] (no_locks, fs2) = Some (0, line ''DELETED'', no_locks, fs3)"
      "token_holds fs3 token a zs A3" "tdict a zs A3 = (tdict a zs A2)(text_of k := None)"
    using face_del_run [OF A2(2) assms(2,5,7), of name] by blast
  obtain fs4 where "shmcface e4 [name, token, ''get'', k] (no_locks, fs3) = Some (- 1, line ''error, key not found'', no_locks, fs4)"
    using face_get_run [OF A3(2) assms(2,6,7), of name] A3(3) by auto
  then show ?thesis using A1(1,2) A2(1) A3(1) by auto
qed

definition demo_process :: "nat \<Rightarrow> process" where
  "demo_process q = \<lparr>p_sys = \<lparr>malloc_works = True, open_works = True, ftruncate_works = True, first_map = Some 512, second_map = Some q\<rparr>,
     p_agent = (q, 0), p_malloc = True, p_errno = [], p_argv = (\<lambda>i. 7 * i)\<rparr>"

lemma demo_attaches: "attaches (demo_process q)"
  by (simp add: attaches_def demo_process_def)

definition demo_files :: files where
  "demo_files = [''/t'' \<mapsto> Image SHMC_VERSION tiny_store]"

lemma demo_token: "token_holds demo_files ''/t'' tiny [72, 144] (tst [] [] [0, 0] [0])"
  using tiny_impl tiny_ok(2) by (auto simp: token_holds_def demo_files_def)

lemma demo_set:
  "\<exists>out l fs1. shmcface (demo_process 4096) [''f'', ''/t'', ''set'', ''k'', ''v''] (no_locks, demo_files) = Some (0, out, l, fs1)"
proof -
  let ?argv = "[''f'', ''/t'', ''set'', ''k'', ''v'']"
  let ?A = "tst [\<lparr>e_key = text_of ''k'', e_val = text_of ''v'', e_flags = 0\<rparr>] [] [0] [0]"
  have "\<exists>s' A'. face_command (demo_process 4096) ?argv (no_locks, s) = Some (0, line ''STORED'', no_locks, s')
      \<and> implements s' A' \<and> conf_of s' = conf_of s \<and> shmc_lookup s' = tdict tiny [72, 144] ?A"
    if s: "implements s (tst [] [] [0, 0] [0])" "conf_of s = conf_for q tiny [72, 144]" for s q
  proof -
    have "a_set tiny_conf (tst [] [] [0, 0] [0]) (text_of ''k'') (text_of ''v'') 0 = Some (SHMC_OK, ?A)"
      by (simp add: a_set_def a_del_def tiny_eval text_of_def)
    then have "a_set (conf_of s) (tst [] [] [0, 0] [0]) (text_of ''k'') (text_of ''v'') 0 = Some (SHMC_OK, ?A)"
      by (simp add: s(2) a_set_base [of q _ _ _ _ _ _ 4096])
    then show ?thesis
      using set_alone [OF s(1), of 1 "arg_buf (demo_process 4096) ?argv 3" 1 "cstr ''v''" 0 SHMC_OK ?A "p_agent (demo_process 4096)"]
        lookup_tdict [of _ ?A q tiny "[72, 144]"] s(2)
      by (auto simp: face_command_def face_set_def arg_buf_def buf_key_def cstr_def text_of_def strlen_def)
  qed
  note run = this
  have "\<exists>fs' A'. shmcface (demo_process 4096) ?argv (no_locks, demo_files) = Some (0, line ''STORED'', no_locks, fs')
      \<and> token_holds fs' (?argv ! 1) tiny [72, 144] A' \<and> tdict tiny [72, 144] A' = tdict tiny [72, 144] ?A"
    by (rule shmcface_run [OF _ _ demo_attaches _ _ run]) (use demo_token tiny_sizes(1) in simp_all)
  then show ?thesis by blast
qed

theorem shmcface_keeps_values_witness:
  "\<exists>out l fs1 fs2. shmcface (demo_process 4096) [''f'', ''/t'', ''set'', ''k'', ''v''] (no_locks, demo_files) = Some (0, out, l, fs1)
    \<and> shmcface (demo_process 8192) [''f'', ''/t'', ''get'', ''k''] (l, fs1) = Some (0, text_of ''0 v'' @ [10], l, fs2)"
proof -
  obtain out l fs1 where
    set: "shmcface (demo_process 4096) [''f'', ''/t'', ''set'', ''k'', ''v''] (no_locks, demo_files) = Some (0, out, l, fs1)"
    using demo_set by blast
  have "\<exists>fs2. shmcface (demo_process 8192) [''f'', ''/t'', ''get'', ''k''] (l, fs1) = Some (0, text_of ''0 v'' @ [10], l, fs2)"
    using shmcface_keeps_values [OF demo_token _ demo_attaches demo_attaches demo_attaches demo_attaches _ _ _ _ set, of 8192 0 0]
      tiny_sizes(1) by (auto simp: text_of_def)
  with set show ?thesis by blast
qed

end
