(* ===== verification/Unit_Test.thy ===== *)
theory Unit_Test
  imports Shmcface Limits
begin

text \<open>
  \<open>t/unit.c\<close>, the test of the library, and \<open>t/reader.c\<close>, the program it starts at its end. A test is a
  sequence of checks; each makes a call, prints a line, and ends the program when it is not content.
  Forked children only attach, look and detach; a child runs where it is forked.
\<close>

section \<open>The variables of \<open>main\<close>\<close>

record ustate =
  u_out :: "byte list"
  u_files :: files
  u_attr :: attr
  u_seg :: "locks \<times> shmc"
  u_flags :: u32
  u_new :: u64
  u_nval :: nat
  u_val :: "byte list"

text \<open>A check says whether the program goes on.\<close>

type_synonym check = "ustate \<Rightarrow> (bool \<times> ustate) option"

fun run_checks :: "check list \<Rightarrow> check" where
  "run_checks [] u = Some (True, u)"
| "run_checks (c # cs) u = do { (go, u) \<leftarrow> c u; if go then run_checks cs u else Some (False, u) }"

text \<open>The function \<open>test\<close>, which ends the process with \<open>exit(1)\<close>, as the line it prints.\<close>

definition test_line :: "bool \<Rightarrow> string \<Rightarrow> string \<Rightarrow> string option \<Rightarrow> byte list" where
  "test_line b ok err extra =
     (if b then line (''[OK]    '' @ ok)
      else line (''[ERROR] '' @ err @ (case extra of None \<Rightarrow> [] | Some x \<Rightarrow> CHR '':'' # x)))"

definition test :: "bool \<Rightarrow> string \<Rightarrow> string \<Rightarrow> string option \<Rightarrow> ustate \<Rightarrow> bool \<times> ustate" where
  "test b ok err extra u = (b, u\<lparr>u_out := u_out u @ test_line b ok err extra\<rparr>)"

definition x_bytes :: "char \<Rightarrow> nat \<Rightarrow> byte list" where
  "x_bytes c len = replicate len (of_char c)"

section \<open>Calls and what is expected of them\<close>

definition unit_token :: string where "unit_token = ''/tmp/shmc.mmap''"

definition unit_key :: "process \<Rightarrow> buf" where
  "unit_key e = Buf (p_argv e 0) (cstr ''shmc'')"

abbreviation rc_text :: "process \<Rightarrow> shmc_rc \<Rightarrow> string option" where
  "rc_text e rc \<equiv> Some (shmc_error (p_errno e) rc)"

text \<open>A storing call that is expected to return \<open>want\<close>; \<open>extra_ok\<close> is what else the check asks for.\<close>

definition expect :: "process \<Rightarrow> storing \<Rightarrow> byte list \<Rightarrow> u32 \<Rightarrow> shmc_rc \<Rightarrow> bool \<Rightarrow> string \<Rightarrow> string \<Rightarrow> check" where
  "expect e call val f want extra_ok ok err u = do {
     (rc, S) \<leftarrow> call (p_agent e) (unit_key e) 4 val (length val) f (u_seg u);
     Some (test (rc = want \<and> extra_ok) ok err (rc_text e rc) (u\<lparr>u_seg := S\<rparr>))
   }"

definition expect_del :: "process \<Rightarrow> check" where
  "expect_del e u = do {
     (rc, S) \<leftarrow> shmc_del (p_agent e) (unit_key e) 4 (u_seg u);
     Some (test (rc = SHMC_OK) ''shmc_del ok'' ''shmc_del error'' (rc_text e rc) (u\<lparr>u_seg := S\<rparr>))
   }"

text \<open>A counter call; \<open>new_val\<close> and \<open>flags\<close> are written when it succeeds.\<close>

definition expect_number ::
  "process \<Rightarrow> (agent \<Rightarrow> buf \<Rightarrow> nat \<Rightarrow> u64 \<Rightarrow> u32 option \<Rightarrow> locks \<times> shmc \<Rightarrow> ((shmc_rc \<times> (u64 \<times> u32 option) option) \<times> locks \<times> shmc) option)
   \<Rightarrow> u64 \<Rightarrow> u64 \<Rightarrow> string \<Rightarrow> string \<Rightarrow> check" where
  "expect_number e call n want ok err u = do {
     ((rc, out), S) \<leftarrow> call (p_agent e) (unit_key e) 4 n (Some (u_flags u)) (u_seg u);
     let u = u\<lparr>u_seg := S\<rparr>;
     let u = (case out of Some (m, Some f) \<Rightarrow> u\<lparr>u_new := m, u_flags := f\<rparr> | _ \<Rightarrow> u);
     Some (test (rc = SHMC_OK \<and> u_new u = want \<and> u_flags u = 1) ok err (rc_text e rc) u)
   }"

text \<open>A lookup; the check \<open>good\<close> is on \<open>val\<close> and \<open>nval\<close>.\<close>

definition expect_value :: "process \<Rightarrow> (byte list \<Rightarrow> nat \<Rightarrow> bool) \<Rightarrow> string \<Rightarrow> string \<Rightarrow> bool \<Rightarrow> check" where
  "expect_value e good ok err extra u = do {
     ((rc, out), S) \<leftarrow> shmc_get (p_agent e) (unit_key e) 4 (p_malloc e) (u_seg u);
     let u = u\<lparr>u_seg := S\<rparr>;
     let u = (case out of Some (v, f) \<Rightarrow> u\<lparr>u_val := v, u_nval := length v, u_flags := f\<rparr> | None \<Rightarrow> u);
     Some (test (rc = SHMC_OK \<and> good (u_val u) (u_nval u) \<and> u_flags u = 64) ok err (if extra then rc_text e rc else None) u)
   }"

text \<open>\<open>shmc_getf\<close> into \<open>char buffer[32]\<close>, with \<open>nval\<close> as the previous call has left it.\<close>

definition expect_getf :: "process \<Rightarrow> check" where
  "expect_getf e u = do {
     ((rc, out), S) \<leftarrow> shmc_getf (p_agent e) (unit_key e) 4 (u_nval u) (u_seg u);
     let u = u\<lparr>u_seg := S\<rparr>;
     u \<leftarrow> (case out of
        Some (v, f) \<Rightarrow> do { guard (length v \<le> 32); Some (u\<lparr>u_nval := length v, u_flags := f\<rparr>) }
      | None \<Rightarrow> Some u);
     Some (test (rc = SHMC_OK \<and> u_nval u = 16 \<and> u_flags u = 64) ''shmc_getf ok'' ''shmc_getf error'' (rc_text e rc) u)
   }"

text \<open>\<open>memcmp(val + off, x, len) == 0\<close>.\<close>

definition same_bytes :: "byte list \<Rightarrow> nat \<Rightarrow> byte list \<Rightarrow> nat \<Rightarrow> bool" where
  "same_bytes val off xs len \<longleftrightarrow> take len (drop off val) = take len xs"

section \<open>Creating and attaching\<close>

text \<open>The mapping is shared: the file holds the segment as the parent sees it.\<close>

definition shown :: "ustate \<Rightarrow> files" where
  "shown u = (u_files u)(unit_token \<mapsto> Image SHMC_VERSION (snd (u_seg u)))"

definition expect_missing :: "process \<Rightarrow> check" where
  "expect_missing e u = do {
     (rc, h, fs) \<leftarrow> shmc_init (p_sys e) (u_files u) unit_token None;
     Some (test (rc = SHMC_ETOKEN) ''shmc_init expect etoken ok'' ''shmc_init error'' (rc_text e rc) (u\<lparr>u_files := fs\<rparr>))
   }"

text \<open>\<open>shmc_init\<close> writes the attributes it has fixed back through its argument.\<close>

definition create :: "process \<Rightarrow> check" where
  "create e u = do {
     let a = shmc_attr_set_default_counter True SHMC_ATTR_INITIALIZER;
     (rc, h, fs) \<leftarrow> shmc_init (p_sys e) (u_files u) unit_token (Some a);
     let u = u\<lparr>u_files := fs, u_attr := fix_attr a\<rparr>;
     let u = (case h of Some s \<Rightarrow> u\<lparr>u_seg := (no_locks, s)\<rparr> | None \<Rightarrow> u);
     Some (test (rc = SHMC_OK) ''shmc_init create ok'' ''shmc_init create error'' (rc_text e rc) u)
   }"

definition expect_exists :: "process \<Rightarrow> check" where
  "expect_exists e u = do {
     (rc, h, fs) \<leftarrow> shmc_init (p_sys e) (shown u) unit_token (Some (u_attr u));
     Some (test (rc = SHMC_ECREATE) ''shmc_init expect ecreate ok'' ''shmc_init error'' (rc_text e rc) (u\<lparr>u_files := fs\<rparr>))
   }"

text \<open>A child that fails ends itself only.\<close>

definition child :: "check \<Rightarrow> check" where
  "child c u = do { (go, u') \<leftarrow> c u; Some (True, u\<lparr>u_out := u_out u'\<rparr>) }"

definition attach_detach :: "process \<Rightarrow> check" where
  "attach_detach e u = do {
     (rc, h, fs) \<leftarrow> shmc_init (p_sys e) (shown u) unit_token None;
     let (go, u) = test (rc = SHMC_OK) ''shmc_init attach ok'' ''shmc_init attach error'' (rc_text e rc) u;
     if go then do { s \<leftarrow> h; Some (True, u\<lparr>u_files := snd (shmc_destroy fs unit_token s)\<rparr>) } else Some (False, u)
   }"

section \<open>The programs\<close>

text \<open>The attached processes at the end look for the value of 16 bytes.\<close>

definition find_x16 :: "process \<Rightarrow> string \<Rightarrow> string \<Rightarrow> check" where
  "find_x16 e ok err u = do {
     (rc, h, fs) \<leftarrow> shmc_init (p_sys e) (u_files u) unit_token None;
     let (go, u) = test (rc = SHMC_OK) ok err (rc_text e rc) u;
     if \<not> go then Some (False, u) else do {
       s \<leftarrow> h;
       ((rc, out), S) \<leftarrow> shmc_get (p_agent e) (unit_key e) 4 (p_malloc e) (no_locks, s);
       let u = (case out of Some (v, f) \<Rightarrow> u\<lparr>u_val := v, u_nval := length v\<rparr> | None \<Rightarrow> u);
       let (go, u) = test (rc = SHMC_OK \<and> u_nval u = 16 \<and> same_bytes (u_val u) 0 (x_bytes CHR ''a'' 16) 16)
         ''shmc_get ok'' ''shmc_get error'' (rc_text e rc) u;
       Some (go, if go then u\<lparr>u_files := snd (shmc_destroy fs unit_token (snd S))\<rparr> else u)
     }
   }"

definition reader :: "process \<Rightarrow> check" where
  "reader e = find_x16 e ''shmc_init attach ok as unrelated process'' ''shmc_init attach error as unrelated process''"

text \<open>\<open>execv\<close> only returns when it fails.\<close>

definition last_child :: "bool \<Rightarrow> process \<Rightarrow> check" where
  "last_child execs e = run_checks
     [find_x16 e ''shmc_init attach ok in related process'' ''shmc_init attach error in related process'',
      \<lambda>u. if execs then reader e u else Some (test True ''startup reader'' ''can't startup reader'' None u)]"

definition unit_setup :: "process \<Rightarrow> process \<Rightarrow> check list" where
  "unit_setup e ch =
     [expect_missing e, create e, expect_exists e, child (expect_exists ch), child (attach_detach ch), child (attach_detach ch)]"

definition unit_counting :: "process \<Rightarrow> check list" where
  "unit_counting e =
     [\<lambda>u. expect_number e shmc_incr 5 5 ''5 after shmc_incr'' ''shmc_incr error'' (u\<lparr>u_flags := 1\<rparr>),
      expect_number e shmc_decr 3 2 ''2 after shmc_decr'' ''shmc_decr error'',
      expect_number e shmc_decr 7 0 ''0 after shmc_decr'' ''shmc_decr error'']"

definition unit_missing :: "process \<Rightarrow> check list" where
  "unit_missing e =
     [\<lambda>u. expect e shmc_add (x_bytes CHR ''b'' 32) (u_flags u) SHMC_EXIST True ''shmc_add expect exist ok'' ''shmc_add error'' u,
      \<lambda>u. expect e shmc_set (x_bytes CHR ''b'' 32) (u_flags u) SHMC_OK True ''shmc_set ok'' ''shmc_set error'' u,
      expect_del e,
      \<lambda>u. expect e shmc_replace (x_bytes CHR ''d'' 96) (u_flags u) SHMC_NOTFOUND True ''shmc_replace expect notfound ok'' ''shmc_replace error'' u,
      \<lambda>u. expect e shmc_prepend (x_bytes CHR ''c'' 64) (u_flags u) SHMC_NOTFOUND True ''shmc_prepend expect notfound ok'' ''shmc_prepend error'' u,
      \<lambda>u. expect e shmc_append (x_bytes CHR ''b'' 32) (u_flags u) SHMC_NOTFOUND True ''shmc_append expect notfound ok'' ''shmc_append error'' u]"

definition unit_values :: "process \<Rightarrow> check list" where
  "unit_values e =
     (let x16 = x_bytes CHR ''a'' 16; x32 = x_bytes CHR ''b'' 32; x64 = x_bytes CHR ''c'' 64; x96 = x_bytes CHR ''d'' 96 in
     [\<lambda>u. expect e shmc_add x32 32 SHMC_OK True ''shmc_add ok'' ''shmc_add error'' (u\<lparr>u_flags := 32\<rparr>),
      \<lambda>u. expect e shmc_replace x64 64 SHMC_OK True ''shmc_replace ok'' ''shmc_replace error'' (u\<lparr>u_flags := 64\<rparr>),
      expect_value e (\<lambda>v n. n = 64 \<and> same_bytes v 0 x64 n) ''value after replace ok'' ''value after replace error'' False,
      \<lambda>u. expect e shmc_prepend x16 (u_flags u) SHMC_OK True ''shmc_prepend ok'' ''shmc_prepend error'' u,
      expect_value e (\<lambda>v n. n = 16 + 64 \<and> same_bytes v 0 x16 16 \<and> same_bytes v 16 x64 64)
        ''value after prepend ok'' ''value after prepend error'' True,
      \<lambda>u. expect e shmc_append x96 (u_flags u) SHMC_OK (u_flags u = 64) ''shmc_append ok'' ''shmc_append error'' u,
      expect_value e (\<lambda>v n. n = 16 + 64 + 96 \<and> same_bytes v 0 x16 16 \<and> same_bytes v 16 x64 64 \<and> same_bytes v (16 + 64) x96 96)
        ''value after append ok'' ''value after append error'' True])"

definition unit_getf :: "process \<Rightarrow> check list" where
  "unit_getf e =
     [expect e shmc_replace (x_bytes CHR ''a'' 16) 0 SHMC_OK True ''shmc_replace ok'' ''shmc replace error'', expect_getf e]"

definition unit_end :: "bool \<Rightarrow> process \<Rightarrow> check list" where
  "unit_end execs ch =
     [\<lambda>u. Some (True, u\<lparr>u_files := snd (shmc_destroy (u_files u) unit_token (snd (u_seg u)))\<rparr>), child (last_child execs ch)]"

text \<open>The variables that C leaves uninitialised are those of \<open>u\<close>.\<close>

definition unit_main :: "bool \<Rightarrow> process \<Rightarrow> process \<Rightarrow> ustate \<Rightarrow> (int \<times> ustate) option" where
  "unit_main execs e ch u = do {
     (go, u) \<leftarrow> run_checks (unit_setup e ch @ unit_counting e @ unit_missing e @ unit_values e @ unit_getf e @ unit_end execs ch)
       (u\<lparr>u_out := [], u_files := (u_files u)(unit_token := None)\<rparr>);
     Some (if go then 0 else 1, u)
   }"

end
