(* ===== verification/Unit_Properties.thy ===== *)
theory Unit_Properties
  imports Unit_Test
begin

text \<open>
  What the test of the library comes to on a machine where nothing fails. The store has at most one
  entry, in one of the two smallest classes; a check is a step from one such store to the next.
\<close>

section \<open>Stores with at most one entry\<close>

definition small :: "conf \<Rightarrow> bool" where
  "small cf \<longleftrightarrow> cf_sizes cf = pows 7 20 \<and> item_size_max (cf_attr cf) = 2 ^ 20 \<and> default_counter (cf_attr cf)"

abbreviation K :: "byte list" where "K \<equiv> text_of ''shmc''"

text \<open>The entry and its class; every other small class has a free chunk.\<close>

definition alone :: "(nat \<times> entry) option \<Rightarrow> astore \<Rightarrow> bool" where
  "alone x A \<longleftrightarrow> (\<forall>c. a_lru A c = (case x of Some (d, e) \<Rightarrow> if c = d then [e] else [] | None \<Rightarrow> []))
     \<and> (case x of Some (d, e) \<Rightarrow> d < 2 \<and> e_key e = K | None \<Rightarrow> True)
     \<and> (\<forall>c < 2. (\<forall>e. x \<noteq> Some (c, e)) \<longrightarrow> a_free A c \<noteq> [])"

abbreviation entry_in :: "nat \<Rightarrow> byte list \<Rightarrow> u32 \<Rightarrow> (nat \<times> entry) option" where
  "entry_in c v f \<equiv> Some (c, \<lparr>e_key = K, e_val = v, e_flags = f\<rparr>)"

lemma small_class:
  assumes "small cf"
  shows "t \<le> 128 \<Longrightarrow> class_for cf t = Some 0" "128 < t \<Longrightarrow> t \<le> 256 \<Longrightarrow> class_for cf t = Some 1"
  using assms by (simp_all add: small_def class_for_def upt_rec)

lemma less_2: "c < (2 :: nat) \<longleftrightarrow> c = 0 \<or> c = 1"
  by auto

lemma alone_find:
  assumes "small cf" and "alone x A"
  shows "a_find cf A K = x"
proof (cases x)
  case None
  then show ?thesis using assms by (simp add: alone_def a_find_def find_None_iff)
next
  case (Some de)
  obtain d e where x: "x = Some (d, e)" using Some by (cases de) auto
  then have A: "a_lru A c = (if c = d then [e] else [])" "d < 2" "e_key e = K" for c
    using assms(2) by (simp_all add: alone_def)
  have "length (cf_sizes cf) = 13" using assms(1) by (simp add: small_def)
  then show ?thesis unfolding x a_find_def by (intro find_unique) (use A in \<open>auto split: if_splits\<close>)
qed

lemma alone_take:
  assumes "alone None A" and "c < 2" and "e_key e = K"
  shows "\<exists>f A'. a_take cf c A = Some (f, A') \<and> alone (Some (c, e)) (a_push A' c e)"
proof -
  obtain f fs where "a_free A c = f # fs" using assms by (cases "a_free A c") (auto simp: alone_def)
  then show ?thesis using assms by (auto simp: a_take_def alone_def a_push_def)
qed

lemma alone_drop: "alone (Some (c, e)) A \<Longrightarrow> alone None (a_drop A c e)"
  by (auto simp: alone_def a_drop_def a_release_def a_remove_def without_def)

lemma alone_touch: "alone (Some (c, e)) A \<Longrightarrow> e_key e' = K \<Longrightarrow> alone (Some (c, e')) (a_touch A c e')"
  by (auto simp: alone_def a_touch_def without_def)

section \<open>The operations on such stores\<close>

lemma del_alone:
  assumes "small cf" and "alone x A"
  shows "\<exists>A'. a_del cf A K = (if x = None then SHMC_NOTFOUND else SHMC_OK, A') \<and> alone None A'"
  using alone_find [OF assms] assms(2) alone_drop by (cases x) (auto simp: a_del_def)

lemma set_alone_abs:
  assumes "small cf" and "alone x A" and "class_for cf (size_for 4 (length v)) = Some c" and "c < 2" and "length v < 1000"
  shows "\<exists>A'. a_set cf A K v f = Some (SHMC_OK, A') \<and> alone (entry_in c v f) A'"
proof -
  obtain A1 where A1: "snd (a_del cf A K) = A1" "alone None A1" using del_alone [OF assms(1,2)] by auto
  obtain g A2 where A2: "a_take cf c A1 = Some (g, A2)" "alone (entry_in c v f) (a_push A2 c \<lparr>e_key = K, e_val = v, e_flags = f\<rparr>)"
    using alone_take [OF A1(2) assms(4), of "\<lparr>e_key = K, e_val = v, e_flags = f\<rparr>" cf] by auto
  have k: "length K = 4" by (simp add: text_of_def)
  have "size_ok cf (size_for 4 (length v))" using assms(1,5) by (simp add: small_def size_for_def)
  then show ?thesis using A1(1) A2 assms(3) by (simp add: a_set_def k Let_def)
qed

lemma replace_alone:
  assumes "small cf" and "alone (entry_in d w g) A" and "class_for cf (size_for 4 (length v)) = Some c" and "c < 2" and "length v < 1000"
  shows "\<exists>A'. a_replace cf A K v f = Some (SHMC_OK, A') \<and> alone (entry_in c v f) A'"
proof -
  have k: "length K = 4" by (simp add: text_of_def)
  show ?thesis
    using alone_find [OF assms(1,2)] set_alone_abs [OF assms(1) alone_drop [OF assms(2)] assms(3-5), of f] assms(2,3)
      alone_touch [OF assms(2), of "\<lparr>e_key = K, e_val = v, e_flags = f\<rparr>"]
    by (auto simp: a_replace_def k)
qed

lemma grow_alone:
  assumes "small cf" and "alone (entry_in c w g) A" and "class_for cf (size_for 4 (length (join w))) = Some c"
  shows "\<exists>A'. a_grow cf A K join f = Some (SHMC_OK, A') \<and> alone (entry_in c (join w) f) A'"
proof -
  have k: "length K = 4" by (simp add: text_of_def)
  show ?thesis
    using alone_find [OF assms(1,2)] alone_touch [OF assms(2), of "\<lparr>e_key = K, e_val = join w, e_flags = f\<rparr>"] assms(3)
    by (auto simp: a_grow_def k)
qed

lemma counter_alone:
  assumes "small cf"
  shows "alone None A \<Longrightarrow> \<exists>A'. a_arith cf A K n incr (Some f) = Some (SHMC_OK, Some (counter_op incr 0 n, Some f), A')
      \<and> alone (entry_in 0 (counter_text (counter_op incr 0 n)) f) A'"
    "alone (entry_in c v f) A \<Longrightarrow> length v = UINT64_SIZE \<Longrightarrow>
      \<exists>A'. a_arith cf A K n incr (Some g) = Some (SHMC_OK, Some (counter_op incr (counter_val v) n, Some f), A')
      \<and> alone (entry_in c (over v (counter_op incr (counter_val v) n)) f) A'"
proof -
  have k: "length K = 4" by (simp add: text_of_def)
  assume A: "alone None A"
  let ?e = "\<lparr>e_key = K, e_val = counter_text (counter_op incr 0 n), e_flags = f\<rparr>"
  obtain g A2 where A2: "a_take cf 0 A = Some (g, A2)" "alone (Some (0, ?e)) (a_push A2 0 ?e)"
    using alone_take [OF A, of 0 ?e cf] by auto
  have "class_for cf (size_for 4 UINT64_SIZE) = Some 0" "size_ok cf (size_for 4 UINT64_SIZE)" "default_counter (cf_attr cf)"
    using small_class(1) [OF assms, of "size_for 4 UINT64_SIZE"] assms by (simp_all add: size_for_def UINT64_SIZE_def small_def)
  then show "\<exists>A'. a_arith cf A K n incr (Some f) = Some (SHMC_OK, Some (counter_op incr 0 n, Some f), A')
      \<and> alone (entry_in 0 (counter_text (counter_op incr 0 n)) f) A'"
    using alone_find [OF assms A] A2 by (simp add: a_arith_def k Let_def)
next
  assume A: "alone (entry_in c v f) A" "length v = UINT64_SIZE"
  have "alone (entry_in c (over v m) f) (a_set_val A c K (over v m))" for m
    using A(1) by (auto simp: alone_def a_set_val_def)
  then show "\<exists>A'. a_arith cf A K n incr (Some g) = Some (SHMC_OK, Some (counter_op incr (counter_val v) n, Some f), A')
      \<and> alone (entry_in c (over v (counter_op incr (counter_val v) n)) f) A'"
    using alone_find [OF assms A(1)] A(2) by (simp add: a_arith_def Let_def)
qed

section \<open>Checks that pass\<close>

definition stands :: "(nat \<times> entry) option \<Rightarrow> u32 \<Rightarrow> nat \<Rightarrow> byte list \<Rightarrow> ustate \<Rightarrow> bool" where
  "stands x fl nv out u \<longleftrightarrow> (\<exists>s A. u_seg u = (no_locks, s) \<and> implements s A \<and> small (conf_of s) \<and> alone x A)
     \<and> u_flags u = fl \<and> u_nval u = nv \<and> u_out u = out"

definition passes :: "(ustate \<Rightarrow> bool) \<Rightarrow> check list \<Rightarrow> (ustate \<Rightarrow> bool) \<Rightarrow> bool" where
  "passes P cs Q \<longleftrightarrow> (\<forall>u. P u \<longrightarrow> (\<exists>u'. run_checks cs u = Some (True, u') \<and> Q u'))"

lemma passesD: "passes P cs Q \<Longrightarrow> P u \<Longrightarrow> \<exists>u'. run_checks cs u = Some (True, u') \<and> Q u'"
  by (simp add: passes_def)

lemma passes_Nil: "passes P [] P"
  by (simp add: passes_def)

lemma passes_Cons:
  "(\<And>u. P u \<Longrightarrow> \<exists>u'. c u = Some (True, u') \<and> R u') \<Longrightarrow> passes R cs Q \<Longrightarrow> passes P (c # cs) Q"
  unfolding passes_def by fastforce

lemma run_checks_append:
  "run_checks (cs @ ds) u = do { (go, u) \<leftarrow> run_checks cs u; if go then run_checks ds u else Some (False, u) }"
  by (induction cs arbitrary: u) (auto split: Option.bind_split)

abbreviation ok_line :: "string \<Rightarrow> byte list" where
  "ok_line ok \<equiv> line (''[OK]    '' @ ok)"

lemma unit_key_facts: "4 \<le> length (buf_bytes (unit_key e))" "buf_key (unit_key e) 4 = K" "length K = 4"
  by (simp_all add: unit_key_def cstr_def text_of_def buf_key_def)

lemma pass_storing:
  assumes "stands x fl nv out u" and ex: "extra_ok"
    and wr: "\<And>x key nkey val nval f. call x key nkey val nval f = under_wrlock x (\<lambda>s. nolock s key nkey val nval f)"
    and op: "\<And>s A. implements s A \<Longrightarrow> small (conf_of s) \<Longrightarrow> alone x A \<Longrightarrow>
      \<exists>A'. refines (nolock s (unit_key e) 4 val (length val) f) (conf_of s) (Some (want, A')) \<and> alone y A'"
  shows "\<exists>u'. expect e call val f want extra_ok ok err u = Some (True, u') \<and> stands y fl nv (out @ ok_line ok) u'"
proof -
  obtain s A where s: "u_seg u = (no_locks, s)" "implements s A" "small (conf_of s)" "alone x A"
      "u_flags u = fl" "u_nval u = nv" "u_out u = out" using assms(1) by (auto simp: stands_def)
  obtain A' where A': "refines (nolock s (unit_key e) 4 val (length val) f) (conf_of s) (Some (want, A'))" "alone y A'"
    using op [OF s(2-4)] by blast
  obtain s' where s': "call (p_agent e) (unit_key e) 4 val (length val) f (no_locks, s) = Some (want, no_locks, s')"
      "implements s' A'" "conf_of s' = conf_of s"
    using under_refines [of "\<lambda>s. nolock s (unit_key e) 4 val (length val) f" s want A' "p_agent e"] A'(1) by (auto simp: wr)
  show ?thesis using s s' A'(2) ex by (auto simp: expect_def test_def test_line_def stands_def)
qed

lemmas key_refines =
  set_refines [OF _ unit_key_facts(1), unfolded unit_key_facts(2)] add_refines [OF _ unit_key_facts(1), unfolded unit_key_facts(2)]
  replace_refines [OF _ unit_key_facts(1), unfolded unit_key_facts(2)]
  prepend_refines [OF _ unit_key_facts(1), unfolded unit_key_facts(2)]
  append_refines [OF _ unit_key_facts(1), unfolded unit_key_facts(2)]

text \<open>The size class of a value.\<close>

definition fits :: "nat \<Rightarrow> nat \<Rightarrow> bool" where
  "fits n c \<longleftrightarrow> (c = 0 \<and> n \<le> 60) \<or> (c = 1 \<and> 60 < n \<and> n \<le> 188)"

lemma fitsD: "fits n c \<Longrightarrow> small cf \<Longrightarrow> class_for cf (size_for 4 n) = Some c" "fits n c \<Longrightarrow> c < 2" "fits n c \<Longrightarrow> n < 1000"
  using small_class [of cf "size_for 4 n"] by (auto simp: fits_def size_for_def)

lemma pass_set:
  assumes "stands x fl nv out u" and "extra_ok" and c: "fits (length v) c"
  shows "\<exists>u'. expect e shmc_set v f SHMC_OK extra_ok ok err u = Some (True, u') \<and> stands (entry_in c v f) fl nv (out @ ok_line ok) u'"
  by (rule pass_storing [OF assms(1,2) shmc_set_def])
    (use key_refines(1) [of _ _ "length v" v e f] set_alone_abs [of _ x _ v c f] fitsD [OF c] in fastforce)

lemma pass_add:
  assumes "extra_ok"
  shows "stands (entry_in c w g) fl nv out u \<Longrightarrow> length v < 1000 \<Longrightarrow>
      \<exists>u'. expect e shmc_add v f SHMC_EXIST extra_ok ok err u = Some (True, u') \<and> stands (entry_in c w g) fl nv (out @ ok_line ok) u'"
    "stands None fl nv out u \<Longrightarrow> fits (length v) c \<Longrightarrow>
      \<exists>u'. expect e shmc_add v f SHMC_OK extra_ok ok err u = Some (True, u') \<and> stands (entry_in c v f) fl nv (out @ ok_line ok) u'"
proof -
  assume u: "stands (entry_in c w g) fl nv out u" "length v < 1000"
  then show "\<exists>u'. expect e shmc_add v f SHMC_EXIST extra_ok ok err u = Some (True, u') \<and> stands (entry_in c w g) fl nv (out @ ok_line ok) u'"
    using key_refines(2) [of _ _ "length v" v e f] alone_find
    by (intro pass_storing [OF u(1) assms shmc_add_def]) (fastforce simp: a_add_def)
next
  assume u: "stands None fl nv out u" and c: "fits (length v) c"
  then show "\<exists>u'. expect e shmc_add v f SHMC_OK extra_ok ok err u = Some (True, u') \<and> stands (entry_in c v f) fl nv (out @ ok_line ok) u'"
    using key_refines(2) [of _ _ "length v" v e f] alone_find set_alone_abs [of _ None _ v c f] fitsD [OF c]
    by (intro pass_storing [OF u assms shmc_add_def]) (fastforce simp: a_add_def)
qed

lemma pass_replace:
  assumes "stands (entry_in d w g) fl nv out u" and "extra_ok" and c: "fits (length v) c"
  shows "\<exists>u'. expect e shmc_replace v f SHMC_OK extra_ok ok err u = Some (True, u') \<and> stands (entry_in c v f) fl nv (out @ ok_line ok) u'"
  by (rule pass_storing [OF assms(1,2) shmc_replace_def])
    (use key_refines(3) [of _ _ "length v" v e f] replace_alone [of _ d w g _ v c f] fitsD [OF c] in fastforce)

lemma joins_alone: "small cf \<Longrightarrow> alone x A \<Longrightarrow> (case x of Some (c, e) \<Rightarrow> length (e_val e) < 1000 | None \<Rightarrow> True) \<Longrightarrow> n < 1000 \<Longrightarrow> joins cf A K n"
  using alone_find [of cf x A] by (auto simp: joins_def unit_key_facts(3) split: option.splits)

lemma pass_prepend:
  assumes "stands (entry_in c w g) fl nv out u" and "extra_ok" and c: "fits (length (v @ w)) c"
  shows "\<exists>u'. expect e shmc_prepend v f SHMC_OK extra_ok ok err u = Some (True, u') \<and> stands (entry_in c (v @ w) f) fl nv (out @ ok_line ok) u'"
  by (rule pass_storing [OF assms(1,2) shmc_prepend_def])
    (use key_refines(4) [of _ _ "length v" v e f] joins_alone [of _ "entry_in c w g" _ "length v"]
      grow_alone [of _ c w g _ "\<lambda>old. v @ old" f] fitsD [OF c] in \<open>fastforce simp: a_prepend_def\<close>)

lemma pass_append:
  assumes "stands (entry_in c w g) fl nv out u" and "extra_ok" and c: "fits (length (w @ v)) c"
  shows "\<exists>u'. expect e shmc_append v f SHMC_OK extra_ok ok err u = Some (True, u') \<and> stands (entry_in c (w @ v) f) fl nv (out @ ok_line ok) u'"
  by (rule pass_storing [OF assms(1,2) shmc_append_def])
    (use key_refines(5) [of _ _ "length v" v e f] joins_alone [of _ "entry_in c w g" _ "length v"]
      grow_alone [of _ c w g _ "\<lambda>old. old @ v" f] fitsD [OF c] in \<open>fastforce simp: a_append_def\<close>)

lemma pass_missing:
  assumes "stands None fl nv out u" and "extra_ok" and "length v < 1000"
  shows "\<exists>u'. expect e shmc_replace v f SHMC_NOTFOUND extra_ok ok err u = Some (True, u') \<and> stands None fl nv (out @ ok_line ok) u'"
    "\<exists>u'. expect e shmc_prepend v f SHMC_NOTFOUND extra_ok ok err u = Some (True, u') \<and> stands None fl nv (out @ ok_line ok) u'"
    "\<exists>u'. expect e shmc_append v f SHMC_NOTFOUND extra_ok ok err u = Some (True, u') \<and> stands None fl nv (out @ ok_line ok) u'"
  using key_refines(3-5) [of _ _ "length v" v e f] alone_find joins_alone [of _ None _ "length v"] assms(3)
  by (intro pass_storing [OF assms(1,2) shmc_replace_def] pass_storing [OF assms(1,2) shmc_prepend_def]
      pass_storing [OF assms(1,2) shmc_append_def]; fastforce simp: a_replace_def a_prepend_def a_append_def a_grow_def)+

lemma pass_del:
  assumes "stands (entry_in c v f) fl nv out u"
  shows "\<exists>u'. expect_del e u = Some (True, u') \<and> stands None fl nv (out @ ok_line ''shmc_del ok'') u'"
proof -
  obtain s A where s: "u_seg u = (no_locks, s)" "implements s A" "small (conf_of s)" "alone (entry_in c v f) A"
      "u_flags u = fl" "u_nval u = nv" "u_out u = out" using assms by (auto simp: stands_def)
  obtain A' where A': "a_del (conf_of s) A K = (SHMC_OK, A')" "alone None A'" using del_alone [OF s(3,4)] by auto
  obtain s' where "shmc_del (p_agent e) (unit_key e) 4 (no_locks, s) = Some (SHMC_OK, no_locks, s')" "implements s' A'" "conf_of s' = conf_of s"
    using under_refines [of "\<lambda>s. shmc_del_nolock s (unit_key e) 4" s SHMC_OK A' "p_agent e"] A'(1)
      del_refines [OF s(2) unit_key_facts(1) [of e]] by (auto simp: shmc_del_def unit_key_facts(2))
  then show ?thesis using s A'(2) by (auto simp: expect_del_def test_def test_line_def stands_def)
qed

text \<open>Counters: the call \<open>incr\<close> or \<open>decr\<close>, on a missing key and on a counter.\<close>

lemma pass_number:
  assumes u: "stands x fl nv out u" and f: "u_flags u = 1"
    and wr: "\<And>x key nkey n f. call x key nkey n f = under_wrlock x (\<lambda>s. paired (shmc_arithmetic s key nkey n incr f))"
    and op: "\<And>cf A. small cf \<Longrightarrow> alone x A \<Longrightarrow> \<exists>A'. a_arith cf A K n incr (Some 1) = Some (SHMC_OK, Some (want, Some 1), A') \<and> alone y A'"
  shows "\<exists>u'. expect_number e call n want ok err u = Some (True, u') \<and> stands y 1 nv (out @ ok_line ok) u'"
proof -
  obtain s A where s: "u_seg u = (no_locks, s)" "implements s A" "small (conf_of s)" "alone x A" "u_nval u = nv" "u_out u = out"
    using u by (auto simp: stands_def)
  obtain A' where A': "a_arith (conf_of s) A K n incr (Some 1) = Some (SHMC_OK, Some (want, Some 1), A')" "alone y A'"
    using op [OF s(3,4)] by blast
  obtain s' where "call (p_agent e) (unit_key e) 4 n (Some 1) (no_locks, s) = Some ((SHMC_OK, Some (want, Some 1)), no_locks, s')"
      "implements s' A'" "conf_of s' = conf_of s"
    using under_refines3 [of "\<lambda>s. shmc_arithmetic s (unit_key e) 4 n incr (Some 1)" s SHMC_OK "Some (want, Some 1)" A' "p_agent e"]
      arith_refines [OF s(2) unit_key_facts(1) [of e], of n incr "Some 1"] A'(1)
    by (auto simp: wr unit_key_facts(2) UINT64_SIZE_def)
  then show ?thesis using s A'(2) f by (auto simp: expect_number_def test_def test_line_def stands_def)
qed

lemma pass_value:
  assumes "stands (entry_in c v 64) fl nv out u" and "p_malloc e" and "good v (length v)"
  shows "\<exists>u'. expect_value e good ok err ex u = Some (True, u') \<and> stands (entry_in c v 64) 64 (length v) (out @ ok_line ok) u'"
proof -
  obtain s A where s: "u_seg u = (no_locks, s)" "implements s A" "small (conf_of s)" "alone (entry_in c v 64) A" "u_out u = out"
    using assms(1) by (auto simp: stands_def)
  obtain A' where A': "a_get (conf_of s) A K True = (SHMC_OK, Some (v, 64), A')" "alone (entry_in c v 64) A'"
    using alone_find [OF s(3,4)] alone_touch [OF s(4)] by (auto simp: a_get_def)
  obtain s' where "shmc_get (p_agent e) (unit_key e) 4 True (no_locks, s) = Some ((SHMC_OK, Some (v, 64)), no_locks, s')"
      "implements s' A'" "conf_of s' = conf_of s"
    using get_alone [OF s(2) unit_key_facts(1) [of e], of True SHMC_OK "Some (v, 64)" A' "p_agent e"] A'(1)
    by (auto simp: unit_key_facts(2))
  then show ?thesis using s A'(2) assms(2,3) by (auto simp: expect_value_def test_def test_line_def stands_def)
qed

text \<open>The last value has been stored with the flags 0, and \<open>shmc_getf\<close> writes them to \<open>flags\<close>.\<close>

lemma fail_getf:
  assumes "stands (entry_in c v 0) fl nv out u" and "length v = 16" and "16 \<le> nv"
  shows "\<exists>u'. expect_getf e u = Some (False, u') \<and> u_out u' = out @ line ''[ERROR] shmc_getf error:success''"
proof -
  obtain s A where s: "u_seg u = (no_locks, s)" "implements s A" "small (conf_of s)" "alone (entry_in c v 0) A" "u_nval u = nv" "u_out u = out"
    using assms(1) by (auto simp: stands_def)
  obtain A' where A': "a_getf (conf_of s) A K nv = (SHMC_OK, Some (v, 0), A')"
    using alone_find [OF s(3,4)] assms(2,3) by (auto simp: a_getf_def)
  obtain s' where "shmc_getf (p_agent e) (unit_key e) 4 nv (no_locks, s) = Some ((SHMC_OK, Some (v, 0)), no_locks, s')"
    using getf_alone [OF s(2) unit_key_facts(1) [of e], of nv SHMC_OK "Some (v, 0)" A' "p_agent e"] A'(1)
    by (auto simp: unit_key_facts(2))
  then show ?thesis using s assms(2) by (auto simp: expect_getf_def test_def test_line_def)
qed

section \<open>The parts of the test\<close>

definition created :: "byte list \<Rightarrow> ustate \<Rightarrow> bool" where
  "created out u \<longleftrightarrow> u_out u = out \<and> u_attr u = dflt \<and> (\<exists>s q. u_seg u = (no_locks, s)
     \<and> implements s (a_fresh (2 ^ 20) (pows 7 20)) \<and> conf_of s = conf_for q dflt (pows 7 20))"

lemma dflt_fixed: "fix_attr dflt = dflt" "shmc_attr_set_default_counter True dflt = dflt"
  by (simp_all add: fix_attr_def at_most_1_5_def SHMC_ATTR_INITIALIZER_def attr_setters)

lemma dflt_caller: "caller_ok dflt"
  by (simp add: caller_ok_def dflt_fixed) (simp add: SHMC_ATTR_INITIALIZER_def)

lemma dflt_pool: "pool_need (item_size_max dflt) (pows 7 20) < mem_limit dflt"
proof -
  have "pool_need (item_size_max dflt) (pows 7 20) \<le> length (pows 7 20) * item_size_max dflt"
    by (rule pool_need_bound)
  also have "\<dots> < mem_limit dflt" by (simp add: SHMC_ATTR_INITIALIZER_def)
  finally show ?thesis .
qed

lemma pass_create:
  assumes "works (p_sys e) q" and "u_files u unit_token = None" and "u_out u = out"
  shows "\<exists>u'. create e u = Some (True, u') \<and> created (out @ ok_line ''shmc_init create ok'') u'"
proof -
  have m: "item_size_max dflt = 2 ^ 20" by (simp add: SHMC_ATTR_INITIALIZER_def)
  have l: "length (pows 7 20) = 13" by simp
  have z: "count_of_slabs (fix_attr dflt) = Some (length (pows 7 20))"
    "size_seq (item_size_factor (fix_attr dflt)) (length (pows 7 20)) (sizeof_item + item_size_min dflt) = Some (pows 7 20)"
    by (simp_all only: dflt_fixed l dflt_sizes)
  obtain s where "shmc_init (p_sys e) (u_files u) unit_token (Some dflt)
        = Some (SHMC_OK, Some s, (u_files u)(unit_token \<mapsto> Image SHMC_VERSION s))"
      "implements s (a_fresh (2 ^ 20) (pows 7 20))" "conf_of s = conf_for q dflt (pows 7 20)"
    using init_fresh [of dflt "p_sys e" q "u_files u" unit_token, OF dflt_caller assms(1,2) z dflt_pool]
    unfolding m dflt_fixed(1) by blast
  then show ?thesis using assms(3) by (auto simp: create_def created_def dflt_fixed test_def test_line_def Let_def)
qed

lemma pass_missing_token:
  "malloc_works (p_sys e) \<Longrightarrow> u_files u unit_token = None \<Longrightarrow> u_out u = out \<Longrightarrow>
     \<exists>u'. expect_missing e u = Some (True, u') \<and> u_files u' unit_token = None \<and> u_out u' = out @ ok_line ''shmc_init expect etoken ok''"
  by (simp add: expect_missing_def shmc_init_def mmap_attach_def test_def test_line_def)

lemma pass_exists:
  "malloc_works (p_sys e) \<Longrightarrow> created out u \<Longrightarrow>
     \<exists>u'. expect_exists e u = Some (True, u') \<and> created (out @ ok_line ''shmc_init expect ecreate ok'') u'"
  by (auto simp: expect_exists_def shmc_init_def mmap_create_def shown_def created_def test_def test_line_def)

lemma pass_child:
  assumes "\<exists>u'. c u = Some (g, u') \<and> u_out u' = out'" and "created out u"
  shows "\<exists>u'. child c u = Some (True, u') \<and> created out' u'"
  using assms by (auto simp: child_def created_def)

lemma pass_attach:
  assumes "attaches ch" and "created out u"
  shows "\<exists>u'. attach_detach ch u = Some (True, u') \<and> u_out u' = out @ ok_line ''shmc_init attach ok''"
proof -
  obtain s q where s: "u_seg u = (no_locks, s)" "implements s (a_fresh (2 ^ 20) (pows 7 20))" "conf_of s = conf_for q dflt (pows 7 20)"
    using assms(2) by (auto simp: created_def)
  have "token_holds (shown u) unit_token dflt (pows 7 20) (a_fresh (2 ^ 20) (pows 7 20))"
    using s by (auto simp: token_holds_def shown_def)
  from token_attach [OF this _ assms(1)] obtain s' where "shmc_init (p_sys ch) (shown u) unit_token None = Some (SHMC_OK, Some s', shown u)"
    using dflt_sizes(1) by auto
  then show ?thesis using assms(2) by (auto simp: attach_detach_def created_def test_def test_line_def Let_def)
qed

lemma created_stands: "created out u \<Longrightarrow> stands None (u_flags u) (u_nval u) out u"
proof -
  have "alone None (a_fresh (2 ^ 20) (pows 7 20))" by (auto simp: alone_def a_fresh_def less_2)
  moreover have "small (conf_for q dflt (pows 7 20))" for q
    by (simp add: small_def conf_for_def) (simp add: SHMC_ATTR_INITIALIZER_def)
  moreover assume "created out u"
  ultimately show ?thesis by (auto simp: created_def stands_def)
qed

abbreviation after :: "byte list \<Rightarrow> string list \<Rightarrow> byte list" where
  "after out oks \<equiv> out @ concat (map ok_line oks)"

lemma setup_passes:
  assumes "works (p_sys e) q" and "attaches ch"
  shows "passes (\<lambda>u. u_files u unit_token = None \<and> u_out u = []) (unit_setup e ch)
    (created (after [] [''shmc_init expect etoken ok'', ''shmc_init create ok'', ''shmc_init expect ecreate ok'',
       ''shmc_init expect ecreate ok'', ''shmc_init attach ok'', ''shmc_init attach ok'']))"
proof -
  have m: "malloc_works (p_sys e)" "malloc_works (p_sys ch)" using assms by (simp_all add: works_def attaches_def)
  have ex: "\<exists>u'. child (expect_exists ch) u = Some (True, u') \<and> created (out @ ok_line ''shmc_init expect ecreate ok'') u'"
    if "created out u" for out u
    using pass_child [OF _ that, of "expect_exists ch" True] pass_exists [OF m(2) that] by (fastforce simp: created_def)
  have at: "\<exists>u'. child (attach_detach ch) u = Some (True, u') \<and> created (out @ ok_line ''shmc_init attach ok'') u'"
    if "created out u" for out u
    using pass_child [of "attach_detach ch" u True "out @ ok_line ''shmc_init attach ok''" out] pass_attach [OF assms(2) that] that by blast
  have "passes (\<lambda>u. u_files u unit_token = None \<and> u_out u = []) (unit_setup e ch)
    (created ((((([] @ ok_line ''shmc_init expect etoken ok'') @ ok_line ''shmc_init create ok'') @ ok_line ''shmc_init expect ecreate ok'')
       @ ok_line ''shmc_init expect ecreate ok'') @ ok_line ''shmc_init attach ok'' @ ok_line ''shmc_init attach ok''))"
    unfolding unit_setup_def append_assoc [of _ _ "ok_line ''shmc_init attach ok''", symmetric]
    apply (rule passes_Cons [where R = "\<lambda>u. u_files u unit_token = None \<and> u_out u = [] @ ok_line ''shmc_init expect etoken ok''"])
     apply (use pass_missing_token [OF m(1)] in blast)
    apply (rule passes_Cons, erule conjE, erule (1) pass_create [OF assms(1)])
    apply (rule passes_Cons, erule pass_exists [OF m(1)])
    apply (rule passes_Cons, erule ex)
    apply (rule passes_Cons, erule at)
    apply (rule passes_Cons, erule at)
    apply (rule passes_Nil)
    done
  then show ?thesis by (simp only: list.map concat.simps append_assoc append_Nil append_Nil2)
qed

text \<open>The flags are set to 1 by an initialiser.\<close>

lemma counting_passes:
  assumes "stands None fl nv out u"
  shows "\<exists>u' v. run_checks (unit_counting e) u = Some (True, u')
    \<and> stands (entry_in 0 v 1) 1 nv (after out [''5 after shmc_incr'', ''2 after shmc_decr'', ''0 after shmc_decr'']) u'"
proof -
  have wr: "shmc_incr x key nkey n f = under_wrlock x (\<lambda>s. paired (shmc_arithmetic s key nkey n True f))"
    "shmc_decr x key nkey n f = under_wrlock x (\<lambda>s. paired (shmc_arithmetic s key nkey n False f))" for x key nkey n f
    by (simp_all add: shmc_incr_def shmc_decr_def shmc_incr_nolock_def shmc_decr_nolock_def)
  have first: "\<exists>u'. expect_number e shmc_incr 5 5 ok err (u\<lparr>u_flags := 1\<rparr>) = Some (True, u')
      \<and> stands (entry_in 0 (counter_text 5) 1) 1 nv (o1 @ ok_line ok) u'" if "stands None fl nv o1 u" for fl nv o1 u ok err
    by (rule pass_number [where x = None and fl = 1, OF _ _ wr(1)])
      (use that counter_alone(1) [of _ _ 5 True 1] in \<open>auto simp: stands_def counter_op_def\<close>)
  have later: "\<exists>u'. expect_number e shmc_decr n m ok err u = Some (True, u') \<and> stands (entry_in 0 (over v m) 1) 1 nv (o1 @ ok_line ok) u'"
    if "stands (entry_in 0 v 1) 1 nv o1 u" "length v = UINT64_SIZE" "m = counter_op False (counter_val v) n" for n m v nv o1 u ok err
    by (rule pass_number [where incr = False, OF that(1) _ wr(2)])
      (use that counter_alone(2) [of _ 0 v 1 _ n False 1] in \<open>auto simp: stands_def\<close>)
  have l: "length (over (counter_text n) m) = UINT64_SIZE" "counter_val (over (counter_text n) m) = m" for n m
    using counter_text_facts(1) [of n] by (simp_all add: length_over counter_val_over)
  have "passes (stands None fl nv out) (unit_counting e) (stands (entry_in 0 (over (over (counter_text 5) 2) 0) 1) 1 nv
      (((out @ ok_line ''5 after shmc_incr'') @ ok_line ''2 after shmc_decr'') @ ok_line ''0 after shmc_decr''))"
    unfolding unit_counting_def
    apply (rule passes_Cons, erule first)
    apply (rule passes_Cons, erule later, simp add: counter_text_facts, simp add: counter_text_facts counter_op_def)
    apply (rule passes_Cons [OF _ passes_Nil], erule later, simp add: l, simp add: l counter_op_def)
    done
  from passesD [OF this assms] show ?thesis by auto
qed

lemma x_bytes_length [simp]: "length (x_bytes c n) = n"
  by (simp add: x_bytes_def)

text \<open>Calls that pass the variable \<open>flags\<close>.\<close>

lemma stands_flags: "stands x fl nv out u \<Longrightarrow> u_flags u = fl"
  by (simp add: stands_def)

lemma pass_set_flags:
  "stands x fl nv out u \<Longrightarrow> fits (length v) c \<Longrightarrow> \<exists>u'. expect e shmc_set v (u_flags u) SHMC_OK True ok err u = Some (True, u')
    \<and> stands (entry_in c v fl) fl nv (out @ ok_line ok) u'"
  using pass_set [of x fl nv out u True v c] by (simp add: stands_flags)

lemma pass_prepend_flags:
  "stands (entry_in c w g) fl nv out u \<Longrightarrow> fits (length (v @ w)) c \<Longrightarrow> \<exists>u'. expect e shmc_prepend v (u_flags u) SHMC_OK True ok err u = Some (True, u')
    \<and> stands (entry_in c (v @ w) fl) fl nv (out @ ok_line ok) u'"
  using pass_prepend [of c w g fl nv out u True v] by (simp add: stands_flags)

lemma pass_append_flags:
  "stands (entry_in c w g) fl nv out u \<Longrightarrow> fits (length (w @ v)) c \<Longrightarrow> fl = 64 \<Longrightarrow>
    \<exists>u'. expect e shmc_append v (u_flags u) SHMC_OK (u_flags u = 64) ok err u = Some (True, u')
    \<and> stands (entry_in c (w @ v) fl) fl nv (out @ ok_line ok) u'"
  using pass_append [of c w g fl nv out u True v] by (simp add: stands_flags)

lemma missing_passes:
  assumes "stands (entry_in 0 v 1) 1 nv out u"
  shows "\<exists>u'. run_checks (unit_missing e) u = Some (True, u') \<and> stands None 1 nv (after out [''shmc_add expect exist ok'', ''shmc_set ok'',
      ''shmc_del ok'', ''shmc_replace expect notfound ok'', ''shmc_prepend expect notfound ok'', ''shmc_append expect notfound ok'']) u'"
proof -
  have "passes (stands (entry_in 0 v 1) 1 nv out) (unit_missing e) (stands None 1 nv ((((((out @ ok_line ''shmc_add expect exist ok'')
      @ ok_line ''shmc_set ok'') @ ok_line ''shmc_del ok'') @ ok_line ''shmc_replace expect notfound ok'')
      @ ok_line ''shmc_prepend expect notfound ok'') @ ok_line ''shmc_append expect notfound ok''))"
    unfolding unit_missing_def
    apply (rule passes_Cons, erule pass_add(1) [OF TrueI], simp)
    apply (rule passes_Cons, erule pass_set_flags [where c = 0], simp add: fits_def)
    apply (rule passes_Cons, erule pass_del)
    apply (rule passes_Cons, erule pass_missing(1) [OF _ TrueI], simp)
    apply (rule passes_Cons, erule pass_missing(2) [OF _ TrueI], simp)
    apply (rule passes_Cons [OF _ passes_Nil], erule pass_missing(3) [OF _ TrueI], simp)
    done
  from passesD [OF this assms] show ?thesis by simp
qed

lemma stands_set_flags: "stands x fl nv out u \<Longrightarrow> stands x f nv out (u\<lparr>u_flags := f\<rparr>)"
  by (simp add: stands_def)

lemma values_pass:
  assumes "stands None 1 nv out u" and m: "p_malloc e"
  shows "\<exists>u' v. run_checks (unit_values e) u = Some (True, u') \<and> stands (entry_in 1 v 64) 64 176 (after out [''shmc_add ok'', ''shmc_replace ok'',
      ''value after replace ok'', ''shmc_prepend ok'', ''value after prepend ok'', ''shmc_append ok'', ''value after append ok'']) u'"
proof -
  let ?v = "(x_bytes CHR ''a'' 16 @ x_bytes CHR ''c'' 64) @ x_bytes CHR ''d'' 96"
  have "passes (stands None 1 nv out) (unit_values e) (stands (entry_in 1 ?v 64) 64 (length ?v) (((((((out @ ok_line ''shmc_add ok'')
      @ ok_line ''shmc_replace ok'') @ ok_line ''value after replace ok'') @ ok_line ''shmc_prepend ok'')
      @ ok_line ''value after prepend ok'') @ ok_line ''shmc_append ok'') @ ok_line ''value after append ok''))"
    unfolding unit_values_def Let_def
    apply (rule passes_Cons, drule stands_set_flags [where f = 32], erule pass_add(2) [OF TrueI, where c = 0], simp add: fits_def)
    apply (rule passes_Cons, drule stands_set_flags [where f = 64], erule pass_replace [OF _ TrueI, where c = 1], simp add: fits_def)
    apply (rule passes_Cons, erule pass_value [OF _ m], simp add: same_bytes_def)
    apply (rule passes_Cons, erule pass_prepend_flags, simp add: fits_def)
    apply (rule passes_Cons, erule pass_value [OF _ m], simp add: same_bytes_def)
    apply (rule passes_Cons, erule pass_append_flags, simp add: fits_def, simp)
    apply (rule passes_Cons [OF _ passes_Nil], erule pass_value [OF _ m], simp add: same_bytes_def)
    done
  from passesD [OF this assms(1)] show ?thesis by auto
qed

section \<open>The outcome\<close>

definition passed :: "string list" where
  "passed = [''shmc_init expect etoken ok'', ''shmc_init create ok'', ''shmc_init expect ecreate ok'', ''shmc_init expect ecreate ok'',
     ''shmc_init attach ok'', ''shmc_init attach ok'',
     ''5 after shmc_incr'', ''2 after shmc_decr'', ''0 after shmc_decr'',
     ''shmc_add expect exist ok'', ''shmc_set ok'', ''shmc_del ok'', ''shmc_replace expect notfound ok'',
     ''shmc_prepend expect notfound ok'', ''shmc_append expect notfound ok'',
     ''shmc_add ok'', ''shmc_replace ok'', ''value after replace ok'', ''shmc_prepend ok'', ''value after prepend ok'',
     ''shmc_append ok'', ''value after append ok'', ''shmc_replace ok'']"

text \<open>
  C39: on a machine where nothing fails the test of the library passes its first 23 checks, among them
  creating, attaching, counters, and every storing operation in place and across size classes, and
  then fails and exits with 1: the value it reads with \<open>shmc_getf\<close> was stored with the flags 0, and the
  check expects the 64 of the value before.
\<close>

theorem unit_test_outcome:
  assumes "works (p_sys e) q" and "p_malloc e" and "attaches ch"
  shows "\<exists>u'. unit_main execs e ch u = Some (1, u')
    \<and> u_out u' = concat (map (\<lambda>ok. line (''[OK]    '' @ ok)) passed) @ line ''[ERROR] shmc_getf error:success''"
proof -
  define u0 where "u0 = u\<lparr>u_out := [], u_files := (u_files u)(unit_token := None)\<rparr>"
  have "u_files u0 unit_token = None \<and> u_out u0 = []" by (simp add: u0_def)
  from passesD [OF setup_passes [OF assms(1,3)], of u0, OF this]
  obtain u1 where u1: "run_checks (unit_setup e ch) u0 = Some (True, u1)"
      "created (after [] [''shmc_init expect etoken ok'', ''shmc_init create ok'', ''shmc_init expect ecreate ok'',
       ''shmc_init expect ecreate ok'', ''shmc_init attach ok'', ''shmc_init attach ok'']) u1" by blast
  obtain u2 v where u2: "run_checks (unit_counting e) u1 = Some (True, u2)" "stands (entry_in 0 v 1) 1 (u_nval u1) (after (concat (map ok_line (take 6 passed)))
      [''5 after shmc_incr'', ''2 after shmc_decr'', ''0 after shmc_decr'']) u2"
    using counting_passes [OF created_stands [OF u1(2)], of e] by (auto simp: passed_def)
  obtain u3 where u3: "run_checks (unit_missing e) u2 = Some (True, u3)" "stands None 1 (u_nval u1) (concat (map ok_line (take 15 passed))) u3"
    using missing_passes [OF u2(2), of e] by (auto simp: passed_def)
  obtain u4 w where u4: "run_checks (unit_values e) u3 = Some (True, u4)" "stands (entry_in 1 w 64) 64 176 (concat (map ok_line (take 22 passed))) u4"
    using values_pass [OF u3(2) assms(2)] by (auto simp: passed_def)
  obtain u5 where u5: "expect e shmc_replace (x_bytes CHR ''a'' 16) 0 SHMC_OK True ''shmc_replace ok'' ''shmc replace error'' u4 = Some (True, u5)"
      "stands (entry_in 0 (x_bytes CHR ''a'' 16) 0) 64 176 (concat (map ok_line passed)) u5"
    using pass_replace [OF u4(2) TrueI, of "x_bytes CHR ''a'' 16" 0 e 0 "''shmc_replace ok''"] by (auto simp: passed_def fits_def)
  obtain u6 where "expect_getf e u5 = Some (False, u6)" "u_out u6 = concat (map ok_line passed) @ line ''[ERROR] shmc_getf error:success''"
    using fail_getf [OF u5(2), of e] by auto
  then show ?thesis
    using u1(1) u2(1) u3(1) u4(1) u5(1) by (auto simp: unit_main_def run_checks_append unit_getf_def simp flip: u0_def)
qed

lemma demo_works: "works (p_sys (demo_process q)) 512" "p_malloc (demo_process q)"
  by (simp_all add: works_def demo_process_def)

definition demo_ustate :: ustate where
  "demo_ustate = \<lparr>u_out = [], u_files = demo_files(unit_token \<mapsto> Zeroed 9), u_attr = dflt, u_seg = (no_locks, tiny_store),
     u_flags = 7, u_new = 8, u_nval = 9, u_val = []\<rparr>"

theorem unit_test_outcome_witness:
  "\<exists>u'. unit_main True (demo_process 4096) (demo_process 8192) demo_ustate = Some (1, u')
    \<and> u_out u' = concat (map (\<lambda>ok. line (''[OK]    '' @ ok)) passed) @ line ''[ERROR] shmc_getf error:success''"
  by (rule unit_test_outcome [OF demo_works demo_attaches])

end
