(* ===== verification/Load_Test.thy ===== *)
theory Load_Test
  imports Unit_Test
begin

text \<open>
  \<open>t/load.c\<close>: a token of half a gigabyte, a writer that stores a million keys with values made to fill
  the size classes, in random order, then a reader that looks the keys up until a signal stops it.
  The random numbers, the iteration that sees the signal, and the number of lookups are given.
\<close>

section \<open>The program\<close>

definition load_attr :: attr where
  "load_attr = shmc_attr_set_evict_to_free False (shmc_attr_set_nbuckets (100 * 10000)
     (shmc_attr_set_mem_limit (512 * 1024 * 1024) SHMC_ATTR_INITIALIZER))"

record val_t =
  v_val :: "byte list"
  v_nval :: nat

definition nitem :: "shmc \<Rightarrow> nat" where
  "nitem s = sum_list (map (\<lambda>i. slab_count (slabs s ! i)) [0..<slabs_count (attrs s)])"

text \<open>The length made for a slab, an \<open>int\<close> computed from a \<open>size_t\<close>.\<close>

definition val_len :: "slab \<Rightarrow> int" where
  "val_len sl = as_int ((slab_size sl + 2 ^ 64 - 36 - 10) mod 2 ^ 64)"

definition make_val :: "shmc \<Rightarrow> nat \<Rightarrow> val_t list option" where
  "make_val s i = (let len = val_len (slabs s ! i) in
     if len < 0 then None
     else Some (replicate (slab_count (slabs s ! i)) \<lparr>v_val = replicate (nat len) (of_nat (97 + i)), v_nval = nat len\<rparr>))"

fun make_vals :: "shmc \<Rightarrow> nat \<Rightarrow> val_t list option" where
  "make_vals s 0 = Some []"
| "make_vals s (Suc i) = do { vs \<leftarrow> make_vals s i; new \<leftarrow> make_val s i; Some (vs @ new) }"

text \<open>\<open>rnd i\<close> is the result of the \<open>i\<close>-th call of \<open>rand\<close>; the first argument is the number of swaps made.\<close>

fun shuffle :: "nat \<Rightarrow> (nat \<Rightarrow> nat) \<Rightarrow> val_t list \<Rightarrow> val_t list" where
  "shuffle 0 rnd vs = vs"
| "shuffle (Suc i) rnd vs =
     (let vs = shuffle i rnd vs; j = rnd i mod length vs in vs[i := vs ! j, j := vs ! i])"

text \<open>The key \<open>sprintf (key, \"%d\", i)\<close> in its buffer on the stack.\<close>

definition number_key :: "process \<Rightarrow> nat \<Rightarrow> buf" where
  "number_key e i = Buf (p_argv e 0) (dec i @ [0])"

text \<open>The writer with \<open>n\<close> iterations to go: \<open>i\<close>, \<open>j\<close>, the counter, and what has been printed.\<close>

fun load_writer :: "process \<Rightarrow> (nat \<Rightarrow> bool) \<Rightarrow> val_t list \<Rightarrow> nat \<Rightarrow> nat \<Rightarrow> nat \<Rightarrow> u64 \<Rightarrow> byte list \<Rightarrow> locks \<times> shmc
    \<Rightarrow> (u64 \<times> byte list \<times> locks \<times> shmc) option" where
  "load_writer e stop vs 0 i j cnt out S = Some (cnt, out, S)"
| "load_writer e stop vs (Suc n) i j cnt out S =
     (if stop i then Some (cnt, out, S)
      else do {
        let out = (if cnt + 1 = 0 then out @ line ''writer counter rewind'' else out);
        (rc, S) \<leftarrow> shmc_set (p_agent e) (number_key e i) (length (dec i)) (v_val (vs ! j)) (v_nval (vs ! j)) 0 S;
        let out = (if rc \<noteq> SHMC_OK then out @ line (''shmc_set error '' @ shmc_error (p_errno e) rc) else out);
        load_writer e stop vs n (Suc i) (if Suc j = length vs then 0 else Suc j) (cnt + 1) out S
      })"

text \<open>\<open>1.5 * 1024 * 1024\<close>, the size of the reader's buffer.\<close>

definition NVAL :: nat where "NVAL = 1572864"

text \<open>The reader: after the last key it starts again, until \<open>laps\<close> lookups have been made.\<close>

fun load_reader :: "process \<Rightarrow> nat \<Rightarrow> nat \<Rightarrow> u64 \<Rightarrow> u64 \<Rightarrow> byte list \<Rightarrow> locks \<times> shmc
    \<Rightarrow> (u64 \<times> u64 \<times> byte list \<times> locks \<times> shmc) option" where
  "load_reader e 0 i hits miss out S = Some (hits, miss, out, S)"
| "load_reader e (Suc laps) i hits miss out S = do {
     ((rc, v), S) \<leftarrow> shmc_getf (p_agent e) (number_key e i) (length (dec i)) NVAL S;
     let (hits, miss, out) =
       (if rc = SHMC_OK then (hits + 1, miss, if hits + 1 = 0 then out @ line ''reader counter hits rewind'' else out)
        else if rc = SHMC_NOTFOUND then (hits, miss + 1, if miss + 1 = 0 then out @ line ''reader counter miss rewind'' else out)
        else (hits, miss, out @ line (''shmc_get error '' @ shmc_error (p_errno e) rc)));
     load_reader e laps (if Suc i = 100 * 10000 then 0 else Suc i) hits miss out S
   }"

text \<open>
  \<open>main\<close>; the macro \<open>C\<close>, the number of reading processes, is 0. \<open>stop\<close> stays set: a reader whose writer was
  stopped makes no lookup.
\<close>

definition load_main :: "process \<Rightarrow> (nat \<Rightarrow> nat) \<Rightarrow> (nat \<Rightarrow> bool) \<Rightarrow> nat \<Rightarrow> files \<Rightarrow> (int \<times> byte list \<times> files) option" where
  "load_main e rnd stop laps fs = do {
     (rc, h, fs) \<leftarrow> shmc_init (p_sys e) (fs(unit_token := None)) unit_token (Some load_attr);
     let out = test_line (rc = SHMC_OK) ''shmc_init ok'' ''shmc_init error'' (rc_text e rc);
     if rc \<noteq> SHMC_OK then Some (1, out, fs)
     else do {
       s \<leftarrow> h;
       vs \<leftarrow> make_vals s (slabs_count (attrs s));
       let vs = shuffle (nitem s) rnd vs;
       (cnt, out, S) \<leftarrow> load_writer e stop vs (100 * 10000) 0 0 0 out (no_locks, s);
       let out = out @ text_of ''writer counter '' @ dec (unat cnt) @ [10];
       (hits, miss, out, S) \<leftarrow> load_reader e (if \<exists>i < 100 * 10000. stop i then 0 else laps) 0 0 0 out S;
       let out = out @ text_of ''reader counter hits '' @ dec (unat hits) @ [10];
       let out = out @ text_of ''reader counter miss '' @ dec (unat miss) @ [10];
       Some (0, out, fs(unit_token \<mapsto> Image SHMC_VERSION (snd S)))
     }
   }"

end
