(* ===== verification/Load_Properties.thy ===== *)
theory Load_Properties
  imports Load_Test Unit_Properties
begin

text \<open>
  The load test makes its values for an item header of 36 bytes, the size on a machine with pointers of
  32 bits. With the 64 bytes of the code's own structure every value belongs to the next class, and
  the values made for the largest class belong to none.
\<close>

section \<open>The values\<close>

definition load_conf :: "shmc \<Rightarrow> bool" where
  "load_conf s \<longleftrightarrow> (\<exists>q. conf_of s = conf_for q load_attr (pows 7 20))"

text \<open>A value of the largest class.\<close>

abbreviation too_long :: "val_t \<Rightarrow> bool" where
  "too_long v \<equiv> v_nval v = 2 ^ 19 - 46 \<and> length (v_val v) = 2 ^ 19 - 46"

lemma load_attr_sel: "item_size_max load_attr = 2 ^ 20" "item_size_min load_attr = 64" "item_size_factor load_attr = F32 2 0"
  "mem_limit load_attr = 2 ^ 29"
  by (simp_all add: load_attr_def attr_setters SHMC_ATTR_INITIALIZER_def)

lemma load_conf_slabs:
  assumes "load_conf s" and n: "slabs_count (attrs s) = 13"
  shows "nitem s = 16382" "slab_size (slabs s ! 12) = 2 ^ 19" "slab_count (slabs s ! 12) = 2"
    "cf_sizes (conf_of s) = pows 7 20" "size_ok (conf_of s) t \<longleftrightarrow> t < 2 ^ 20"
proof -
  obtain q where q: "conf_of s = conf_for q load_attr (pows 7 20)" using assms(1) by (auto simp: load_conf_def)
  show "cf_sizes (conf_of s) = pows 7 20" "size_ok (conf_of s) t \<longleftrightarrow> t < 2 ^ 20"
    by (simp_all only: q conf_for_sel) (simp add: load_attr_sel)
  have z: "map slab_size (slabs s) = pows 7 20" "map slab_count (slabs s) = map (\<lambda>z. 2 ^ 20 div z) (pows 7 20)"
    using arg_cong [OF q, of cf_sizes] arg_cong [OF q, of cf_counts] by (simp_all only: conf_for_sel load_attr_sel) (simp_all add: conf_of_def)
  have l: "length (slabs s) = 13" using arg_cong [OF z(1), of length] by simp
  have "nitem s = sum_list (map slab_count (map (\<lambda>i. slabs s ! i) [0..<length (slabs s)]))"
    unfolding nitem_def n l map_map comp_def ..
  also have "\<dots> = sum_list (map (\<lambda>z. 2 ^ 20 div z) (pows 7 20))" unfolding map_nth z(2) ..
  also have "\<dots> = 16382" by (simp add: upt_rec)
  finally show "nitem s = 16382" .
  show "slab_size (slabs s ! 12) = 2 ^ 19"
    using arg_cong [OF z(1), of "\<lambda>xs. xs ! 12"] l by (simp add: upt_rec)
  show "slab_count (slabs s ! 12) = 2"
    using arg_cong [OF z(2), of "\<lambda>xs. xs ! 12"] l by (simp add: upt_rec)
qed

lemma make_vals_facts:
  "make_vals s n = Some vs \<Longrightarrow> length vs = sum_list (map (\<lambda>i. slab_count (slabs s ! i)) [0..<n])"
  "make_vals s n = Some vs \<Longrightarrow> v \<in> set vs \<Longrightarrow> length (v_val v) = v_nval v \<and> v_nval v < 2 ^ 31"
  "make_vals s n = Some vs \<Longrightarrow> i < n \<Longrightarrow> slab_count (slabs s ! i) \<noteq> 0 \<Longrightarrow> \<exists>v \<in> set vs. int (v_nval v) = val_len (slabs s ! i)"
proof (induction n arbitrary: vs v)
  case (Suc n)
  { case 1 then show ?case using Suc.IH(1) by (fastforce simp: make_val_def Let_def split: Option.bind_splits if_splits) }
  { case 2
    have "val_len sl < 2 ^ 31" for sl
      using sint_lt [of "of_nat ((slab_size sl + 2 ^ 64 - 36 - 10) mod 2 ^ 64) :: u32"] by (simp add: val_len_def as_int_def)
    then have "nat (val_len sl) < 2 ^ 31" for sl using nat_less_iff [of "val_len sl" "2 ^ 31"] by (cases "0 \<le> val_len sl") simp_all
    with 2 show ?case using Suc.IH(2) by (fastforce simp: make_val_def Let_def split: Option.bind_splits if_splits) }
  { case 3 then show ?case using Suc.IH(3) by (cases "i = n") (fastforce simp: make_val_def Let_def split: Option.bind_splits if_splits)+ }
qed auto

lemma shuffle_set: "n \<le> length vs \<Longrightarrow> length (shuffle n rnd vs) = length vs \<and> set (shuffle n rnd vs) = set vs"
proof (induction n)
  case (Suc n)
  let ?ws = "shuffle n rnd vs"
  have "length ?ws \<noteq> 0" "n < length ?ws" using Suc by auto
  then have "rnd n mod length ?ws < length ?ws" "n < length ?ws" by simp_all
  then have "set (shuffle (Suc n) rnd vs) = set ?ws" by (simp add: Let_def set_swap)
  then show ?case using Suc by (simp add: Let_def)
qed simp

section \<open>The writer\<close>

lemma key_short: "i < 10 ^ 6 \<Longrightarrow> length (dec i) \<le> 6"
  using dec_length [of i 5] by simp

text \<open>A store of the load test; the counters in its attributes change.\<close>

definition loaded :: "shmc \<Rightarrow> bool" where
  "loaded s \<longleftrightarrow> (\<exists>A. implements s A) \<and> load_conf s \<and> slabs_count (attrs s) = 13"

lemma load_set:
  assumes "loaded s" and "length (v_val v) = v_nval v" and "v_nval v < 2 ^ 31" and "i < 10 ^ 6"
  shows "shmc_set x (number_key e i) (length (dec i)) (v_val v) (v_nval v) 0 (no_locks, s) = Some (rc, S) \<Longrightarrow>
      \<exists>s'. S = (no_locks, s') \<and> loaded s'"
    "too_long v \<Longrightarrow> i < 16382 \<Longrightarrow> shmc_set x (number_key e i) (length (dec i)) (v_val v) (v_nval v) 0 (no_locks, s) = None"
proof -
  obtain A where A: "implements s A" "load_conf s" "slabs_count (attrs s) = 13" using assms(1) by (auto simp: loaded_def)
  have k: "length (dec i) \<le> length (buf_bytes (number_key e i))" "buf_key (number_key e i) (length (dec i)) = dec i"
    by (simp_all add: number_key_def buf_key_def)
  have sz: "sizeof_item + length (dec i) + v_nval v < 2 ^ 64" using assms(3,4) key_short [of i] by simp
  let ?op = "\<lambda>s. shmc_set_nolock s (number_key e i) (length (dec i)) (v_val v) (v_nval v) 0"
  have ref: "refines (?op s) (conf_of s) (a_set (conf_of s) A (dec i) (v_val v) 0)"
    using set_refines [OF A(1) k(1) _ sz, of "v_val v" 0] assms(2) k(2) by simp
  { assume r: "shmc_set x (number_key e i) (length (dec i)) (v_val v) (v_nval v) 0 (no_locks, s) = Some (rc, S)"
    obtain rc' A' where a: "a_set (conf_of s) A (dec i) (v_val v) 0 = Some (rc', A')"
      using ref r under_None [of ?op s x no_locks] by (cases "a_set (conf_of s) A (dec i) (v_val v) 0") (auto simp: shmc_set_def)
    obtain s' where s': "S = (no_locks, s')" "implements s' A'" "conf_of s' = conf_of s"
      using under_refines [of ?op s rc' A' x] ref r a by (auto simp: shmc_set_def)
    have "slabs_count (attrs s') = slabs_count (attrs s)"
      using arg_cong [OF s'(3), of "slabs_count \<circ> cf_attr"] by (simp add: conf_of_def)
    then show "\<exists>s'. S = (no_locks, s') \<and> loaded s'" using s' A(2,3) by (auto simp: loaded_def load_conf_def) }
  { assume v: "too_long v" "i < 16382"
    let ?t = "size_for (length (dec i)) (length (v_val v))"
    note C = load_conf_slabs(4,5) [OF A(2,3)]
    have t: "2 ^ 19 < ?t" "?t < 2 ^ 20"
      using v key_short [of i] by (simp_all add: size_for_def)
    have "z < ?t" if "z \<in> set (cf_sizes (conf_of s))" for z using that t(1) unfolding C(1) by (auto simp: upt_rec)
    then have "class_for (conf_of s) ?t = None" by (simp add: class_for_def takeWhile_eq_all_conv [THEN iffD2])
    then have "a_set (conf_of s) A (dec i) (v_val v) 0 = None" using C(2) t(2) by (simp add: a_set_def)
    then show "shmc_set x (number_key e i) (length (dec i)) (v_val v) (v_nval v) 0 (no_locks, s) = None"
      using ref under_None [of ?op s x no_locks] by (simp add: shmc_set_def) }
qed

lemma load_writer_None:
  assumes "loaded s" and "\<And>v. v \<in> set vs \<Longrightarrow> length (v_val v) = v_nval v \<and> v_nval v < 2 ^ 31"
    and "length vs = 16382" and "m < 16382" and "too_long (vs ! m)" and "i \<le> m" and "m < i + n" and "\<And>i. i < 16382 \<Longrightarrow> \<not> stop i"
  shows "load_writer e stop vs n i i cnt out (no_locks, s) = None"
  using assms(1,6,7)
proof (induction n arbitrary: i s cnt out)
  case (Suc n)
  let ?v = "vs ! i"
  have i: "i < 16382" "i < 10 ^ 6" using Suc.prems(2) assms(4) by simp_all
  have v: "length (v_val ?v) = v_nval ?v" "v_nval ?v < 2 ^ 31" using assms(2) [of ?v] assms(3) i(1) by simp_all
  have "\<not> stop i" using assms(8) i(1) .
  show ?case
  proof (cases "shmc_set (p_agent e) (number_key e i) (length (dec i)) (v_val ?v) (v_nval ?v) 0 (no_locks, s)")
    case None
    then show ?thesis using \<open>\<not> stop i\<close> by simp
  next
    case (Some r)
    then obtain rc S where r: "r = (rc, S)" by (cases r)
    have "i \<noteq> m" using load_set(2) [OF Suc.prems(1) v i(2) _ i(1), of "p_agent e" e] Some assms(5) by auto
    then have m: "Suc i \<le> m" "m < Suc i + n" using Suc.prems(2,3) by simp_all
    obtain s' where s': "S = (no_locks, s')" "loaded s'" using load_set(1) [OF Suc.prems(1) v i(2)] Some r by blast
    have "Suc i \<noteq> length vs" using m assms(3,4) by simp
    then show ?thesis using Suc.IH [OF s'(2) m] Some r s'(1) \<open>\<not> stop i\<close> by simp
  qed
qed simp

section \<open>The start and the reader\<close>

lemma load_init:
  assumes "works (p_sys e) q"
  obtains s where "shmc_init (p_sys e) (fs(unit_token := None)) unit_token (Some load_attr)
        = Some (SHMC_OK, Some s, fs(unit_token \<mapsto> Image SHMC_VERSION s))" "loaded s" "slabs_count (attrs s) = 13"
proof -
  have fixed: "fix_attr load_attr = load_attr"
    by (simp add: fix_attr_def at_most_1_5_def load_attr_def attr_setters SHMC_ATTR_INITIALIZER_def)
  have caller: "caller_ok load_attr"
    by (simp add: caller_ok_def fixed) (simp add: load_attr_def attr_setters SHMC_ATTR_INITIALIZER_def)
  have l: "length (pows 7 20) = 13" by simp
  have same: "item_size_max load_attr = item_size_max dflt" "item_size_factor load_attr = item_size_factor dflt"
    "item_size_min load_attr = item_size_min dflt" by (simp_all add: load_attr_def attr_setters)
  have z: "count_of_slabs (fix_attr load_attr) = Some (length (pows 7 20))"
    "size_seq (item_size_factor (fix_attr load_attr)) (length (pows 7 20)) (sizeof_item + item_size_min load_attr) = Some (pows 7 20)"
    by (simp_all only: fixed l count_of_slabs_cong [OF same] same dflt_sizes)
  have "pool_need (item_size_max load_attr) (pows 7 20) \<le> length (pows 7 20) * item_size_max load_attr" by (rule pool_need_bound)
  also have "\<dots> < mem_limit load_attr" by (simp add: load_attr_sel)
  finally have pool: "pool_need (item_size_max load_attr) (pows 7 20) < mem_limit load_attr" .
  obtain s where s: "shmc_init (p_sys e) (fs(unit_token := None)) unit_token (Some load_attr)
        = Some (SHMC_OK, Some s, (fs(unit_token := None))(unit_token \<mapsto> Image SHMC_VERSION s))"
      "implements s (a_fresh (item_size_max load_attr) (pows 7 20))" "conf_of s = conf_for q load_attr (pows 7 20)"
    using init_fresh [of load_attr "p_sys e" q "fs(unit_token := None)" unit_token, OF caller assms _ z pool]
    unfolding fixed by auto
  have "slabs_count (attrs s) = 13"
    using arg_cong [OF s(3), of "slabs_count \<circ> cf_attr"] by (simp add: conf_of_def conf_for_def)
  then show ?thesis using s that [of s] by (auto simp: loaded_def load_conf_def)
qed

lemma make_vals_Some:
  assumes "loaded s"
  shows "n \<le> 13 \<Longrightarrow> make_vals s n \<noteq> None"
proof (induction n)
  case (Suc n)
  have z: "map slab_size (slabs s) = pows 7 20"
    using load_conf_slabs(4) [of s] assms by (simp add: loaded_def conf_of_def)
  have "length (slabs s) = 13" using arg_cong [OF z, of length] by simp
  then have "slab_size (slabs s ! n) \<in> set (pows 7 20)" using Suc.prems by (metis z length_map nth_map nth_mem Suc_le_lessD)
  then have "128 \<le> slab_size (slabs s ! n)" "slab_size (slabs s ! n) \<le> 2 ^ 19" by (auto simp: upt_rec)
  moreover have "(z + 2 ^ 64 - 36 - 10) mod 2 ^ 64 = z - 46" if "128 \<le> z" "z \<le> 2 ^ 19" for z :: nat
  proof -
    have "z + 2 ^ 64 - 36 - 10 = (z - 46) + 2 ^ 64" using that by simp
    then show ?thesis using that by (simp only: mod_add_self2) simp
  qed
  ultimately have "val_len (slabs s ! n) = int (slab_size (slabs s ! n)) - 46" by (simp add: val_len_def as_int_small)
  then show ?case using Suc \<open>128 \<le> slab_size (slabs s ! n)\<close> by (auto simp: make_val_def Let_def)
qed simp

lemma load_reader_Some: "loaded s \<Longrightarrow> \<exists>r. load_reader e laps i hits miss out (no_locks, s) = Some r"
proof (induction laps arbitrary: i hits miss out s)
  case (Suc laps)
  obtain A where A: "implements s A" "load_conf s" "slabs_count (attrs s) = 13" using Suc.prems by (auto simp: loaded_def)
  obtain rc v A' where a: "a_getf (conf_of s) A (buf_key (number_key e i) (length (dec i))) NVAL = (rc, v, A')"
    by (cases "a_getf (conf_of s) A (buf_key (number_key e i) (length (dec i))) NVAL") auto
  obtain s' where s': "shmc_getf (p_agent e) (number_key e i) (length (dec i)) NVAL (no_locks, s) = Some ((rc, v), no_locks, s')"
      "implements s' A'" "conf_of s' = conf_of s"
    using getf_alone [OF A(1) _ a, of "p_agent e"] by (auto simp: number_key_def)
  have "slabs_count (attrs s') = slabs_count (attrs s)"
    using arg_cong [OF s'(3), of "slabs_count \<circ> cf_attr"] by (simp add: conf_of_def)
  then have "loaded s'" using s' A(2,3) by (auto simp: loaded_def load_conf_def)
  then show ?case using Suc.IH s'(1) by (auto split: prod.splits)
qed simp

section \<open>The outcome\<close>

text \<open>
  C40: the load test never ends normally: on a machine where nothing fails, whatever the random numbers
  are and unless a signal stops the writer within its first 16382 stores, it stores a value for which
  there is no size class, and \<open>shmc_set\<close> runs off the array of the slabs. Stopped before its first store
  it ends with success.
\<close>

theorem load_test_outcome:
  assumes "works (p_sys e) q"
  shows "((\<forall>i < 16382. \<not> stop i) \<longrightarrow> load_main e rnd stop laps fs = None)
    \<and> (stop 0 \<longrightarrow> (\<exists>out fs'. load_main e rnd stop laps fs = Some (0, out, fs')))"
proof -
  obtain s where s: "shmc_init (p_sys e) (fs(unit_token := None)) unit_token (Some load_attr)
      = Some (SHMC_OK, Some s, fs(unit_token \<mapsto> Image SHMC_VERSION s))" "loaded s" "slabs_count (attrs s) = 13"
    using load_init [OF assms] .
  have C: "nitem s = 16382" "slab_size (slabs s ! 12) = 2 ^ 19" "slab_count (slabs s ! 12) = 2"
    using load_conf_slabs [of s] s(2) by (simp_all add: loaded_def)
  obtain vs where vs: "make_vals s 13 = Some vs" using make_vals_Some [OF s(2), of 13] by auto
  note M = make_vals_facts [OF vs]
  have len: "length vs = 16382" using M(1) C(1) s(3) by (simp add: nitem_def)
  note sh = shuffle_set [of "nitem s" vs rnd, unfolded len C(1), OF order_refl, THEN conjunct1]
    shuffle_set [of "nitem s" vs rnd, unfolded len C(1), OF order_refl, THEN conjunct2]
  have "val_len (slabs s ! 12) = 2 ^ 19 - 46" using C(2) by (simp add: val_len_def as_int_small)
  then obtain v where v: "v \<in> set vs" "int (v_nval v) = 2 ^ 19 - 46" using M(3) [of 12] C(3) by auto
  then have "too_long v" using M(2) [OF v(1)] by simp
  then obtain m where m: "m < 16382" "too_long (shuffle 16382 rnd vs ! m)"
    using v(1) sh by (metis in_set_conv_nth)
  have "load_main e rnd stop laps fs = None" if "\<forall>i < 16382. \<not> stop i"
  proof -
    have "load_writer e stop (shuffle 16382 rnd vs) (100 * 10000) 0 0 cnt out (no_locks, s) = None" for cnt out
      by (rule load_writer_None [OF s(2) _ sh(1) m]) (use M(2) sh(2) m(1) that in auto)
    then show ?thesis using s(1,3) vs C(1) by (simp add: load_main_def)
  qed
  moreover have "\<exists>out fs'. load_main e rnd stop laps fs = Some (0, out, fs')" if "stop 0"
  proof -
    have "load_writer e stop (shuffle 16382 rnd vs) (100 * 10000) 0 0 cnt out (no_locks, s) = Some (cnt, out, no_locks, s)" for cnt out
      using that load_writer.simps(2) [of e stop _ 999999] by simp
    moreover have "(\<exists>i < 100 * 10000. stop i) = True" using that by (intro iffI TrueI exI [of _ 0]) simp
    ultimately show ?thesis
      using s(1,3) vs C(1) by (simp add: load_main_def)
  qed
  ultimately show ?thesis by blast
qed

theorem load_test_outcome_witness:
  "load_main (demo_process 4096) (\<lambda>i. 3 * i) (\<lambda>i. False) 5 demo_files = None
    \<and> (\<exists>out fs'. load_main (demo_process 4096) (\<lambda>i. 3 * i) (\<lambda>i. True) 5 demo_files = Some (0, out, fs'))"
  using load_test_outcome [OF demo_works(1), where rnd = "\<lambda>i. 3 * i" and laps = 5 and fs = demo_files] by simp

end
