(* ===== verification/Benchmark.thy ===== *)
theory Benchmark
  imports Shmcface "HOL-Library.Signed_Division"
begin

text \<open>
  \<open>netshell/mcb.cc\<close>: threads that read or write the keys 0 to 999999 over and over, directly in a token or
  through a memcached client library, until a signal stops them. The library of the client is not part
  of the repository: its functions are arguments of the definitions that use it.
\<close>

section \<open>The client library and the threads\<close>

text \<open>
  \<open>memcached_create\<close> with a server and its timeouts, \<open>memcached_get\<close> (a value or none, and a return code),
  \<open>memcached_set\<close>, \<open>memcached_strerror\<close>, and two of the return codes.
\<close>

record 'm mc_lib =
  mc_open :: "string \<Rightarrow> int \<Rightarrow> 'm"
  mc_get :: "'m \<Rightarrow> byte list \<Rightarrow> byte list option \<times> int \<times> 'm"
  mc_set :: "'m \<Rightarrow> byte list \<Rightarrow> byte list \<Rightarrow> int \<times> 'm"
  mc_strerror :: "int \<Rightarrow> string"
  MEMCACHED_NOTFOUND :: int
  MEMCACHED_SUCCESS :: int

datatype role = mcReader | mcWriter | shmcReader | shmcWriter

datatype 'm phase = Starting | Attached nat nat | Connected 'm nat | Ended

text \<open>The phases \<open>Attached b i\<close> and \<open>Connected m i\<close>: the token mapped at \<open>b\<close>, or the client; the next key is \<open>i\<close>.\<close>

record 'm thread =
  th_role :: role
  th_phase :: "'m phase"

text \<open>What one turn of a thread meets: the flag \<open>stop\<close>, two clocks, the system calls, \<open>malloc\<close>.\<close>

record lap =
  lap_stop :: bool
  lap_begin :: "int \<times> int"
  lap_end :: "int \<times> int"
  lap_sys :: sys
  lap_malloc :: bool

record 'm bench =
  b_threads :: "'m thread list"
  b_locks :: locks
  b_store :: shmc
  b_out :: "byte list"

definition MAX_KEY :: nat where "MAX_KEY = 1000 * 1000"

definition mc_val :: "byte list" where "mc_val = replicate 52 (of_char CHR ''X'')"

definition shmc_val :: "byte list" where "shmc_val = replicate 47 (of_char CHR ''X'')"

text \<open>
  Milliseconds; the \<open>long\<close> is converted to \<open>int\<close>. The two clocks are less than \<open>2 ^ 63\<close> microseconds apart, so
  that the \<open>long\<close> does not overflow.
\<close>

definition diff :: "int \<times> int \<Rightarrow> int \<times> int \<Rightarrow> int" where
  "diff begin_tv end_tv = sint (word_of_int (((fst end_tv - fst begin_tv) * 1000000 + (snd end_tv - snd begin_tv)) sdiv 1000) :: 32 word)"

definition key_line :: "nat \<Rightarrow> byte list \<Rightarrow> byte list" where
  "key_line i t = text_of ''key: '' @ dec i @ text_of '', '' @ t @ [10]"

definition slow_line :: "nat \<Rightarrow> lap \<Rightarrow> byte list" where
  "slow_line i t = (let d = diff (lap_begin t) (lap_end t) in
     if d > 1000 then key_line i (text_of ''timeout '' @ fmt_d d) else [])"

definition next_key :: "nat \<Rightarrow> nat" where
  "next_key i = (if Suc i < MAX_KEY then Suc i else 0)"

section \<open>One turn of a thread\<close>

definition key_buf :: "nat \<Rightarrow> nat \<Rightarrow> buf" where
  "key_buf p i = Buf p (dec i @ [0])"

text \<open>One round of the loops; \<open>p\<close> is the address of \<open>key\<close>, \<open>x\<close> the thread.\<close>

definition read_round :: "agent \<Rightarrow> nat \<Rightarrow> string \<Rightarrow> lap \<Rightarrow> nat \<Rightarrow> locks \<times> shmc \<Rightarrow> (byte list \<times> locks \<times> shmc) option" where
  "read_round x p errno t i S = do {
     ((rc, out), S) \<leftarrow> shmc_get x (key_buf p i) (length (dec i)) (lap_malloc t) S;
     let msg = (if rc \<noteq> SHMC_OK \<and> rc \<noteq> SHMC_NOTFOUND then key_line i (text_of (shmc_error errno rc)) else []);
     Some (msg @ slow_line i t, S)
   }"

definition write_round :: "agent \<Rightarrow> nat \<Rightarrow> string \<Rightarrow> lap \<Rightarrow> nat \<Rightarrow> locks \<times> shmc \<Rightarrow> (byte list \<times> locks \<times> shmc) option" where
  "write_round x p errno t i S = do {
     (rc, S) \<leftarrow> shmc_set x (key_buf p i) (length (dec i)) shmc_val (length shmc_val) 0 S;
     let msg = (if rc \<noteq> SHMC_OK then key_line i (text_of (shmc_error errno rc)) else []);
     Some (msg @ slow_line i t, S)
   }"

definition mc_read_round :: "'m mc_lib \<Rightarrow> 'm \<Rightarrow> nat \<Rightarrow> byte list \<times> 'm" where
  "mc_read_round lib m i = (let (val, rc, m) = mc_get lib m (dec i) in
     (if val = None \<and> rc \<noteq> MEMCACHED_NOTFOUND lib then key_line i (text_of (mc_strerror lib rc)) else [], m))"

definition mc_write_round :: "'m mc_lib \<Rightarrow> 'm \<Rightarrow> nat \<Rightarrow> byte list \<times> 'm" where
  "mc_write_round lib m i = (let (rc, m) = mc_set lib m (dec i) mc_val in
     (if rc \<noteq> MEMCACHED_SUCCESS lib then key_line i (text_of (mc_strerror lib rc)) else [], m))"

text \<open>What a thread finds in memory and was given by \<open>main\<close>.\<close>

record bench_args =
  a_host :: string
  a_port :: int
  a_token :: string
  a_errno :: string
  a_keys :: "nat \<Rightarrow> nat"

definition attach :: "bench_args \<Rightarrow> lap \<Rightarrow> shmc \<Rightarrow> ('m phase \<times> byte list) option" where
  "attach a t s = do {
     (rc, h, fs) \<leftarrow> shmc_init (lap_sys t) [a_token a \<mapsto> Image SHMC_VERSION s] (a_token a) None;
     if rc \<noteq> SHMC_OK then Some (Ended, line (''shmc_init failed, '' @ shmc_error (a_errno a) rc))
     else do { s \<leftarrow> h; Some (Attached (base s) 0, []) }
   }"

text \<open>
  A file lock belongs to the process, so that with \<open>use_flock\<close> the calls of threads that are attached
  at the same time are not kept apart: a data race on the segment, to which C gives no meaning.
\<close>

fun attached :: "'m phase \<Rightarrow> bool" where
  "attached (Attached p i) = True"
| "attached ph = False"

definition racing :: "'m bench \<Rightarrow> bool" where
  "racing b \<longleftrightarrow> use_flock (attrs (b_store b)) \<and> 1 < length (filter (\<lambda>th. attached (th_phase th)) (b_threads b))"

text \<open>
  A turn of the thread \<open>k\<close>. All threads see one segment, each through its own mapping; a thread that has
  seen \<open>stop\<close> detaches and ends. Threads that do not race make their calls one after another, or they
  look keys up at the same time, which has the effect of one lookup after the other (theory
  \<open>Concurrency_Properties\<close>); so a call is one turn.
\<close>

definition thread_turn :: "'m mc_lib \<Rightarrow> bench_args \<Rightarrow> lap \<Rightarrow> nat \<Rightarrow> 'm bench \<Rightarrow> 'm bench option" where
  "thread_turn lib a t k b =
     (let th = b_threads b ! k;
          go_on = (\<lambda>ph b. b\<lparr>b_threads := (b_threads b)[k := th\<lparr>th_phase := ph\<rparr>]\<rparr>) in
      case th_phase th of
        Ended \<Rightarrow> Some b
      | Starting \<Rightarrow>
          if th_role th = mcReader \<or> th_role th = mcWriter then Some (go_on (Connected (mc_open lib (a_host a) (a_port a)) 0) b)
          else do {
            (ph, msg) \<leftarrow> attach a t (b_store b);
            Some (go_on ph (b\<lparr>b_out := b_out b @ msg\<rparr>))
          }
      | Connected m i \<Rightarrow>
          if lap_stop t then Some (go_on Ended b)
          else (let (msg, m) = (if th_role th = mcReader then mc_read_round lib m i else mc_write_round lib m i) in
            Some (go_on (Connected m (next_key i)) (b\<lparr>b_out := b_out b @ msg\<rparr>)))
      | Attached p i \<Rightarrow>
          if lap_stop t then Some (go_on Ended b)
          else do {
            guard (\<not> racing b);
            (msg, l, s) \<leftarrow> (if th_role th = shmcReader then read_round else write_round)
               (0, k) (a_keys a k) (a_errno a) t i (b_locks b, (b_store b)\<lparr>base := p\<rparr>);
            Some (go_on (Attached p (next_key i)) (b\<lparr>b_locks := l, b_store := s, b_out := b_out b @ msg\<rparr>))
          })"

section \<open>\<open>main\<close>\<close>

text \<open>\<open>pthread_create\<close> in a loop; \<open>creates k\<close> says whether the \<open>k\<close>-th call succeeds.\<close>

fun spawn :: "nat \<Rightarrow> (nat \<Rightarrow> bool) \<Rightarrow> role \<Rightarrow> role list \<Rightarrow> role list option" where
  "spawn 0 creates r ths = Some ths"
| "spawn (Suc n) creates r ths = (if creates (length ths) then spawn n creates r (ths @ [r]) else None)"

definition mcb_usage :: "byte list" where
  "mcb_usage = line ''usage: mcb nthread host port r|w|rw'' @ line ''usage: mcb nthread token r|w|rw''"

text \<open>
  Up to the threads: \<open>Inl\<close> with the exit status and the output when \<open>main\<close> returns early. A negative number
  of threads becomes a huge \<open>size_t\<close>.
\<close>

definition mcb_start :: "(nat \<Rightarrow> bool) \<Rightarrow> string list \<Rightarrow> ((int \<times> byte list) + (role list \<times> string \<times> int \<times> string)) option" where
  "mcb_start creates argv =
     (if length argv \<noteq> 5 \<and> length argv \<noteq> 4 then Some (Inl (0, mcb_usage))
      else do {
        n \<leftarrow> atoi (text_of (argv ! 1));
        let nthread = nat (n mod 2 ^ 64);
        (host, port, token, rd, wr, m) \<leftarrow>
          (if length argv = 5 then do {
             port \<leftarrow> atoi (text_of (argv ! 3));
             Some (argv ! 2, port, [], mcReader, mcWriter, argv ! 4)
           } else Some ([], 0, argv ! 2, shmcReader, shmcWriter, argv ! 3));
        (case (if CHR ''r'' \<in> set m then spawn nthread creates rd [] else Some []) of
           None \<Rightarrow> Some (Inl (1, line ''pthread_create failed''))
         | Some ths \<Rightarrow>
             (case (if CHR ''w'' \<in> set m then spawn nthread creates wr ths else Some ths) of
                None \<Rightarrow> Some (Inl (1, line ''pthread_create failed''))
              | Some ths \<Rightarrow> Some (Inr (ths, host, port, token))))
      })"

text \<open>The threads when \<open>main\<close> has created them, and the token they will attach to.\<close>

definition bench_init :: "role list \<Rightarrow> shmc \<Rightarrow> 'm bench" where
  "bench_init roles s =
     \<lparr>b_threads = map (\<lambda>r. \<lparr>th_role = r, th_phase = Starting\<rparr>) roles, b_locks = no_locks, b_store = s, b_out = []\<rparr>"

text \<open>The threads, in the order of a schedule that says whose turn it is.\<close>

fun bench_run :: "'m mc_lib \<Rightarrow> bench_args \<Rightarrow> (nat \<times> lap) list \<Rightarrow> 'm bench \<Rightarrow> 'm bench option" where
  "bench_run lib a [] b = Some b"
| "bench_run lib a ((k, t) # sched) b =
     (if k < length (b_threads b) then do { b \<leftarrow> thread_turn lib a t k b; bench_run lib a sched b }
      else bench_run lib a sched b)"

text \<open>\<open>main\<close> returns when every thread has been joined, always with \<open>EXIT_FAILURE\<close>.\<close>

definition mcb_exit :: "'m bench \<Rightarrow> int option" where
  "mcb_exit b = (if \<forall>th \<in> set (b_threads b). th_phase th = Ended then Some 1 else None)"

end
