(* ===== verification/Benchmark_Properties.thy ===== *)
theory Benchmark_Properties
  imports Benchmark
begin

text \<open>
  What the benchmark does to a store: its turns never fail, and leave only its own value behind. A call is
  one turn, as the locks of theory \<open>Concurrency_Properties\<close> allow; with file locks that takes a single
  thread on the token.
\<close>

definition bench_key :: "byte list \<Rightarrow> bool" where
  "bench_key k \<longleftrightarrow> (\<exists>i < MAX_KEY. k = dec i)"

text \<open>Every entry is as before, or gone, or the benchmark has stored its value.\<close>

definition benched :: "(byte list \<Rightarrow> (byte list \<times> u32) option) \<Rightarrow> (byte list \<Rightarrow> (byte list \<times> u32) option) \<Rightarrow> bool" where
  "benched d d' \<longleftrightarrow> (\<forall>k. d' k = d k \<or> d' k = None \<or> (bench_key k \<and> d' k = Some (shmc_val, 0)))"

lemma benched_refl: "benched d d"
  by (simp add: benched_def)

lemma benched_trans: "benched d d' \<Longrightarrow> benched d' d'' \<Longrightarrow> benched d d''"
  unfolding benched_def by metis

text \<open>A store of a token with the attributes \<open>a\<close>, at whatever address, whose dictionary is \<open>d\<close>.\<close>

definition holds_dict :: "attr \<Rightarrow> nat list \<Rightarrow> shmc \<Rightarrow> (byte list \<Rightarrow> (byte list \<times> u32) option) \<Rightarrow> bool" where
  "holds_dict a zs s d \<longleftrightarrow> (\<exists>A q. implements s A \<and> conf_of s = conf_for q a zs \<and> shmc_lookup s = d)"

lemma holds_base:
  assumes "holds_dict a zs s d" and "count_of_slabs a = Some (length zs)"
  shows "holds_dict a zs (s\<lparr>base := p\<rparr>) d"
proof -
  obtain A q where s: "implements s A" "conf_of s = conf_for q a zs" "shmc_lookup s = d" using assms(1) by (auto simp: holds_dict_def)
  have c: "conf_of (s\<lparr>base := p\<rparr>) = conf_for p a zs" using conf_forD(6) [OF s(2) assms(2)] .
  then show ?thesis
    using s(1,3) lookup_tdict [OF s(1,2)] lookup_tdict [of "s\<lparr>base := p\<rparr>" A, OF _ c]
    by (auto simp: holds_dict_def implements_base)
qed

lemma key_buf_facts: "length (dec i) \<le> length (buf_bytes (key_buf p i))" "buf_key (key_buf p i) (length (dec i)) = dec i"
  by (simp_all add: key_buf_def buf_key_def)

section \<open>One turn\<close>

lemma read_round_total:
  assumes "holds_dict a zs s d"
  shows "\<exists>msg s'. read_round x p errno t i (no_locks, s) = Some (msg, no_locks, s') \<and> holds_dict a zs s' d"
proof -
  obtain A q where s: "implements s A" "conf_of s = conf_for q a zs" "shmc_lookup s = d" using assms(1) by (auto simp: holds_dict_def)
  obtain rc out A' where g: "a_get (conf_of s) A (dec i) (lap_malloc t) = (rc, out, A')"
    by (cases "a_get (conf_of s) A (dec i) (lap_malloc t)") auto
  obtain s' where s': "shmc_get x (key_buf p i) (length (dec i)) (lap_malloc t) (no_locks, s) = Some ((rc, out), no_locks, s')"
      "implements s' A'" "conf_of s' = conf_of s"
    using get_alone [OF s(1) key_buf_facts(1) [of i p], unfolded key_buf_facts(2), OF g, of x] by blast
  have "shmc_lookup s' = d"
    using a_get_dict(1) [OF implements_wf [OF s(1)] g] s(3) by (simp add: lookup_dict [OF s(1)] lookup_dict [OF s'(2)] s'(3))
  then show ?thesis using s' s(2) by (auto simp: read_round_def holds_dict_def)
qed

text \<open>A size class for the keys and the value of the benchmark.\<close>

definition roomy :: "attr \<Rightarrow> nat list \<Rightarrow> bool" where
  "roomy a zs \<longleftrightarrow> count_of_slabs a = Some (length zs) \<and> (\<exists>z \<in> set zs. sizeof_item + 6 + 47 \<le> z)"

lemma roomy_class:
  assumes "roomy a zs" and "i < MAX_KEY"
  shows "class_for (conf_for q a zs) (size_for (length (dec i)) (length shmc_val)) \<noteq> None" "length (dec i) \<le> 6"
proof -
  show l: "length (dec i) \<le> 6" using dec_length [of i 5] assms(2) by (simp add: MAX_KEY_def)
  let ?t = "size_for (length (dec i)) (length shmc_val)"
  obtain z where z: "z \<in> set zs" "?t \<le> z" using assms(1) l by (auto simp: roomy_def size_for_def shmc_val_def)
  have "length (takeWhile (\<lambda>z. z < ?t) zs) \<noteq> length zs"
  proof
    assume "length (takeWhile (\<lambda>z. z < ?t) zs) = length zs"
    then have "takeWhile (\<lambda>z. z < ?t) zs = zs" by (metis takeWhile_eq_take take_all_iff order_refl)
    then show False using z by (auto simp: takeWhile_eq_all_conv)
  qed
  then have "length (takeWhile (\<lambda>z. z < ?t) zs) < length zs" using length_takeWhile_le le_neq_implies_less by blast
  then show "class_for (conf_for q a zs) ?t \<noteq> None" by (simp add: class_for_def conf_for_sel)
qed

lemma write_round_total:
  assumes "holds_dict a zs s d" and "roomy a zs" and i: "i < MAX_KEY"
  shows "\<exists>msg s' d'. write_round x p errno t i (no_locks, s) = Some (msg, no_locks, s') \<and> holds_dict a zs s' d' \<and> benched d d'"
proof -
  obtain A q where s: "implements s A" "conf_of s = conf_for q a zs" "shmc_lookup s = d" using assms(1) by (auto simp: holds_dict_def)
  note c = roomy_class [OF assms(2) i]
  obtain rc A' where a: "a_set (conf_of s) A (dec i) shmc_val 0 = Some (rc, A')"
    using a_set_defined [of "conf_of s" "dec i" shmc_val A 0] c(1) by (auto simp: s(2))
  have "sizeof_item + length (dec i) + length shmc_val < 2 ^ 64" using c(2) by (simp add: shmc_val_def)
  from set_alone [OF s(1) key_buf_facts(1) [of i p] order_refl this, unfolded key_buf_facts(2), of 0 rc A' x] a
  obtain s' where s': "shmc_set x (key_buf p i) (length (dec i)) shmc_val (length shmc_val) 0 (no_locks, s) = Some (rc, no_locks, s')"
      "implements s' A'" "conf_of s' = conf_of s" by auto
  have d: "shmc_lookup s' = dict (conf_of s) A'" "d = dict (conf_of s) A"
    using s(3) by (simp_all add: lookup_dict [OF s(1)] lookup_dict [OF s'(2)] s'(3))
  have "bench_key (dec i)" using i by (auto simp: bench_key_def)
  then have "benched d (shmc_lookup s')"
    using set_facts [OF implements_wf [OF s(1)] a] d by (auto simp: benched_def forget_def split: option.splits if_splits)
  then show ?thesis using s' s(2) by (auto simp: write_round_def holds_dict_def)
qed

section \<open>The whole benchmark\<close>

text \<open>Threads count within the keys, and no lock is held between turns.\<close>

fun in_range :: "'m phase \<Rightarrow> bool" where
  "in_range (Attached p i) = (i < MAX_KEY)"
| "in_range ph = True"

text \<open>The roles of threads that work on the token; only they attach, and with file locks there is at most one.\<close>

definition token_role :: "role \<Rightarrow> bool" where
  "token_role r \<longleftrightarrow> r = shmcReader \<or> r = shmcWriter"

definition kept_apart :: "bool \<Rightarrow> role list \<Rightarrow> bool" where
  "kept_apart flock roles \<longleftrightarrow> (flock \<longrightarrow> length (filter token_role roles) \<le> 1)"

definition sound_thread :: "'m thread \<Rightarrow> bool" where
  "sound_thread th \<longleftrightarrow> in_range (th_phase th) \<and> (attached (th_phase th) \<longrightarrow> token_role (th_role th))"

lemma sound_thread_simps [simp]:
  "sound_thread (th\<lparr>th_phase := ph\<rparr>) \<longleftrightarrow> in_range ph \<and> (attached ph \<longrightarrow> token_role (th_role th))"
  by (simp add: sound_thread_def)

definition bench_ok :: "attr \<Rightarrow> nat list \<Rightarrow> (byte list \<Rightarrow> (byte list \<times> u32) option) \<Rightarrow> 'm bench \<Rightarrow> bool" where
  "bench_ok a zs d b \<longleftrightarrow> b_locks b = no_locks \<and> (\<exists>d'. holds_dict a zs (b_store b) d' \<and> benched d d')
     \<and> (\<forall>th \<in> set (b_threads b). sound_thread th) \<and> kept_apart (use_flock a) (map th_role (b_threads b))"

lemma attached_few: "\<forall>th \<in> set ths. sound_thread th \<Longrightarrow>
    length (filter (\<lambda>th. attached (th_phase th)) ths) \<le> length (filter token_role (map th_role ths))"
  by (induction ths) (auto simp: sound_thread_def)

lemma not_racing:
  assumes "holds_dict a zs s d" and "count_of_slabs a = Some (length zs)" and "\<forall>th \<in> set ths. sound_thread th"
    and "kept_apart (use_flock a) (map th_role ths)"
  shows "\<not> racing \<lparr>b_threads = ths, b_locks = l, b_store = s, b_out = out\<rparr>"
proof -
  obtain q where "conf_of s = conf_for q a zs" using assms(1) by (auto simp: holds_dict_def)
  then have "use_flock (cf_attr (conf_of s)) = use_flock (cf_attr (conf_for q a zs))" by (rule arg_cong)
  then have "use_flock (attrs s) = use_flock a" by (simp add: conf_of_def conf_for_def)
  then show ?thesis using attached_few [OF assms(3)] assms(4) by (auto simp: racing_def kept_apart_def)
qed

lemma kept_apart_upd: "k < length ths \<Longrightarrow> map th_role (ths[k := (ths ! k)\<lparr>th_phase := ph\<rparr>]) = map th_role ths"
  by (rule nth_equalityI) (auto simp: nth_list_update)

lemma attach_total:
  assumes "holds_dict a zs s d" and "count_of_slabs a = Some (length zs)"
  shows "\<exists>ph msg. attach ba t s = Some (ph, msg) \<and> in_range ph"
proof -
  obtain A q where s: "implements s A" "conf_of s = conf_for q a zs" using assms(1) by (auto simp: holds_dict_def)
  note C = conf_forD [OF s(2) assms(2)]
  have "\<exists>rc h fs. shmc_init (lap_sys t) [a_token ba \<mapsto> Image SHMC_VERSION s] (a_token ba) None = Some (rc, h, fs)
      \<and> (rc = SHMC_OK \<longrightarrow> h \<noteq> None)"
    using C(1) by (cases "second_map (lap_sys t)") (simp_all add: shmc_init_def mmap_attach_def)
  then obtain rc h fs where i: "shmc_init (lap_sys t) [a_token ba \<mapsto> Image SHMC_VERSION s] (a_token ba) None = Some (rc, h, fs)"
      "rc = SHMC_OK \<longrightarrow> h \<noteq> None" by blast
  show ?thesis
  proof (cases "rc = SHMC_OK")
    case True
    then obtain s' where "h = Some s'" using i(2) by auto
    then show ?thesis using i(1) True by (intro exI [of _ "Attached (base s') 0"] exI [of _ "[]"]) (simp add: attach_def MAX_KEY_def)
  next
    case False
    then show ?thesis using i(1) by (intro exI [of _ Ended]) (simp add: attach_def)
  qed
qed

lemma bench_ok_upd:
  assumes "\<forall>th \<in> set ths. sound_thread th" and "kept_apart (use_flock a) (map th_role ths)" and "k < length ths"
    and "in_range ph" and "attached ph \<longrightarrow> token_role (th_role (ths ! k))" and "holds_dict a zs s d'" and "benched d d'"
  shows "bench_ok a zs d \<lparr>b_threads = ths[k := (ths ! k)\<lparr>th_phase := ph\<rparr>], b_locks = no_locks, b_store = s, b_out = out\<rparr>"
  using assms set_update_subset_insert [of ths k "(ths ! k)\<lparr>th_phase := ph\<rparr>"] kept_apart_upd [OF assms(3), of ph]
  by (auto simp: bench_ok_def simp del: map_update)

lemma thread_turn_total:
  fixes b :: "'m bench"
  assumes "bench_ok a zs d b" and r: "roomy a zs" and "k < length (b_threads b)"
  shows "\<exists>b'. thread_turn lib ba t k b = Some b' \<and> bench_ok a zs d b'"
proof -
  obtain ths s out where b: "b = \<lparr>b_threads = ths, b_locks = no_locks, b_store = s, b_out = out\<rparr>"
    using assms(1) by (cases b) (auto simp: bench_ok_def)
  obtain d' where d': "holds_dict a zs s d'" "benched d d'" "\<forall>th \<in> set ths. sound_thread th"
      "kept_apart (use_flock a) (map th_role ths)"
    using assms(1) by (auto simp: bench_ok_def b)
  have c: "count_of_slabs a = Some (length zs)" using r by (simp add: roomy_def)
  have n: "next_key i < MAX_KEY" for i by (simp add: next_key_def MAX_KEY_def)
  have k: "k < length ths" using assms(3) by (simp add: b)
  note upd = bench_ok_upd [OF d'(3,4) k]
  have th: "sound_thread (ths ! k)" using d'(3) k by simp
  show ?thesis
  proof (cases "th_phase (ths ! k)")
    case (Attached p i)
    have i: "i < MAX_KEY" and role: "token_role (th_role (ths ! k))" using th by (simp_all add: sound_thread_def Attached)
    note alone = not_racing [OF d'(1) c d'(3,4), of no_locks out]
    note h = holds_base [OF d'(1) c, of p]
    let ?round = "if th_role (ths ! k) = shmcReader then read_round else write_round"
    have "\<exists>msg s' d''. ?round (0, k) (a_keys ba k) (a_errno ba) t i (no_locks, s\<lparr>base := p\<rparr>) = Some (msg, no_locks, s')
        \<and> holds_dict a zs s' d'' \<and> benched d' d''"
    proof (cases "th_role (ths ! k) = shmcReader")
      case True
      then show ?thesis using read_round_total [OF h, of "(0, k)" "a_keys ba k" "a_errno ba" t i] benched_refl by auto
    next
      case False
      then show ?thesis using write_round_total [OF h r i, of "(0, k)" "a_keys ba k" "a_errno ba" t] by simp
    qed
    then obtain msg s' d'' where m: "?round (0, k) (a_keys ba k) (a_errno ba) t i (no_locks, s\<lparr>base := p\<rparr>) = Some (msg, no_locks, s')"
        "holds_dict a zs s' d''" "benched d' d''" by blast
    show ?thesis
      using upd [OF _ _ d'(1,2), of Ended] upd [OF _ _ m(2) benched_trans [OF d'(2) m(3)], of "Attached p (next_key i)"] m(1) n role
        Attached alone
      by (simp add: thread_turn_def b Let_def)
  next
    case (Connected m i)
    show ?thesis
      using Connected upd [OF _ _ d'(1,2), of Ended] upd [OF _ _ d'(1,2), of "Connected _ (next_key i)"]
      by (simp add: thread_turn_def b Let_def split: prod.split)
  next
    case Starting
    obtain ph :: "'m phase" and msg where "attach ba t s = Some (ph, msg)" "in_range ph" using attach_total [OF d'(1) c, of ba t] by auto
    moreover have "token_role (th_role (ths ! k))" if "th_role (ths ! k) \<noteq> mcReader \<and> th_role (ths ! k) \<noteq> mcWriter"
      using that role.exhaust by (auto simp: token_role_def)
    ultimately show ?thesis
      using Starting upd [OF _ _ d'(1,2), of ph] upd [OF _ _ d'(1,2), of "Connected (mc_open lib (a_host ba) (a_port ba)) 0"]
      by (simp add: thread_turn_def b Let_def)
  next
    case Ended
    then show ?thesis using assms(1) by (simp add: thread_turn_def b Let_def)
  qed
qed

text \<open>
  C38: the benchmark can be run on a live token: with any threads, any order of their turns and whatever
  the system calls, the clocks and the client library answer, no turn is undefined, the store stays
  intact, and afterwards every key has its entry as before, or has lost it, or is one of the
  benchmark's keys and holds the benchmark's value. With file locks, which do not keep the threads of a
  process apart, this is so for at most one thread that works on the token itself.
\<close>

theorem benchmark_stores_its_value:
  assumes "implements s A" and "conf_of s = conf_for q a zs" and "count_of_slabs a = Some (length zs)"
    and "z \<in> set zs" and "sizeof_item + 6 + 47 \<le> z"
    and "use_flock a \<longrightarrow> length (filter (\<lambda>r. r = shmcReader \<or> r = shmcWriter) roles) \<le> 1"
  shows "\<exists>b A'. bench_run lib ba sched (bench_init roles s) = Some b \<and> b_locks b = no_locks \<and> implements (b_store b) A'
    \<and> (\<forall>k. shmc_lookup (b_store b) k = shmc_lookup s k \<or> shmc_lookup (b_store b) k = None
        \<or> (\<exists>i < MAX_KEY. k = dec i) \<and> shmc_lookup (b_store b) k = Some (shmc_val, 0))"
proof -
  have r: "roomy a zs" using assms(3-5) by (auto simp: roomy_def)
  have run: "\<exists>b'. bench_run lib ba sched b1 = Some b' \<and> bench_ok a zs d b'" if "bench_ok a zs d b1" for d b1
    using that
  proof (induction lib ba sched b1 rule: bench_run.induct)
    case (2 lib ba k t sched b)
    then show ?case using thread_turn_total [OF 2(3) r, of k lib ba t] by fastforce
  qed simp
  have holds: "holds_dict a zs s (shmc_lookup s)" using assms(1,2) by (auto simp: holds_dict_def)
  have "bench_ok a zs (shmc_lookup s) (bench_init roles s)"
    using assms(6) holds benched_refl [of "shmc_lookup s"]
    by (auto simp: bench_ok_def bench_init_def sound_thread_def kept_apart_def token_role_def [abs_def] comp_def)
  from run [OF this] show ?thesis by (auto simp: bench_ok_def holds_dict_def benched_def bench_key_def)
qed

definition demo_lib :: "nat mc_lib" where
  "demo_lib = \<lparr>mc_open = (\<lambda>h p. 0), mc_get = (\<lambda>m k. (None, 16, m)), mc_set = (\<lambda>m k v. (0, Suc m)), mc_strerror = (\<lambda>rc. []),
     MEMCACHED_NOTFOUND = 16, MEMCACHED_SUCCESS = 0\<rparr>"

definition demo_args :: bench_args where
  "demo_args = \<lparr>a_host = ''h'', a_port = 1, a_token = ''/t'', a_errno = [], a_keys = (\<lambda>k. 64 * k)\<rparr>"

definition demo_lap :: "nat \<Rightarrow> lap" where
  "demo_lap q = \<lparr>lap_stop = False, lap_begin = (0, 0), lap_end = (2, 5), lap_sys = p_sys (demo_process q), lap_malloc = True\<rparr>"

text \<open>A writer and a reader, mapped at different addresses, and a reader through the client library.\<close>

theorem benchmark_stores_its_value_witness:
  "\<exists>b. bench_run demo_lib demo_args [(0, demo_lap 512), (1, demo_lap 8192), (0, demo_lap 512), (2, demo_lap 0), (1, demo_lap 8192)]
      (bench_init [shmcWriter, shmcReader, mcReader] (tiny_with [7])) = Some b \<and> b_locks b = no_locks"
  using benchmark_stores_its_value [OF tiny_with_ok, of "[7]" 144 "[shmcWriter, shmcReader, mcReader]" demo_lib demo_args] tiny_sizes(1)
  by (fastforce simp: tiny_def)

end
