(* ===== verification/Spec2Isabelle.thy ===== *)
theory Spec2Isabelle
  imports Concurrency_Properties Netshell_Properties Process_Lock Connection_Counting Server_Properties
    Unit_Properties Load_Properties Benchmark_Properties
begin

text \<open>
  A verification library for \<open>shmc\<close>, a key-value store in a shared memory segment, and for \<open>netshell\<close>,
  the server that offers it over a subset of the memcached protocol.

  \<^bold>\<open>The program.\<close> \<open>src/shmc.c\<close> keeps a store in a file that is mapped into every process that uses it.
  The segment is a version word, the attributes, a lock, the heads and tails of one LRU list per size
  class, the buckets of a hash table, the slab classes with their free lists, and a pool. All links
  are offsets from the start of the mapping, so processes may have it at different addresses.
  \<open>src/shmc.h\<close> wraps every operation in a lock, lookups in the read lock; since a lookup moves the item it
  finds to the head of its list, it does that under a mutex of the segment. \<open>src/hash.c\<close> is the hash of the table. \<open>src/netshell\<close> is a
  process with one thread: \<open>eventmgr.hpp\<close> waits with \<open>epoll\<close>, \<open>mcshell.cc\<close> runs a state machine per
  connection, which splits a request with \<open>token.c\<close> and calls the wrappers of \<open>shmc.h\<close> on the one store,
  \<open>netshell.cc\<close> holds options, start and shutdown. \<open>src/tplock.cc\<close> is a program that tries out locks between
  processes. Clients of the library are a command line program (\<open>t/shmcface.c\<close>), a unit test (\<open>t/unit.c\<close>,
  \<open>t/reader.c\<close>), a load test (\<open>t/load.c\<close>) and a benchmark (\<open>netshell/mcb.cc\<close>).

  \<^bold>\<open>How the code is represented.\<close> A segment is the record \<open>shmc\<close> (\<open>Shmc_Types\<close>): attributes, arrays, and a heap
  from addresses to items. Each C function is a definition of the same name. The result is an \<open>option\<close>:
  \<open>None\<close> stands for undefined behaviour (an access outside of an object, a failed assertion, an overflow
  of a signed integer) and for a loop that does not end; error codes are values of \<open>shmc_rc\<close>. Sizes are
  natural numbers added modulo \<open>2 ^ 64\<close>, flags, counters and hash states are machine words, single
  precision is a rounded dyadic fraction. What the operating system answers comes from records and
  scripts: \<open>sys\<close> for creating and mapping the token, \<open>net\<close> for one connection (\<open>recv\<close>, \<open>writev\<close>, \<open>accept\<close>,
  \<open>epoll_ctl\<close>, \<open>malloc\<close>, \<open>fopen\<close>), \<open>poll\<close> and \<open>turn\<close> for the waits and signals of the event loop, \<open>kernel\<close> for
  the start of the server, \<open>process\<close> and \<open>lap\<close> for a client program and a turn of the benchmark.
  Nothing is assumed of them; theorems that need a call to succeed say so.

  \<^bold>\<open>The theories, in the order of the code.\<close>
  \<^item> \<open>Prelude\<close>: reading and writing lists at an index, the collections of rewrite rules.
  \<^item> \<open>Jenkins_Hash\<close>, \<open>Hash_Reader\<close>, \<open>Hash_Variants\<close> (\<open>hash.c\<close>): the three loops of the little-endian build, the
    two of the big-endian one, each with both settings of \<open>VALGRIND\<close>; the locale \<open>block_reader\<close> states
    what a loop body and its switch have to read, every loop interprets it, and all equal \<open>hash_ref\<close>.
  \<^item> \<open>Shmc_Types\<close>, \<open>Slabs\<close>, \<open>Chains\<close>, \<open>Lru\<close>, \<open>Assoc\<close>, \<open>Alloc\<close>, \<open>Store\<close>, \<open>Counters\<close>, \<open>Segment\<close>, \<open>Dump_Load\<close> (\<open>shmc.c\<close>): the data,
    size classes, doubly linked lists (locale \<open>recency_list\<close>), chains of the table, the allocator with
    eviction, the operations, decimal counters, the token file, dump and load.
  \<^item> \<open>Layout\<close>, \<open>Steps\<close>: the invariant of the pointer structure. Ghost lists name the items on every LRU list,
    bucket chain and free list; \<open>inv_held\<close> says that these are what the links say, that items are apart,
    lie in their class and in the pool, and that table and lists hold the same items.
  \<^item> \<open>Store_Spec\<close>: the abstract store, per class the entries in order of use and the stale flags of free
    chunks, with one specification per operation. \<open>Alloc_Spec\<close>, \<open>Refine_Base\<close>, \<open>Store_Refinement\<close>,
    \<open>Grow_Refinement\<close> (locale \<open>value_join\<close> for prepend and append), \<open>Counter_Spec\<close> (numbers as sums of digits,
    arithmetic on natural numbers), \<open>Counter_Refinement\<close>, \<open>Format\<close>: the code refines it, \<open>refines (op s ...) conf (a_op A ...)\<close>, undefined exactly where the specification is.
  \<^item> \<open>Dictionary\<close>: what the abstract operations mean for lookups by key. \<open>Lifecycle\<close>: creating and attaching.
    \<open>Reachable\<close>: all stores that come about from creation by legal requests and remapping.
  \<^item> \<open>Locks\<close>, \<open>Wrappers\<close>, \<open>Concurrency\<close> (\<open>shmc.h\<close>): both kinds of lock (locale \<open>rw_lock\<close>) and the mutex, and agents
    that run the wrappers as interleaved steps. A call under the write lock is one step; a lookup is
    split at every item of the chain, before and after \<open>max_depth\<close> is raised, around the mutex and
    between \<open>item_unlink\<close> and \<open>item_link\<close>. \<open>sequential\<close> (\<open>Concurrency\<close>) are the stores sequential calls bring
    about, with any value of the statistic \<open>max_depth\<close>, on which concurrent lookups race.
  \<^item> \<open>Calls\<close> (\<open>shmc.h\<close>): the wrappers as calls of one caller; \<open>locked_call\<close> is a call that finds the locks free,
    as those of the server do.
  \<^item> \<open>Tokenizer\<close> (\<open>token.c\<close>), \<open>Connection\<close> (\<open>mcshell.cc\<close>): the splitter and the state machine. \<open>driverMachine\<close> is a
    partial function, since a connection may go round as long as the peer sends. \<open>Connection_Base\<close> (a
    request line in pieces), \<open>Connection_Replies\<close> (sending a response), \<open>Connection_Storing\<close> (commands with
    a body), \<open>Connection_Counting\<close> (counters and deletion), \<open>Connection_Typing\<close> (the sizes every handler keeps).
  \<^item> \<open>Event_Loop\<close> (\<open>eventmgr.hpp\<close>), \<open>Netshell_Main\<close> (\<open>netshell.cc\<close>): the loop over all connections, and the program.
  \<^item> \<open>Store_Safety\<close>, \<open>Server_Safety\<close>: an intact store stays intact under every operation that has a result, for
    all arguments, and so under everything the handlers of a connection do.
  \<^item> \<open>Callers\<close>: what these calls do, from the specifications. On it rest the programs: \<open>Shmcface\<close>
    (\<open>t/shmcface.c\<close>), one run per process over files and lock; \<open>Unit_Test\<close> (\<open>t/unit.c\<close>, \<open>t/reader.c\<close>), a list of
    checks over the variables of \<open>main\<close>; \<open>Load_Test\<close> (\<open>t/load.c\<close>), writer and reader loops; \<open>Benchmark\<close>
    (\<open>netshell/mcb.cc\<close>), threads that take turns. \<open>Unit_Properties\<close>, \<open>Load_Properties\<close> and
    \<open>Benchmark_Properties\<close> say what they do.
  \<^item> \<open>Process_Lock\<close> (\<open>tplock.cc\<close>): two processes, each increment a load and a store; both locks interpret the
    locale \<open>process_lock\<close>.
  \<^item> The theories whose names end in \<open>Properties\<close>, with \<open>Limits\<close>, \<open>Reachable\<close>, \<open>Slabs\<close>, \<open>Hash_Variants\<close>, \<open>Tokenizer\<close>,
    \<open>Shmcface\<close>, \<open>Connection_Counting\<close> and \<open>Process_Lock\<close>, state the numbered properties.

  \<^bold>\<open>What the theorems show.\<close>
  \<^item> Every operation is the specification on the abstract store, errors, eviction and class changes
    included; on a store that can come about every legal request returns, and memory stays intact.
  \<^item> Set, append, prepend, del, get and the counters do to the dictionary of keys what their names say;
    LRU protects what was just read; a dump without zero bytes and within the reader's buffer gives the
    entries back when its load succeeds.
  \<^item> A token is created with the classes of its attributes and survives its process.
  \<^item> The wrappers exclude each other as their locks say, do not deadlock, and serialise, lookups included;
    a lookup answers what a sequential one would. This holds for all threads with \<open>pthread\<close> locks, and for
    one thread per process with file locks.
  \<^item> On the wire: a request in any pieces is answered by what the store returns; pauses are invisible; what
    one client stores another reads; connections stay well typed; the server runs until a signal, then
    saves the store; in every run that has a result, whatever the clients send, the store stays intact.
    Not every run has one: with the default attributes a set between 512 KiB and 1 MiB is undefined.
  \<^item> The command line program keeps a dictionary across processes; the benchmark, with file locks on one
    thread, leaves every key as it was, lost, or with its own value; the unit test stops at a check that expects the wrong flags; the
    load test ends in undefined behaviour unless a signal comes first.
  \<^item> Where the code does not do what it means to, a theorem says what it does instead.

  \<^bold>\<open>Bounds and fuel.\<close> No theorem has a bound on the number of requests, connections or steps. Recursion is
  structural or has a measure; chains and lists that the code walks by pointers, the loops over the
  dump file and \<open>driverMachine\<close> are partial functions with values in \<open>option\<close>, and the theorems about them
  prove that they return. Scripts of the event loop are finite lists; a script that has run out leaves
  the server in \<open>epoll_wait\<close> (\<open>Running\<close>). The witnesses use a small segment of two classes, two chunks and one,
  so that every branch, eviction included, is reached with a few keys.

  \<^bold>\<open>Not modelled.\<close>
  \<^item> \<open>netshell/ut_test.cc\<close>: a fixed list of calls of a third-party memcached library against a running
    server. The library itself, which the benchmark uses too, is an argument (\<open>mc_lib\<close>).
  \<^item> In the test programs: failing \<open>fork\<close> and \<open>malloc\<close>; children of the unit test run where they are forked,
    though the source lets them run until \<open>wait\<close>. In the benchmark: a call of the store is one turn,
    which the locks allow; with file locks the threads of one process race, and a turn of one of several
    attached threads then has no result; clocks that are \<open>2 ^ 63\<close> microseconds apart.
  \<^item> In \<open>shmc.c\<close>: errors of \<open>fprintf\<close> during a dump; locks and mutexes that fail, are interrupted by a signal, or
    are left behind by a process that dies; file locks lost when another descriptor of the token is
    closed. The \<open>_nolock\<close> functions leave the mutex out, since alone they find it free; \<open>Wrappers\<close> has it. Reads
    and writes of \<open>max_depth\<close> are atomic there.
  \<^item> In \<open>netshell\<close>: other processes that use the token while the server runs; destructors, which only free and close; the text of \<open>usage\<close> and the \<open>daemon\<close> call; a
    negative number of buckets, a pid file that is the token itself, and factors that are infinite, nan
    or hexadecimal.
  \<^item> In \<open>tplock.cc\<close>: failing \<open>mmap\<close>, \<open>open\<close> and \<open>fork\<close>; the programs between \<open>#if 0\<close> and \<open>#endif\<close>.
\<close>

end
